(* ===== verification/Prelude.thy ===== *)
theory Prelude
  imports Main "HOL-Library.Word" "HOL-Library.Signed_Division"
begin

text \<open>
  Shared vocabulary of the development: names for the machine integers of the C++ code, the
  unsigned 64-bit wrap-around written out on \<^typ>\<open>nat\<close>, the truncating signed division of
  C++, reachability of a step relation with the interface through which every component
  lifts its one-step invariant to reachable states, the interface of a bounded first-in
  first-out queue, and the interface of a Bresenham stepper.
\<close>

unbundle bit_operations_syntax

named_theorems ring_simps \<open>index arithmetic of the ring buffers\<close>
named_theorems step_defs \<open>definitions unfolded by one-step invariant proofs\<close>

section \<open>Machine integers\<close>

type_synonym u8 = "8 word"
type_synonym u16 = "16 word"
type_synonym u32 = "32 word"
type_synonym u64 = "64 word"

definition int64_max :: int where
  "int64_max = 2 ^ 63 - 1"

definition wrap64 :: "nat \<Rightarrow> nat" where
  "wrap64 n = n mod 2 ^ 64"

text \<open>\<open>static_cast<int64_t>\<close> of an unsigned 64-bit value.\<close>

definition to_int64 :: "nat \<Rightarrow> int" where
  "to_int64 n = (if n < 2 ^ 63 then int n else int n - 2 ^ 64)"

text \<open>Unsigned 64-bit subtraction of two representable values.\<close>

definition sub64 :: "nat \<Rightarrow> nat \<Rightarrow> nat" where
  "sub64 a b = (a + 2 ^ 64 - b) mod 2 ^ 64"

lemma wrap64_id [simp]: "n < 2 ^ 64 \<Longrightarrow> wrap64 n = n"
  by (simp add: wrap64_def)

lemma wrap64_less [simp]: "wrap64 n < 2 ^ 64"
  by (simp add: wrap64_def)

lemma sub64_le: "b \<le> a \<Longrightarrow> a < 2 ^ 64 \<Longrightarrow> sub64 a b = a - b"
  by (simp add: sub64_def le_mod_geq)

text \<open>C++ \<open>/\<close> and \<open>%\<close> truncate; on non-negative operands they are \<open>div\<close> and \<open>mod\<close>.\<close>

lemma sdiv_nonneg [simp]: "0 \<le> a \<Longrightarrow> 0 \<le> b \<Longrightarrow> a sdiv b = a div (b::int)"
  by (cases "a = 0"; cases "b = 0") (auto simp: signed_divide_int_def)

lemma smod_nonneg [simp]: "0 \<le> a \<Longrightarrow> 0 \<le> b \<Longrightarrow> a smod b = a mod (b::int)"
  by (cases "a = 0") (auto simp: signed_modulo_int_def sgn_if)

text \<open>\<open>std::clamp\<close>.\<close>

definition clamp :: "int \<Rightarrow> int \<Rightarrow> int \<Rightarrow> int" where
  "clamp x lo hi = (if x < lo then lo else if hi < x then hi else x)"

lemma clamp_bounds: "lo \<le> hi \<Longrightarrow> lo \<le> clamp x lo hi \<and> clamp x lo hi \<le> hi"
  by (simp add: clamp_def)

lemma nat_add_div_mult: "0 < (r::nat) \<Longrightarrow> (w * r + m) * f div r = w * f + m * f div r"
proof -
  assume r: "0 < r"
  have "(w * r + m) * f = m * f + (w * f) * r" by (simp add: algebra_simps)
  then show ?thesis using r by simp
qed

section \<open>Free-running 32-bit indices\<close>

text \<open>
  Ring positions are wrapped distances \<open>x - r\<close> from the read index; the physical slot is the
  index modulo a capacity that divides \<open>2 ^ 32\<close>, so the slot only depends on the distance.
\<close>

lemma unat_eq_iff: "unat x = unat y \<longleftrightarrow> x = (y :: u32)"
  by (simp add: word_eq_iff_unsigned [where ?'a = nat])

lemma word_slot_offset:
  fixes x r :: u32
  assumes "n dvd 2 ^ 32"
  shows "unat x mod n = (unat r + unat (x - r)) mod n"
proof -
  have "unat x = (unat r + unat (x - r)) mod 2 ^ 32"
    using unat_word_ariths(1) [of r "x - r"] by simp
  then show ?thesis using mod_mod_cancel [OF assms] by (simp only:)
qed

lemma add_mod_inj:
  fixes a j k m :: nat
  assumes "(a + j) mod m = (a + k) mod m" and "j < m" and "k < m"
  shows "j = k"
proof (rule ccontr)
  have *: False if "(a + j) mod m = (a + k) mod m" "j < k" "k < m" for j k
  proof -
    have "m dvd (a + k) - (a + j)"
      using that mod_eq_dvd_iff_nat [of "a + j" "a + k" m] by simp
    then show False using that by (auto dest: dvd_imp_le)
  qed
  assume "j \<noteq> k"
  then show False using assms * [of j k] * [of k j] by (cases "j < k") auto
qed

lemma dist_inc_base:
  fixes x r :: u32
  shows "unat (x - (r + 1)) = (if x = r then 2 ^ 32 - 1 else unat (x - r) - 1)"
proof (cases "x = r")
  case True
  then have "x - (r + 1) = - 1" by simp
  then show ?thesis using True by (simp add: unsigned_minus_1_eq_mask mask_eq_exp_minus_1)
next
  case False
  then have "unat (x - r - 1) = unat (x - r) - 1" by (intro unat_minus_one) simp
  then show ?thesis using False by (simp add: diff_diff_add)
qed

lemma dist_inc_top:
  fixes x r :: u32
  assumes "unat (x - r) < 2 ^ 32 - 1"
  shows "unat (x + 1 - r) = unat (x - r) + 1"
proof -
  have "x + 1 - r = (x - r) + 1" by simp
  moreover have "unat ((x - r) + 1) = unat (x - r) + 1"
    using assms unat_add_lem [of "x - r" "1::u32"] by simp
  ultimately show ?thesis by (simp only:)
qed

lemma unat_dist_eq_0: "unat (x - r) = 0 \<longleftrightarrow> x = (r :: u32)"
  by (simp add: unat_eq_0)

lemma dist_inj: "unat (x - r) = unat (y - r) \<longleftrightarrow> x = (y :: u32)"
  by (simp add: unat_eq_iff)

text \<open>The elements of a circular buffer from position \<open>r\<close> on.\<close>

definition ring_slice :: "'a list \<Rightarrow> nat \<Rightarrow> nat \<Rightarrow> 'a list" where
  "ring_slice buf r n = map (\<lambda>k. buf ! ((r + k) mod length buf)) [0..<n]"

lemma length_ring_slice [simp]: "length (ring_slice buf r n) = n"
  by (simp add: ring_slice_def)

lemma ring_slice_0 [simp]: "ring_slice buf r 0 = []"
  by (simp add: ring_slice_def)

lemma ring_slice_mod [simp]: "ring_slice buf (r mod length buf) n = ring_slice buf r n"
  by (simp add: ring_slice_def mod_add_left_eq)

lemma ring_slice_cong: "r mod length buf = r' mod length buf \<Longrightarrow> ring_slice buf r n = ring_slice buf r' n"
  by (metis ring_slice_mod)

lemma ring_slice_Suc: "ring_slice buf r (Suc n) = buf ! (r mod length buf) # ring_slice buf (Suc r) n"
  unfolding ring_slice_def by (subst upt_conv_Cons) (auto simp flip: map_Suc_upt simp del: upt_Suc)

lemma ring_slice_add: "ring_slice buf r (m + n) = ring_slice buf r m @ ring_slice buf (r + m) n"
  by (rule nth_equalityI) (auto simp: ring_slice_def nth_append add.assoc)

lemma ring_slice_push:
  assumes "n < length buf"
  shows "ring_slice (buf[(r + n) mod length buf := x]) r (Suc n) = ring_slice buf r n @ [x]"
proof (rule nth_equalityI)
  fix k assume "k < length (ring_slice (buf[(r + n) mod length buf := x]) r (Suc n))"
  then have k: "k < Suc n" by simp
  have pos: "(r + n) mod length buf < length buf" using assms by (intro mod_less_divisor) auto
  show "ring_slice (buf[(r + n) mod length buf := x]) r (Suc n) ! k = (ring_slice buf r n @ [x]) ! k"
  proof (cases "k = n")
    case True
    then show ?thesis using pos by (simp add: ring_slice_def nth_append del: upt_Suc)
  next
    case False
    then have "(r + n) mod length buf \<noteq> (r + k) mod length buf"
      using add_mod_inj [of r n "length buf" k] k assms by auto
    then show ?thesis using False k by (simp add: ring_slice_def nth_append del: upt_Suc)
  qed
qed simp

section \<open>Reachable states of a step relation\<close>

inductive reachable_from :: "('s \<Rightarrow> bool) \<Rightarrow> ('s \<Rightarrow> 's \<Rightarrow> bool) \<Rightarrow> 's \<Rightarrow> bool"
  for init step where
  start: "init s \<Longrightarrow> reachable_from init step s"
| more: "reachable_from init step s \<Longrightarrow> step s t \<Longrightarrow> reachable_from init step t"

text \<open>
  The interface every state machine below implements: an invariant that the initial states
  have and every step keeps. The client lemma is the safety argument itself.
\<close>

locale invariant_system =
  fixes init :: "'s \<Rightarrow> bool"
    and step :: "'s \<Rightarrow> 's \<Rightarrow> bool"
    and inv :: "'s \<Rightarrow> bool"
  assumes init_inv: "init s \<Longrightarrow> inv s"
    and step_inv: "step s t \<Longrightarrow> inv s \<Longrightarrow> inv t"
begin

lemma reachable_inv: "reachable_from init step s \<Longrightarrow> inv s"
  by (induction rule: reachable_from.induct) (auto intro: init_inv step_inv)

end

section \<open>Bounded first-in first-out queues\<close>

text \<open>
  What a producer and a consumer rely on: \<open>push\<close> reports whether it took the element and
  takes it exactly when fewer than \<open>cap\<close> are held; \<open>pop\<close> returns the oldest. \<open>run_queue\<close>
  replays a schedule of pushes and pops and returns what was accepted and what came out.
\<close>

datatype 'a queue_op = Push 'a | Pop

fun run_queue :: "('q \<Rightarrow> 'a \<Rightarrow> 'q \<times> bool) \<Rightarrow> ('q \<Rightarrow> ('q \<times> 'a) option) \<Rightarrow> 'q \<Rightarrow> 'a queue_op list
    \<Rightarrow> 'q \<times> 'a list \<times> 'a list" where
  "run_queue push pop q [] = (q, [], [])"
| "run_queue push pop q (Push x # ops) =
     (case push q x of (q', ok) \<Rightarrow>
        (case run_queue push pop q' ops of (r, acc, out) \<Rightarrow> (r, (if ok then x # acc else acc), out)))"
| "run_queue push pop q (Pop # ops) =
     (case pop q of
        None \<Rightarrow> run_queue push pop q ops
      | Some (q', x) \<Rightarrow>
          (case run_queue push pop q' ops of (r, acc, out) \<Rightarrow> (r, acc, x # out)))"

locale bounded_fifo =
  fixes push :: "'q \<Rightarrow> 'a \<Rightarrow> 'q \<times> bool"
    and pop :: "'q \<Rightarrow> ('q \<times> 'a) option"
    and contents :: "'q \<Rightarrow> 'a list"
    and cap :: "'q \<Rightarrow> nat"
    and inv :: "'q \<Rightarrow> bool"
  assumes push_full: "inv q \<Longrightarrow> cap q \<le> length (contents q) \<Longrightarrow>
            contents (fst (push q x)) = contents q \<and> \<not> snd (push q x)"
    and push_room: "inv q \<Longrightarrow> length (contents q) < cap q \<Longrightarrow>
            contents (fst (push q x)) = contents q @ [x] \<and> snd (push q x)"
    and push_inv: "inv q \<Longrightarrow> inv (fst (push q x)) \<and> cap (fst (push q x)) = cap q"
    and pop_empty: "inv q \<Longrightarrow> contents q = [] \<Longrightarrow> pop q = None"
    and pop_cons: "inv q \<Longrightarrow> contents q = x # xs \<Longrightarrow>
            \<exists>q'. pop q = Some (q', x) \<and> contents q' = xs \<and> inv q' \<and> cap q' = cap q"
    and inv_bound: "inv q \<Longrightarrow> length (contents q) \<le> cap q"
begin

lemma push_cases:
  assumes "inv q" and "push q x = (q', ok)"
  shows "inv q' \<and> contents q' = contents q @ (if ok then [x] else [])"
  using assms push_full [of q x] push_room [of q x] push_inv [of q x]
  by (cases "cap q \<le> length (contents q)") auto

text \<open>Nothing accepted is lost, duplicated or reordered, whatever the schedule.\<close>

lemma run_queue_fifo:
  "inv q \<Longrightarrow> run_queue push pop q ops = (r, acc, out) \<Longrightarrow>
     inv r \<and> contents q @ acc = out @ contents r"
proof (induction ops arbitrary: q r acc out)
  case Nil
  then show ?case by simp
next
  case (Cons a ops)
  show ?case
  proof (cases a)
    case (Push x)
    obtain q' ok where p: "push q x = (q', ok)" by (cases "push q x")
    obtain acc' where run: "run_queue push pop q' ops = (r, acc', out)"
      and acc: "acc = (if ok then x # acc' else acc')"
      using Cons.prems(2) Push p by (auto split: prod.splits)
    from push_cases [OF Cons.prems(1) p]
    have "inv q'" and c: "contents q' = contents q @ (if ok then [x] else [])" by auto
    with Cons.IH [OF _ run] acc show ?thesis by auto
  next
    case Pop
    show ?thesis
    proof (cases "contents q")
      case Nil
      then have "pop q = None" using Cons.prems(1) by (simp add: pop_empty)
      with Cons.prems Pop Nil Cons.IH [OF Cons.prems(1)] show ?thesis by simp
    next
      case (Cons y ys)
      from pop_cons [OF Cons.prems(1) this] obtain q' where
        q': "pop q = Some (q', y)" "contents q' = ys" "inv q'" by auto
      with Cons.prems(2) Pop obtain out' where
        run: "run_queue push pop q' ops = (r, acc, out')" and "out = y # out'"
        by (auto split: prod.splits)
      with Cons.IH [OF q'(3) run] q'(2) Cons show ?thesis by simp
    qed
  qed
qed

end

section \<open>Bresenham steppers\<close>

text \<open>Total and final remainder of \<open>k\<close> successive steps.\<close>

fun run_steps :: "(int \<Rightarrow> int \<times> int) \<Rightarrow> nat \<Rightarrow> int \<Rightarrow> int \<times> int" where
  "run_steps f 0 r = (0, r)"
| "run_steps f (Suc k) r =
     (case f r of (d, r') \<Rightarrow> (case run_steps f k r' of (t, r'') \<Rightarrow> (d + t, r'')))"

text \<open>
  A stepper with parameters \<open>p\<close> advances by \<open>num p / den p\<close> on average: it emits whole
  ticks and carries the fraction. Its clients need only that no fraction is ever lost.
\<close>

locale rational_stepper =
  fixes num :: "'p \<Rightarrow> int" and den :: "'p \<Rightarrow> int" and ok :: "'p \<Rightarrow> bool"
    and next_step :: "'p \<Rightarrow> int \<Rightarrow> int \<times> int"
  assumes den_pos: "ok p \<Longrightarrow> 0 < den p"
    and next_eq: "ok p \<Longrightarrow> 0 \<le> r \<Longrightarrow> r < den p \<Longrightarrow>
           next_step p r = ((num p + r) div den p, (num p + r) mod den p)"
begin

lemma run_steps_total:
  assumes "ok p" and "0 \<le> r" and "r < den p"
  shows "run_steps (next_step p) k r =
    ((int k * num p + r) div den p, (int k * num p + r) mod den p)"
  using assms(2,3)
proof (induction k arbitrary: r)
  case 0
  then show ?case by simp
next
  case (Suc k)
  let ?d = "den p" and ?n = "num p"
  have d: "0 < ?d" using den_pos assms(1) .
  let ?r' = "(?n + r) mod ?d"
  have r': "0 \<le> ?r'" "?r' < ?d" using d by simp_all
  have split: "int (Suc k) * ?n + r = (int k * ?n + ?r') + ((?n + r) div ?d) * ?d"
    using div_mult_mod_eq [of "?n + r" ?d] by (simp add: algebra_simps)
  have "(int (Suc k) * ?n + r) div ?d = (?n + r) div ?d + (int k * ?n + ?r') div ?d"
    unfolding split by (rule div_mult_self1) (use d in simp)
  moreover have "(int (Suc k) * ?n + r) mod ?d = (int k * ?n + ?r') mod ?d"
    unfolding split by (rule mod_mult_self1)
  ultimately show ?case
    using Suc.IH [OF r'] next_eq [OF assms(1) Suc.prems] by simp
qed

lemma run_steps_from_zero:
  "ok p \<Longrightarrow> fst (run_steps (next_step p) k 0) = int k * num p div den p"
  using run_steps_total [of p 0 k] den_pos [of p] by simp

end

end
