(* ===== verification/CfrGrid.thy ===== *)
theory CfrGrid
  imports Prelude
begin

text \<open>
  The constant-frame-rate clock: \<^verbatim>\<open>common/capture/cfr_rational_grid.h\<close> (slot positions, their
  inverse and the incremental stride), the grid helpers of
  \<^verbatim>\<open>common/capture/frame_timing_utils.h\<close> and \<^verbatim>\<open>time_grid.h\<close>, and the rational steppers of
  \<^verbatim>\<open>hook/pacing/fps_limiter_policy.h\<close>. A \<^verbatim>\<open>uint64_t\<close> is a \<^typ>\<open>nat\<close> below \<open>2 ^ 64\<close> with its
  wrap-around written out (\<open>wrap64\<close>, \<open>sub64\<close>); an \<^verbatim>\<open>int64_t\<close> is an \<^typ>\<open>int\<close>, and every place
  where the code guards against leaving its range is a branch.
\<close>

section \<open>Slot positions\<close>

text \<open>\<open>None\<close> is the \<^verbatim>\<open>false\<close> return; the out-parameter is non-null at every call.\<close>

definition try_get_slot_offset_qpc :: "nat \<Rightarrow> int \<Rightarrow> int \<Rightarrow> int option" where
  "try_get_slot_offset_qpc ticks qpcFrequency fps =
     (if qpcFrequency \<le> 0 \<or> fps \<le> 0 then None
      else let frequency = nat qpcFrequency;
               rate = nat fps;
               wholeSeconds = ticks div rate;
               remainderTicks = ticks mod rate;
               maxOffset = nat int64_max
           in if wholeSeconds > maxOffset div frequency then None
              else let wholeQpc = wrap64 (wholeSeconds * frequency);
                       fractionQpc = wrap64 (remainderTicks * frequency) div rate
                   in if wholeQpc > sub64 maxOffset fractionQpc then None
                      else Some (int (wholeQpc + fractionQpc)))"

definition get_slot_qpc :: "int \<Rightarrow> nat \<Rightarrow> int \<Rightarrow> int \<Rightarrow> int \<Rightarrow> int" where
  "get_slot_qpc originQpc ticks qpcFrequency fps fallbackQpc =
     (case try_get_slot_offset_qpc ticks qpcFrequency fps of
        None \<Rightarrow> fallbackQpc
      | Some offsetQpc \<Rightarrow>
          if originQpc > int64_max - offsetQpc then fallbackQpc else originQpc + offsetQpc)"

definition get_slot_index_at_or_before :: "int \<Rightarrow> int \<Rightarrow> int \<Rightarrow> nat" where
  "get_slot_index_at_or_before elapsedQpc qpcFrequency fps =
     (if elapsedQpc < 0 \<or> qpcFrequency \<le> 0 \<or> fps \<le> 0 then 0
      else let frequency = nat qpcFrequency;
               rate = nat fps;
               shifted = wrap64 (nat elapsedQpc + 1);
               wholeSeconds = shifted div frequency;
               remainderQpc = shifted mod frequency
           in if remainderQpc = 0 then sub64 (wrap64 (wholeSeconds * rate)) 1
              else wrap64 (wrap64 (wholeSeconds * rate)
                           + sub64 (wrap64 (remainderQpc * rate)) 1 div frequency))"

definition next_slot_interval_qpc :: "int \<Rightarrow> int \<Rightarrow> int \<Rightarrow> int \<times> int" where
  "next_slot_interval_qpc qpcFrequency fps remainder =
     (if qpcFrequency \<le> 0 \<or> fps \<le> 0 then (0, 0)
      else let interval = qpcFrequency sdiv fps;
               r = remainder + qpcFrequency smod fps
           in if r \<ge> fps then (interval + 1, r - fps) else (interval, r))"

section \<open>Grid helpers of the frame timing code\<close>

definition compute_ideal_output_qpc :: "int \<Rightarrow> int \<Rightarrow> int \<Rightarrow> int" where
  "compute_ideal_output_qpc gridStartQpc gridTickCount targetIntervalTicks =
     (if gridStartQpc \<le> 0 \<or> targetIntervalTicks \<le> 0 \<or> gridTickCount \<le> 0 then gridStartQpc
      else gridStartQpc + (gridTickCount - 1) * targetIntervalTicks)"

definition compute_ideal_output_qpc_on_rational_grid :: "int \<Rightarrow> int \<Rightarrow> int \<Rightarrow> int \<Rightarrow> int" where
  "compute_ideal_output_qpc_on_rational_grid gridStartQpc gridTickCount qpcFrequency fps =
     (if gridStartQpc \<le> 0 \<or> gridTickCount \<le> 0 \<or> qpcFrequency \<le> 0 \<or> fps \<le> 0 then gridStartQpc
      else get_slot_qpc gridStartQpc (nat (gridTickCount - 1)) qpcFrequency fps gridStartQpc)"

definition compute_delayed_content_grid_start_qpc :: "int \<Rightarrow> int \<Rightarrow> int" where
  "compute_delayed_content_grid_start_qpc gridStartQpc contentDelayQpc =
     (if gridStartQpc \<le> 0 \<or> contentDelayQpc \<le> 0 then gridStartQpc
      else gridStartQpc - contentDelayQpc)"

definition compute_slot_content_qpc :: "int \<Rightarrow> bool \<Rightarrow> int \<Rightarrow> int \<Rightarrow> int" where
  "compute_slot_content_qpc scheduledQpc screenGrab avContentDelayQpc screenGrabSmoothnessDelayQpc =
     (if scheduledQpc \<le> 0 then 0
      else let contentDelayQpc = max 0 avContentDelayQpc
                 + (if screenGrab then max 0 screenGrabSmoothnessDelayQpc else 0)
           in max 1 (scheduledQpc - contentDelayQpc))"

definition compute_wgc_selection_target_qpc :: "int \<Rightarrow> int \<Rightarrow> int \<Rightarrow> int \<Rightarrow> int" where
  "compute_wgc_selection_target_qpc scheduledSampleQpc gridStartQpc gridTickCount targetIntervalTicks =
     (if scheduledSampleQpc > 0 then scheduledSampleQpc
      else compute_ideal_output_qpc gridStartQpc gridTickCount targetIntervalTicks)"

definition compute_cfr_frame_index_for_elapsed_us :: "int \<Rightarrow> int \<Rightarrow> int \<Rightarrow> int" where
  "compute_cfr_frame_index_for_elapsed_us elapsedUs fps lastAssignedFrameIndex =
     (let fps = (if fps \<le> 0 then 60 else fps);
          elapsedUs = (if elapsedUs < 0 then 0 else elapsedUs);
          roundedFrameIndex = (elapsedUs * fps + 500000) sdiv 1000000
      in if lastAssignedFrameIndex < 0 then roundedFrameIndex
         else max roundedFrameIndex (lastAssignedFrameIndex + 1))"

definition compute_next_cfr_frame_index :: "int \<Rightarrow> int" where
  "compute_next_cfr_frame_index lastAssignedFrameIndex =
     (if lastAssignedFrameIndex \<ge> 0 then lastAssignedFrameIndex + 1 else 0)"

definition resolve_cfr_timeline_elapsed_us :: "int \<Rightarrow> int \<Rightarrow> int \<Rightarrow> int" where
  "resolve_cfr_timeline_elapsed_us steadyElapsedUs explicitTimelineElapsedUs lastElapsedUs =
     (let candidate = (if explicitTimelineElapsedUs \<ge> 0 then explicitTimelineElapsedUs
                       else steadyElapsedUs)
      in max candidate lastElapsedUs)"

definition resolve_authoritative_cfr_timeline_elapsed_us :: "int \<Rightarrow> int \<Rightarrow> int \<Rightarrow> int" where
  "resolve_authoritative_cfr_timeline_elapsed_us steadyElapsedUs explicitTimelineElapsedUs lastElapsedUs =
     (if explicitTimelineElapsedUs \<ge> 0 then explicitTimelineElapsedUs
      else if lastElapsedUs > 0 then lastElapsedUs
      else max steadyElapsedUs 0)"

text \<open>\<^verbatim>\<open>ce::time\<close>: the one-based selection slot, the next frame, and elapsed microseconds.\<close>

definition selection_slot :: "int \<Rightarrow> int \<Rightarrow> int \<Rightarrow> int \<Rightarrow> int" where
  "selection_slot origin tick frequency fps =
     compute_ideal_output_qpc_on_rational_grid origin tick frequency fps"

definition scheduled_elapsed :: "int \<Rightarrow> int \<Rightarrow> int \<Rightarrow> int" where
  "scheduled_elapsed origin scheduled frequency =
     (if origin \<le> 0 \<or> frequency \<le> 0 \<or> scheduled < origin then -1
      else let delta = scheduled - origin
           in (delta sdiv frequency) * 1000000 + ((delta smod frequency) * 1000000) sdiv frequency)"

section \<open>Rational steppers of the frame limiter\<close>

definition next_rational_interval_ticks :: "int \<Rightarrow> int \<Rightarrow> int \<Rightarrow> int \<times> int" where
  "next_rational_interval_ticks frequency fps remainder =
     (if frequency \<le> 0 \<or> fps \<le> 0 then (1, 0)
      else let ticks = frequency sdiv fps;
               r = remainder + frequency smod fps;
               (ticks, r) = (if r \<ge> fps then (ticks + 1, r - fps) else (ticks, r))
           in (if ticks > 0 then ticks else 1, r))"

definition next_rational_group_interval_ticks :: "int \<Rightarrow> int \<Rightarrow> int \<Rightarrow> int \<Rightarrow> int \<times> int" where
  "next_rational_group_interval_ticks frequency fps cadenceScale remainder =
     (if frequency \<le> 0 \<or> fps \<le> 0 \<or> cadenceScale \<le> 0 then (1, 0)
      else if frequency > int64_max sdiv cadenceScale then (max 1 (frequency sdiv fps), 0)
      else let scaledFrequency = frequency * cadenceScale;
               ticks = scaledFrequency sdiv fps;
               r = remainder + scaledFrequency smod fps;
               (ticks, r) = (if r \<ge> fps then (ticks + 1, r - fps) else (ticks, r))
           in (if ticks > 0 then ticks else 1, r))"

section \<open>Correctness of the grid\<close>

lemma nat_mult_div_int:
  "0 \<le> f \<Longrightarrow> 0 \<le> r \<Longrightarrow> int (n * nat f div nat r) = int n * f div r"
  by (simp add: zdiv_int)

lemma offset_split_nat:
  assumes "0 < r"
  shows "t * f div r = t div r * f + (t mod r) * f div (r::nat)"
  using nat_add_div_mult [OF assms, of "t div r" "t mod r" f] by simp

text \<open>The value below which the guarded 64-bit computation is the exact quotient.\<close>

lemma slot_fraction_small:
  fixes f r :: nat
  assumes "0 < r" and "f * r \<le> 2 ^ 64"
  shows "t mod r * f < 2 ^ 64" and "t mod r * f div r \<le> nat int64_max"
proof -
  show lt: "t mod r * f < 2 ^ 64"
  proof (cases "f = 0")
    case False
    have "t mod r * f < r * f" using assms(1) False by simp
    also have "\<dots> \<le> 2 ^ 64" using assms(2) by (simp add: mult.commute)
    finally show ?thesis .
  qed simp
  show "t mod r * f div r \<le> nat int64_max"
  proof (cases "r = 1")
    case False
    with assms(1) have "2 \<le> r" by simp
    then have "t mod r * f div r \<le> t mod r * f div 2" by (intro div_le_mono2) simp_all
    also have "\<dots> \<le> (2 ^ 64 - 1) div 2" using lt by (intro div_le_mono) simp
    finally show ?thesis by (simp add: int64_max_def)
  qed (simp add: int64_max_def)
qed

lemma try_get_slot_offset_nat:
  fixes f r t :: nat
  assumes f: "0 < f" and r: "0 < r" and small: "f * r \<le> 2 ^ 64"
  shows "try_get_slot_offset_qpc t (int f) (int r) =
    (if t * f div r \<le> nat int64_max then Some (int (t * f div r)) else None)"
proof -
  let ?M = "nat int64_max" and ?w = "t div r" and ?x = "t mod r * f div r"
  have M: "?M < 2 ^ 63" by (simp add: int64_max_def)
  have split: "t * f div r = ?w * f + ?x" using offset_split_nat [OF r] .
  have x: "?x \<le> ?M" "t mod r * f < 2 ^ 64" using slot_fraction_small [OF r small] by auto
  have guard: "?w > ?M div f \<longleftrightarrow> ?w * f > ?M"
    using f by (metis div_less_iff_less_mult less_eq_div_iff_mult_less_eq not_le)
  show ?thesis
  proof (cases "?w * f > ?M")
    case True
    with guard split f r show ?thesis
      by (simp add: try_get_slot_offset_qpc_def Let_def)
  next
    case False
    then have "?w * f < 2 ^ 64" using M by simp
    with False guard split f r x M show ?thesis
      by (auto simp: try_get_slot_offset_qpc_def Let_def sub64_le)
  qed
qed

lemma slot_offset_value:
  assumes "0 < qpcFrequency" and "0 < fps" and "qpcFrequency * fps \<le> 2 ^ 64"
  shows "try_get_slot_offset_qpc ticks qpcFrequency fps =
    (if int ticks * qpcFrequency div fps \<le> int64_max
     then Some (int ticks * qpcFrequency div fps) else None)"
proof -
  obtain f r where eq: "qpcFrequency = int f" "fps = int r"
    using assms(1,2) by (metis less_imp_le zero_le_imp_eq_int)
  with assms have "0 < f" "0 < r" "int (f * r) \<le> int (2 ^ 64)" by simp_all
  then have small: "f * r \<le> 2 ^ 64" by linarith
  have q: "int ticks * int f div int r = int (ticks * f div r)" by (simp add: zdiv_int)
  have "int (ticks * f div r) \<le> int64_max \<longleftrightarrow> ticks * f div r \<le> nat int64_max"
    by (simp add: int64_max_def)
  then show ?thesis
    using try_get_slot_offset_nat [OF \<open>0 < f\<close> \<open>0 < r\<close> small] eq q by simp
qed

text \<open>C1: with \<open>frequency * fps\<close> in 64 bits the position of slot \<open>n\<close> is exactly
  \<open>floor (n * frequency / fps)\<close>, and it is refused exactly when that leaves \<^verbatim>\<open>int64_t\<close>.\<close>

theorem slot_offset_exact:
  assumes "0 < qpcFrequency" and "0 < fps" and "qpcFrequency * fps \<le> 2 ^ 64"
  shows "try_get_slot_offset_qpc ticks qpcFrequency fps =
    (if int ticks * qpcFrequency div fps \<le> int64_max
     then Some (int ticks * qpcFrequency div fps) else None)"
  using assms by (rule slot_offset_value)

theorem slot_offset_exact_witness:
  "try_get_slot_offset_qpc 7 10000000 120 = Some 583333"
  using slot_offset_exact [of 10000000 120 7] by (simp add: int64_max_def)

lemma div_le_iff_le_index:
  fixes f r n e :: nat
  assumes "0 < f" and "0 < r"
  shows "n * f div r \<le> e \<longleftrightarrow> n \<le> ((e + 1) * r - 1) div f"
proof -
  have "n * f div r \<le> e \<longleftrightarrow> n * f div r < e + 1" by linarith
  also have "\<dots> \<longleftrightarrow> n * f < (e + 1) * r" using assms(2) by (simp add: div_less_iff_less_mult)
  also have "\<dots> \<longleftrightarrow> n * f \<le> (e + 1) * r - 1" using assms by (cases "(e + 1) * r") auto
  also have "\<dots> \<longleftrightarrow> n \<le> ((e + 1) * r - 1) div f"
    using assms(1) by (simp add: less_eq_div_iff_mult_less_eq)
  finally show ?thesis .
qed

lemma shifted_index_split:
  fixes f r s :: nat
  assumes f: "0 < f" and r: "0 < r" and s: "0 < s"
  shows "(s * r - 1) div f =
    (if s mod f = 0 then s div f * r - 1 else s div f * r + (s mod f * r - 1) div f)"
proof (cases "s mod f = 0")
  case True
  then have "s = s div f * f" using div_mult_mod_eq [of s f] by simp
  then have sr: "s * r = (s div f * r) * f" by (metis mult.assoc mult.commute)
  have pos: "0 < s div f * r" using True s r \<open>s = s div f * f\<close> by (metis gr0I mult_is_0)
  have "((s div f * r) * f - 1) div f = s div f * r - 1"
  proof (rule div_nat_eqI)
    show "f * (s div f * r - 1) \<le> (s div f * r) * f - 1"
      using pos f by (simp add: algebra_simps diff_mult_distrib)
    show "(s div f * r) * f - 1 < f * Suc (s div f * r - 1)"
      using pos f by (simp add: algebra_simps)
  qed
  with True show ?thesis by (simp only: sr if_True simp_thms)
next
  case False
  have "s * r = (s div f * r) * f + s mod f * r"
    using div_mult_mod_eq [of s f] by (metis add_mult_distrib mult.assoc mult.commute)
  moreover have "0 < s mod f * r" using False r by simp
  ultimately have "s * r - 1 = (s mod f * r - 1) + (s div f * r) * f" by simp
  then have "(s * r - 1) div f = (s mod f * r - 1) div f + s div f * r"
    using f by simp
  with False show ?thesis by simp
qed

lemma slot_index_shifted:
  fixes f r s :: nat
  assumes r: "0 < r" and rf: "r \<le> f" and small: "f * r \<le> 2 ^ 64"
    and s: "0 < s" "s \<le> 2 ^ 63"
  shows "get_slot_index_at_or_before (int s - 1) (int f) (int r) = (s * r - 1) div f"
proof -
  define w m where "w = s div f" and "m = s mod f"
  have f: "0 < f" using r rf by simp
  have wr: "w * r \<le> s"
    using mult_le_mono2 [OF rf, of w] div_times_less_eq_dividend [of s f]
    unfolding w_def by linarith
  have mm: "m * r < 2 ^ 64"
    using slot_fraction_small(1) [OF f, of r s] small unfolding m_def by (simp add: mult.commute)
  have idx: "(s * r - 1) div f = (if m = 0 then w * r - 1 else w * r + (m * r - 1) div f)"
    unfolding w_def m_def by (rule shifted_index_split [OF f r s(1)])
  have "(s * r - 1) div f \<le> s * f div f"
    by (rule div_le_mono) (use mult_le_mono2 [OF rf, of s] in linarith)
  then have total: "(s * r - 1) div f \<le> s" using f by simp
  have guard: "\<not> int s - 1 < 0" "wrap64 (nat (int s - 1) + 1) = s" using s by auto
  have pos: "1 \<le> w * r" if "m = 0"
    using that s r div_mult_mod_eq [of s f] by (cases "w = 0") (auto simp: w_def m_def)
  have w64: "w * r < 2 ^ 64" by (rule le_less_trans [OF order_trans [OF wr s(2)]]) simp
  show ?thesis
  proof (cases "m = 0")
    case True
    then have "sub64 (w * r) 1 = w * r - 1" using pos w64 by (intro sub64_le) auto
    with True f r w64 idx guard show ?thesis
      by (simp add: get_slot_index_at_or_before_def Let_def w_def m_def)
  next
    case False
    then have "sub64 (m * r) 1 = m * r - 1" using r mm by (intro sub64_le) (simp_all add: Suc_le_eq)
    moreover have "w * r + (m * r - 1) div f < 2 ^ 64" using False idx total s by simp
    ultimately show ?thesis using False f r w64 mm idx guard
      by (simp add: get_slot_index_at_or_before_def Let_def w_def m_def)
  qed
qed

lemma slot_index_nat:
  fixes f r e :: nat
  assumes "0 < r" and "r \<le> f" and "f * r \<le> 2 ^ 64" and "e < 2 ^ 63"
  shows "get_slot_index_at_or_before (int e) (int f) (int r) = ((e + 1) * r - 1) div f"
  using slot_index_shifted [OF assms(1-3), of "e + 1"] assms(4) by simp

text \<open>C2: the index of the latest slot is the exact inverse of the slot position: slot \<open>n\<close>
  lies at or before the elapsed time precisely when \<open>n\<close> is at most the returned index.\<close>

theorem slot_index_galois:
  assumes "0 < fps" and "fps \<le> qpcFrequency" and "qpcFrequency * fps \<le> 2 ^ 64"
    and "0 \<le> elapsedQpc" and "elapsedQpc \<le> int64_max"
    and "try_get_slot_offset_qpc n qpcFrequency fps = Some offsetQpc"
  shows "offsetQpc \<le> elapsedQpc \<longleftrightarrow> n \<le> get_slot_index_at_or_before elapsedQpc qpcFrequency fps"
proof -
  obtain f r e where eq: "qpcFrequency = int f" "fps = int r" "elapsedQpc = int e"
    using assms by (metis less_imp_le order_trans zero_le_imp_eq_int)
  with assms have fr: "0 < r" "r \<le> f" "e < 2 ^ 63" "int (f * r) \<le> int (2 ^ 64)"
    by (simp_all add: int64_max_def)
  then have small: "f * r \<le> 2 ^ 64" and f: "0 < f" by linarith+
  have "offsetQpc = int (n * f div r)"
    using assms(6) try_get_slot_offset_nat [OF f fr(1) small] eq by (auto split: if_splits)
  then have "offsetQpc \<le> elapsedQpc \<longleftrightarrow> n * f div r \<le> e" using eq by simp
  also have "\<dots> \<longleftrightarrow> n \<le> ((e + 1) * r - 1) div f" by (rule div_le_iff_le_index [OF f fr(1)])
  finally show ?thesis using slot_index_nat [OF fr(1,2) small fr(3)] eq by simp
qed

theorem slot_index_galois_witness:
  "583333 \<le> (583334 :: int) \<longleftrightarrow> 7 \<le> get_slot_index_at_or_before 583334 10000000 120"
  by (rule slot_index_galois)
     (simp_all add: int64_max_def try_get_slot_offset_qpc_def Let_def wrap64_def sub64_def)

section \<open>The incremental strides never drift\<close>

lemma add_div_carry:
  fixes r n d :: int
  assumes "0 < d" and "0 \<le> r" and "r < d"
  shows "(n + r) div d = n div d + (if d \<le> r + n mod d then 1 else 0)"
    and "(n + r) mod d = (if d \<le> r + n mod d then r + n mod d - d else r + n mod d)"
proof -
  define x where "x = r + n mod d"
  have b: "0 \<le> n mod d" "n mod d < d" using assms(1) by simp_all
  have s: "n + r = x + (n div d) * d" using div_mult_mod_eq [of n d] by (simp add: x_def)
  have x: "x div d = (if d \<le> x then 1 else 0) \<and> x mod d = (if d \<le> x then x - d else x)"
  proof (cases "d \<le> x")
    case True
    have "0 \<le> x - d" "x - d < d" using True b assms unfolding x_def by linarith+
    then have m: "x mod d = x - d"
      using minus_mod_self2 [of x d] mod_pos_pos_trivial [of "x - d" d] by metis
    then have "x div d * d = d" using div_mult_mod_eq [of x d] by linarith
    then have "x div d = 1" using assms(1) by simp
    with True m show ?thesis by simp
  next
    case False
    then show ?thesis using b assms by (simp add: x_def)
  qed
  have "(n + r) div d = n div d + x div d"
    unfolding s by (rule div_mult_self1) (use assms(1) in simp)
  moreover have "(n + r) mod d = x mod d" unfolding s by (rule mod_mult_self1)
  ultimately show "(n + r) div d = n div d + (if d \<le> r + n mod d then 1 else 0)"
    and "(n + r) mod d = (if d \<le> r + n mod d then r + n mod d - d else r + n mod d)"
    using x by (simp_all add: x_def)
qed

interpretation slot_stride: rational_stepper fst snd "\<lambda>(f, d). 0 < f \<and> 0 < d"
  "\<lambda>(f, d) r. next_slot_interval_qpc f d r"
  by unfold_locales (auto simp: next_slot_interval_qpc_def Let_def add_div_carry)

interpretation limiter_stride: rational_stepper fst snd "\<lambda>(f, d). 0 < d \<and> d \<le> f"
  "\<lambda>(f, d) r. next_rational_interval_ticks f d r"
proof unfold_locales
  fix p :: "int \<times> int" and r :: int
  assume ok: "case p of (f, d) \<Rightarrow> 0 < d \<and> d \<le> f" and r: "0 \<le> r" "r < snd p"
  then have "0 < fst p div snd p" by (auto simp: pos_imp_zdiv_pos_iff)
  with ok r show "(case p of (f, d) \<Rightarrow> next_rational_interval_ticks f d) r =
    ((fst p + r) div snd p, (fst p + r) mod snd p)"
    by (auto simp: next_rational_interval_ticks_def Let_def add_div_carry)
qed auto

text \<open>With frame generation the limiter steps by \<open>frequency * scale / fps\<close>.\<close>

definition group_ok :: "int \<times> int \<times> int \<Rightarrow> bool" where
  "group_ok p \<longleftrightarrow> (case p of (f, d, s) \<Rightarrow> 0 < d \<and> d \<le> f \<and> 0 < s \<and> f * s \<le> int64_max)"

interpretation group_stride: rational_stepper "\<lambda>(f, d, s). f * s" "\<lambda>(f, d, s). d" group_ok
  "\<lambda>(f, d, s) r. next_rational_group_interval_ticks f d s r"
proof unfold_locales
  fix p :: "int \<times> int \<times> int" and r :: int
  obtain f d s where p: "p = (f, d, s)" by (cases p)
  assume "group_ok p" and "0 \<le> r" and "r < (case p of (f, d, s) \<Rightarrow> d)"
  with p have ok: "0 < d" "d \<le> f" "0 < s" "f * s \<le> int64_max" "0 \<le> r" "r < d"
    by (auto simp: group_ok_def)
  have "d \<le> f * s" using ok by (smt (verit) mult_le_cancel_left1)
  then have pos: "0 < f * s div d" using ok by (simp add: pos_imp_zdiv_pos_iff)
  have "\<not> f > int64_max div s"
    using ok by (metis less_le_not_le linorder_not_less zdiv_mono1 nonzero_mult_div_cancel_right)
  then have guard: "\<not> f > int64_max sdiv s" using ok by (simp add: int64_max_def)
  show "(case p of (f, d, s) \<Rightarrow> next_rational_group_interval_ticks f d s) r =
    (((case p of (f, d, s) \<Rightarrow> f * s) + r) div (case p of (f, d, s) \<Rightarrow> d),
     ((case p of (f, d, s) \<Rightarrow> f * s) + r) mod (case p of (f, d, s) \<Rightarrow> d))"
    using ok pos guard p
    by (auto simp: next_rational_group_interval_ticks_def Let_def add_div_carry)
qed (auto simp: group_ok_def)

text \<open>starting from remainder 0, \<open>k\<close> strides of the wake-deadline stepper sum to exactly
  the offset of slot \<open>k\<close>: incremental and absolute positions never drift apart.\<close>

theorem strides_reach_slot:
  assumes "0 < qpcFrequency" and "0 < fps" and "qpcFrequency * fps \<le> 2 ^ 64"
    and "try_get_slot_offset_qpc k qpcFrequency fps = Some offsetQpc"
  shows "fst (run_steps (next_slot_interval_qpc qpcFrequency fps) k 0) = offsetQpc"
  using slot_stride.run_steps_from_zero [of "(qpcFrequency, fps)" k] assms
    slot_offset_value [OF assms(1-3), of k]
  by (auto split: if_splits)

theorem strides_reach_slot_witness:
  "fst (run_steps (next_slot_interval_qpc 10000000 120) 7 0) = 583333"
  by (rule strides_reach_slot)
     (simp_all add: try_get_slot_offset_qpc_def Let_def wrap64_def sub64_def int64_max_def)

text \<open>The split into whole seconds is not exact for every rate: above \<open>2 ^ 64 / fps\<close> the
  product of the fraction wraps.\<close>

theorem slot_offset_wraps_at_extreme_rate:
  "try_get_slot_offset_qpc 8 (2 ^ 61) 120 = Some 0 \<and> (8 * 2 ^ 61) div 120 \<noteq> (0 :: int)"
  by (simp add: try_get_slot_offset_qpc_def Let_def wrap64_def sub64_def int64_max_def)

end
