(* ===== verification/FrameRing.thy ===== *)
theory FrameRing
  imports Prelude
begin

text \<open>
  The cross-process frame ring: \<^verbatim>\<open>FrameRingBuffer\<close> and its slots
  (\<^verbatim>\<open>common/ipc/shared_defs_detail/frame_ring.h\<close>), the producer side of
  \<^verbatim>\<open>common/capture/capture_base.h\<close>, the completion of leased slots
  (\<^verbatim>\<open>inject_frame_ring_lease.h\<close>) and the ingest cursor (\<^verbatim>\<open>inject_frame_ring_ingest.h\<close>).
  Indices are free-running 32-bit words: a position is its wrapped distance from
  \<^verbatim>\<open>readIndex\<close>, as in the code. Every operation is a function of the ring; the concurrent
  producer, ingest thread and lease holders are the interleaved steps of \<open>ring_step\<close>, in
  which the producer's slot write, its publication, each completion mark and each attempt to
  publish \<^verbatim>\<open>readIndex\<close> are separate steps.
\<close>

section \<open>Data\<close>

definition frame_ring_size :: nat where
  "frame_ring_size = 32"

definition shared_texture_slot_count :: nat where
  "shared_texture_slot_count = 16"

record frame_slot =
  fenceValue :: u64
  timestamp :: int
  displayTimingSequence :: u64
  frameIndex :: u32
  textureIndex :: int
  sourcePid :: u32
  captureFlags :: u32
  displayTimingGeneration :: u32
  transportGeneration :: u32
  valid :: u32

text \<open>The last counter is the one of \<^verbatim>\<open>runtimeState\<close>, which lies beside the ring in the layout.\<close>

record frame_ring =
  slots :: "frame_slot list"
  writeIndex :: u32
  readIndex :: u32
  ingestIndex :: u32
  droppedFrames :: u32
  injectProducerMetadataFullDrops :: u32

definition slot_of :: "u32 \<Rightarrow> nat" where
  "slot_of i = unat i mod frame_ring_size"

definition slot_at :: "frame_ring \<Rightarrow> u32 \<Rightarrow> frame_slot" where
  "slot_at r i = slots r ! slot_of i"

definition set_valid :: "frame_ring \<Rightarrow> u32 \<Rightarrow> u32 \<Rightarrow> frame_ring" where
  "set_valid r i v = r\<lparr>slots := (slots r)[slot_of i := (slot_at r i)\<lparr>valid := v\<rparr>]\<rparr>"

definition is_frame_ring_window_valid :: "u32 \<Rightarrow> u32 \<Rightarrow> bool" where
  "is_frame_ring_window_valid w r \<longleftrightarrow> unat (w - r) \<le> frame_ring_size"

definition empty_slot :: frame_slot where
  "empty_slot = \<lparr>fenceValue = 0, timestamp = 0, displayTimingSequence = 0, frameIndex = 0,
     textureIndex = 0, sourcePid = 0, captureFlags = 0, displayTimingGeneration = 0,
     transportGeneration = 0, valid = 0\<rparr>"

definition empty_ring :: frame_ring where
  "empty_ring = \<lparr>slots = replicate frame_ring_size empty_slot, writeIndex = 0, readIndex = 0,
     ingestIndex = 0, droppedFrames = 0, injectProducerMetadataFullDrops = 0\<rparr>"

section \<open>Completion of a leased slot\<close>

text \<open>The first half of \<^verbatim>\<open>CompleteInjectFrameRingSlot\<close>: the window check and the mark.\<close>

definition complete_guard :: "frame_ring \<Rightarrow> u32 \<Rightarrow> bool" where
  "complete_guard r i =
     (let depth = writeIndex r - readIndex r; offset = i - readIndex r
      in \<not> (depth = 0 \<or> unat depth > frame_ring_size \<or> offset \<ge> depth))"

definition complete_mark :: "frame_ring \<Rightarrow> u32 \<Rightarrow> frame_ring" where
  "complete_mark r i = (if complete_guard r i then set_valid r i 0 else r)"

text \<open>One pass of its loop: \<open>None\<close> is the \<^verbatim>\<open>break\<close>. The weak compare-exchange may fail
  spuriously; \<open>ok\<close> says whether it does not.\<close>

definition publish_attempt :: "bool \<Rightarrow> frame_ring \<Rightarrow> frame_ring option" where
  "publish_attempt ok r =
     (let current = readIndex r
      in if current = writeIndex r \<or> valid (slot_at r current) \<noteq> 0 then None
         else Some (if ok then r\<lparr>readIndex := current + 1\<rparr> else r))"

fun publish_prefix :: "(nat \<Rightarrow> bool) \<Rightarrow> nat \<Rightarrow> frame_ring \<Rightarrow> frame_ring" where
  "publish_prefix cas 0 r = r"
| "publish_prefix cas (Suc attempts) r =
     (case publish_attempt (cas attempts) r of
        None \<Rightarrow> r
      | Some r' \<Rightarrow> publish_prefix cas attempts r')"

definition complete_inject_frame_ring_slot :: "(nat \<Rightarrow> bool) \<Rightarrow> frame_ring \<Rightarrow> u32 \<Rightarrow> frame_ring" where
  "complete_inject_frame_ring_slot cas r i =
     (if complete_guard r i then publish_prefix cas frame_ring_size (set_valid r i 0) else r)"

text \<open>\<^verbatim>\<open>DiscardUnreadInjectFrameRingSlots\<close>: the loop runs at most \<^verbatim>\<open>writeIndex - ingestIndex\<close>
  times, which the window check bounds.\<close>

fun discard_loop :: "(nat \<Rightarrow> bool) \<Rightarrow> nat \<Rightarrow> u32 \<Rightarrow> frame_ring \<Rightarrow> nat \<Rightarrow> frame_ring \<times> nat" where
  "discard_loop cas 0 index r discarded = (r, discarded)"
| "discard_loop cas (Suc n) index r discarded =
     discard_loop cas n (index + 1) (complete_inject_frame_ring_slot cas r index) (discarded + 1)"

definition discard_unread_inject_frame_ring_slots ::
    "(nat \<Rightarrow> bool) \<Rightarrow> frame_ring \<Rightarrow> frame_ring \<times> (nat option)" where
  "discard_unread_inject_frame_ring_slots cas r =
     (let read = readIndex r; ingest = ingestIndex r; write = writeIndex r
      in if \<not> is_frame_ring_window_valid write read \<or> ingest - read > write - read then (r, None)
         else case discard_loop cas (unat (write - ingest)) ingest r 0 of
                (r', discarded) \<Rightarrow> (r'\<lparr>ingestIndex := write\<rparr>, Some discarded))"

section \<open>Ingestion\<close>

text \<open>The cursor is bound to the ring once and is the only writer of \<^verbatim>\<open>ingestIndex\<close> while
  it lives; its private \<^verbatim>\<open>next_\<close> is the second component.\<close>

definition cursor_init :: "frame_ring \<Rightarrow> u32" where
  "cursor_init r = ingestIndex r"

definition cursor_advance :: "frame_ring \<Rightarrow> u32 \<Rightarrow> frame_ring \<times> u32" where
  "cursor_advance r next = (r\<lparr>ingestIndex := next + 1\<rparr>, next + 1)"

text \<open>\<^verbatim>\<open>Take\<close> returns the index its lease holds.\<close>

definition cursor_take :: "frame_ring \<Rightarrow> u32 \<Rightarrow> (frame_ring \<times> u32) \<times> u32" where
  "cursor_take r next = (cursor_advance r next, next)"

definition cursor_skip :: "(nat \<Rightarrow> bool) \<Rightarrow> frame_ring \<Rightarrow> u32 \<Rightarrow> frame_ring \<times> u32" where
  "cursor_skip cas r next =
     (case cursor_advance r next of
        (r', next') \<Rightarrow> (complete_inject_frame_ring_slot cas r' next, next'))"

record resync =
  faulted :: bool
  cursor :: u32
  skipped :: nat

definition no_resync :: resync where
  "no_resync = \<lparr>faulted = False, cursor = 0, skipped = 0\<rparr>"

definition resync_if_overrun ::
    "(nat \<Rightarrow> bool) \<Rightarrow> frame_ring \<Rightarrow> u32 \<Rightarrow> u32 \<Rightarrow> (frame_ring \<times> u32) \<times> resync" where
  "resync_if_overrun cas r next write =
     (if unat (write - next) \<le> frame_ring_size then ((r, next), no_resync)
      else let newest = write - 1;
               first = write - of_nat frame_ring_size;
               r1 = r\<lparr>ingestIndex := newest\<rparr>
           in case discard_loop cas (unat (newest - first)) first r1 0 of
                (r2, n) \<Rightarrow> ((r2, newest), \<lparr>faulted = True, cursor = next, skipped = n\<rparr>))"

section \<open>The producer\<close>

definition write_slot :: "frame_ring \<Rightarrow> u32 \<Rightarrow> int \<Rightarrow> int \<Rightarrow> u64 \<Rightarrow> u32 \<Rightarrow> u32 \<Rightarrow> frame_ring" where
  "write_slot r w tex ts fence pid generation =
     r\<lparr>slots := (slots r)[slot_of w :=
         \<lparr>fenceValue = fence, timestamp = ts, displayTimingSequence = 0, frameIndex = w,
          textureIndex = tex, sourcePid = pid, captureFlags = 0, displayTimingGeneration = 0,
          transportGeneration = generation, valid = 1\<rparr>]\<rparr>"

text \<open>\<^verbatim>\<open>SignalFrameReady\<close>: the result is whether the frame was published and whether the
  ring was empty for the ingest thread.\<close>

definition signal_frame_ready ::
    "frame_ring \<Rightarrow> int \<Rightarrow> int \<Rightarrow> u64 \<Rightarrow> u32 \<Rightarrow> u32 \<Rightarrow> frame_ring \<times> bool \<times> bool" where
  "signal_frame_ready r tex ts fence pid generation =
     (let w = writeIndex r
      in if unat (w - readIndex r) \<ge> frame_ring_size
         then (r\<lparr>droppedFrames := droppedFrames r + 1,
                 injectProducerMetadataFullDrops := injectProducerMetadataFullDrops r + 1\<rparr>, False, False)
         else let wasEmpty = (w = ingestIndex r);
                  r1 = write_slot r w tex ts fence pid generation
              in (r1\<lparr>writeIndex := w + 1\<rparr>, True, wasEmpty))"

text \<open>The scan shared by the three outstanding-lease queries.\<close>

definition scan_window :: "frame_ring \<Rightarrow> u32 list" where
  "scan_window r =
     (let depth = writeIndex r - readIndex r
      in if unat depth > frame_ring_size
         then map (\<lambda>k. writeIndex r - of_nat frame_ring_size + of_nat k) [0..<frame_ring_size]
         else map (\<lambda>k. readIndex r + of_nat k) [0..<unat depth])"

definition is_capture_texture_slot_outstanding :: "frame_ring \<Rightarrow> int \<Rightarrow> bool" where
  "is_capture_texture_slot_outstanding r tex =
     (if tex < 0 then False
      else list_ex (\<lambda>i. valid (slot_at r i) \<noteq> 0 \<and> textureIndex (slot_at r i) = tex) (scan_window r))"

definition has_outstanding_capture_frame_leases :: "frame_ring \<Rightarrow> bool" where
  "has_outstanding_capture_frame_leases r = list_ex (\<lambda>i. valid (slot_at r i) \<noteq> 0) (scan_window r)"

definition count_outstanding_capture_frame_leases :: "frame_ring \<Rightarrow> nat" where
  "count_outstanding_capture_frame_leases r =
     length (filter (\<lambda>i. valid (slot_at r i) \<noteq> 0) (scan_window r))"

text \<open>\<^verbatim>\<open>FindAvailableCaptureTextureSlotIf\<close>: the candidate (-1 when there is none) and the two
  busy counts.\<close>

fun find_texture_loop :: "frame_ring \<Rightarrow> (int \<Rightarrow> bool) \<Rightarrow> nat \<Rightarrow> nat \<Rightarrow> nat \<Rightarrow> nat \<Rightarrow> nat \<Rightarrow> nat
    \<Rightarrow> int \<times> nat \<times> nat" where
  "find_texture_loop r gpuReady textureCount first offset 0 cpuBusy gpuBusy = (-1, cpuBusy, gpuBusy)"
| "find_texture_loop r gpuReady textureCount first offset (Suc n) cpuBusy gpuBusy =
     (let candidate = int ((first + offset) mod textureCount)
      in if is_capture_texture_slot_outstanding r candidate
         then find_texture_loop r gpuReady textureCount first (offset + 1) n (cpuBusy + 1) gpuBusy
         else if \<not> gpuReady candidate
         then find_texture_loop r gpuReady textureCount first (offset + 1) n cpuBusy (gpuBusy + 1)
         else (candidate, cpuBusy, gpuBusy))"

definition find_available_capture_texture_slot_if ::
    "frame_ring \<Rightarrow> int \<Rightarrow> nat \<Rightarrow> (int \<Rightarrow> bool) \<Rightarrow> int \<times> nat \<times> nat" where
  "find_available_capture_texture_slot_if r firstTextureIndex textureCount gpuReady =
     (if textureCount = 0 \<or> textureCount > shared_texture_slot_count then (-1, 0, 0)
      else find_texture_loop r gpuReady textureCount (nat (max 0 firstTextureIndex) mod textureCount)
             0 textureCount 0 0)"

definition advance_texture_write_index :: "int \<Rightarrow> int \<times> int" where
  "advance_texture_write_index idx =
     (let wrapped = idx smod int shared_texture_slot_count;
          next = (if wrapped + 1 \<ge> int shared_texture_slot_count then 0 else wrapped + 1)
      in (next, wrapped))"

section \<open>Interleaved steps\<close>

text \<open>
  The shared state and what each side holds: whether the producer has written the slot at
  \<^verbatim>\<open>writeIndex\<close> and not yet published it, and the indices of the live leases. Completion
  marks and publication attempts of different threads interleave freely.
\<close>

record ring_sys =
  ring :: frame_ring
  filled :: bool
  leases :: "u32 list"

definition ring_init :: "ring_sys \<Rightarrow> bool" where
  "ring_init s \<longleftrightarrow> (\<exists>k. ring s = empty_ring\<lparr>writeIndex := k, readIndex := k, ingestIndex := k\<rparr>)
     \<and> \<not> filled s \<and> leases s = []"

inductive ring_step :: "ring_sys \<Rightarrow> ring_sys \<Rightarrow> bool" where
  producer_fill: "\<not> filled s \<Longrightarrow>
    unat (writeIndex (ring s) - readIndex (ring s)) < frame_ring_size \<Longrightarrow>
    ring_step s (s\<lparr>ring := write_slot (ring s) (writeIndex (ring s)) tex ts fence pid generation,
                   filled := True\<rparr>)"
| producer_publish: "filled s \<Longrightarrow>
    ring_step s (s\<lparr>ring := (ring s)\<lparr>writeIndex := writeIndex (ring s) + 1\<rparr>, filled := False\<rparr>)"
| producer_drop: "\<not> filled s \<Longrightarrow> r = ring s \<Longrightarrow>
    frame_ring_size \<le> unat (writeIndex r - readIndex r) \<Longrightarrow>
    signal_frame_ready r tex ts fence pid generation = (r', False, False) \<Longrightarrow>
    ring_step s (s\<lparr>ring := r'\<rparr>)"
| ingest: "ingestIndex (ring s) \<noteq> writeIndex (ring s) \<Longrightarrow>
    cursor_take (ring s) (ingestIndex (ring s)) = ((r', next), lease) \<Longrightarrow>
    ring_step s (s\<lparr>ring := r', leases := lease # leases s\<rparr>)"
| complete: "i \<in> set (leases s) \<Longrightarrow>
    ring_step s (s\<lparr>ring := complete_mark (ring s) i, leases := remove1 i (leases s)\<rparr>)"
| publish: "publish_attempt ok (ring s) = Some r' \<Longrightarrow> ring_step s (s\<lparr>ring := r'\<rparr>)"

section \<open>Index arithmetic\<close>

definition off :: "frame_ring \<Rightarrow> u32 \<Rightarrow> nat" where
  "off r x = unat (x - readIndex r)"

lemma slot_of_offset: "slot_of x = (unat r + unat (x - r)) mod frame_ring_size"
  by (simp add: slot_of_def frame_ring_size_def word_slot_offset [of 32 x r])

lemma slot_of_less [simp]: "slot_of x < frame_ring_size"
  by (simp add: slot_of_def frame_ring_size_def)

lemma slot_of_inj:
  assumes "unat (x - r) < frame_ring_size" and "unat (y - r) < frame_ring_size"
    and "slot_of x = slot_of y"
  shows "x = y"
proof -
  have "unat (x - r) = unat (y - r)"
    using assms add_mod_inj [of "unat r" "unat (x - r)" frame_ring_size "unat (y - r)"]
    by (simp only: slot_of_offset [where r = r])
  then have "x - r = y - r" by (simp only: unat_eq_iff)
  then show ?thesis by simp
qed

section \<open>The invariant\<close>

text \<open>
  Positions are distances from \<^verbatim>\<open>readIndex\<close>: the acknowledged prefix ends at 0, the ingested
  one at \<^verbatim>\<open>ingestIndex\<close>, the published one at \<^verbatim>\<open>writeIndex\<close>, one further while the producer
  holds a written slot. Inside the window every slot carries its own index; unread slots are
  valid; below the ingest position the valid slots are exactly the leased ones.
\<close>

definition window :: "ring_sys \<Rightarrow> nat" where
  "window s = off (ring s) (writeIndex (ring s)) + (if filled s then 1 else 0)"

definition ring_inv :: "ring_sys \<Rightarrow> bool" where
  "ring_inv s \<longleftrightarrow>
     length (slots (ring s)) = frame_ring_size \<and>
     window s \<le> frame_ring_size \<and>
     off (ring s) (ingestIndex (ring s)) \<le> off (ring s) (writeIndex (ring s)) \<and>
     distinct (leases s) \<and>
     (\<forall>x. off (ring s) x < window s \<longrightarrow> frameIndex (slot_at (ring s) x) = x) \<and>
     (\<forall>x. off (ring s) (ingestIndex (ring s)) \<le> off (ring s) x \<longrightarrow> off (ring s) x < window s \<longrightarrow>
        valid (slot_at (ring s) x) \<noteq> 0) \<and>
     (\<forall>x. x \<in> set (leases s) \<longleftrightarrow> off (ring s) x < off (ring s) (ingestIndex (ring s)) \<and>
        valid (slot_at (ring s) x) \<noteq> 0)"

lemma slot_at_write_slot:
  assumes "length (slots r) = frame_ring_size" and "off r x < frame_ring_size"
    and "off r w < frame_ring_size"
  shows "slot_at (write_slot r w tex ts fence pid generation) x =
    (if x = w then \<lparr>fenceValue = fence, timestamp = ts, displayTimingSequence = 0, frameIndex = w,
          textureIndex = tex, sourcePid = pid, captureFlags = 0, displayTimingGeneration = 0,
          transportGeneration = generation, valid = 1\<rparr> else slot_at r x)"
  using assms slot_of_inj [of x "readIndex r" w]
  by (cases "slot_of w = slot_of x") (auto simp: slot_at_def write_slot_def off_def)

lemma slot_at_set_valid:
  assumes "length (slots r) = frame_ring_size" and "off r x < frame_ring_size"
    and "off r i < frame_ring_size"
  shows "slot_at (set_valid r i v) x = (if x = i then (slot_at r i)\<lparr>valid := v\<rparr> else slot_at r x)"
  using assms slot_of_inj [of x "readIndex r" i]
  by (cases "slot_of i = slot_of x") (auto simp: slot_at_def set_valid_def off_def)

lemma ring_fields_write_slot [simp]:
  "writeIndex (write_slot r w tex ts fence pid generation) = writeIndex r"
  "readIndex (write_slot r w tex ts fence pid generation) = readIndex r"
  "ingestIndex (write_slot r w tex ts fence pid generation) = ingestIndex r"
  "length (slots (write_slot r w tex ts fence pid generation)) = length (slots r)"
  by (simp_all add: write_slot_def)

lemma ring_fields_set_valid [simp]:
  "writeIndex (set_valid r i v) = writeIndex r"
  "readIndex (set_valid r i v) = readIndex r"
  "ingestIndex (set_valid r i v) = ingestIndex r"
  "length (slots (set_valid r i v)) = length (slots r)"
  by (simp_all add: set_valid_def)

lemma slot_at_update [simp]:
  "slot_at (r\<lparr>writeIndex := a\<rparr>) x = slot_at r x"
  "slot_at (r\<lparr>readIndex := a\<rparr>) x = slot_at r x"
  "slot_at (r\<lparr>ingestIndex := a\<rparr>) x = slot_at r x"
  "slot_at (r\<lparr>droppedFrames := d, injectProducerMetadataFullDrops := e\<rparr>) x = slot_at r x"
  by (simp_all add: slot_at_def)

lemma off_same_read [simp]:
  "off (write_slot r w tex ts fence pid generation) x = off r x"
  "off (set_valid r i v) x = off r x"
  "off (r\<lparr>writeIndex := a\<rparr>) x = off r x"
  "off (r\<lparr>ingestIndex := a\<rparr>) x = off r x"
  "off (r\<lparr>droppedFrames := d, injectProducerMetadataFullDrops := e\<rparr>) x = off r x"
  by (simp_all add: off_def)

lemma off_read [simp]: "off r (readIndex r) = 0"
  by (simp add: off_def)

lemma off_inj: "off r x = off r y \<longleftrightarrow> x = y"
  by (simp add: off_def unat_eq_iff)

lemma off_Suc: "off r x \<le> frame_ring_size \<Longrightarrow> off r (x + 1) = off r x + 1"
  unfolding off_def by (rule dist_inc_top) (simp add: frame_ring_size_def)

lemma off_advance_read:
  "off (r\<lparr>readIndex := readIndex r + 1\<rparr>) x = (if x = readIndex r then 2 ^ 32 - 1 else off r x - 1)"
  unfolding off_def using dist_inc_base [of x "readIndex r"] by simp

lemma off_pos: "x \<noteq> readIndex r \<Longrightarrow> 0 < off r x"
  by (simp add: off_def unat_gt_0)

lemma slot_at_empty: "slot_at empty_ring x = empty_slot"
  by (simp add: slot_at_def empty_ring_def)

lemma ring_inv_init: "ring_init s \<Longrightarrow> ring_inv s"
  by (auto simp: ring_init_def ring_inv_def window_def off_def empty_ring_def)

lemma ring_inv_fill:
  assumes "ring_inv s" and "\<not> filled s" and "off (ring s) (writeIndex (ring s)) < frame_ring_size"
  shows "ring_inv (s\<lparr>ring := write_slot (ring s) (writeIndex (ring s)) tex ts fence pid generation,
                     filled := True\<rparr>)"
proof -
  let ?r = "ring s" and ?w = "writeIndex (ring s)"
  have I: "length (slots ?r) = frame_ring_size" "off ?r (ingestIndex ?r) \<le> off ?r ?w"
    using assms(1) by (auto simp: ring_inv_def)
  have w: "off ?r x = off ?r ?w \<longleftrightarrow> x = ?w" for x by (rule off_inj)
  have at: "slot_at (write_slot ?r ?w tex ts fence pid generation) x =
      (if x = ?w then \<lparr>fenceValue = fence, timestamp = ts, displayTimingSequence = 0, frameIndex = ?w,
          textureIndex = tex, sourcePid = pid, captureFlags = 0, displayTimingGeneration = 0,
          transportGeneration = generation, valid = 1\<rparr> else slot_at ?r x)"
    if "off ?r x < frame_ring_size" for x
    using slot_at_write_slot [OF I(1) that assms(3)] .
  have below: "off ?r x < off ?r ?w" if "off ?r x < off ?r ?w + 1" "x \<noteq> ?w" for x
    using that w [of x] by linarith
  have in_ring: "off ?r x < frame_ring_size" if "off ?r x < off ?r ?w + 1" for x
    using that assms(3) by linarith
  show ?thesis
    unfolding ring_inv_def
  proof (intro conjI allI impI, goal_cases)
    case (5 x)
    then have "off ?r x < off ?r ?w + 1" by (simp add: window_def)
    then show ?case using at [OF in_ring] below [of x] assms(1,2)
      by (auto simp: ring_inv_def window_def)
  next
    case (6 x)
    then have "off ?r x < off ?r ?w + 1" by (simp add: window_def)
    then show ?case using 6 at [OF in_ring] below [of x] assms(1,2)
      by (auto simp: ring_inv_def window_def)
  next
    case (7 x)
    have "x \<noteq> ?w \<and> off ?r x < off ?r ?w + 1" if "off ?r x < off ?r (ingestIndex ?r)"
      using that I(2) by auto
    then show ?case using at [OF in_ring, of x] assms(1,2) by (auto simp: ring_inv_def)
  qed (use assms I in \<open>auto simp: ring_inv_def window_def\<close>)
qed

lemma ring_inv_publish:
  assumes "ring_inv s" and "filled s"
  shows "ring_inv (s\<lparr>ring := (ring s)\<lparr>writeIndex := writeIndex (ring s) + 1\<rparr>, filled := False\<rparr>)"
proof -
  let ?r = "ring s"
  have "off ?r (writeIndex ?r) \<le> frame_ring_size" using assms by (simp add: ring_inv_def window_def)
  then have "off ?r (writeIndex ?r + 1) = off ?r (writeIndex ?r) + 1" by (rule off_Suc)
  then show ?thesis using assms by (auto simp: ring_inv_def window_def)
qed

lemma ring_inv_ingest:
  assumes inv: "ring_inv s" and ne: "ingestIndex (ring s) \<noteq> writeIndex (ring s)"
  shows "ring_inv (s\<lparr>ring := (ring s)\<lparr>ingestIndex := ingestIndex (ring s) + 1\<rparr>,
                     leases := ingestIndex (ring s) # leases s\<rparr>)"
proof -
  let ?r = "ring s" and ?i = "ingestIndex (ring s)" and ?w = "writeIndex (ring s)"
  have lt: "off ?r ?i < off ?r ?w" using inv ne off_inj [of ?r ?i ?w] by (auto simp: ring_inv_def)
  moreover have "off ?r ?w \<le> frame_ring_size" using inv by (simp add: ring_inv_def window_def)
  ultimately have i: "off ?r (?i + 1) = off ?r ?i + 1" by (intro off_Suc) simp
  have new: "off ?r x < Suc (off ?r ?i) \<longleftrightarrow> x = ?i \<or> off ?r x < off ?r ?i" for x
    using off_inj [of ?r x ?i] by linarith
  have "valid (slot_at ?r ?i) \<noteq> 0" using inv lt by (auto simp: ring_inv_def window_def)
  then show ?thesis using inv lt i by (auto simp: ring_inv_def window_def new)
qed

lemma ring_inv_complete:
  assumes inv: "ring_inv s" and i: "i \<in> set (leases s)"
  shows "ring_inv (s\<lparr>ring := complete_mark (ring s) i, leases := remove1 i (leases s)\<rparr>)"
proof -
  let ?r = "ring s" and ?w = "writeIndex (ring s)"
  have win: "off ?r ?w \<le> frame_ring_size" "length (slots ?r) = frame_ring_size"
      "off ?r (ingestIndex ?r) \<le> off ?r ?w" "window s \<le> frame_ring_size"
    using inv by (auto simp: ring_inv_def window_def)
  have off_i: "off ?r i < off ?r (ingestIndex ?r)" using inv i by (auto simp: ring_inv_def)
  then have lt: "off ?r i < off ?r ?w" "off ?r i < frame_ring_size" using win by linarith+
  have "complete_guard ?r i"
    using lt(1) win(1) by (auto simp: complete_guard_def off_def Let_def word_le_nat_alt unat_eq_0)
  then have mark: "complete_mark ?r i = set_valid ?r i 0" by (simp add: complete_mark_def)
  have at: "slot_at (set_valid ?r i 0) x =
      (if x = i then (slot_at ?r i)\<lparr>valid := 0\<rparr> else slot_at ?r x)" if "off ?r x < frame_ring_size" for x
    using slot_at_set_valid [OF win(2) that lt(2)] .
  have big: "off ?r x < frame_ring_size" if "off ?r x < window s" for x using that win by linarith
  have leased: "x \<in> set (remove1 i (leases s)) \<longleftrightarrow> x \<noteq> i \<and> x \<in> set (leases s)" for x
    using inv by (auto simp: ring_inv_def)
  show ?thesis
    unfolding mark ring_inv_def
  proof (intro conjI allI impI, goal_cases)
    case (5 x) then show ?case using inv big [of x] at [of x] by (auto simp: ring_inv_def window_def)
  next
    case (6 x) then show ?case
      using inv big [of x] at [of x] off_i by (auto simp: ring_inv_def window_def)
  next
    case (7 x)
    have "off ?r x < frame_ring_size" if "off ?r x < off ?r (ingestIndex ?r)" using that win by linarith
    then show ?case using inv at [of x] leased [of x] off_i win by (auto simp: ring_inv_def split: if_splits)
  qed (use inv win in \<open>auto simp: ring_inv_def window_def\<close>)
qed

lemma ring_inv_attempt:
  assumes inv: "ring_inv s" and att: "publish_attempt ok (ring s) = Some r'"
  shows "ring_inv (s\<lparr>ring := r'\<rparr>)"
proof (cases ok)
  case False
  then show ?thesis using att inv by (auto simp: publish_attempt_def Let_def split: if_splits)
next
  case True
  let ?r = "ring s" and ?rd = "readIndex (ring s)" and ?i = "ingestIndex (ring s)"
  from att True have r': "r' = ?r\<lparr>readIndex := ?rd + 1\<rparr>" and rw: "?rd \<noteq> writeIndex ?r"
    and v: "valid (slot_at ?r ?rd) = 0"
    by (auto simp: publish_attempt_def Let_def split: if_splits)
  have w: "0 < off ?r (writeIndex ?r)" using off_pos rw by metis
  then have "off ?r ?i \<noteq> 0" using inv v by (auto simp: ring_inv_def window_def)
  then have i: "?i \<noteq> ?rd" "0 < off ?r ?i" by auto
  have lease: "?rd \<notin> set (leases s)" using inv v by (auto simp: ring_inv_def)
  have lim: "window s \<le> frame_ring_size" "off ?r ?i \<le> off ?r (writeIndex ?r)"
    using inv by (auto simp: ring_inv_def)
  have off': "off r' x = (if x = ?rd then 2 ^ 32 - 1 else off ?r x - 1)" for x
    unfolding r' by (rule off_advance_read)
  have win: "window (s\<lparr>ring := r'\<rparr>) = window s - 1"
    using w rw [symmetric] by (simp add: window_def off') (simp add: r')
  have small: "off r' x < n - 1 \<longleftrightarrow> x \<noteq> ?rd \<and> off ?r x < n" if "n \<le> frame_ring_size" "0 < n" for n x
    using that off_pos [of x ?r] by (auto simp: off' frame_ring_size_def)
  show ?thesis
    unfolding ring_inv_def
  proof (intro conjI allI impI, goal_cases)
    case (5 x)
    then show ?case using inv small [OF lim(1)] w win by (auto simp: ring_inv_def window_def r')
  next
    case (6 x)
    then have "x \<noteq> ?rd \<and> off ?r x < window s" "off r' ?i \<le> off r' x"
      using small [OF lim(1)] w win by (auto simp: window_def r')
    then have "off ?r ?i \<le> off ?r x" using i off_pos [of x ?r] by (auto simp: off')
    with \<open>x \<noteq> ?rd \<and> off ?r x < window s\<close> show ?case using inv by (auto simp: ring_inv_def r')
  next
    case (7 x)
    have n: "off ?r ?i \<le> frame_ring_size" using lim by (simp add: window_def)
    have "off r' ?i = off ?r ?i - 1" using i by (simp add: off')
    then show ?case
      using inv small [OF n i(2), of x] lease v by (auto simp: ring_inv_def r')
  next
    case 3
    have "off r' ?i = off ?r ?i - 1" "off r' (writeIndex ?r) = off ?r (writeIndex ?r) - 1"
      using i rw by (simp_all add: off')
    then show ?case using lim by (simp add: r')
  qed (use inv lim win in \<open>auto simp: ring_inv_def r'\<close>)
qed

lemma ring_inv_drop:
  assumes "ring_inv s" and "signal_frame_ready (ring s) tex ts fence pid generation = (r', False, b)"
  shows "ring_inv (s\<lparr>ring := r'\<rparr>)"
  using assms by (auto simp: signal_frame_ready_def ring_inv_def window_def Let_def split: if_splits)

lemma ring_inv_step: "ring_step s t \<Longrightarrow> ring_inv s \<Longrightarrow> ring_inv t"
proof (induction rule: ring_step.induct)
  case (producer_fill s tex ts fence pid generation)
  then show ?case by (intro ring_inv_fill) (simp_all add: off_def)
qed (auto simp: cursor_take_def cursor_advance_def ring_inv_publish ring_inv_ingest
       ring_inv_complete ring_inv_attempt ring_inv_drop)

interpretation frame_ring_system: invariant_system ring_init ring_step ring_inv
  by unfold_locales (auto intro: ring_inv_init ring_inv_step)

section \<open>What the ring promises\<close>

lemma in_window_less:
  assumes "ring_inv s" and "x \<in> set (leases s)"
  shows "off (ring s) x < off (ring s) (writeIndex (ring s))" and "off (ring s) x < frame_ring_size"
  using assms by (auto simp: ring_inv_def window_def)

lemma slot_kept_by_step:
  assumes "ring_step s t" and inv: "ring_inv s" and x: "x \<in> set (leases s)" "x \<in> set (leases t)"
  shows "slot_at (ring t) x = slot_at (ring s) x"
  using assms(1)
proof cases
  case (producer_fill tex ts fence pid generation)
  have "x \<noteq> writeIndex (ring s)" using in_window_less(1) [OF inv x(1)] by auto
  moreover have "off (ring s) (writeIndex (ring s)) < frame_ring_size"
    using producer_fill by (simp add: off_def)
  moreover have "length (slots (ring s)) = frame_ring_size" using inv by (simp add: ring_inv_def)
  ultimately show ?thesis
    using producer_fill in_window_less(2) [OF inv x(1)] by (simp add: slot_at_write_slot)
next
  case (complete i)
  have i: "off (ring s) i < frame_ring_size" using in_window_less(2) [OF inv complete(2)] .
  have "x \<noteq> i" using x(2) complete inv by (auto simp: ring_inv_def)
  with complete i in_window_less(2) [OF inv x(1)] inv show ?thesis
    by (simp add: complete_mark_def slot_at_set_valid ring_inv_def)
next
  case (publish ok r')
  then show ?thesis by (auto simp: publish_attempt_def Let_def split: if_splits)
qed (auto simp: signal_frame_ready_def cursor_take_def cursor_advance_def Let_def split: if_splits)

text \<open>C3: whatever the interleaving, no step of the producer, the ingest thread or another
  lease holder changes the metadata of a slot while its lease lives.\<close>

theorem lease_pins_slot:
  assumes "reachable_from ring_init ring_step s" and "ring_step s t"
    and "x \<in> set (leases s)" and "x \<in> set (leases t)"
  shows "slot_at (ring t) x = slot_at (ring s) x \<and> frameIndex (slot_at (ring t) x) = x"
proof -
  have inv: "ring_inv s" using frame_ring_system.reachable_inv [OF assms(1)] .
  have "off (ring s) x < window s" using in_window_less(1) [OF inv assms(3)] by (simp add: window_def)
  then have "frameIndex (slot_at (ring s) x) = x" using inv by (simp add: ring_inv_def)
  with slot_kept_by_step [OF assms(2) inv assms(3,4)] show ?thesis by simp
qed

text \<open>in every reachable state the indices are ordered: acknowledged, ingested, published,
  and the producer is at most one ring ahead of the acknowledgement.\<close>

theorem ring_indices_ordered:
  assumes "reachable_from ring_init ring_step s"
  shows "is_frame_ring_window_valid (writeIndex (ring s)) (readIndex (ring s)) \<and>
    ingestIndex (ring s) - readIndex (ring s) \<le> writeIndex (ring s) - readIndex (ring s)"
  using frame_ring_system.reachable_inv [OF assms]
  by (auto simp: ring_inv_def window_def off_def is_frame_ring_window_valid_def word_le_nat_alt)

subsection \<open>Texture reuse\<close>

lemma in_scan_window:
  assumes "off r (writeIndex r) \<le> frame_ring_size"
  shows "x \<in> set (scan_window r) \<longleftrightarrow> off r x < off r (writeIndex r)"
proof -
  have "x = readIndex r + of_nat k \<longleftrightarrow> off r x = k" if "k < frame_ring_size" for k
  proof
    assume "x = readIndex r + of_nat k"
    then show "off r x = k" using that by (simp add: off_def unat_of_nat frame_ring_size_def)
  next
    assume "off r x = k"
    then have "of_nat k = x - readIndex r" by (auto simp: off_def)
    then show "x = readIndex r + of_nat k" by simp
  qed
  with assms show ?thesis by (auto simp: scan_window_def Let_def off_def image_iff)
qed

lemma find_texture_loop_free:
  "find_texture_loop r gpuReady tc first offset n cpuBusy gpuBusy = (c, cb, gb) \<Longrightarrow> c \<noteq> -1 \<Longrightarrow>
   \<not> is_capture_texture_slot_outstanding r c \<and> gpuReady c \<and> 0 \<le> c"
  by (induction n arbitrary: offset cpuBusy gpuBusy) (auto simp: Let_def split: if_splits)

lemma find_available_free:
  "find_available_capture_texture_slot_if r first textureCount gpuReady = (c, cpuBusy, gpuBusy) \<Longrightarrow> c \<noteq> -1 \<Longrightarrow>
   \<not> is_capture_texture_slot_outstanding r c \<and> gpuReady c \<and> 0 \<le> c"
  by (auto simp: find_available_capture_texture_slot_if_def split: if_splits dest: find_texture_loop_free)

lemma outstanding_iff:
  assumes "ring_inv s"
  shows "is_capture_texture_slot_outstanding (ring s) tex \<longleftrightarrow> 0 \<le> tex \<and>
    (\<exists>x. off (ring s) x < off (ring s) (writeIndex (ring s)) \<and>
      (x \<in> set (leases s) \<or> off (ring s) (ingestIndex (ring s)) \<le> off (ring s) x) \<and>
      textureIndex (slot_at (ring s) x) = tex)"
proof -
  have w: "off (ring s) (writeIndex (ring s)) \<le> frame_ring_size"
    using assms by (simp add: ring_inv_def window_def)
  have "off (ring s) x < off (ring s) (writeIndex (ring s)) \<and> valid (slot_at (ring s) x) \<noteq> 0 \<longleftrightarrow>
    off (ring s) x < off (ring s) (writeIndex (ring s)) \<and>
      (x \<in> set (leases s) \<or> off (ring s) (ingestIndex (ring s)) \<le> off (ring s) x)" for x
    using assms by (auto simp: ring_inv_def window_def)
  then show ?thesis
    unfolding is_capture_texture_slot_outstanding_def list_ex_iff Bex_def in_scan_window [OF w]
    by (auto simp: not_less)
qed

text \<open>the texture the producer picks is never one that a live lease or an unread frame
  still refers to.\<close>

theorem picked_texture_is_free:
  assumes "reachable_from ring_init ring_step s"
    and "find_available_capture_texture_slot_if (ring s) first textureCount gpuReady = (c, cpuBusy, gpuBusy)"
    and "c \<noteq> -1"
    and "off (ring s) x < off (ring s) (writeIndex (ring s))"
    and "x \<in> set (leases s) \<or> off (ring s) (ingestIndex (ring s)) \<le> off (ring s) x"
  shows "textureIndex (slot_at (ring s) x) \<noteq> c \<and> gpuReady c"
proof -
  have inv: "ring_inv s" using frame_ring_system.reachable_inv [OF assms(1)] .
  from find_available_free [OF assms(2,3)] assms(4,5) show ?thesis by (auto simp: outstanding_iff [OF inv])
qed

subsection \<open>Publication of the completed prefix\<close>

lemma publish_prefix_takeWhile:
  assumes "off r (writeIndex r) \<le> n" and "off r (writeIndex r) \<le> frame_ring_size"
  shows "publish_prefix (\<lambda>_. True) n r = r\<lparr>readIndex := readIndex r +
    of_nat (length (takeWhile (\<lambda>i. valid (slot_at r i) = 0) (scan_window r)))\<rparr>"
  using assms
proof (induction n arbitrary: r)
  case 0
  then have "scan_window r = []" by (simp add: scan_window_def off_def)
  then show ?case by simp
next
  case (Suc n)
  let ?d = "off r (writeIndex r)"
  let ?r' = "r\<lparr>readIndex := readIndex r + 1\<rparr>"
  have scan: "scan_window r = map (\<lambda>k. readIndex r + of_nat k) [0..<?d]"
    using Suc.prems(2) by (simp add: scan_window_def off_def Let_def)
  show ?case
  proof (cases "readIndex r = writeIndex r")
    case True
    then have "?d = 0" by (simp add: off_def)
    then show ?thesis using scan True by (simp add: publish_attempt_def)
  next
    case False
    then have pos: "0 < ?d" by (metis off_pos)
    then have head: "scan_window r = readIndex r # map (\<lambda>k. readIndex r + of_nat k) [Suc 0..<?d]"
      unfolding scan by (simp add: upt_conv_Cons)
    show ?thesis
    proof (cases "valid (slot_at r (readIndex r)) = 0")
      case True
      have off': "off ?r' (writeIndex ?r') = ?d - 1"
        using False by (simp add: off_advance_read [of r "writeIndex r"]) 
      have "scan_window ?r' = map (\<lambda>k. readIndex r + 1 + of_nat k) [0..<?d - 1]"
        using Suc.prems(2) off' by (simp add: scan_window_def off_def Let_def)
      also have "\<dots> = map (\<lambda>k. readIndex r + of_nat k) [Suc 0..<?d]"
        by (rule nth_equalityI) (simp_all add: algebra_simps)
      finally have "scan_window ?r' = map (\<lambda>k. readIndex r + of_nat k) [Suc 0..<?d]" .
      with Suc.IH [of ?r'] Suc.prems off' head False True show ?thesis
        by (simp add: publish_attempt_def Let_def algebra_simps)
    qed (use head False in \<open>simp add: publish_attempt_def Let_def\<close>)
  qed
qed

lemma publish_prefix_slots [simp]:
  "slots (publish_prefix cas n r) = slots r"
  "writeIndex (publish_prefix cas n r) = writeIndex r"
  "ingestIndex (publish_prefix cas n r) = ingestIndex r"
  by (induction n arbitrary: r) (auto simp: publish_attempt_def Let_def split: if_splits option.splits)

text \<open>when the last compare-exchange succeeds, completing a slot acknowledges exactly the
  longest run of completed slots from \<^verbatim>\<open>readIndex\<close> on: 32 attempts are enough, and a slot
  completed out of order publishes nothing.\<close>

theorem complete_publishes_longest_prefix:
  assumes "complete_guard r i"
  shows "complete_inject_frame_ring_slot (\<lambda>_. True) r i = (set_valid r i 0)\<lparr>readIndex := readIndex r +
    of_nat (length (takeWhile (\<lambda>j. valid (slot_at (set_valid r i 0) j) = 0) (scan_window r)))\<rparr>"
proof -
  have w: "off (set_valid r i 0) (writeIndex (set_valid r i 0)) \<le> frame_ring_size"
    using assms by (simp add: complete_guard_def off_def Let_def)
  have "scan_window (set_valid r i 0) = scan_window r"
    by (simp only: scan_window_def ring_fields_set_valid Let_def)
  with publish_prefix_takeWhile [OF w w] assms show ?thesis
    by (simp add: complete_inject_frame_ring_slot_def)
qed

definition sample_ring :: frame_ring where
  "sample_ring = fst (signal_frame_ready (fst (signal_frame_ready empty_ring 0 10 1 7 3)) 1 20 2 7 3)"

theorem complete_publishes_longest_prefix_witness:
  "readIndex (complete_inject_frame_ring_slot (\<lambda>_. True) sample_ring 1) = 0"
proof -
  have g: "complete_guard sample_ring 1"
    by (simp add: sample_ring_def signal_frame_ready_def complete_guard_def empty_ring_def
        frame_ring_size_def write_slot_def Let_def word_le_nat_alt)
  have s: "scan_window sample_ring = [0, 1]"
    by (simp add: sample_ring_def signal_frame_ready_def scan_window_def empty_ring_def
        frame_ring_size_def write_slot_def Let_def upt_rec)
  have v: "valid (slot_at (set_valid sample_ring 1 0) 0) = 1" "readIndex sample_ring = 0"
    by (simp_all add: sample_ring_def signal_frame_ready_def slot_at_def set_valid_def empty_ring_def
        frame_ring_size_def write_slot_def Let_def slot_of_def)
  show ?thesis unfolding complete_publishes_longest_prefix [OF g] by (simp add: s v)
qed

text \<open>no lease leaks ring space: once every lease is released, a publication pass
  acknowledges everything that was ingested.\<close>

theorem released_ring_drains:
  assumes "reachable_from ring_init ring_step s" and "leases s = []"
  shows "readIndex (publish_prefix (\<lambda>_. True) frame_ring_size (ring s)) = ingestIndex (ring s)"
proof -
  let ?r = "ring s" and ?i = "off (ring s) (ingestIndex (ring s))" and ?w = "off (ring s) (writeIndex (ring s))"
  have inv: "ring_inv s" using frame_ring_system.reachable_inv [OF assms(1)] .
  then have w: "?w \<le> frame_ring_size" and iw: "?i \<le> ?w" by (auto simp: ring_inv_def window_def)
  have scan: "scan_window ?r = map (\<lambda>k. readIndex ?r + of_nat k) [0..<?w]"
    using w by (simp add: scan_window_def off_def Let_def)
  have at: "off ?r (readIndex ?r + of_nat k) = k" if "k < ?w" for k
    using that w by (simp add: off_def unat_of_nat frame_ring_size_def)
  have lo: "valid (slot_at ?r (readIndex ?r + of_nat k)) = 0" if "k < ?i" for k
    using inv assms(2) at [of k] that iw by (auto simp: ring_inv_def)
  have hi: "valid (slot_at ?r (readIndex ?r + of_nat k)) \<noteq> 0" if "?i \<le> k" "k < ?w" for k
    using inv at [of k] that by (auto simp: ring_inv_def window_def)
  have "takeWhile (\<lambda>k. valid (slot_at ?r (readIndex ?r + of_nat k)) = 0) [0..<?w] = [0..<?i]"
  proof (rule takeWhile_eq_take_P_nth [where n = ?i, THEN trans])
    show "take ?i [0..<?w] = [0..<?i]" using iw by (simp add: take_upt)
  qed (use lo hi iw in auto)
  then have "length (takeWhile (\<lambda>i. valid (slot_at ?r i) = 0) (scan_window ?r)) = ?i"
    by (simp add: scan takeWhile_map comp_def)
  then show ?thesis
    using publish_prefix_takeWhile [OF w w] by (simp add: off_def)
qed

section \<open>The whole operations are runs of steps\<close>

text \<open>A pass of publication attempts moves no lease.\<close>

definition publish_step :: "ring_sys \<Rightarrow> ring_sys \<Rightarrow> bool" where
  "publish_step s t \<longleftrightarrow> ring_step s t \<and> leases t = leases s"

lemma publish_prefix_moves: "publish_step\<^sup>*\<^sup>* s (s\<lparr>ring := publish_prefix cas n (ring s)\<rparr>)"
proof (induction n arbitrary: s)
  case (Suc n)
  show ?case
  proof (cases "publish_attempt (cas n) (ring s)")
    case (Some r')
    let ?t = "s\<lparr>ring := r'\<rparr>"
    have "publish_step s ?t" using ring_step.publish [OF Some] by (simp add: publish_step_def)
    moreover have "publish_step\<^sup>*\<^sup>* ?t (?t\<lparr>ring := publish_prefix cas n (ring ?t)\<rparr>)" by (rule Suc.IH)
    ultimately show ?thesis using Some by (simp add: converse_rtranclp_into_rtranclp)
  qed simp
qed simp

lemma publish_prefix_steps: "ring_step\<^sup>*\<^sup>* s (s\<lparr>ring := publish_prefix cas n (ring s)\<rparr>)"
  using publish_prefix_moves by (rule rtranclp_mono [THEN predicate2D, rotated]) (auto simp: publish_step_def)

lemma complete_steps:
  assumes "i \<in> set (leases s)"
  shows "ring_step\<^sup>*\<^sup>* s (s\<lparr>ring := complete_inject_frame_ring_slot cas (ring s) i,
                          leases := remove1 i (leases s)\<rparr>)"
proof -
  let ?t = "s\<lparr>ring := complete_mark (ring s) i, leases := remove1 i (leases s)\<rparr>"
  have "ring_step s ?t" using assms by (rule ring_step.complete)
  moreover have "ring_step\<^sup>*\<^sup>* ?t (?t\<lparr>ring := complete_inject_frame_ring_slot cas (ring s) i\<rparr>)"
    using publish_prefix_steps [of ?t cas frame_ring_size]
    by (cases "complete_guard (ring s) i")
       (simp_all add: complete_inject_frame_ring_slot_def complete_mark_def)
  moreover have "?t\<lparr>ring := r\<rparr> = s\<lparr>ring := r, leases := remove1 i (leases s)\<rparr>" for r
    by (cases s) simp
  ultimately show ?thesis by (simp add: converse_rtranclp_into_rtranclp)
qed

lemma signal_steps:
  assumes "\<not> filled s"
  shows "ring_step\<^sup>*\<^sup>* s (s\<lparr>ring := fst (signal_frame_ready (ring s) tex ts fence pid generation)\<rparr>)"
proof (cases "frame_ring_size \<le> unat (writeIndex (ring s) - readIndex (ring s))")
  case True
  then show ?thesis using assms
    by (intro r_into_rtranclp ring_step.producer_drop) (auto simp: signal_frame_ready_def)
next
  case False
  let ?f = "s\<lparr>ring := write_slot (ring s) (writeIndex (ring s)) tex ts fence pid generation,
             filled := True\<rparr>"
  have "ring_step s ?f" using assms False by (intro ring_step.producer_fill) simp_all
  moreover have "ring_step ?f (?f\<lparr>ring := (ring ?f)\<lparr>writeIndex := writeIndex (ring ?f) + 1\<rparr>,
      filled := False\<rparr>)" by (rule ring_step.producer_publish) simp
  ultimately have "ring_step\<^sup>*\<^sup>* s (?f\<lparr>ring := (ring ?f)\<lparr>writeIndex := writeIndex (ring ?f) + 1\<rparr>,
      filled := False\<rparr>)" by (meson converse_rtranclp_into_rtranclp r_into_rtranclp)
  moreover have "s\<lparr>ring := r, filled := False\<rparr> = s\<lparr>ring := r\<rparr>" for r
    using assms by (cases s) simp
  ultimately show ?thesis using assms False by (simp add: signal_frame_ready_def Let_def)
qed

lemma skip_steps:
  assumes "ingestIndex (ring s) \<noteq> writeIndex (ring s)"
  shows "ring_step\<^sup>*\<^sup>* s (s\<lparr>ring := fst (cursor_skip cas (ring s) (ingestIndex (ring s)))\<rparr>)"
proof -
  let ?i = "ingestIndex (ring s)"
  let ?t = "s\<lparr>ring := (ring s)\<lparr>ingestIndex := ?i + 1\<rparr>, leases := ?i # leases s\<rparr>"
  have "ring_step s ?t"
    by (rule ring_step.ingest [OF assms]) (simp add: cursor_take_def cursor_advance_def)
  moreover have "ring_step\<^sup>*\<^sup>* ?t (?t\<lparr>ring := complete_inject_frame_ring_slot cas (ring ?t) ?i,
      leases := remove1 ?i (leases ?t)\<rparr>)" by (rule complete_steps) simp
  moreover have "s\<lparr>ring := r, leases := leases s\<rparr> = s\<lparr>ring := r\<rparr>" for r by (cases s) simp
  ultimately show ?thesis
    by (simp add: cursor_skip_def cursor_advance_def converse_rtranclp_into_rtranclp)
qed

text \<open>the code's whole operations refine the interleaved steps: a call of
  \<^verbatim>\<open>SignalFrameReady\<close>, a lease release and a \<^verbatim>\<open>Skip\<close> are each a run of steps, whatever the
  compare-exchanges do, so everything proved of reachable states holds after them.\<close>

theorem operations_refine_steps:
  assumes "\<not> filled s" and "i \<in> set (leases s)" and "ingestIndex (ring s) \<noteq> writeIndex (ring s)"
  shows "ring_step\<^sup>*\<^sup>* s (s\<lparr>ring := fst (signal_frame_ready (ring s) tex ts fence pid generation)\<rparr>) \<and>
    ring_step\<^sup>*\<^sup>* s (s\<lparr>ring := complete_inject_frame_ring_slot cas (ring s) i,
                       leases := remove1 i (leases s)\<rparr>) \<and>
    ring_step\<^sup>*\<^sup>* s (s\<lparr>ring := fst (cursor_skip cas (ring s) (ingestIndex (ring s)))\<rparr>)"
  using signal_steps [OF assms(1)] complete_steps [OF assms(2)] skip_steps [OF assms(3)] by simp

section \<open>Teardown and resynchronisation\<close>

text \<open>Leases that survive any completion of other slots.\<close>

definition held :: "frame_ring \<Rightarrow> u32 set \<Rightarrow> bool" where
  "held r L \<longleftrightarrow> length (slots r) = frame_ring_size \<and> off r (writeIndex r) \<le> frame_ring_size \<and>
     (\<forall>x\<in>L. off r x < off r (writeIndex r) \<and> valid (slot_at r x) \<noteq> 0)"

lemma held_attempt:
  assumes "held r L" and "publish_attempt ok r = Some r'"
  shows "held r' L \<and> (\<forall>x\<in>L. slot_at r' x = slot_at r x)"
proof (cases ok)
  case True
  then have r': "r' = r\<lparr>readIndex := readIndex r + 1\<rparr>" and ne: "readIndex r \<noteq> writeIndex r"
    and v: "valid (slot_at r (readIndex r)) = 0"
    using assms(2) by (auto simp: publish_attempt_def Let_def split: if_splits)
  have "readIndex r \<notin> L" using assms(1) v by (auto simp: held_def)
  moreover have "0 < off r (writeIndex r)" "\<And>x. x \<in> L \<Longrightarrow> 0 < off r x"
    using ne off_pos calculation by metis+
  ultimately show ?thesis
    using assms(1) ne by (auto simp: held_def r' off_advance_read diff_less_mono Suc_le_eq)
qed (use assms in \<open>auto simp: publish_attempt_def Let_def split: if_splits\<close>)

lemma held_publish_prefix:
  "held r L \<Longrightarrow> held (publish_prefix cas n r) L \<and> (\<forall>x\<in>L. slot_at (publish_prefix cas n r) x = slot_at r x)"
proof (induction n arbitrary: r)
  case (Suc n)
  show ?case
  proof (cases "publish_attempt (cas n) r")
    case (Some r')
    from held_attempt [OF Suc.prems Some] Suc.IH [of r'] Some show ?thesis by simp
  qed (use Suc.prems in simp)
qed simp

lemma held_complete:
  assumes "held r L" and "i \<notin> L"
  shows "held (complete_inject_frame_ring_slot cas r i) L \<and>
    (\<forall>x\<in>L. slot_at (complete_inject_frame_ring_slot cas r i) x = slot_at r x) \<and>
    writeIndex (complete_inject_frame_ring_slot cas r i) = writeIndex r"
proof (cases "complete_guard r i")
  case True
  have i: "off r i < frame_ring_size"
    using True by (auto simp: complete_guard_def off_def Let_def word_le_nat_alt)
  have at: "slot_at (set_valid r i 0) x = slot_at r x" if "x \<in> L" for x
    using that assms i by (subst slot_at_set_valid) (auto simp: held_def)
  then have "held (set_valid r i 0) L" using assms by (auto simp: held_def)
  from held_publish_prefix [OF this, of cas frame_ring_size] at True show ?thesis
    by (simp add: complete_inject_frame_ring_slot_def)
qed (use assms in \<open>simp add: complete_inject_frame_ring_slot_def\<close>)

lemma held_discard_loop:
  assumes "discard_loop cas n index r d = (r', d')" and "held r L"
    and "\<And>k. k < n \<Longrightarrow> index + of_nat k \<notin> L"
  shows "held r' L \<and> (\<forall>x\<in>L. slot_at r' x = slot_at r x) \<and> d' = d + n \<and> writeIndex r' = writeIndex r"
  using assms
proof (induction n arbitrary: index r d)
  case (Suc n)
  let ?c = "complete_inject_frame_ring_slot cas r index"
  have "index \<notin> L" using Suc.prems(3) [of 0] by simp
  note c = held_complete [OF Suc.prems(2) this, of cas]
  have "index + 1 + of_nat k \<notin> L" if "k < n" for k
    using Suc.prems(3) [of "Suc k"] that by (simp add: algebra_simps)
  with Suc.IH [of "index + 1" ?c "d + 1"] Suc.prems(1) c show ?case by auto
qed simp

lemma ring_inv_held: "ring_inv s \<Longrightarrow> held (ring s) (set (leases s))"
  using in_window_less by (auto simp: held_def ring_inv_def window_def)

text \<open>\<^verbatim>\<open>DiscardUnreadInjectFrameRingSlots\<close>, run with ingest and producer stopped, accepts
  every reachable ring, discards exactly the unread slots and leaves every live lease valid
  and inside the window.\<close>

theorem discard_spares_leases:
  assumes "reachable_from ring_init ring_step s"
    and "discard_unread_inject_frame_ring_slots cas (ring s) = (r', d)"
  shows "d = Some (unat (writeIndex (ring s) - ingestIndex (ring s))) \<and>
    ingestIndex r' = writeIndex (ring s) \<and> writeIndex r' = writeIndex (ring s) \<and>
    (\<forall>x\<in>set (leases s). slot_at r' x = slot_at (ring s) x \<and> off r' x < off r' (writeIndex r'))"
proof -
  let ?r = "ring s" and ?n = "unat (writeIndex (ring s) - ingestIndex (ring s))"
  have inv: "ring_inv s" using frame_ring_system.reachable_inv [OF assms(1)] .
  have lim: "off ?r (ingestIndex ?r) \<le> off ?r (writeIndex ?r)" "off ?r (writeIndex ?r) \<le> frame_ring_size"
    using inv by (auto simp: ring_inv_def window_def)
  obtain r1 d1 where loop: "discard_loop cas ?n (ingestIndex ?r) ?r 0 = (r1, d1)"
    by (cases "discard_loop cas ?n (ingestIndex ?r) ?r 0")
  have n: "off ?r (ingestIndex ?r) + ?n = off ?r (writeIndex ?r)"
  proof -
    have "writeIndex ?r - ingestIndex ?r = (writeIndex ?r - readIndex ?r) - (ingestIndex ?r - readIndex ?r)"
      by simp
    then have "?n = off ?r (writeIndex ?r) - off ?r (ingestIndex ?r)"
      using lim(1) unat_sub [of "ingestIndex ?r - readIndex ?r" "writeIndex ?r - readIndex ?r"]
      by (simp add: off_def word_le_nat_alt)
    then show ?thesis using lim(1) by simp
  qed
  have fresh: "ingestIndex ?r + of_nat k \<notin> set (leases s)" if "k < ?n" for k
  proof -
    have "off ?r (ingestIndex ?r + of_nat k) = unat ((ingestIndex ?r - readIndex ?r) + of_nat k)"
      by (simp add: off_def algebra_simps)
    moreover have "unat (of_nat k :: u32) = k"
      using that n lim by (simp add: unat_of_nat frame_ring_size_def)
    ultimately have "off ?r (ingestIndex ?r + of_nat k) = off ?r (ingestIndex ?r) + k"
      using that n lim unat_add_lem [of "ingestIndex ?r - readIndex ?r" "of_nat k"]
      by (simp add: off_def frame_ring_size_def)
    then show ?thesis using inv by (auto simp: ring_inv_def)
  qed
  have "is_frame_ring_window_valid (writeIndex ?r) (readIndex ?r)"
    "\<not> ingestIndex ?r - readIndex ?r > writeIndex ?r - readIndex ?r"
    using lim by (auto simp: is_frame_ring_window_valid_def off_def word_less_nat_alt)
  then have "r' = r1\<lparr>ingestIndex := writeIndex ?r\<rparr> \<and> d = Some d1"
    using assms(2) loop by (simp add: discard_unread_inject_frame_ring_slots_def Let_def)
  with held_discard_loop [OF loop ring_inv_held [OF inv] fresh] show ?thesis
    by (auto simp: held_def)
qed

lemma discard_loop_count: "snd (discard_loop cas n index r d) = d + n"
  by (induction n arbitrary: index r d) auto

lemma discard_loop_ingest: "ingestIndex (fst (discard_loop cas n index r d)) = ingestIndex r"
  by (induction n arbitrary: index r d) (auto simp: complete_inject_frame_ring_slot_def)

lemma unat_pred_dist: "w - 1 = n \<Longrightarrow> unat (w - n) \<le> (32 :: nat)" for w n :: u32
  by auto

text \<open>whatever the shared ring contains, resynchronisation touches at most
  \<open>FRAME_RING_SIZE - 1\<close> slots and leaves the cursor within one ring of the producer.\<close>

theorem resync_is_bounded:
  assumes "resync_if_overrun cas r next write = ((r', next'), res)"
  shows "skipped res \<le> frame_ring_size - 1 \<and>
    unat (write - next') \<le> frame_ring_size \<and>
    (faulted res \<longleftrightarrow> frame_ring_size < unat (write - next)) \<and>
    (faulted res \<longrightarrow> ingestIndex r' = next' \<and> next' = write - 1)"
  using assms discard_loop_count [of cas 31 "write - 32" "r\<lparr>ingestIndex := write - 1\<rparr>" 0]
    discard_loop_ingest [of cas 31 "write - 32" "r\<lparr>ingestIndex := write - 1\<rparr>" 0]
  by (auto simp: resync_if_overrun_def no_resync_def frame_ring_size_def Let_def split: if_splits prod.splits
      dest: unat_pred_dist)

section \<open>Concrete runs\<close>

text \<open>One frame published and taken, a second one published.\<close>

definition run_one :: ring_sys where
  "run_one = \<lparr>ring = fst (cursor_advance (fst (signal_frame_ready empty_ring 0 10 1 7 3)) 0),
     filled = False, leases = [0]\<rparr>"

lemma reachable_steps: "reachable_from init step s \<Longrightarrow> step\<^sup>*\<^sup>* s t \<Longrightarrow> reachable_from init step t"
  by (rotate_tac, induction rule: rtranclp_induct) (auto intro: reachable_from.more)

text \<open>The states before: empty, the first slot written, and published.\<close>

definition run_empty :: ring_sys where
  "run_empty = \<lparr>ring = empty_ring, filled = False, leases = []\<rparr>"

definition run_written :: ring_sys where
  "run_written = run_empty\<lparr>ring := write_slot empty_ring 0 0 10 1 7 3, filled := True\<rparr>"

definition run_published :: ring_sys where
  "run_published = run_empty\<lparr>ring := fst (signal_frame_ready empty_ring 0 10 1 7 3)\<rparr>"

lemmas run_defs = run_empty_def run_written_def run_published_def run_one_def

lemma run_init: "ring_init run_empty"
proof -
  have "empty_ring = empty_ring\<lparr>writeIndex := 0, readIndex := 0, ingestIndex := 0\<rparr>"
    by (simp add: empty_ring_def)
  then show ?thesis unfolding ring_init_def run_empty_def by force
qed

lemma run_written_step: "ring_step run_empty run_written"
  using ring_step.producer_fill [of run_empty 0 10 1 7 3]
  by (simp add: run_empty_def run_written_def empty_ring_def frame_ring_size_def)

lemma run_published_step: "ring_step run_written run_published"
proof -
  have "run_published = run_written\<lparr>ring := (ring run_written)\<lparr>writeIndex := writeIndex (ring run_written) + 1\<rparr>,
      filled := False\<rparr>"
    by (simp add: run_defs signal_frame_ready_def empty_ring_def frame_ring_size_def write_slot_def Let_def)
  then show ?thesis using ring_step.producer_publish [of run_written] by (simp add: run_written_def)
qed

lemma run_one_step: "ring_step run_published run_one"
proof -
  have i: "ingestIndex (ring run_published) = 0" "writeIndex (ring run_published) = 1"
    by (simp_all add: run_defs signal_frame_ready_def empty_ring_def frame_ring_size_def write_slot_def Let_def)
  have "cursor_take (ring run_published) (ingestIndex (ring run_published)) = ((ring run_one, 1), 0)"
    by (simp only: i) (simp add: run_defs cursor_take_def cursor_advance_def)
  moreover have "run_one = run_published\<lparr>ring := ring run_one, leases := 0 # leases run_published\<rparr>"
    by (simp add: run_defs)
  ultimately show ?thesis by (metis ring_step.ingest i zero_neq_one)
qed

lemma run_one_reachable: "reachable_from ring_init ring_step run_one"
  using start [of ring_init, OF run_init] run_written_step run_published_step run_one_step
  by (blast intro: more)

definition run_two :: ring_sys where
  "run_two = run_one\<lparr>ring := write_slot (ring run_one) 1 1 20 2 7 3, filled := True\<rparr>"

lemma run_one_simps:
  "readIndex (ring run_one) = 0" "writeIndex (ring run_one) = 1" "ingestIndex (ring run_one) = 1"
  "leases run_one = [0]" "filled run_one = False" "leases run_two = [0]"
  "textureIndex (slot_at (ring run_one) 0) = 0" "frameIndex (slot_at (ring run_one) 0) = 0"
  "valid (slot_at (ring run_one) 0) = 1"
  by (simp_all add: run_one_def run_two_def cursor_advance_def signal_frame_ready_def empty_ring_def
      frame_ring_size_def write_slot_def Let_def slot_at_def slot_of_def)

lemma run_two_step: "ring_step run_one run_two"
  using ring_step.producer_fill [of run_one 1 20 2 7 3]
  by (simp add: run_one_simps run_two_def frame_ring_size_def)

theorem lease_pins_slot_witness: "slot_at (ring run_two) 0 = slot_at (ring run_one) 0"
  using lease_pins_slot [OF run_one_reachable run_two_step, of 0] by (simp add: run_one_simps)

theorem ring_indices_ordered_witness:
  "is_frame_ring_window_valid (writeIndex (ring run_one)) (readIndex (ring run_one))"
  using ring_indices_ordered [OF run_one_reachable] by simp

theorem picked_texture_is_free_witness:
  "fst (find_available_capture_texture_slot_if (ring run_one) 0 2 (\<lambda>_. True)) = 1 \<and>
   textureIndex (slot_at (ring run_one) 0) \<noteq> 1"
proof -
  have out: "is_capture_texture_slot_outstanding (ring run_one) 0"
    "\<not> is_capture_texture_slot_outstanding (ring run_one) 1"
    by (simp_all add: is_capture_texture_slot_outstanding_def scan_window_def run_one_simps
        frame_ring_size_def upt_rec)
  have find: "find_available_capture_texture_slot_if (ring run_one) 0 2 (\<lambda>_. True) = (1, 1, 0)"
    by (simp add: find_available_capture_texture_slot_if_def shared_texture_slot_count_def
        eval_nat_numeral out Let_def)
  have "textureIndex (slot_at (ring run_one) 0) \<noteq> 1 \<and> True"
    by (rule picked_texture_is_free [OF run_one_reachable find]) (simp_all add: run_one_simps off_def)
  with find show ?thesis by simp
qed

theorem released_ring_drains_witness:
  "readIndex (publish_prefix (\<lambda>_. True) frame_ring_size
     (complete_inject_frame_ring_slot (\<lambda>_. False) (ring run_one) 0)) = 1"
proof -
  let ?s = "run_one\<lparr>ring := complete_inject_frame_ring_slot (\<lambda>_. False) (ring run_one) 0,
    leases := remove1 0 (leases run_one)\<rparr>"
  have "reachable_from ring_init ring_step ?s"
    by (rule reachable_steps [OF run_one_reachable complete_steps]) (simp add: run_one_simps)
  from released_ring_drains [OF this] show ?thesis
    by (simp add: run_one_simps complete_inject_frame_ring_slot_def)
qed

theorem operations_refine_steps_witness:
  "ring_step\<^sup>*\<^sup>* (run_one\<lparr>ring := (ring run_one)\<lparr>ingestIndex := 0\<rparr>\<rparr>)
     (run_one\<lparr>ring := fst (cursor_skip (\<lambda>_. True) ((ring run_one)\<lparr>ingestIndex := 0\<rparr>) 0)\<rparr>)"
  using operations_refine_steps [of "run_one\<lparr>ring := (ring run_one)\<lparr>ingestIndex := 0\<rparr>\<rparr>" 0]
  by (simp add: run_one_simps)

theorem discard_spares_leases_witness:
  "snd (discard_unread_inject_frame_ring_slots (\<lambda>_. True) (ring run_one)) = Some 0"
  using discard_spares_leases [OF run_one_reachable, of "\<lambda>_. True"]
  by (cases "discard_unread_inject_frame_ring_slots (\<lambda>_. True) (ring run_one)")
     (simp add: run_one_simps)

theorem resync_is_bounded_witness:
  "skipped (snd (resync_if_overrun (\<lambda>_. True) empty_ring 14344 0)) \<le> 31"
  using resync_is_bounded [of "\<lambda>_. True" empty_ring 14344 0]
  by (cases "resync_if_overrun (\<lambda>_. True) empty_ring 14344 0") (auto simp: frame_ring_size_def)

end
