(* ===== verification/RingBuffers.thy ===== *)
theory RingBuffers
  imports Prelude
begin

text \<open>
  The in-process ring buffers: \<^verbatim>\<open>LockFreeRingBuffer\<close> and \<^verbatim>\<open>DynamicRingBuffer\<close> of
  \<^verbatim>\<open>common/platform/ring_buffer.h\<close> (single producer, single consumer; every operation
  publishes with its last index store, so an operation is one function of the state) and the
  mutex-protected \<^verbatim>\<open>AudioRingBuffer\<close> of \<^verbatim>\<open>mediaengine/audio/audio_ring_buffer.cpp\<close>. All three
  are interpreted as bounded first-in first-out queues.
\<close>

section \<open>The fixed-size lock-free ring\<close>

text \<open>The template argument \<open>N\<close> is the length of the storage.\<close>

record 'a lock_free_ring =
  lf_buffer :: "'a list"
  lf_write :: u32
  lf_read :: u32
  lf_dropped :: u64

definition lf_capacity :: "'a lock_free_ring \<Rightarrow> nat" where
  "lf_capacity q = length (lf_buffer q)"

definition lf_masked :: "'a lock_free_ring \<Rightarrow> u32 \<Rightarrow> nat" where
  "lf_masked q i = unat (i AND of_nat (lf_capacity q - 1))"

definition lf_push :: "'a lock_free_ring \<Rightarrow> 'a \<Rightarrow> 'a lock_free_ring \<times> bool" where
  "lf_push q item =
     (let wIdx = lf_write q; rIdx = lf_read q
      in if unat (wIdx - rIdx) \<ge> lf_capacity q
         then (q\<lparr>lf_dropped := lf_dropped q + 1\<rparr>, False)
         else (q\<lparr>lf_buffer := (lf_buffer q)[lf_masked q wIdx := item], lf_write := wIdx + 1\<rparr>, True))"

definition lf_peek :: "'a lock_free_ring \<Rightarrow> 'a option" where
  "lf_peek q = (if lf_read q = lf_write q then None else Some (lf_buffer q ! lf_masked q (lf_read q)))"

definition lf_skip :: "'a lock_free_ring \<Rightarrow> 'a lock_free_ring \<times> bool" where
  "lf_skip q = (if lf_read q = lf_write q then (q, False) else (q\<lparr>lf_read := lf_read q + 1\<rparr>, True))"

definition lf_pop :: "'a lock_free_ring \<Rightarrow> ('a lock_free_ring \<times> 'a) option" where
  "lf_pop q = (if lf_read q = lf_write q then None
     else Some (q\<lparr>lf_read := lf_read q + 1\<rparr>, lf_buffer q ! lf_masked q (lf_read q)))"

definition lf_clear :: "'a lock_free_ring \<Rightarrow> 'a lock_free_ring" where
  "lf_clear q = q\<lparr>lf_read := lf_write q\<rparr>"

definition lf_size :: "'a lock_free_ring \<Rightarrow> nat" where
  "lf_size q = unat (lf_write q - lf_read q)"

definition lf_empty :: "'a lock_free_ring \<Rightarrow> bool" where
  "lf_empty q \<longleftrightarrow> lf_read q = lf_write q"

definition lf_full :: "'a lock_free_ring \<Rightarrow> bool" where
  "lf_full q \<longleftrightarrow> unat (lf_write q - lf_read q) \<ge> lf_capacity q"

definition lf_available :: "'a lock_free_ring \<Rightarrow> nat" where
  "lf_available q = sub64 (lf_capacity q) (lf_size q)"

section \<open>The dynamic ring\<close>

record 'a dynamic_ring =
  dyn_buffer :: "'a list"
  dyn_capacity :: nat
  dyn_write :: u32
  dyn_read :: u32
  dyn_dropped :: u64

definition dyn_init :: "'a \<Rightarrow> nat \<Rightarrow> 'a dynamic_ring" where
  "dyn_init dflt capacity = \<lparr>dyn_buffer = replicate capacity dflt, dyn_capacity = capacity,
     dyn_write = 0, dyn_read = 0, dyn_dropped = 0\<rparr>"

text \<open>The move constructor: the new ring and the moved-from one.\<close>

definition dyn_move :: "'a dynamic_ring \<Rightarrow> 'a dynamic_ring \<times> 'a dynamic_ring" where
  "dyn_move other = (other, other\<lparr>dyn_buffer := [], dyn_capacity := 0, dyn_write := 0, dyn_read := 0\<rparr>)"

definition dyn_push :: "'a dynamic_ring \<Rightarrow> 'a \<Rightarrow> 'a dynamic_ring \<times> bool" where
  "dyn_push q item =
     (if dyn_capacity q = 0 then (q\<lparr>dyn_dropped := dyn_dropped q + 1\<rparr>, False)
      else let wIdx = dyn_write q; rIdx = dyn_read q
           in if unat (wIdx - rIdx) \<ge> dyn_capacity q
              then (q\<lparr>dyn_dropped := dyn_dropped q + 1\<rparr>, False)
              else (q\<lparr>dyn_buffer := (dyn_buffer q)[unat wIdx mod dyn_capacity q := item],
                      dyn_write := wIdx + 1\<rparr>, True))"

definition dyn_pop :: "'a dynamic_ring \<Rightarrow> ('a dynamic_ring \<times> 'a) option" where
  "dyn_pop q = (if dyn_read q = dyn_write q then None
     else Some (q\<lparr>dyn_read := dyn_read q + 1\<rparr>, dyn_buffer q ! (unat (dyn_read q) mod dyn_capacity q)))"

definition dyn_peek :: "'a dynamic_ring \<Rightarrow> 'a option" where
  "dyn_peek q = (if dyn_read q = dyn_write q then None
     else Some (dyn_buffer q ! (unat (dyn_read q) mod dyn_capacity q)))"

definition dyn_skip :: "'a dynamic_ring \<Rightarrow> 'a dynamic_ring \<times> bool" where
  "dyn_skip q = (if dyn_read q = dyn_write q then (q, False) else (q\<lparr>dyn_read := dyn_read q + 1\<rparr>, True))"

definition dyn_clear :: "'a dynamic_ring \<Rightarrow> 'a dynamic_ring" where
  "dyn_clear q = q\<lparr>dyn_read := dyn_write q\<rparr>"

definition dyn_size :: "'a dynamic_ring \<Rightarrow> nat" where
  "dyn_size q = unat (dyn_write q - dyn_read q)"

definition dyn_full :: "'a dynamic_ring \<Rightarrow> bool" where
  "dyn_full q \<longleftrightarrow> unat (dyn_write q - dyn_read q) \<ge> dyn_capacity q"

definition dyn_available :: "'a dynamic_ring \<Rightarrow> nat" where
  "dyn_available q = sub64 (dyn_capacity q) (dyn_size q)"

text \<open>\<^verbatim>\<open>std::vector::resize\<close> keeps the common prefix and default-fills.\<close>

definition vector_resize :: "'a \<Rightarrow> nat \<Rightarrow> 'a list \<Rightarrow> 'a list" where
  "vector_resize dflt n xs = take n xs @ replicate (n - length xs) dflt"

definition dyn_resize :: "'a \<Rightarrow> 'a dynamic_ring \<Rightarrow> nat \<Rightarrow> 'a dynamic_ring" where
  "dyn_resize dflt q newCapacity =
     dyn_clear (q\<lparr>dyn_buffer := vector_resize dflt newCapacity (dyn_buffer q),
                  dyn_capacity := newCapacity\<rparr>)"

section \<open>The audio ring\<close>

text \<open>Samples are opaque values; \<open>silence\<close> is \<^verbatim>\<open>0.0f\<close>. Counters are \<^verbatim>\<open>size_t\<close>, modelled
  without wrap-around: they count samples of one recording.\<close>

record 'a audio_ring =
  au_buffer :: "'a list"
  au_capacity :: nat
  au_readPos :: nat
  au_writePos :: nat
  au_available :: nat
  au_overflow :: bool
  au_dropped :: nat
  au_retained :: nat

definition au_init :: "'a \<Rightarrow> nat \<Rightarrow> 'a audio_ring" where
  "au_init silence capacitySamples = \<lparr>au_buffer = replicate capacitySamples silence,
     au_capacity = capacitySamples, au_readPos = 0, au_writePos = 0, au_available = 0,
     au_overflow = False, au_dropped = 0, au_retained = 0\<rparr>"

text \<open>\<open>memcpy(&buffer[pos], xs, ...)\<close>, and the two-chunk copies.\<close>

definition copy_at :: "'a list \<Rightarrow> nat \<Rightarrow> 'a list \<Rightarrow> 'a list" where
  "copy_at buf pos xs = take pos buf @ xs @ drop (pos + length xs) buf"

definition au_copy_in :: "nat \<Rightarrow> 'a list \<Rightarrow> nat \<Rightarrow> 'a list \<Rightarrow> 'a list" where
  "au_copy_in currentCapacity buf writePos data =
     (let count = length data;
          firstChunk = min count (currentCapacity - writePos);
          buf1 = copy_at buf writePos (take firstChunk data);
          secondChunk = count - firstChunk
      in if secondChunk > 0 then copy_at buf1 0 (drop firstChunk data) else buf1)"

definition au_copy_out :: "nat \<Rightarrow> 'a list \<Rightarrow> nat \<Rightarrow> nat \<Rightarrow> 'a list" where
  "au_copy_out currentCapacity buf readPos toRead =
     (let firstChunk = min toRead (currentCapacity - readPos);
          secondChunk = toRead - firstChunk
      in take firstChunk (drop readPos buf) @ (if secondChunk > 0 then take secondChunk buf else []))"

definition au_write :: "'a audio_ring \<Rightarrow> 'a list \<Rightarrow> 'a audio_ring \<times> nat" where
  "au_write q data =
     (let avail = au_available q; cap = au_capacity q; count = length data
      in if cap = 0
         then (if count > 0 then q\<lparr>au_dropped := au_dropped q + count, au_overflow := True\<rparr> else q, 0)
         else let freeSpace = cap - avail;
                  (q, count) = (if count > freeSpace
                     then (q\<lparr>au_dropped := au_dropped q + (count - freeSpace), au_overflow := True\<rparr>, freeSpace)
                     else (q, count))
              in if count = 0 then (q, 0)
                 else (q\<lparr>au_buffer := au_copy_in cap (au_buffer q) (au_writePos q) (take count data),
                         au_writePos := (au_writePos q + count) mod cap,
                         au_available := avail + count\<rparr>, count))"

definition au_write_retain_new :: "'a audio_ring \<Rightarrow> 'a list \<Rightarrow> 'a audio_ring \<times> nat" where
  "au_write_retain_new q data =
     (let cap = au_capacity q
      in if cap = 0
         then (if length data > 0
               then q\<lparr>au_retained := au_retained q + length data, au_overflow := True\<rparr> else q, 0)
         else let (q, data) = (if length data > cap
                     then (q\<lparr>au_retained := au_retained q + (length data - cap), au_overflow := True\<rparr>,
                           drop (length data - cap) data)
                     else (q, data));
                  count = length data;
                  avail = au_available q;
                  freeSpace = cap - avail;
                  (q, avail) = (if count > freeSpace
                     then (q\<lparr>au_retained := au_retained q + (count - freeSpace), au_overflow := True,
                             au_readPos := (au_readPos q + (count - freeSpace)) mod cap\<rparr>,
                           avail - (count - freeSpace))
                     else (q, avail))
              in (q\<lparr>au_buffer := au_copy_in cap (au_buffer q) (au_writePos q) data,
                    au_writePos := (au_writePos q + count) mod cap,
                    au_available := avail + count\<rparr>, count))"

definition au_peek :: "'a audio_ring \<Rightarrow> nat \<Rightarrow> 'a list" where
  "au_peek q count =
     (if au_capacity q = 0 then []
      else au_copy_out (au_capacity q) (au_buffer q) (au_readPos q) (min count (au_available q)))"

definition au_skip :: "'a audio_ring \<Rightarrow> nat \<Rightarrow> 'a audio_ring \<times> nat" where
  "au_skip q count =
     (if au_capacity q = 0 then (q, 0)
      else let toSkip = min count (au_available q)
           in (q\<lparr>au_readPos := (au_readPos q + toSkip) mod au_capacity q,
                 au_available := au_available q - toSkip\<rparr>, toSkip))"

definition au_read :: "'a audio_ring \<Rightarrow> nat \<Rightarrow> 'a audio_ring \<times> 'a list" where
  "au_read q count =
     (if au_capacity q = 0 then (q, [])
      else let toRead = min count (au_available q)
           in (q\<lparr>au_readPos := (au_readPos q + toRead) mod au_capacity q,
                 au_available := au_available q - toRead\<rparr>,
               au_copy_out (au_capacity q) (au_buffer q) (au_readPos q) toRead))"

definition au_clear :: "'a audio_ring \<Rightarrow> 'a audio_ring" where
  "au_clear q = q\<lparr>au_readPos := 0, au_writePos := 0, au_available := 0, au_overflow := False,
     au_dropped := 0, au_retained := 0\<rparr>"

definition au_free :: "'a audio_ring \<Rightarrow> nat" where
  "au_free q = (if au_available q < au_capacity q then au_capacity q - au_available q else 0)"

text \<open>\<open>alloc\<close> is whether the replacement storage could be allocated.\<close>

definition au_ensure_capacity :: "'a \<Rightarrow> bool \<Rightarrow> 'a audio_ring \<Rightarrow> nat \<Rightarrow> 'a audio_ring \<times> bool" where
  "au_ensure_capacity silence alloc q newCapacitySamples =
     (if newCapacitySamples \<le> au_capacity q then (q, True)
      else if au_available q \<noteq> 0 then (q, False)
      else if \<not> alloc then (q, False)
      else (q\<lparr>au_buffer := replicate newCapacitySamples silence, au_capacity := newCapacitySamples,
              au_readPos := 0, au_writePos := 0\<rparr>, True))"

definition au_take_dropped :: "'a audio_ring \<Rightarrow> 'a audio_ring \<times> nat" where
  "au_take_dropped q = (q\<lparr>au_dropped := 0\<rparr>, au_dropped q)"

definition au_take_retained :: "'a audio_ring \<Rightarrow> 'a audio_ring \<times> nat" where
  "au_take_retained q = (q\<lparr>au_retained := 0\<rparr>, au_retained q)"

section \<open>The index rings are bounded queues\<close>

definition lf_inv :: "'a lock_free_ring \<Rightarrow> bool" where
  "lf_inv q \<longleftrightarrow> (\<exists>k\<le>31. lf_capacity q = 2 ^ k) \<and> lf_size q \<le> lf_capacity q"

definition lf_contents :: "'a lock_free_ring \<Rightarrow> 'a list" where
  "lf_contents q = ring_slice (lf_buffer q) (unat (lf_read q)) (lf_size q)"

lemma lf_masked_mod:
  assumes "lf_capacity q = 2 ^ k" and "k \<le> 31"
  shows "lf_masked q i = unat i mod lf_capacity q"
proof -
  have "of_nat (2 ^ k - 1) = (mask k :: u32)"
    by (simp add: mask_eq_exp_minus_1 of_nat_diff)
  then have "lf_masked q i = unat (take_bit k i)"
    by (simp add: lf_masked_def assms(1) take_bit_eq_mask)
  then show ?thesis by (simp add: unsigned_take_bit_eq take_bit_nat_def assms(1))
qed

lemma word_index_next:
  fixes w r :: u32
  assumes "n dvd 2 ^ 32" and "unat (w - r) = k"
  shows "unat w mod n = (unat r + k) mod n"
  using word_slot_offset [OF assms(1), of w r] assms(2) by simp

lemma word_index_step:
  assumes "n dvd 2 ^ 32"
  shows "unat (r + 1 :: u32) mod n = Suc (unat r) mod n"
  using word_slot_offset [OF assms, of "r + 1" r] by simp

lemma word_dist_pop:
  fixes w r :: u32
  assumes "r \<noteq> w"
  shows "unat (w - r) = Suc (unat (w - (r + 1)))"
  using dist_inc_base [of w r] assms unat_gt_0 [of "w - r"] by (simp add: unat_gt_0)

interpretation lock_free_queue: bounded_fifo lf_push lf_pop lf_contents lf_capacity lf_inv
proof unfold_locales
  fix q :: "'a lock_free_ring" and x
  assume inv: "lf_inv q"
  then obtain k where k: "lf_capacity q = 2 ^ k" "k \<le> 31" and size: "lf_size q \<le> lf_capacity q"
    by (auto simp: lf_inv_def)
  have dvd: "lf_capacity q dvd 2 ^ 32" using k le_imp_power_dvd [of k 32 "2 :: nat"] by simp
  have cap: "lf_capacity q \<le> 2 ^ 31" using k power_increasing [of k 31 "2 :: nat"] by simp
  note mask = lf_masked_mod [OF k]
  { assume "lf_capacity q \<le> length (lf_contents q)"
    then show "lf_contents (fst (lf_push q x)) = lf_contents q \<and> \<not> snd (lf_push q x)"
      by (simp add: lf_contents_def lf_push_def lf_size_def lf_capacity_def Let_def) }
  { assume "length (lf_contents q) < lf_capacity q"
    then have lt: "lf_size q < lf_capacity q" by (simp add: lf_contents_def)
    then have "unat (lf_write q + 1 - lf_read q) = Suc (lf_size q)"
      using dist_inc_top [of "lf_write q" "lf_read q"] cap by (simp add: lf_size_def)
    moreover have "lf_masked q (lf_write q) = (unat (lf_read q) + lf_size q) mod length (lf_buffer q)"
      unfolding mask using word_index_next [OF dvd] by (simp add: lf_size_def lf_capacity_def)
    ultimately show "lf_contents (fst (lf_push q x)) = lf_contents q @ [x] \<and> snd (lf_push q x)"
      using lt ring_slice_push [of "lf_size q" "lf_buffer q"]
      by (simp add: lf_push_def lf_contents_def lf_size_def lf_capacity_def Let_def) }
  { have "unat (lf_write q + 1 - lf_read q) = Suc (lf_size q)" if "lf_size q < lf_capacity q"
      using dist_inc_top [of "lf_write q" "lf_read q"] cap that by (simp add: lf_size_def)
    then show "lf_inv (fst (lf_push q x)) \<and> lf_capacity (fst (lf_push q x)) = lf_capacity q"
      using inv by (auto simp: lf_push_def lf_inv_def lf_size_def lf_capacity_def Let_def) }
  { assume "lf_contents q = []"
    then show "lf_pop q = None"
      by (simp add: lf_contents_def lf_pop_def lf_size_def ring_slice_def unat_eq_0) }
  { fix xs assume c: "lf_contents q = x # xs"
    then have ne: "lf_read q \<noteq> lf_write q" by (auto simp: lf_contents_def lf_size_def)
    let ?q = "q\<lparr>lf_read := lf_read q + 1\<rparr>"
    have sz: "lf_size q = Suc (lf_size ?q)" using word_dist_pop [OF ne] by (simp add: lf_size_def)
    then have split: "lf_contents q = lf_buffer q ! lf_masked q (lf_read q) # lf_contents ?q"
      using word_index_step [OF dvd, of "lf_read q"]
      by (simp add: lf_contents_def ring_slice_Suc mask lf_capacity_def
          ring_slice_cong [of "unat (lf_read q + 1)" _ "Suc (unat (lf_read q))"])
    then show "\<exists>q'. lf_pop q = Some (q', x) \<and> lf_contents q' = xs \<and> lf_inv q' \<and>
        lf_capacity q' = lf_capacity q"
      using c ne inv sz by (auto simp: lf_pop_def lf_inv_def lf_capacity_def) }
  show "length (lf_contents q) \<le> lf_capacity q" using size by (simp add: lf_contents_def)
qed

definition dyn_inv :: "'a dynamic_ring \<Rightarrow> bool" where
  "dyn_inv q \<longleftrightarrow> dyn_capacity q dvd 2 ^ 32 \<and> dyn_capacity q < 2 ^ 32 \<and>
     length (dyn_buffer q) = dyn_capacity q \<and> dyn_size q \<le> dyn_capacity q"

definition dyn_contents :: "'a dynamic_ring \<Rightarrow> 'a list" where
  "dyn_contents q = ring_slice (dyn_buffer q) (unat (dyn_read q)) (dyn_size q)"

interpretation dynamic_queue: bounded_fifo dyn_push dyn_pop dyn_contents dyn_capacity dyn_inv
proof unfold_locales
  fix q :: "'a dynamic_ring" and x
  assume inv: "dyn_inv q"
  then have dvd: "dyn_capacity q dvd 2 ^ 32" and cap: "dyn_capacity q < 2 ^ 32"
    and len: "length (dyn_buffer q) = dyn_capacity q" and size: "dyn_size q \<le> dyn_capacity q"
    by (auto simp: dyn_inv_def)
  have nz: "dyn_capacity q \<noteq> 0" using dvd by (metis dvd_0_left_iff power_not_zero zero_neq_numeral)
  { assume "dyn_capacity q \<le> length (dyn_contents q)"
    then show "dyn_contents (fst (dyn_push q x)) = dyn_contents q \<and> \<not> snd (dyn_push q x)"
      by (simp add: dyn_contents_def dyn_push_def dyn_size_def Let_def) }
  { assume "length (dyn_contents q) < dyn_capacity q"
    then have lt: "dyn_size q < dyn_capacity q" by (simp add: dyn_contents_def)
    then have "unat (dyn_write q + 1 - dyn_read q) = Suc (dyn_size q)"
      using dist_inc_top [of "dyn_write q" "dyn_read q"] cap by (simp add: dyn_size_def)
    moreover have "unat (dyn_write q) mod dyn_capacity q =
        (unat (dyn_read q) + dyn_size q) mod length (dyn_buffer q)"
      using word_index_next [OF dvd] len by (simp add: dyn_size_def)
    ultimately show "dyn_contents (fst (dyn_push q x)) = dyn_contents q @ [x] \<and> snd (dyn_push q x)"
      using lt nz len ring_slice_push [of "dyn_size q" "dyn_buffer q"]
      by (simp add: dyn_push_def dyn_contents_def dyn_size_def Let_def) }
  { have "unat (dyn_write q + 1 - dyn_read q) = Suc (dyn_size q)" if "dyn_size q < dyn_capacity q"
      using dist_inc_top [of "dyn_write q" "dyn_read q"] cap that by (simp add: dyn_size_def)
    then show "dyn_inv (fst (dyn_push q x)) \<and> dyn_capacity (fst (dyn_push q x)) = dyn_capacity q"
      using inv by (auto simp: dyn_push_def dyn_inv_def dyn_size_def Let_def) }
  { assume "dyn_contents q = []"
    then show "dyn_pop q = None"
      by (simp add: dyn_contents_def dyn_pop_def dyn_size_def ring_slice_def unat_eq_0) }
  { fix xs assume c: "dyn_contents q = x # xs"
    then have ne: "dyn_read q \<noteq> dyn_write q" by (auto simp: dyn_contents_def dyn_size_def)
    let ?q = "q\<lparr>dyn_read := dyn_read q + 1\<rparr>"
    have sz: "dyn_size q = Suc (dyn_size ?q)" using word_dist_pop [OF ne] by (simp add: dyn_size_def)
    then have split: "dyn_contents q = dyn_buffer q ! (unat (dyn_read q) mod dyn_capacity q) # dyn_contents ?q"
      using word_index_step [OF dvd, of "dyn_read q"] len
      by (simp add: dyn_contents_def ring_slice_Suc
          ring_slice_cong [of "unat (dyn_read q + 1)" _ "Suc (unat (dyn_read q))"])
    then show "\<exists>q'. dyn_pop q = Some (q', x) \<and> dyn_contents q' = xs \<and> dyn_inv q' \<and>
        dyn_capacity q' = dyn_capacity q"
      using c ne inv sz by (auto simp: dyn_pop_def dyn_inv_def) }
  show "length (dyn_contents q) \<le> dyn_capacity q" using size by (simp add: dyn_contents_def)
qed

text \<open>
  A capacity that does not divide \<open>2 ^ 32\<close> breaks the dynamic ring when the 32-bit index wraps:
  two elements pushed around the wrap share a slot, and the first is lost.
\<close>

lemma dynamic_ring_wrap_loses_element:
  fixes q :: "nat dynamic_ring"
  assumes "q = \<lparr>dyn_buffer = [0, 0, 0], dyn_capacity = 3, dyn_write = - 1, dyn_read = - 1, dyn_dropped = 0\<rparr>"
  shows "map_option snd (dyn_pop (fst (dyn_push (fst (dyn_push q 7)) 8))) = Some 8"
  by (simp add: assms dyn_push_def dyn_pop_def Let_def unsigned_minus_1_eq_mask mask_eq_exp_minus_1)

section \<open>The audio ring is a bounded queue of samples\<close>

definition au_inv :: "'a audio_ring \<Rightarrow> bool" where
  "au_inv q \<longleftrightarrow> length (au_buffer q) = au_capacity q \<and> au_available q \<le> au_capacity q \<and>
     (0 < au_capacity q \<longrightarrow> au_readPos q < au_capacity q \<and>
        au_writePos q = (au_readPos q + au_available q) mod au_capacity q)"

definition au_contents :: "'a audio_ring \<Rightarrow> 'a list" where
  "au_contents q = ring_slice (au_buffer q) (au_readPos q) (au_available q)"

lemma length_copy_at: "pos + length xs \<le> length buf \<Longrightarrow> length (copy_at buf pos xs) = length buf"
  by (simp add: copy_at_def)

lemma nth_copy_at:
  "pos + length xs \<le> length buf \<Longrightarrow> j < length buf \<Longrightarrow>
   copy_at buf pos xs ! j = (if pos \<le> j \<and> j < pos + length xs then xs ! (j - pos) else buf ! j)"
  by (auto simp: copy_at_def nth_append)

lemma length_au_copy_in:
  "w < length buf \<Longrightarrow> length data \<le> length buf \<Longrightarrow>
   length (au_copy_in (length buf) buf w data) = length buf"
  by (simp add: au_copy_in_def Let_def copy_at_def)

lemma wrapped_position:
  fixes w i n :: nat
  assumes "w < n" and "i < n"
  shows "(w + i) mod n = (if w + i < n then w + i else w + i - n)"
  using assms by (simp add: mod_if)

lemma nth_au_copy_in:
  assumes "w < length buf" and "length data \<le> length buf" and "j < length buf"
  shows "au_copy_in (length buf) buf w data ! j =
    (if w \<le> j \<and> j < w + length data then data ! (j - w)
     else if j + length buf < w + length data then data ! (j + length buf - w)
     else buf ! j)"
  using assms
  by (cases "length data \<le> length buf - w")
     (auto simp: au_copy_in_def Let_def nth_copy_at length_copy_at min_def ac_simps)

lemma au_copy_in_new:
  assumes "w < length buf" and "length data \<le> length buf" and "i < length data"
  shows "au_copy_in (length buf) buf w data ! ((w + i) mod length buf) = data ! i"
  using assms by (subst nth_au_copy_in) (auto simp: wrapped_position)

lemma au_copy_in_old:
  assumes "w < length buf" and "length data \<le> length buf" and "length data \<le> i" and "i < length buf"
  shows "au_copy_in (length buf) buf w data ! ((w + i) mod length buf) = buf ! ((w + i) mod length buf)"
  using assms by (subst nth_au_copy_in) (auto simp: wrapped_position)

lemma ring_slice_copy_in:
  assumes "0 < length buf" and "n + length data \<le> length buf"
  shows "ring_slice (au_copy_in (length buf) buf ((r + n) mod length buf) data) r (n + length data) =
    ring_slice buf r n @ data"
proof (rule nth_equalityI)
  let ?w = "(r + n) mod length buf"
  let ?b = "au_copy_in (length buf) buf ?w data"
  have w: "?w < length buf" using assms(1) by simp
  have len: "length ?b = length buf" using length_au_copy_in [OF w] assms(2) by simp
  fix k assume "k < length (ring_slice ?b r (n + length data))"
  then have k: "k < n + length data" by simp
  show "ring_slice ?b r (n + length data) ! k = (ring_slice buf r n @ data) ! k"
  proof (cases "k < n")
    case True
    have "(?w + (length buf - n + k)) mod length buf = ((r + n) + (length buf - n + k)) mod length buf"
      by (rule mod_add_left_eq)
    also have "(r + n) + (length buf - n + k) = (r + k) + length buf" using assms(2) by simp
    finally have "(r + k) mod length buf = (?w + (length buf - n + k)) mod length buf" by simp
    with au_copy_in_old [OF w, of data "length buf - n + k"] assms(2) True k len show ?thesis
      by (simp add: ring_slice_def nth_append)
  next
    case False
    have "(?w + (k - n)) mod length buf = ((r + n) + (k - n)) mod length buf" by (rule mod_add_left_eq)
    then have "(r + k) mod length buf = (?w + (k - n)) mod length buf" using False by simp
    with au_copy_in_new [OF w, of data "k - n"] assms(2) False k len show ?thesis
      by (simp add: ring_slice_def nth_append)
  qed
qed simp

lemma au_copy_out_slice:
  assumes "r < length buf" and "n \<le> length buf"
  shows "au_copy_out (length buf) buf r n = ring_slice buf r n"
proof (rule nth_equalityI)
  fix k assume "k < length (au_copy_out (length buf) buf r n)"
  then show "au_copy_out (length buf) buf r n ! k = ring_slice buf r n ! k"
    using assms
    by (auto simp: au_copy_out_def Let_def ring_slice_def nth_append wrapped_position min_def ac_simps
        split: if_splits)
qed (use assms in \<open>auto simp: au_copy_out_def Let_def\<close>)

lemma ring_slice_drop: "d \<le> n \<Longrightarrow> ring_slice buf (r + d) (n - d) = drop d (ring_slice buf r n)"
  using ring_slice_add [of buf r d "n - d"] by simp

lemma ring_slice_take: "m \<le> n \<Longrightarrow> ring_slice buf r m = take m (ring_slice buf r n)"
  using ring_slice_add [of buf r m "n - m"] by simp

lemma au_copy_in_contents:
  assumes "au_inv q" and "0 < au_capacity q" and "au_available q + length data \<le> au_capacity q"
  shows "ring_slice (au_copy_in (au_capacity q) (au_buffer q) (au_writePos q) data) (au_readPos q)
    (au_available q + length data) = au_contents q @ data"
  using assms ring_slice_copy_in [of "au_buffer q" "au_available q" data "au_readPos q"]
  by (simp add: au_inv_def au_contents_def)

lemma length_copy_in_inv:
  assumes "au_inv q" and "0 < au_capacity q" and "length data \<le> au_capacity q"
  shows "length (au_copy_in (au_capacity q) (au_buffer q) (au_writePos q) data) = au_capacity q"
  using assms length_au_copy_in [of "au_writePos q" "au_buffer q" data] by (simp add: au_inv_def)

lemma au_write_spec:
  assumes inv: "au_inv q" and w: "au_write q data = (q', n)"
  shows "au_inv q' \<and> n = min (length data) (au_free q) \<and> au_contents q' = au_contents q @ take n data \<and>
    au_dropped q' = au_dropped q + (length data - n) \<and> au_retained q' = au_retained q \<and>
    au_capacity q' = au_capacity q"
proof (cases "au_capacity q = 0")
  case True
  then show ?thesis using inv w
    by (auto simp: au_write_def au_inv_def au_free_def au_contents_def Let_def split: if_splits)
next
  case False
  have n: "n = min (length data) (au_free q)"
    using w False inv by (auto simp: au_write_def au_free_def au_inv_def Let_def split: if_splits)
  then have room: "au_available q + length (take n data) \<le> au_capacity q"
    using inv by (auto simp: au_free_def au_inv_def)
  have cont: "ring_slice (au_copy_in (au_capacity q) (au_buffer q) (au_writePos q) (take n data))
      (au_readPos q) (au_available q + n) = au_contents q @ take n data"
    using au_copy_in_contents [OF inv _ room] False n by simp
  have len: "length (au_copy_in (au_capacity q) (au_buffer q) (au_writePos q) (take n data)) = au_capacity q"
    using length_copy_in_inv [OF inv, of "take n data"] room False by simp
  have pos: "(au_writePos q + n) mod au_capacity q = (au_readPos q + (au_available q + n)) mod au_capacity q"
    using inv False by (simp add: au_inv_def mod_add_left_eq add.assoc)
  have free: "au_free q = au_capacity q - au_available q" by (simp add: au_free_def)
  have result: "q' = (let d = (if length data > au_free q
         then q\<lparr>au_dropped := au_dropped q + (length data - au_free q), au_overflow := True\<rparr> else q)
       in if n = 0 then d else d\<lparr>au_buffer := au_copy_in (au_capacity q) (au_buffer q) (au_writePos q) (take n data),
            au_writePos := (au_writePos q + n) mod au_capacity q, au_available := au_available q + n\<rparr>)"
    using w False n inv unfolding free by (auto simp: au_write_def au_inv_def Let_def split: if_splits)
  show ?thesis
  proof (cases "n = 0")
    case True
    then show ?thesis using inv n result by (auto simp: au_inv_def au_contents_def Let_def)
  next
    case ne: False
    then have "au_contents q' = au_contents q @ take n data"
      using result cont by (simp add: au_contents_def Let_def)
    moreover have "au_inv q'" using result ne inv len pos room n by (auto simp: au_inv_def Let_def)
    ultimately show ?thesis using result ne n by (auto simp: Let_def)
  qed
qed

lemma au_read_spec:
  assumes inv: "au_inv q" and r: "au_read q count = (q', out)"
  shows "au_inv q' \<and> out = take count (au_contents q) \<and> au_contents q' = drop count (au_contents q) \<and>
    au_capacity q' = au_capacity q"
proof (cases "au_capacity q = 0")
  case True
  then show ?thesis using inv r by (auto simp: au_read_def au_inv_def au_contents_def)
next
  case False
  let ?n = "min count (au_available q)"
  have len: "au_readPos q < length (au_buffer q)" "?n \<le> length (au_buffer q)"
    "length (au_buffer q) = au_capacity q"
    using inv False by (auto simp: au_inv_def)
  have q': "q' = q\<lparr>au_readPos := (au_readPos q + ?n) mod au_capacity q, au_available := au_available q - ?n\<rparr>"
    and out: "out = au_copy_out (au_capacity q) (au_buffer q) (au_readPos q) ?n"
    using r False by (auto simp: au_read_def Let_def)
  have "out = take ?n (au_contents q)"
    using au_copy_out_slice [OF len(1,2)] ring_slice_take [of ?n "au_available q"] len(3) out
    by (simp add: au_contents_def)
  moreover have "au_contents q' = ring_slice (au_buffer q) (au_readPos q + ?n) (au_available q - ?n)"
    using q' ring_slice_mod [of "au_buffer q" "au_readPos q + ?n"] len(3)
    by (simp add: au_contents_def del: ring_slice_mod)
  then have "au_contents q' = drop ?n (au_contents q)"
    using ring_slice_drop [of ?n "au_available q"] by (simp add: au_contents_def)
  moreover have wp: "au_writePos q = ((au_readPos q + ?n) mod au_capacity q + (au_available q - ?n)) mod au_capacity q"
  proof -
    have "((au_readPos q + ?n) mod au_capacity q + (au_available q - ?n)) mod au_capacity q =
        (au_readPos q + ?n + (au_available q - ?n)) mod au_capacity q" by (rule mod_add_left_eq)
    also have "au_readPos q + ?n + (au_available q - ?n) = au_readPos q + au_available q" by simp
    finally show ?thesis using inv False by (simp add: au_inv_def)
  qed
  have "au_available q - ?n \<le> au_capacity q" using inv by (auto simp: au_inv_def)
  then have "au_inv q'"
    unfolding au_inv_def q' using inv False wp [symmetric] by (simp add: au_inv_def)
  moreover have "length (au_contents q) = au_available q" by (simp add: au_contents_def)
  ultimately show ?thesis using q' by (auto simp: min_def)
qed

lemma au_skip_spec:
  assumes "au_inv q" and "au_skip q count = (q', n)"
  shows "au_inv q' \<and> n = min count (length (au_contents q)) \<and> au_contents q' = drop count (au_contents q)"
proof -
  have "q' = fst (au_read q count)" using assms(2) by (auto simp: au_skip_def au_read_def Let_def)
  moreover have "n = min count (length (au_contents q))"
    using assms by (auto simp: au_skip_def au_contents_def au_inv_def Let_def split: if_splits)
  ultimately show ?thesis using au_read_spec [OF assms(1)] by (cases "au_read q count") auto
qed

lemma au_retain_inv:
  assumes inv: "au_inv q" and cap: "0 < au_capacity q" and d: "length data \<le> au_capacity q"
    and n: "n = length data - (au_capacity q - au_available q)"
    and r: "r = q\<lparr>au_buffer := au_copy_in (au_capacity q) (au_buffer q) (au_writePos q) data,
       au_readPos := (au_readPos q + n) mod au_capacity q,
       au_writePos := (au_writePos q + length data) mod au_capacity q,
       au_available := au_available q - n + length data\<rparr>"
  shows "au_inv r \<and> au_contents r = drop n (au_contents q) @ data"
proof -
  let ?q = "q\<lparr>au_readPos := (au_readPos q + n) mod au_capacity q, au_available := au_available q - n\<rparr>"
  have le: "n \<le> au_available q" using n d inv by (auto simp: au_inv_def)
  then have skip: "au_skip q n = (?q, n)" using cap by (simp add: au_skip_def)
  from au_skip_spec [OF inv skip] have iq: "au_inv ?q" and cq: "au_contents ?q = drop n (au_contents q)"
    by auto
  have room: "au_available ?q + length data \<le> au_capacity ?q"
    using n d inv by (auto simp: au_inv_def)
  have cont: "au_contents r = au_contents ?q @ data"
    using au_copy_in_contents [OF iq _ room] cap by (simp add: au_contents_def r)
  have len: "length (au_copy_in (au_capacity q) (au_buffer q) (au_writePos q) data) = au_capacity q"
    using length_copy_in_inv [OF iq _ , of data] cap d by simp
  have "(au_writePos q + length data) mod au_capacity q =
      (au_readPos ?q + (au_available ?q + length data)) mod au_capacity q"
    using iq cap by (simp add: au_inv_def mod_add_left_eq add.assoc)
  then have "au_inv r" using len room cap by (simp add: au_inv_def r)
  with cont cq show ?thesis by simp
qed

lemma au_write_retain_new_spec:
  assumes inv: "au_inv q" and w: "au_write_retain_new q data = (q', n)"
  shows "au_inv q' \<and> n = min (length data) (au_capacity q) \<and>
    au_contents q' = drop (length (au_contents q) + length data - au_capacity q) (au_contents q @ data) \<and>
    au_retained q' = au_retained q + (length (au_contents q) + length data - au_capacity q) \<and>
    au_dropped q' = au_dropped q \<and> au_capacity q' = au_capacity q"
proof (cases "au_capacity q = 0")
  case True
  then have "au_contents q = []" using inv by (simp add: au_inv_def au_contents_def)
  with True inv w show ?thesis
    by (auto simp: au_write_retain_new_def au_inv_def au_contents_def Let_def split: if_splits)
next
  case False
  define d where "d = drop (length data - au_capacity q) data"
  define m where "m = length d - (au_capacity q - au_available q)"
  have d: "length d \<le> au_capacity q" "length d = min (length data) (au_capacity q)"
    by (auto simp: d_def)
  define r where "r = q\<lparr>au_buffer := au_copy_in (au_capacity q) (au_buffer q) (au_writePos q) d,
       au_readPos := (au_readPos q + m) mod au_capacity q,
       au_writePos := (au_writePos q + length d) mod au_capacity q,
       au_available := au_available q - m + length d\<rparr>"
  have c: "length (au_contents q) = au_available q" by (simp add: au_contents_def)
  have spec: "au_inv r \<and> au_contents r = drop m (au_contents q) @ d"
    by (rule au_retain_inv [OF inv _ d(1) m_def r_def]) (use False in simp)
  have pos: "au_readPos q mod au_capacity q = au_readPos q" using inv False by (simp add: au_inv_def)
  have "\<exists>ov. q' = r\<lparr>au_overflow := ov, au_retained :=
      au_retained q + (length data - au_capacity q) + m\<rparr> \<and> n = length d"
    using w False pos inv unfolding r_def m_def d_def
    by (intro exI [of _ "au_overflow q'"])
       (auto simp: au_write_retain_new_def Let_def au_inv_def split: if_splits)
  then obtain ov where q': "q' = r\<lparr>au_overflow := ov, au_retained :=
      au_retained q + (length data - au_capacity q) + m\<rparr>" "n = length d" by blast
  have total: "length (au_contents q) + length data - au_capacity q = length data - au_capacity q + m"
    using inv by (auto simp: c m_def d au_inv_def min_def)
  have "au_contents q' = drop m (au_contents q) @ d" "au_inv q'"
    using spec unfolding q'(1) by (simp_all add: au_contents_def au_inv_def)
  moreover have "drop m (au_contents q) @ d =
      drop (length data - au_capacity q + m) (au_contents q @ data)"
  proof (cases "length data \<le> au_capacity q")
    case True
    then have "d = data" "m \<le> length (au_contents q)"
      using inv by (auto simp: d_def m_def c au_inv_def)
    then show ?thesis using True by simp
  next
    case False
    then have "m = au_available q" using inv d by (auto simp: m_def au_inv_def)
    then show ?thesis by (simp add: c d_def)
  qed
  ultimately show ?thesis using q' total d by (simp add: r_def)
qed

definition au_push :: "'a audio_ring \<Rightarrow> 'a \<Rightarrow> 'a audio_ring \<times> bool" where
  "au_push q x = (case au_write q [x] of (q', n) \<Rightarrow> (q', n = 1))"

definition au_pop :: "'a audio_ring \<Rightarrow> ('a audio_ring \<times> 'a) option" where
  "au_pop q = (case au_read q 1 of (q', out) \<Rightarrow> (case out of [] \<Rightarrow> None | x # _ \<Rightarrow> Some (q', x)))"

interpretation audio_queue: bounded_fifo au_push au_pop au_contents au_capacity au_inv
proof unfold_locales
  fix q :: "'a audio_ring" and x
  assume inv: "au_inv q"
  have len: "length (au_contents q) = au_available q" by (simp add: au_contents_def)
  obtain q' n where w: "au_write q [x] = (q', n)" by (cases "au_write q [x]")
  note spec = au_write_spec [OF inv w]
  { assume "au_capacity q \<le> length (au_contents q)"
    then show "au_contents (fst (au_push q x)) = au_contents q \<and> \<not> snd (au_push q x)"
      using spec w len by (simp add: au_push_def au_free_def) }
  { assume "length (au_contents q) < au_capacity q"
    then show "au_contents (fst (au_push q x)) = au_contents q @ [x] \<and> snd (au_push q x)"
      using spec w len by (simp add: au_push_def au_free_def) }
  show "au_inv (fst (au_push q x)) \<and> au_capacity (fst (au_push q x)) = au_capacity q"
    using spec w by (simp add: au_push_def)
  obtain r out where rd: "au_read q 1 = (r, out)" by (cases "au_read q 1")
  note rspec = au_read_spec [OF inv rd]
  { assume "au_contents q = []"
    then show "au_pop q = None" using rspec rd by (simp add: au_pop_def) }
  { fix xs assume "au_contents q = x # xs"
    then show "\<exists>q'. au_pop q = Some (q', x) \<and> au_contents q' = xs \<and> au_inv q' \<and>
        au_capacity q' = au_capacity q"
      using rspec rd by (simp add: au_pop_def) }
  show "length (au_contents q) \<le> au_capacity q" using inv len by (simp add: au_inv_def)
qed

section \<open>What the rings promise\<close>

text \<open>over any schedule of pushes and pops, wrapped indices included, the two index rings
  deliver what they accepted, once each and in order, and hold the rest; a dropped element is
  one whose push reported it.\<close>

theorem index_rings_fifo:
  assumes "lf_inv (q :: 'a lock_free_ring)" and "run_queue lf_push lf_pop q ops = (q', acc, out)"
    and "dyn_inv (d :: 'a dynamic_ring)" and "run_queue dyn_push dyn_pop d ops = (d', acc', out')"
  shows "lf_contents q @ acc = out @ lf_contents q' \<and> dyn_contents d @ acc' = out' @ dyn_contents d'"
  using lock_free_queue.run_queue_fifo [OF assms(1,2)] dynamic_queue.run_queue_fifo [OF assms(3,4)]
  by simp

theorem index_rings_fifo_witness:
  "lf_contents (fst (run_queue lf_push lf_pop
      \<lparr>lf_buffer = [0, 0], lf_write = - 1, lf_read = - 1, lf_dropped = 0\<rparr> [Push 1, Push 2, Push 3, Pop]))
    = [2 :: nat]"
proof -
  let ?q = "\<lparr>lf_buffer = [0, 0], lf_write = - 1, lf_read = - 1, lf_dropped = 0\<rparr> :: nat lock_free_ring"
  let ?d = "dyn_init 0 2 :: nat dynamic_ring"
  let ?ops = "[Push 1, Push 2, Push 3, Pop] :: nat queue_op list"
  have iq: "lf_inv ?q" by (auto simp: lf_inv_def lf_capacity_def lf_size_def intro: exI [of _ 1])
  have id: "dyn_inv ?d" by (simp add: dyn_inv_def dyn_init_def dyn_size_def)
  obtain q' acc out where q: "run_queue lf_push lf_pop ?q ?ops = (q', acc, out)"
    by (cases "run_queue lf_push lf_pop ?q ?ops")
  obtain d' acc' out' where d: "run_queue dyn_push dyn_pop ?d ?ops = (d', acc', out')"
    by (cases "run_queue dyn_push dyn_pop ?d ?ops")
  have "acc = [1, 2] \<and> out = [1]"
    using q by (auto simp: lf_push_def lf_pop_def lf_capacity_def lf_masked_def Let_def split: prod.splits)
  with index_rings_fifo [OF iq q id d] q show ?thesis
    by (simp add: lf_contents_def lf_size_def)
qed

text \<open>C4: \<^verbatim>\<open>WriteRetainNew\<close> always ends with the newest samples: the ring then holds the last
  \<open>capacity\<close> samples of what it held followed by the new data, and the telemetry counter
  grows by exactly the number of samples that left it unread; \<^verbatim>\<open>Write\<close> instead keeps the old
  samples and counts the new ones it refused.\<close>

theorem audio_overflow_policies:
  assumes "au_inv q" and "au_write_retain_new q data = (r, n)" and "au_write q data = (w, m)"
  shows "au_contents r = drop (length (au_contents q) + length data - au_capacity q) (au_contents q @ data) \<and>
    au_retained r = au_retained q + (length (au_contents q) + length data - au_capacity q) \<and>
    au_contents w = take (au_capacity q) (au_contents q @ data) \<and>
    au_dropped w = au_dropped q + (length (au_contents q) + length data - au_capacity q)"
proof -
  have le: "length (au_contents q) \<le> au_capacity q" "length (au_contents q) = au_available q"
    using assms(1) by (auto simp: au_inv_def au_contents_def)
  then show ?thesis
    using au_write_retain_new_spec [OF assms(1,2)] au_write_spec [OF assms(1,3)]
    by (auto simp: au_free_def min_def)
qed

theorem audio_overflow_policies_witness:
  "au_contents (fst (au_write_retain_new (fst (au_write (au_init 0 3) [1, 2])) [3, 4])) = [2, 3, 4 :: nat]"
proof -
  let ?q = "fst (au_write (au_init 0 3) [1, 2 :: nat])"
  have inv: "au_inv (au_init 0 3 :: nat audio_ring)" by (simp add: au_inv_def au_init_def)
  have q: "au_inv ?q \<and> au_contents ?q = [1, 2] \<and> au_capacity ?q = 3"
    using au_write_spec [OF inv, of "[1, 2 :: nat]"]
    by (cases "au_write (au_init 0 3) [1, 2 :: nat]") (simp add: au_free_def au_contents_def au_init_def)
  obtain r n where r: "au_write_retain_new ?q [3, 4] = (r, n)" by fastforce
  obtain w m where w: "au_write ?q [3, 4] = (w, m)" by fastforce
  have "au_contents r = drop (length (au_contents ?q) + 2 - au_capacity ?q) (au_contents ?q @ [3, 4])"
    using audio_overflow_policies [OF conjunct1 [OF q] r w] by simp
  then show ?thesis using q r by (simp only: fst_conv) simp
qed

text \<open>the audio ring is a queue of samples: over any schedule of single-sample writes and
  reads every accepted sample comes out once, in order.\<close>

theorem audio_ring_fifo:
  assumes "au_inv q" and "run_queue au_push au_pop q ops = (q', acc, out)"
  shows "au_inv q' \<and> au_contents q @ acc = out @ au_contents q'"
  by (rule audio_queue.run_queue_fifo [OF assms])

theorem audio_ring_fifo_witness:
  "snd (snd (run_queue au_push au_pop (au_init 0 2) [Push 1, Push 2, Push 3, Pop, Push 4, Pop, Pop]))
    = [1, 2, 4 :: nat]"
proof -
  let ?ops = "[Push 1, Push 2, Push 3, Pop, Push 4, Pop, Pop] :: nat queue_op list"
  have inv: "au_inv (au_init 0 2 :: nat audio_ring)" by (simp add: au_inv_def au_init_def)
  obtain q acc out where r: "run_queue au_push au_pop (au_init 0 2) ?ops = (q, acc, out)"
    by (cases "run_queue au_push au_pop (au_init 0 2) ?ops")
  then have "acc = [1, 2, 4] \<and> au_available q = 0"
    by (auto simp: au_push_def au_pop_def au_write_def au_read_def au_init_def au_copy_in_def
        au_copy_out_def copy_at_def Let_def split: prod.splits)
  with audio_ring_fifo [OF inv r] r show ?thesis by (simp add: au_contents_def au_init_def)
qed

end
