(* ===== verification/EventQueue.thy ===== *)
theory EventQueue
  imports Prelude "HOL-Library.Sublist"
begin

text \<open>
  The runtime's bounded event queue (\<^verbatim>\<open>runtime/core/event_queue.{h,cpp}\<close>): admission with a
  budget, reservations for guaranteed events, collapsing of state events, the drop notice,
  delivery and release. Every operation runs under the queue's mutex and is one function of the
  state. A record's heap block is its address; the allocator's answer (an address, or none)
  and the clock are arguments. Texts are byte lists. The payload union is opaque, its pointer
  members are fields of the record.
\<close>

section \<open>Events and records\<close>

type_synonym bytes = "u8 list"

definition ce_ok :: int where "ce_ok = 0"
definition ce_e_invalid_argument :: int where "ce_e_invalid_argument = -1"
definition ce_e_timeout :: int where "ce_e_timeout = -7"
definition ce_e_no_memory :: int where "ce_e_no_memory = -13"

definition ev_command_completed :: int where "ev_command_completed = 2"
definition ev_recording_finalized :: int where "ev_recording_finalized = 4"
definition ev_screenshot :: int where "ev_screenshot = 5"
definition ev_events_dropped :: int where "ev_events_dropped = 10"
definition ev_recording_recovered :: int where "ev_recording_recovered = 11"

lemmas event_constants = ce_ok_def ce_e_invalid_argument_def ce_e_timeout_def ce_e_no_memory_def
  ev_command_completed_def ev_recording_finalized_def ev_screenshot_def ev_events_dropped_def
  ev_recording_recovered_def

record 'p event_draft =
  d_type :: int
  d_request :: nat
  d_status :: int
  d_message :: bytes
  d_outputPath :: bytes
  d_paths :: "bytes list"
  d_payload :: 'p

record 'p event_record =
  r_addr :: nat
  r_type :: int
  r_sequence :: nat
  r_time_us :: int
  r_request :: nat
  r_status :: int
  r_payload :: "'p option"
  r_dropped_count :: nat
  r_output_path :: "bytes option"
  r_paths :: "bytes list"
  r_message :: "bytes option"
  r_textCapacity :: nat
  r_pathSlots :: nat
  r_coalescible :: bool
  r_notice :: bool

definition k_max_path_slots :: nat where "k_max_path_slots = 64"
definition k_max_text_bytes :: nat where "k_max_text_bytes = 2 ^ 20"

definition usable_type :: "int \<Rightarrow> bool" where
  "usable_type t \<longleftrightarrow> t \<ge> 1 \<and> t \<le> 63 \<and> t \<noteq> ev_events_dropped"

definition needs_reservation :: "int \<Rightarrow> bool" where
  "needs_reservation t \<longleftrightarrow> t = ev_command_completed \<or> t = ev_recording_finalized"

definition file_event :: "int \<Rightarrow> bool" where
  "file_event t \<longleftrightarrow> t = ev_recording_finalized \<or> t = ev_recording_recovered"

fun measure_paths :: "bytes list \<Rightarrow> nat \<Rightarrow> nat \<Rightarrow> nat \<times> nat" where
  "measure_paths [] textBytes pathCount = (textBytes, pathCount)"
| "measure_paths (p # ps) textBytes pathCount =
     (if pathCount = k_max_path_slots then (textBytes, pathCount)
      else measure_paths ps (textBytes + length p + 1) (pathCount + 1))"

definition measure_draft :: "'p event_draft \<Rightarrow> nat \<times> nat" where
  "measure_draft d =
     (let t0 = (if file_event (d_type d) \<and> d_outputPath d \<noteq> [] then length (d_outputPath d) + 1 else 0);
          (t1, pathCount) = (if d_type d = ev_screenshot then measure_paths (d_paths d) t0 0 else (t0, 0));
          t2 = (if d_message d \<noteq> [] then t1 + length (d_message d) + 1 else t1)
      in (t2, pathCount))"

text \<open>The largest prefix of at most \<open>limit\<close> bytes that ends on a code point boundary.\<close>

fun utf8_back :: "bytes \<Rightarrow> nat \<Rightarrow> nat" where
  "utf8_back text 0 = 0"
| "utf8_back text (Suc limit) =
     (if text ! Suc limit AND 0xC0 = 0x80 then utf8_back text limit else Suc limit)"

definition utf8_prefix_length :: "bytes \<Rightarrow> nat \<Rightarrow> nat" where
  "utf8_prefix_length text limit =
     (if limit \<ge> length text then length text else utf8_back text limit)"

definition blank_record :: "nat \<Rightarrow> nat \<Rightarrow> nat \<Rightarrow> 'p event_record" where
  "blank_record addr textBytes pathSlots =
     \<lparr>r_addr = addr, r_type = 0, r_sequence = 0, r_time_us = 0, r_request = 0, r_status = 0,
      r_payload = None, r_dropped_count = 0, r_output_path = None, r_paths = [], r_message = None,
      r_textCapacity = textBytes, r_pathSlots = pathSlots, r_coalescible = False, r_notice = False\<rparr>"

definition allocate_record :: "nat option \<Rightarrow> nat \<Rightarrow> nat \<Rightarrow> 'p event_record option" where
  "allocate_record heap textBytes pathSlots =
     (if textBytes > k_max_text_bytes \<or> pathSlots > k_max_path_slots then None
      else map_option (\<lambda>addr. blank_record addr textBytes pathSlots) heap)"

fun place_paths :: "bytes list \<Rightarrow> nat \<Rightarrow> nat \<Rightarrow> bytes list \<times> nat" where
  "place_paths [] slots room = ([], room)"
| "place_paths (p # ps) slots room =
     (if slots = 0 \<or> length p + 1 > room then ([], room)
      else case place_paths ps (slots - 1) (room - (length p + 1)) of (placed, left) \<Rightarrow> (p # placed, left))"

text \<open>The second half of \<^verbatim>\<open>FillRecord\<close>, on the block chosen by the first.\<close>

definition write_record :: "'p event_record \<Rightarrow> 'p event_draft \<Rightarrow> int \<Rightarrow> bool \<Rightarrow> 'p event_record" where
  "write_record record d nowUs coalescible =
     (let room0 = r_textCapacity record;
          fits = file_event (d_type d) \<and> d_outputPath d \<noteq> [] \<and> length (d_outputPath d) + 1 \<le> room0;
          outPath = (if fits then Some (d_outputPath d) else None);
          room1 = (if fits then room0 - (length (d_outputPath d) + 1) else room0);
          (placed, room2) = (if \<not> file_event (d_type d) \<and> d_type d = ev_screenshot
                             then place_paths (d_paths d) (r_pathSlots record) room1 else ([], room1));
          len = (if d_message d \<noteq> [] \<and> room2 > 1 then utf8_prefix_length (d_message d) (room2 - 1) else 0)
      in record\<lparr>r_type := d_type d, r_sequence := 0, r_time_us := nowUs, r_request := d_request d,
           r_status := d_status d, r_payload := Some (d_payload d), r_dropped_count := 0,
           r_output_path := outPath, r_paths := placed,
           r_message := (if len > 0 then Some (take len (d_message d)) else None),
           r_coalescible := coalescible\<rparr>)"

definition fill_record :: "nat option \<Rightarrow> 'p event_record option \<Rightarrow> 'p event_draft \<Rightarrow> int \<Rightarrow> bool
    \<Rightarrow> 'p event_record option" where
  "fill_record heap record d nowUs coalescible =
     (case measure_draft d of (textNeeded, pathsNeeded) \<Rightarrow>
        let block = (case record of
               None \<Rightarrow> allocate_record heap textNeeded pathsNeeded
             | Some r \<Rightarrow>
                 if textNeeded > r_textCapacity r \<or> pathsNeeded > r_pathSlots r
                 then (case allocate_record heap (max textNeeded (r_textCapacity r))
                              (max pathsNeeded (r_pathSlots r)) of
                         None \<Rightarrow> Some r
                       | Some larger \<Rightarrow> Some larger)
                 else Some r)
        in map_option (\<lambda>r. write_record r d nowUs coalescible) block)"

section \<open>The queue\<close>

text \<open>\<open>q_claims\<close> are the blocks the live reservations hold.\<close>

record 'p event_queue =
  q_capacity :: nat
  q_pending :: "'p event_record list"
  q_outstanding :: "'p event_record list"
  q_claims :: "'p event_record list"
  q_used :: nat
  q_noticeOutstanding :: bool
  q_reservations :: nat
  q_unannounced :: nat
  q_droppedTotal :: nat
  q_deliveredTotal :: nat
  q_sequence :: nat
  q_noticesDelivered :: nat
  q_refusedReservations :: nat
  q_refusedMisuse :: nat
  q_refusedReleases :: nat
  q_signaled :: bool

definition create_queue :: "nat \<Rightarrow> 'p event_queue + int" where
  "create_queue capacity =
     (if capacity = 0 \<or> capacity > 2 ^ 20 then Inr ce_e_invalid_argument
      else Inl \<lparr>q_capacity = capacity, q_pending = [], q_outstanding = [], q_claims = [], q_used = 0,
        q_noticeOutstanding = False, q_reservations = 0, q_unannounced = 0, q_droppedTotal = 0,
        q_deliveredTotal = 0, q_sequence = 0, q_noticesDelivered = 0, q_refusedReservations = 0,
        q_refusedMisuse = 0, q_refusedReleases = 0, q_signaled = False\<rparr>)"

definition deliverable :: "'p event_queue \<Rightarrow> bool" where
  "deliverable q \<longleftrightarrow> q_pending q \<noteq> [] \<or> (q_unannounced q > 0 \<and> \<not> q_noticeOutstanding q)"

definition update_signal :: "'p event_queue \<Rightarrow> 'p event_queue" where
  "update_signal q = q\<lparr>q_signaled := deliverable q\<rparr>"

text \<open>\<^verbatim>\<open>CollapseStatePending\<close> walks from the tail with a 64-bit mask of the types it has seen.
  The scan of the reversed list returns what it keeps (reversed back) and how many it drops.\<close>

fun collapse_scan :: "'p event_record list \<Rightarrow> u64 \<Rightarrow> 'p event_record list \<times> nat" where
  "collapse_scan [] seen = ([], 0)"
| "collapse_scan (r # rs) seen =
     (if r_coalescible r
      then let b = push_bit (nat (r_type r)) (1 :: u64)
           in if seen AND b \<noteq> 0
              then (case collapse_scan rs seen of (kept, n) \<Rightarrow> (kept, n + 1))
              else (case collapse_scan rs (seen OR b) of (kept, n) \<Rightarrow> (kept @ [r], n))
      else (case collapse_scan rs seen of (kept, n) \<Rightarrow> (kept @ [r], n)))"

definition collapse_state_pending :: "'p event_queue \<Rightarrow> 'p event_queue" where
  "collapse_state_pending q =
     (case collapse_scan (rev (q_pending q)) 0 of (kept, n) \<Rightarrow>
        q\<lparr>q_pending := kept, q_used := q_used q - n, q_unannounced := q_unannounced q + n,
          q_droppedTotal := q_droppedTotal q + n\<rparr>)"

text \<open>Unlinks the newest coalescible record of the type; \<open>None\<close> when there is none.\<close>

fun unlink_newest :: "int \<Rightarrow> 'p event_record list \<Rightarrow> 'p event_record list option" where
  "unlink_newest t [] = None"
| "unlink_newest t (r # rs) =
     (case unlink_newest t rs of
        Some rs' \<Rightarrow> Some (r # rs')
      | None \<Rightarrow> if r_coalescible r \<and> r_type r = t then Some rs else None)"

definition admit :: "'p event_record \<Rightarrow> 'p event_queue \<Rightarrow> 'p event_queue \<times> bool" where
  "admit record q =
     (let accept = (\<lambda>q. (q\<lparr>q_pending := q_pending q @ [record], q_used := q_used q + 1\<rparr>, True))
      in if q_used q \<ge> q_capacity q
         then let q = collapse_state_pending q
              in if q_used q \<ge> q_capacity q
                 then let older = unlink_newest (r_type record) (q_pending q);
                          q = q\<lparr>q_unannounced := q_unannounced q + 1, q_droppedTotal := q_droppedTotal q + 1\<rparr>
                      in case older of
                           None \<Rightarrow> (q, False)
                         | Some rest \<Rightarrow> accept (q\<lparr>q_pending := rest, q_used := q_used q - 1\<rparr>)
                 else accept q
         else accept q)"

definition reserve :: "nat option \<Rightarrow> nat \<Rightarrow> nat \<Rightarrow> 'p event_queue \<Rightarrow> 'p event_queue \<times> nat option" where
  "reserve heap textBytes pathSlots q =
     (let record = allocate_record heap textBytes pathSlots;
          q = (if q_used q \<ge> q_capacity q then collapse_state_pending q else q)
      in case record of
           Some r \<Rightarrow>
             if q_used q < q_capacity q
             then (update_signal (q\<lparr>q_used := q_used q + 1, q_reservations := q_reservations q + 1,
                     q_claims := r # q_claims q\<rparr>), Some (r_addr r))
             else (update_signal (q\<lparr>q_refusedReservations := q_refusedReservations q + 1\<rparr>), None)
         | None \<Rightarrow> (update_signal (q\<lparr>q_refusedReservations := q_refusedReservations q + 1\<rparr>), None))"

definition drop_claim :: "nat \<Rightarrow> 'p event_record list \<Rightarrow> 'p event_record list" where
  "drop_claim addr = filter (\<lambda>r. r_addr r \<noteq> addr)"

definition find_claim :: "nat \<Rightarrow> 'p event_record list \<Rightarrow> 'p event_record option" where
  "find_claim addr = find (\<lambda>r. r_addr r = addr)"

definition cancel_reservation :: "nat \<Rightarrow> 'p event_queue \<Rightarrow> 'p event_queue" where
  "cancel_reservation addr q = update_signal
     (q\<lparr>q_used := q_used q - 1, q_reservations := q_reservations q - 1,
        q_claims := drop_claim addr (q_claims q)\<rparr>)"

text \<open>The reservation belongs to this queue; an empty one (no claim) is refused at once.\<close>

definition push_reserved :: "nat option \<Rightarrow> int \<Rightarrow> nat \<Rightarrow> 'p event_draft \<Rightarrow> 'p event_queue
    \<Rightarrow> 'p event_queue \<times> bool" where
  "push_reserved heap nowUs addr d q =
     (case find_claim addr (q_claims q) of
        None \<Rightarrow> (q, False)
      | Some r \<Rightarrow>
          if \<not> usable_type (d_type d)
          then (let q = cancel_reservation addr q in (q\<lparr>q_refusedMisuse := q_refusedMisuse q + 1\<rparr>, False))
          else (case fill_record heap (Some r) d nowUs False of
                  None \<Rightarrow> (q, False)
                | Some record \<Rightarrow>
                    (update_signal (q\<lparr>q_reservations := q_reservations q - 1,
                       q_claims := drop_claim addr (q_claims q),
                       q_pending := q_pending q @ [record]\<rparr>), True)))"

definition push_state :: "nat option \<Rightarrow> int \<Rightarrow> 'p event_draft \<Rightarrow> 'p event_queue \<Rightarrow> 'p event_queue \<times> bool" where
  "push_state heap nowUs d q =
     (if \<not> usable_type (d_type d) \<or> needs_reservation (d_type d)
      then (q\<lparr>q_refusedMisuse := q_refusedMisuse q + 1\<rparr>, False)
      else case fill_record heap None d nowUs True of
             Some record \<Rightarrow> (case admit record q of (q, accepted) \<Rightarrow> (update_signal q, accepted))
           | None \<Rightarrow> (update_signal (q\<lparr>q_unannounced := q_unannounced q + 1,
                        q_droppedTotal := q_droppedTotal q + 1\<rparr>), False))"

definition deliver :: "'p event_record \<Rightarrow> 'p event_queue \<Rightarrow> 'p event_queue \<times> 'p event_record option" where
  "deliver record q =
     (let r = record\<lparr>r_sequence := q_sequence q + 1\<rparr>
      in (update_signal (q\<lparr>q_sequence := q_sequence q + 1, q_outstanding := q_outstanding q @ [r],
            q_deliveredTotal := q_deliveredTotal q + 1\<rparr>), Some r))"

definition try_deliver :: "nat option \<Rightarrow> int \<Rightarrow> 'p event_queue \<Rightarrow> 'p event_queue \<times> 'p event_record option" where
  "try_deliver heap nowUs q =
     (let notice = (if q_unannounced q > 0 \<and> \<not> q_noticeOutstanding q
                    then allocate_record heap 0 0 else None)
      in case notice of
           Some r \<Rightarrow>
             deliver (r\<lparr>r_notice := True, r_type := ev_events_dropped, r_time_us := nowUs,
                        r_dropped_count := q_unannounced q\<rparr>)
               (q\<lparr>q_unannounced := 0, q_noticeOutstanding := True\<rparr>)
         | None \<Rightarrow>
             (case q_pending q of
                [] \<Rightarrow> (q, None)
              | r # rest \<Rightarrow> deliver r (q\<lparr>q_pending := rest\<rparr>)))"

text \<open>\<^verbatim>\<open>Next\<close>, from the moment its wait is over.\<close>

definition next_event :: "nat option \<Rightarrow> int \<Rightarrow> bool \<Rightarrow> 'p event_queue
    \<Rightarrow> 'p event_queue \<times> int \<times> 'p event_record option" where
  "next_event heap nowUs timeoutIsMax q =
     (if timeoutIsMax then (q, ce_e_invalid_argument, None)
      else case try_deliver heap nowUs q of
             (q', Some r) \<Rightarrow>
               ((if r_notice r then q'\<lparr>q_noticesDelivered := q_noticesDelivered q' + 1\<rparr> else q'), ce_ok, Some r)
           | (q', None) \<Rightarrow> (q', (if deliverable q' then ce_e_no_memory else ce_e_timeout), None))"

definition release_event :: "nat option \<Rightarrow> 'p event_queue \<Rightarrow> 'p event_queue \<times> int" where
  "release_event event q =
     (case event of
        None \<Rightarrow> (q, ce_e_invalid_argument)
      | Some addr \<Rightarrow>
          (case find (\<lambda>r. r_addr r = addr) (q_outstanding q) of
             None \<Rightarrow> (q\<lparr>q_refusedReleases := q_refusedReleases q + 1\<rparr>, ce_e_invalid_argument)
           | Some found \<Rightarrow>
               (let q = q\<lparr>q_outstanding := remove1 found (q_outstanding q)\<rparr>;
                    q = (if r_notice found then q\<lparr>q_noticeOutstanding := False\<rparr>
                         else q\<lparr>q_used := q_used q - 1\<rparr>)
                in (update_signal q, ce_ok))))"

section \<open>The queue's invariant\<close>

definition addrs :: "'p event_queue \<Rightarrow> nat list" where
  "addrs q = map r_addr (q_pending q @ q_outstanding q @ q_claims q)"

definition budget :: "'p event_queue \<Rightarrow> bool" where
  "budget q \<longleftrightarrow> q_used q = length (q_pending q) + length (filter (\<lambda>r. \<not> r_notice r) (q_outstanding q)) +
       length (q_claims q) \<and> q_reservations q = length (q_claims q) \<and> q_used q \<le> q_capacity q"

definition notices_ok :: "'p event_queue \<Rightarrow> bool" where
  "notices_ok q \<longleftrightarrow> length (filter r_notice (q_outstanding q)) = (if q_noticeOutstanding q then 1 else 0)"

definition pending_ok :: "'p event_queue \<Rightarrow> bool" where
  "pending_ok q \<longleftrightarrow> (\<forall>r\<in>set (q_pending q). \<not> r_notice r \<and> usable_type (r_type r) \<and> r_sequence r = 0) \<and>
     (\<forall>r\<in>set (q_claims q). \<not> r_notice r)"

definition queue_core :: "'p event_queue \<Rightarrow> bool" where
  "queue_core q \<longleftrightarrow> budget q \<and> distinct (addrs q) \<and> notices_ok q \<and> pending_ok q"

lemmas queue_core_defs = queue_core_def budget_def addrs_def notices_ok_def pending_ok_def

lemma queue_core_signal [simp]: "queue_core (update_signal q) = queue_core q"
  by (simp add: queue_core_defs update_signal_def)

lemma subseq_distinct_map:
  assumes "subseq xs ys" and "distinct (map f ys)"
  shows "distinct (map f xs)"
proof -
  have "subseq (map f xs) (map f ys)" using assms(1) by (rule subseq_map)
  then obtain N where "map f xs = nths (map f ys) N" by (auto simp: subseq_conv_nths)
  then show ?thesis using assms(2) by (simp add: distinct_nthsI)
qed

lemma subseq_append_right: "subseq kept xs \<Longrightarrow> subseq (kept @ [r]) (xs @ [r])"
  by (simp add: list_emb_append_mono)

lemma collapse_scan_subseq: "subseq (fst (collapse_scan xs seen)) (rev xs)"
proof (induction xs seen rule: collapse_scan.induct)
  case (2 r rs seen)
  then show ?case
    by (auto simp: Let_def split: prod.splits intro: subseq_append_right subseq_rev_drop_many)
qed simp

lemma collapse_scan_result:
  "collapse_scan xs seen = (kept, n) \<Longrightarrow> length kept + n = length xs \<and>
   filter (\<lambda>r. \<not> r_coalescible r) kept = filter (\<lambda>r. \<not> r_coalescible r) (rev xs)"
  by (induction xs arbitrary: seen kept n) (auto simp: Let_def split: prod.splits if_splits)

lemma collapse_scan_length: "length (fst (collapse_scan xs seen)) + snd (collapse_scan xs seen) = length xs"
  using collapse_scan_result [of xs seen] by (cases "collapse_scan xs seen") simp

lemma collapse_scan_guaranteed:
  "filter (\<lambda>r. \<not> r_coalescible r) (fst (collapse_scan xs seen)) = filter (\<lambda>r. \<not> r_coalescible r) (rev xs)"
  using collapse_scan_result [of xs seen] by (cases "collapse_scan xs seen") simp

lemma collapse_fields [simp]:
  "q_outstanding (collapse_state_pending q) = q_outstanding q"
  "q_claims (collapse_state_pending q) = q_claims q"
  "q_capacity (collapse_state_pending q) = q_capacity q"
  "q_noticeOutstanding (collapse_state_pending q) = q_noticeOutstanding q"
  "q_reservations (collapse_state_pending q) = q_reservations q"
  "q_sequence (collapse_state_pending q) = q_sequence q"
  by (simp_all add: collapse_state_pending_def split: prod.splits)

lemma collapse_pending: "subseq (q_pending (collapse_state_pending q)) (q_pending q)"
  using collapse_scan_subseq [of "rev (q_pending q)" 0]
  by (cases "collapse_scan (rev (q_pending q)) 0") (simp add: collapse_state_pending_def)

lemma collapse_counts:
  "length (q_pending (collapse_state_pending q)) + (q_droppedTotal (collapse_state_pending q) - q_droppedTotal q)
     = length (q_pending q)"
  "q_used (collapse_state_pending q) = q_used q - (length (q_pending q) - length (q_pending (collapse_state_pending q)))"
  "q_droppedTotal (collapse_state_pending q) + q_unannounced q = q_unannounced (collapse_state_pending q) + q_droppedTotal q"
  "q_droppedTotal q \<le> q_droppedTotal (collapse_state_pending q)"
  using collapse_scan_length [of "rev (q_pending q)" 0]
  by (auto simp: collapse_state_pending_def split: prod.splits)

lemma collapse_guaranteed:
  "filter (\<lambda>r. \<not> r_coalescible r) (q_pending (collapse_state_pending q)) =
   filter (\<lambda>r. \<not> r_coalescible r) (q_pending q)"
  using collapse_scan_guaranteed [of "rev (q_pending q)" 0]
  by (cases "collapse_scan (rev (q_pending q)) 0") (simp add: collapse_state_pending_def)

lemma subseq_addrs:
  assumes "subseq p (q_pending q)" and "distinct (addrs q)"
  shows "distinct (map r_addr (p @ q_outstanding q @ q_claims q))"
proof -
  have "subseq (p @ q_outstanding q @ q_claims q) (q_pending q @ q_outstanding q @ q_claims q)"
    using assms(1) by simp
  then show ?thesis using assms(2) unfolding addrs_def by (rule subseq_distinct_map)
qed

lemma subseq_set: "subseq xs ys \<Longrightarrow> set xs \<subseteq> set ys"
  by (auto dest: list_emb_set)

lemma queue_core_collapse: "queue_core q \<Longrightarrow> queue_core (collapse_state_pending q)"
  using collapse_counts(2) [of q] list_emb_length [OF collapse_pending [of q]]
    subseq_addrs [OF collapse_pending [of q]] subseq_set [OF collapse_pending [of q]]
  by (auto simp: queue_core_defs)

lemma unlink_newest_Some:
  "unlink_newest t xs = Some ys \<Longrightarrow> \<exists>us r vs. xs = us @ r # vs \<and> ys = us @ vs \<and>
     r_coalescible r \<and> r_type r = t \<and> (\<forall>v\<in>set vs. \<not> (r_coalescible v \<and> r_type v = t))"
proof (induction xs arbitrary: ys)
  case (Cons x xs)
  show ?case
  proof (cases "unlink_newest t xs")
    case None
    have none: "unlink_newest t xs = None \<Longrightarrow> \<forall>v\<in>set xs. \<not> (r_coalescible v \<and> r_type v = t)" for xs
      by (induction xs) (auto split: option.splits if_splits)
    show ?thesis using None Cons.prems none [OF None]
      by (intro exI [of _ "[]"]) (auto split: if_splits)
  next
    case (Some zs)
    from Cons.IH [OF this] obtain us r vs where
      "xs = us @ r # vs" "zs = us @ vs" "r_coalescible r" "r_type r = t"
      "\<forall>v\<in>set vs. \<not> (r_coalescible v \<and> r_type v = t)" by blast
    then show ?thesis using Some Cons.prems by (intro exI [of _ "x # us"]) auto
  qed
qed simp

lemma unlink_newest_None:
  "unlink_newest t xs = None \<Longrightarrow> \<forall>v\<in>set xs. \<not> (r_coalescible v \<and> r_type v = t)"
  by (induction xs) (auto split: option.splits if_splits)

text \<open>Every operation changes the parts of the queue the core invariant reads in one of five ways.\<close>

lemma queue_core_cong:
  "q_pending q' = q_pending q \<Longrightarrow> q_outstanding q' = q_outstanding q \<Longrightarrow> q_claims q' = q_claims q \<Longrightarrow>
   q_used q' = q_used q \<Longrightarrow> q_noticeOutstanding q' = q_noticeOutstanding q \<Longrightarrow>
   q_reservations q' = q_reservations q \<Longrightarrow> q_capacity q' = q_capacity q \<Longrightarrow>
   queue_core q' = queue_core q"
  by (simp add: queue_core_defs)

definition event_ok :: "'p event_record \<Rightarrow> bool" where
  "event_ok r \<longleftrightarrow> \<not> r_notice r \<and> usable_type (r_type r) \<and> r_sequence r = 0"

lemma queue_core_push:
  assumes "queue_core q" and "q_used q < q_capacity q" and "event_ok r" and "r_addr r \<notin> set (addrs q)"
  shows "queue_core (q\<lparr>q_pending := q_pending q @ [r], q_used := q_used q + 1\<rparr>)"
  using assms by (auto simp: queue_core_defs event_ok_def)

lemma addrs_collapse: "set (addrs (collapse_state_pending q)) \<subseteq> set (addrs q)"
  using subseq_set [OF collapse_pending [of q]] by (auto simp: addrs_def)

lemma queue_core_unlink:
  assumes core: "queue_core q" and u: "unlink_newest t (q_pending q) = Some rest"
  shows "queue_core (q\<lparr>q_pending := rest, q_used := q_used q - 1\<rparr>) \<and> Suc (length rest) = length (q_pending q) \<and>
    0 < q_used q \<and> set rest \<subseteq> set (q_pending q)"
proof -
  from unlink_newest_Some [OF u] obtain us r vs where "q_pending q = us @ r # vs" "rest = us @ vs" by blast
  then show ?thesis using core by (auto simp: queue_core_defs)
qed

lemma queue_core_fields:
  "queue_core (q\<lparr>q_unannounced := a, q_droppedTotal := b\<rparr>) = queue_core q"
  "queue_core (q\<lparr>q_refusedReservations := c\<rparr>) = queue_core q"
  "queue_core (q\<lparr>q_refusedMisuse := c\<rparr>) = queue_core q"
  "queue_core (q\<lparr>q_refusedReleases := c\<rparr>) = queue_core q"
  "queue_core (q\<lparr>q_noticesDelivered := c\<rparr>) = queue_core q"
  by (simp_all add: queue_core_defs)

lemma queue_core_admit:
  assumes core: "queue_core q" and r: "event_ok r" "r_addr r \<notin> set (addrs q)"
  shows "queue_core (fst (admit r q))"
proof (cases "q_used q < q_capacity q")
  case True
  then show ?thesis using queue_core_push [OF core True r] by (simp add: admit_def)
next
  case False
  let ?c = "collapse_state_pending q"
  have core': "queue_core ?c" using queue_core_collapse [OF core] .
  have fresh: "r_addr r \<notin> set (addrs ?c)" using r(2) addrs_collapse by blast
  show ?thesis
  proof (cases "q_used ?c < q_capacity ?c")
    case True
    then show ?thesis using False queue_core_push [OF core' True r(1) fresh] by (simp add: admit_def Let_def)
  next
    case full: False
    let ?d = "?c\<lparr>q_unannounced := q_unannounced ?c + 1, q_droppedTotal := q_droppedTotal ?c + 1\<rparr>"
    have core'': "queue_core ?d" using core' by (simp add: queue_core_fields)
    show ?thesis
    proof (cases "unlink_newest (r_type r) (q_pending ?c)")
      case None
      then show ?thesis using False full core'' by (simp add: admit_def Let_def)
    next
      case (Some rest)
      let ?e = "?d\<lparr>q_pending := rest, q_used := q_used ?d - 1\<rparr>"
      have e: "queue_core ?e" "0 < q_used ?d" "set rest \<subseteq> set (q_pending ?d)"
        using queue_core_unlink [OF core'', of "r_type r" rest] Some by auto
      have "q_used ?d \<le> q_capacity ?d" using core'' by (auto simp: queue_core_defs)
      then have room: "q_used ?e < q_capacity ?e" using e(2) by simp
      have "r_addr r \<notin> set (addrs ?e)" using fresh e(3) by (auto simp: addrs_def)
      from queue_core_push [OF e(1) room r(1) this] show ?thesis
        using False full Some by (simp add: admit_def Let_def)
    qed
  qed
qed

lemma allocate_record_Some:
  "allocate_record heap tb ps = Some r \<Longrightarrow> \<exists>a. heap = Some a \<and> r = blank_record a tb ps"
  by (auto simp: allocate_record_def split: if_splits)

lemma write_record_fields:
  "r_addr (write_record r d now c) = r_addr r" "r_notice (write_record r d now c) = r_notice r"
  "r_type (write_record r d now c) = d_type d" "r_sequence (write_record r d now c) = 0"
  "r_coalescible (write_record r d now c) = c" "r_textCapacity (write_record r d now c) = r_textCapacity r"
  "r_pathSlots (write_record r d now c) = r_pathSlots r"
  by (simp_all add: write_record_def Let_def split: prod.splits)

lemma fill_record_None_Some:
  assumes "fill_record heap None d now c = Some r"
  shows "heap = Some (r_addr r) \<and> \<not> r_notice r \<and> r_type r = d_type d \<and> r_sequence r = 0 \<and> r_coalescible r = c"
  using assms by (auto simp: fill_record_def Let_def write_record_fields blank_record_def
      dest!: allocate_record_Some split: prod.splits)

lemma fill_record_reserved:
  "\<exists>r. fill_record heap (Some claim) d now c = Some r \<and>
     (r_addr r = r_addr claim \<or> heap = Some (r_addr r)) \<and> (\<not> r_notice claim \<longrightarrow> \<not> r_notice r) \<and>
     r_type r = d_type d \<and> r_sequence r = 0 \<and> r_coalescible r = c"
  by (auto simp: fill_record_def Let_def write_record_fields blank_record_def
      dest!: allocate_record_Some split: prod.splits option.splits)

definition fresh_block :: "nat option \<Rightarrow> 'p event_queue \<Rightarrow> bool" where
  "fresh_block heap q \<longleftrightarrow> (\<forall>a. heap = Some a \<longrightarrow> a \<notin> set (addrs q))"

lemma queue_core_reserve:
  assumes core: "queue_core q" and fresh: "fresh_block heap q"
  shows "queue_core (fst (reserve heap tb ps q))"
proof -
  let ?q = "if q_used q \<ge> q_capacity q then collapse_state_pending q else q"
  have core': "queue_core ?q" using core queue_core_collapse [OF core] by simp
  have sub: "set (addrs ?q) \<subseteq> set (addrs q)" using addrs_collapse by auto
  show ?thesis
  proof (cases "allocate_record heap tb ps :: 'a event_record option")
    case None
    then show ?thesis using core' by (simp add: reserve_def queue_core_fields Let_def)
  next
    case (Some r)
    then have "r_addr r \<notin> set (addrs ?q)" "\<not> r_notice r"
      using fresh sub allocate_record_Some [OF Some] by (auto simp: fresh_block_def blank_record_def)
    then have "queue_core (?q\<lparr>q_used := q_used ?q + 1, q_reservations := q_reservations ?q + 1,
        q_claims := r # q_claims ?q\<rparr>)" if "q_used ?q < q_capacity ?q"
      using core' that unfolding queue_core_defs by auto
    then show ?thesis using Some core'
      unfolding reserve_def Let_def Some option.case by (auto simp: queue_core_fields)
  qed
qed

lemma drop_claim_one:
  assumes "distinct (map r_addr cs)" and "addr \<in> set (map r_addr cs)"
  shows "Suc (length (drop_claim addr cs)) = length cs \<and> set (drop_claim addr cs) \<subseteq> set cs \<and>
    distinct (map r_addr (drop_claim addr cs)) \<and> addr \<notin> set (map r_addr (drop_claim addr cs))"
  using assms
proof (induction cs)
  case (Cons c cs)
  show ?case
  proof (cases "r_addr c = addr")
    case True
    then have "drop_claim addr cs = cs" using Cons.prems
      unfolding drop_claim_def by (intro filter_True) (auto simp: image_iff)
    then show ?thesis using True Cons.prems by (auto simp: drop_claim_def)
  next
    case False
    then show ?thesis using Cons by (auto simp: drop_claim_def)
  qed
qed simp

lemma find_claim_Some: "find_claim addr cs = Some c \<Longrightarrow> c \<in> set cs \<and> r_addr c = addr"
  by (auto simp: find_claim_def find_Some_iff)

lemma distinct_map_append_mono:
  assumes "distinct (map f (xs @ ys))" and "distinct (map f zs)" and "set zs \<subseteq> set ys"
  shows "distinct (map f (xs @ zs))"
proof -
  have "f ` set zs \<subseteq> f ` set ys" using assms(3) by (rule image_mono)
  then show ?thesis using assms(1,2) unfolding map_append distinct_append set_map by blast
qed

lemma queue_core_drop_claim:
  assumes core: "queue_core q" and addr: "addr \<in> set (map r_addr (q_claims q))"
  shows "queue_core (q\<lparr>q_used := q_used q - 1, q_reservations := q_reservations q - 1,
        q_claims := drop_claim addr (q_claims q)\<rparr>)"
    and "0 < q_used q"
    and "addr \<notin> set (addrs (q\<lparr>q_claims := drop_claim addr (q_claims q)\<rparr>))"
proof -
  let ?cs = "drop_claim addr (q_claims q)"
  have d: "distinct (addrs q)" using core by (simp add: queue_core_def)
  then have "distinct (map r_addr (q_claims q))" by (simp add: addrs_def)
  note cs = drop_claim_one [OF this addr]
  have "distinct (map r_addr ((q_pending q @ q_outstanding q) @ ?cs))"
    by (rule distinct_map_append_mono [of _ _ "q_claims q"]) (use d cs in \<open>simp_all add: addrs_def\<close>)
  then have da: "distinct (addrs (q\<lparr>q_claims := ?cs\<rparr>))" by (simp add: addrs_def)
  obtain n where n: "length (q_claims q) = Suc n" "length ?cs = n" using cs by (metis)
  show "queue_core (q\<lparr>q_used := q_used q - 1, q_reservations := q_reservations q - 1, q_claims := ?cs\<rparr>)"
    using core da n cs unfolding queue_core_def budget_def notices_ok_def pending_ok_def addrs_def by auto
  show "0 < q_used q" using core n by (simp add: queue_core_def budget_def)
  show "addr \<notin> set (addrs (q\<lparr>q_claims := ?cs\<rparr>))"
    using d cs addr by (auto simp: addrs_def)
qed

lemma queue_core_cancel:
  assumes "queue_core q" and "addr \<in> set (map r_addr (q_claims q))"
  shows "queue_core (cancel_reservation addr q)"
  using queue_core_drop_claim(1) [OF assms] by (simp add: cancel_reservation_def)

lemma queue_core_push_reserved:
  assumes core: "queue_core q" and fresh: "fresh_block heap q"
  shows "queue_core (fst (push_reserved heap now addr d q))"
proof (cases "find_claim addr (q_claims q)")
  case None
  then show ?thesis using core by (simp add: push_reserved_def)
next
  case (Some c)
  note c = find_claim_Some [OF Some]
  then have addr: "addr \<in> set (map r_addr (q_claims q))" by auto
  show ?thesis
  proof (cases "usable_type (d_type d)")
    case False
    then show ?thesis using Some queue_core_cancel [OF core addr]
      by (simp add: push_reserved_def Let_def queue_core_fields)
  next
    case True
    obtain r where fill: "fill_record heap (Some c) d now False = Some r"
      and r: "r_addr r = r_addr c \<or> heap = Some (r_addr r)" "\<not> r_notice c \<longrightarrow> \<not> r_notice r"
        "r_type r = d_type d" "r_sequence r = 0"
      using fill_record_reserved [of heap c d now False] by blast
    let ?d = "q\<lparr>q_used := q_used q - 1, q_reservations := q_reservations q - 1,
        q_claims := drop_claim addr (q_claims q)\<rparr>"
    note d = queue_core_drop_claim [OF core addr]
    have "\<not> r_notice c" using core c by (auto simp: queue_core_def pending_ok_def)
    then have ok: "event_ok r" using r True by (simp add: event_ok_def)
    have "r_addr r \<notin> set (addrs ?d)"
    proof -
      have sub: "set (addrs ?d) \<subseteq> set (addrs q)" by (auto simp: addrs_def drop_claim_def)
      have "addrs ?d = addrs (q\<lparr>q_claims := drop_claim addr (q_claims q)\<rparr>)" by (simp add: addrs_def)
      then have gone: "addr \<notin> set (addrs ?d)" using d(3) by simp
      from r(1) show ?thesis
      proof
        assume "r_addr r = r_addr c"
        then have "r_addr r = addr" using c by simp
        then show ?thesis using gone by (rule ssubst)
      next
        assume "heap = Some (r_addr r)"
        then have "r_addr r \<notin> set (addrs q)" using fresh by (simp add: fresh_block_def)
        with sub show ?thesis by (rule contra_subsetD)
      qed
    qed
    moreover have "q_used q \<le> q_capacity q" using core by (simp add: queue_core_def budget_def)
    then have "q_used ?d < q_capacity ?d" using d(2) by simp
    ultimately have "queue_core (?d\<lparr>q_pending := q_pending ?d @ [r], q_used := q_used ?d + 1\<rparr>)"
      using queue_core_push [OF d(1) _ ok] by blast
    then have "queue_core (q\<lparr>q_reservations := q_reservations q - 1,
        q_claims := drop_claim addr (q_claims q), q_pending := q_pending q @ [r]\<rparr>)"
      by (rule queue_core_cong [THEN iffD1, rotated 7]) (use d(2) in simp_all)
    then show ?thesis using Some True fill by (simp add: push_reserved_def)
  qed
qed

lemma queue_core_push_state:
  assumes core: "queue_core q" and fresh: "fresh_block heap q"
  shows "queue_core (fst (push_state heap now d q))"
proof (cases "\<not> usable_type (d_type d) \<or> needs_reservation (d_type d)")
  case False
  show ?thesis
  proof (cases "fill_record heap None d now True")
    case (Some r)
    from fill_record_None_Some [OF this] False have "event_ok r" "r_addr r \<notin> set (addrs q)"
      using fresh by (auto simp: event_ok_def fresh_block_def)
    from queue_core_admit [OF core this] Some False show ?thesis
      by (auto simp: push_state_def split: prod.splits)
  qed (use False core in \<open>simp add: push_state_def queue_core_fields\<close>)
qed (use core in \<open>auto simp: push_state_def queue_core_fields\<close>)

lemma queue_core_try_deliver:
  assumes core: "queue_core q" and fresh: "fresh_block heap q"
  shows "queue_core (fst (try_deliver heap now q))"
proof (cases "if q_unannounced q > 0 \<and> \<not> q_noticeOutstanding q
    then allocate_record heap 0 0 else None :: 'a event_record option")
  case (Some r)
  then have "\<not> q_noticeOutstanding q" and "allocate_record heap 0 0 = Some r" by (auto split: if_splits)
  moreover have "r_addr r \<notin> set (addrs q)"
    using fresh allocate_record_Some [OF calculation(2)] by (auto simp: fresh_block_def blank_record_def)
  moreover have "\<not> r_notice x" if "x \<in> set (q_outstanding q)" for x
    using core calculation(1) that by (auto simp: queue_core_def notices_ok_def filter_empty_conv)
  ultimately show ?thesis using core
    unfolding try_deliver_def Let_def Some option.case deliver_def fst_conv queue_core_signal
    by (simp add: queue_core_defs filter_empty_conv)
next
  case None
  show ?thesis
  proof (cases "q_pending q")
    case Nil
    then show ?thesis using core unfolding try_deliver_def Let_def None option.case by simp
  next
    case (Cons r rest)
    show ?thesis using core Cons
      unfolding try_deliver_def Let_def None option.case Cons list.case deliver_def fst_conv
        queue_core_signal
      by (simp add: queue_core_defs Cons)
  qed
qed

lemma queue_core_next: "queue_core q \<Longrightarrow> fresh_block heap q \<Longrightarrow> queue_core (fst (next_event heap now m q))"
  using queue_core_try_deliver [of q heap now]
  by (auto simp: next_event_def queue_core_fields split: prod.splits option.splits)

lemma queue_core_release:
  assumes core: "queue_core q"
  shows "queue_core (fst (release_event event q))"
proof (cases event)
  case (Some addr)
  show ?thesis
  proof (cases "find (\<lambda>r. r_addr r = addr) (q_outstanding q)")
    case None
    then show ?thesis using Some core by (simp add: release_event_def queue_core_fields)
  next
    case found: (Some f)
    then have f: "f \<in> set (q_outstanding q)" by (auto simp: find_Some_iff)
    then obtain us vs where out: "q_outstanding q = us @ f # vs" "f \<notin> set us" by (meson split_list_first)
    then have rem: "remove1 f (q_outstanding q) = us @ vs" by (simp add: remove1_append)
    have "queue_core (if r_notice f then q\<lparr>q_outstanding := us @ vs, q_noticeOutstanding := False\<rparr>
        else q\<lparr>q_outstanding := us @ vs, q_used := q_used q - 1\<rparr>)"
      using core unfolding queue_core_defs out(1) by (cases "r_notice f") (simp_all split: if_splits)
    then show ?thesis using Some found rem by (simp add: release_event_def Let_def split: if_splits)
  qed
qed (use core in \<open>simp add: release_event_def\<close>)

section \<open>Runs of the queue\<close>

text \<open>The queue, the guaranteed events queued so far and the events delivered so far.\<close>

record 'p queue_run =
  run_queue_state :: "'p event_queue"
  run_pushed :: "'p event_record list"
  run_log :: "'p event_record list"

definition queue_start :: "'p queue_run \<Rightarrow> bool" where
  "queue_start s \<longleftrightarrow> (\<exists>cap q. create_queue cap = Inl q \<and> s = \<lparr>run_queue_state = q, run_pushed = [], run_log = []\<rparr>)"

inductive queue_step :: "'p queue_run \<Rightarrow> 'p queue_run \<Rightarrow> bool" where
  step_reserve: "fresh_block heap (run_queue_state s) \<Longrightarrow>
    reserve heap tb ps (run_queue_state s) = (q', claim) \<Longrightarrow> queue_step s (s\<lparr>run_queue_state := q'\<rparr>)"
| step_cancel: "addr \<in> set (map r_addr (q_claims (run_queue_state s))) \<Longrightarrow>
    queue_step s (s\<lparr>run_queue_state := cancel_reservation addr (run_queue_state s)\<rparr>)"
| step_push_reserved: "fresh_block heap (run_queue_state s) \<Longrightarrow>
    push_reserved heap now addr d (run_queue_state s) = (q', ok) \<Longrightarrow>
    queue_step s (s\<lparr>run_queue_state := q',
      run_pushed := run_pushed s @ (if ok then [last (q_pending q')] else [])\<rparr>)"
| step_push_state: "fresh_block heap (run_queue_state s) \<Longrightarrow>
    push_state heap now d (run_queue_state s) = (q', ok) \<Longrightarrow> queue_step s (s\<lparr>run_queue_state := q'\<rparr>)"
| step_next: "fresh_block heap (run_queue_state s) \<Longrightarrow>
    next_event heap now timeoutIsMax (run_queue_state s) = (q', status, ev) \<Longrightarrow>
    queue_step s (s\<lparr>run_queue_state := q', run_log := run_log s @ (case ev of None \<Rightarrow> [] | Some r \<Rightarrow> [r])\<rparr>)"
| step_release: "release_event event (run_queue_state s) = (q', status) \<Longrightarrow>
    queue_step s (s\<lparr>run_queue_state := q'\<rparr>)"

abbreviation guaranteed_in :: "'p event_record list \<Rightarrow> 'p event_record list" where
  "guaranteed_in \<equiv> filter (\<lambda>r. \<not> r_coalescible r)"

definition announced :: "'p queue_run \<Rightarrow> nat" where
  "announced s = sum_list (map r_dropped_count (filter r_notice (run_log s)))"

definition accounts :: "'p queue_run \<Rightarrow> bool" where
  "accounts s \<longleftrightarrow> q_droppedTotal (run_queue_state s) = q_unannounced (run_queue_state s) + announced s \<and>
     map r_sequence (run_log s) = [1..<Suc (q_sequence (run_queue_state s))]"

definition guarantee :: "'p queue_run \<Rightarrow> bool" where
  "guarantee s \<longleftrightarrow> run_pushed s =
     map (\<lambda>r. r\<lparr>r_sequence := 0\<rparr>) (guaranteed_in (filter (\<lambda>r. \<not> r_notice r) (run_log s))) @
     guaranteed_in (q_pending (run_queue_state s))"

definition run_inv :: "'p queue_run \<Rightarrow> bool" where
  "run_inv s \<longleftrightarrow> queue_core (run_queue_state s) \<and>
     q_signaled (run_queue_state s) = deliverable (run_queue_state s) \<and> accounts s \<and> guarantee s"

text \<open>What an operation that delivers nothing does to the accounts.\<close>

definition silent :: "'p event_queue \<Rightarrow> 'p event_queue \<Rightarrow> bool" where
  "silent q q' \<longleftrightarrow> q_droppedTotal q' + q_unannounced q = q_droppedTotal q + q_unannounced q' \<and>
     q_droppedTotal q \<le> q_droppedTotal q' \<and> q_sequence q' = q_sequence q"

lemma signal_fields [simp]:
  "q_pending (update_signal q) = q_pending q" "q_outstanding (update_signal q) = q_outstanding q"
  "q_droppedTotal (update_signal q) = q_droppedTotal q" "q_unannounced (update_signal q) = q_unannounced q"
  "q_sequence (update_signal q) = q_sequence q" "q_noticeOutstanding (update_signal q) = q_noticeOutstanding q"
  "q_capacity (update_signal q) = q_capacity q" "q_used (update_signal q) = q_used q"
  "q_signaled (update_signal q) = deliverable (update_signal q)"
  by (simp_all add: update_signal_def deliverable_def)

lemma silent_collapse: "silent q (collapse_state_pending q)"
  using collapse_counts(3,4) [of q] by (simp add: silent_def)

lemma admit_effect:
  assumes "admit r q = (q', ok)" and "r_coalescible r"
  shows "silent q q' \<and> guaranteed_in (q_pending q') = guaranteed_in (q_pending q) \<and>
    (ok \<longrightarrow> (\<exists>xs. q_pending q' = xs @ [r]))"
proof -
  let ?c = "collapse_state_pending q"
  have unl: "guaranteed_in rest = guaranteed_in (q_pending q)"
    if "unlink_newest (r_type r) (q_pending ?c) = Some rest" for rest
    using unlink_newest_Some [OF that] collapse_guaranteed [of q] by auto
  show ?thesis
    using assms silent_collapse [of q] collapse_guaranteed [of q] unl
    by (auto simp: admit_def silent_def Let_def split: if_splits option.splits)
qed

lemma reserve_effect:
  assumes "reserve heap tb ps q = (q', claim)"
  shows "silent q q' \<and> guaranteed_in (q_pending q') = guaranteed_in (q_pending q) \<and>
    q_signaled q' = deliverable q'"
  using assms silent_collapse [of q] collapse_guaranteed [of q]
  by (auto simp: reserve_def silent_def Let_def deliverable_def split: if_splits option.splits)

lemma push_state_effect:
  assumes "push_state heap now d q = (q', ok)" and "q_signaled q = deliverable q"
  shows "silent q q' \<and> guaranteed_in (q_pending q') = guaranteed_in (q_pending q) \<and>
    q_signaled q' = deliverable q'"
proof (cases "\<not> usable_type (d_type d) \<or> needs_reservation (d_type d)")
  case False
  show ?thesis
  proof (cases "fill_record heap None d now True")
    case (Some r)
    then have "r_coalescible r" using fill_record_None_Some by blast
    then show ?thesis using assms False Some
      by (auto simp: push_state_def silent_def dest!: admit_effect split: prod.splits)
  qed (use assms False in \<open>auto simp: push_state_def silent_def\<close>)
qed (use assms in \<open>auto simp: push_state_def silent_def deliverable_def\<close>)

lemma push_reserved_effect:
  assumes "push_reserved heap now addr d q = (q', ok)" and "q_signaled q = deliverable q"
  shows "silent q q' \<and> q_signaled q' = deliverable q' \<and>
    guaranteed_in (q_pending q') = guaranteed_in (q_pending q) @ (if ok then [last (q_pending q')] else [])"
proof (cases "find_claim addr (q_claims q)")
  case (Some c)
  obtain r where "fill_record heap (Some c) d now False = Some r" "\<not> r_coalescible r"
    using fill_record_reserved [of heap c d now False] by auto
  then show ?thesis using assms Some
    by (auto simp: push_reserved_def silent_def cancel_reservation_def deliverable_def Let_def
        split: if_splits)
qed (use assms in \<open>auto simp: push_reserved_def silent_def\<close>)

lemma release_effect:
  assumes "release_event event q = (q', status)" and "q_signaled q = deliverable q"
  shows "silent q q' \<and> q_signaled q' = deliverable q' \<and> q_pending q' = q_pending q"
  using assms
  by (auto simp: release_event_def silent_def deliverable_def Let_def split: option.splits if_splits)

lemma run_inv_silent:
  assumes "run_inv s" and "silent (run_queue_state s) q'" and "queue_core q'"
    and "q_signaled q' = deliverable q'"
    and "guaranteed_in (q_pending q') = guaranteed_in (q_pending (run_queue_state s)) @ new"
  shows "run_inv (s\<lparr>run_queue_state := q', run_pushed := run_pushed s @ new\<rparr>)"
  using assms by (auto simp: run_inv_def accounts_def announced_def guarantee_def silent_def)

lemma deliver_effect:
  assumes "try_deliver heap now q = (q', ev)" and "queue_core q" and "q_signaled q = deliverable q"
  shows "q_signaled q' = deliverable q' \<and> (case ev of
      None \<Rightarrow> silent q q' \<and> q_pending q' = q_pending q
    | Some r \<Rightarrow> q_sequence q' = Suc (q_sequence q) \<and> r_sequence r = q_sequence q' \<and>
        q_droppedTotal q' = q_droppedTotal q \<and>
        (if r_notice r then r_dropped_count r = q_unannounced q \<and> q_unannounced q' = 0 \<and> q_pending q' = q_pending q
         else q_unannounced q' = q_unannounced q \<and> q_pending q = r\<lparr>r_sequence := 0\<rparr> # q_pending q'))"
proof (cases "if q_unannounced q > 0 \<and> \<not> q_noticeOutstanding q
    then allocate_record heap 0 0 else None :: 'a event_record option")
  case (Some r)
  from assms(1) show ?thesis unfolding try_deliver_def Let_def Some option.case deliver_def by auto
next
  case None
  show ?thesis
  proof (cases "q_pending q")
    case Nil
    from assms(1) show ?thesis unfolding try_deliver_def Let_def None option.case Nil
      using assms(3) Nil by (auto simp: silent_def)
  next
    case (Cons r rest)
    have r: "\<not> r_notice r" "r_sequence r = 0" using assms(2) Cons by (auto simp: queue_core_def pending_ok_def)
    from assms(1) show ?thesis unfolding try_deliver_def Let_def None option.case Cons list.case deliver_def
      using r by auto
  qed
qed

lemma run_inv_next:
  assumes inv: "run_inv s" and fresh: "fresh_block heap (run_queue_state s)"
    and n: "next_event heap now m (run_queue_state s) = (q', status, ev)"
  shows "run_inv (s\<lparr>run_queue_state := q', run_log := run_log s @ (case ev of None \<Rightarrow> [] | Some r \<Rightarrow> [r])\<rparr>)"
proof (cases m)
  case True
  then show ?thesis using inv n by (auto simp: next_event_def)
next
  case False
  let ?q = "run_queue_state s"
  have core: "queue_core ?q" and sig: "q_signaled ?q = deliverable ?q"
    and acc: "accounts s" and gua: "guarantee s" using inv by (auto simp: run_inv_def)
  obtain q1 ev1 where t: "try_deliver heap now ?q = (q1, ev1)" by fastforce
  have core': "queue_core q1" using queue_core_try_deliver [OF core fresh, of now] t by simp
  note eff = deliver_effect [OF t core sig]
  have ev: "ev = ev1" and q': "q' = q1 \<or> (\<exists>n. q' = q1\<lparr>q_noticesDelivered := n\<rparr>)"
    using n False t by (auto simp: next_event_def split: option.splits if_splits)
  have same: "q_signaled q' = q_signaled q1" "deliverable q' = deliverable q1" "q_pending q' = q_pending q1"
      "q_sequence q' = q_sequence q1" "q_droppedTotal q' = q_droppedTotal q1"
      "q_unannounced q' = q_unannounced q1" "queue_core q'"
    using q' core' by (auto simp: deliverable_def queue_core_fields)
  show ?thesis
  proof (cases ev)
    case None
    then show ?thesis using eff ev same acc gua
      by (simp add: run_inv_def accounts_def announced_def guarantee_def silent_def)
  next
    case (Some r)
    then show ?thesis using eff ev same acc gua
      by (auto simp: run_inv_def accounts_def announced_def guarantee_def split: if_splits)
  qed
qed

lemma run_inv_step: "queue_step s t \<Longrightarrow> run_inv s \<Longrightarrow> run_inv t"
proof (induction rule: queue_step.induct)
  case (step_reserve heap s tb ps q' claim)
  then have "queue_core q'" using queue_core_reserve [of "run_queue_state s" heap tb ps]
    by (auto simp: run_inv_def)
  with run_inv_silent [of s q' "[]"] reserve_effect [OF step_reserve(2)] step_reserve show ?case by simp
next
  case (step_cancel addr s)
  then show ?case
    using run_inv_silent [of s "cancel_reservation addr (run_queue_state s)" "[]"]
      queue_core_cancel [of "run_queue_state s" addr]
    by (auto simp: cancel_reservation_def silent_def run_inv_def)
next
  case (step_push_reserved heap s now addr d q' ok)
  then have "queue_core q'" using queue_core_push_reserved [of "run_queue_state s" heap now addr d]
    by (auto simp: run_inv_def)
  with push_reserved_effect [OF step_push_reserved(2)] step_push_reserved show ?case
    by (intro run_inv_silent) (auto simp: run_inv_def)
next
  case (step_push_state heap s now d q' ok)
  then have "queue_core q'" using queue_core_push_state [of "run_queue_state s" heap now d]
    by (auto simp: run_inv_def)
  with run_inv_silent [of s q' "[]"] push_state_effect [OF step_push_state(2)] step_push_state show ?case
    by (auto simp: run_inv_def)
next
  case (step_next heap s now m q' status ev)
  then show ?case by (intro run_inv_next)
next
  case (step_release event s q' status)
  then have "queue_core q'" using queue_core_release [of "run_queue_state s" event]
    by (auto simp: run_inv_def)
  with run_inv_silent [of s q' "[]"] release_effect [OF step_release(1)] step_release show ?case
    by (auto simp: run_inv_def)
qed

lemma run_inv_start: "queue_start s \<Longrightarrow> run_inv s"
  by (auto simp: queue_start_def create_queue_def run_inv_def queue_core_defs accounts_def announced_def
      guarantee_def deliverable_def split: if_splits)

interpretation event_queue_system: invariant_system queue_start queue_step run_inv
  by unfold_locales (auto intro: run_inv_start run_inv_step)

section \<open>What the queue promises\<close>

text \<open>C5: the budget: pending events, delivered events not yet released and reservations
  together never exceed the capacity, at most one drop notice is unreleased, and the Win32
  event is signaled exactly when a delivery is possible.\<close>

theorem event_queue_budget:
  assumes "reachable_from queue_start queue_step s" and "q = run_queue_state s"
  shows "length (q_pending q) + length (filter (\<lambda>r. \<not> r_notice r) (q_outstanding q)) + length (q_claims q)
      \<le> q_capacity q \<and> length (filter r_notice (q_outstanding q)) \<le> 1 \<and>
    q_signaled q = (q_pending q \<noteq> [] \<or> (q_unannounced q > 0 \<and> \<not> q_noticeOutstanding q))"
  using event_queue_system.reachable_inv [OF assms(1)] assms(2)
  by (auto simp: run_inv_def queue_core_defs deliverable_def)

text \<open>a guaranteed event is never dropped, duplicated or overtaken by another guaranteed
  event: the events pushed through reservations are, in order, those already delivered
  followed by those pending, whatever the state events, overflows and cancellations between.\<close>

theorem guaranteed_events_survive:
  assumes "reachable_from queue_start queue_step s"
  shows "run_pushed s =
    map (\<lambda>r. r\<lparr>r_sequence := 0\<rparr>) (filter (\<lambda>r. \<not> r_coalescible r \<and> \<not> r_notice r) (run_log s)) @
    filter (\<lambda>r. \<not> r_coalescible r) (q_pending (run_queue_state s))"
proof -
  have "filter (\<lambda>r. \<not> r_coalescible r \<and> \<not> r_notice r) (run_log s) =
    guaranteed_in (filter (\<lambda>r. \<not> r_notice r) (run_log s))" by (auto intro: filter_cong)
  then show ?thesis using event_queue_system.reachable_inv [OF assms] by (simp add: run_inv_def guarantee_def)
qed

text \<open>the client can account for every loss: sequence numbers are delivered as 1, 2, 3, ...
  without a gap, and the drop notices delivered so far plus what the next one will say add up
  to the events dropped.\<close>

theorem drops_are_announced:
  assumes "reachable_from queue_start queue_step s"
  shows "map r_sequence (run_log s) = [1..<Suc (length (run_log s))] \<and>
    q_droppedTotal (run_queue_state s) =
      sum_list (map r_dropped_count (filter r_notice (run_log s))) + q_unannounced (run_queue_state s)"
proof -
  have acc: "accounts s" using event_queue_system.reachable_inv [OF assms] by (simp add: run_inv_def)
  then have "length (run_log s) = q_sequence (run_queue_state s)"
    by (metis accounts_def diff_Suc_1 length_map length_upt)
  then show ?thesis using acc by (simp add: accounts_def announced_def del: upt_Suc)
qed

subsection \<open>Collapsing keeps the newest\<close>

definition newest :: "int \<Rightarrow> 'p event_record list \<Rightarrow> 'p event_record option" where
  "newest t xs = find (\<lambda>r. r_coalescible r \<and> r_type r = t) (rev xs)"

lemma collapse_scan_newest:
  assumes "\<forall>r\<in>set xs. 0 \<le> r_type r \<and> r_type r \<le> 63" and "0 \<le> t" and "t \<le> 63" and "\<not> bit seen (nat t)"
  shows "newest t (fst (collapse_scan xs seen)) = find (\<lambda>r. r_coalescible r \<and> r_type r = t) xs"
  using assms
proof (induction xs arbitrary: seen)
  case Nil
  then show ?case by (simp add: newest_def)
next
  case (Cons r xs)
  have r: "0 \<le> r_type r" "r_type r \<le> 63" using Cons.prems by auto
  have mask: "(seen AND push_bit (nat (r_type r)) (1 :: u64) \<noteq> 0) = bit seen (nat (r_type r))"
    by (rule bit_iff_and_push_bit_not_eq_0 [symmetric])
  have nat_eq: "nat (r_type r) = nat t \<longleftrightarrow> r_type r = t" using r Cons.prems by auto
  have new: "\<not> bit (seen OR push_bit (nat (r_type r)) (1 :: u64)) (nat t)" if "r_type r \<noteq> t"
    using that Cons.prems nat_eq by (auto simp: bit_simps)
  obtain kept n where k: "collapse_scan xs seen = (kept, n)" by fastforce
  obtain kept' n' where k': "collapse_scan xs (seen OR push_bit (nat (r_type r)) 1) = (kept', n')" by fastforce
  have IH: "newest t kept = find (\<lambda>r. r_coalescible r \<and> r_type r = t) xs"
    using Cons.IH [of seen] Cons.prems k by simp
  have IH': "newest t kept' = find (\<lambda>r. r_coalescible r \<and> r_type r = t) xs" if "r_type r \<noteq> t"
    using Cons.IH [OF _ _ _ new [OF that]] Cons.prems k' by simp
  show ?case
    using mask k k' IH IH' Cons.prems
    by (cases "r_type r = t") (auto simp: newest_def Let_def simp del: push_bit_of_1)
qed

lemma collapse_newest:
  assumes "\<forall>r\<in>set (q_pending q). usable_type (r_type r)" and "usable_type t"
  shows "newest t (q_pending (collapse_state_pending q)) = newest t (q_pending q)"
proof -
  have "newest t (fst (collapse_scan (rev (q_pending q)) 0)) =
      find (\<lambda>r. r_coalescible r \<and> r_type r = t) (rev (q_pending q))"
    by (rule collapse_scan_newest) (use assms in \<open>auto simp: usable_type_def\<close>)
  then show ?thesis
    by (cases "collapse_scan (rev (q_pending q)) 0") (simp add: collapse_state_pending_def newest_def)
qed

lemma newest_append: "newest t (xs @ [r]) = (if r_coalescible r \<and> r_type r = t then Some r else newest t xs)"
  by (simp add: newest_def)

lemma find_append: "find P (xs @ ys) = (case find P xs of None \<Rightarrow> find P ys | Some x \<Rightarrow> Some x)"
  by (induction xs) auto

lemma newest_unlink_other:
  assumes "unlink_newest u xs = Some ys" and "t \<noteq> u"
  shows "newest t ys = newest t xs"
proof -
  from unlink_newest_Some [OF assms(1)] obtain us r vs where
    "xs = us @ r # vs" "ys = us @ vs" "r_type r = u" by blast
  then show ?thesis using assms(2) by (simp add: newest_def find_append split: option.splits)
qed

lemma newest_None: "newest t xs = None \<longleftrightarrow> (\<forall>r\<in>set xs. \<not> (r_coalescible r \<and> r_type r = t))"
  by (auto simp: newest_def find_None_iff)

lemma admit_newest:
  assumes adm: "admit r q = (q', ok)" and types: "\<forall>x\<in>set (q_pending q). usable_type (r_type x)"
    and r: "r_coalescible r" "usable_type (r_type r)" and t: "usable_type t"
  shows "newest t (q_pending q') = (if ok \<and> t = r_type r then Some r else newest t (q_pending q)) \<and>
    (\<not> ok \<longrightarrow> newest (r_type r) (q_pending q) = None)"
proof -
  let ?c = "collapse_state_pending q"
  have c: "newest u (q_pending ?c) = newest u (q_pending q)" if "usable_type u" for u
    using collapse_newest [OF types that] .
  have unl: "newest t rest = newest t (q_pending q)"
    if "unlink_newest (r_type r) (q_pending ?c) = Some rest" "t \<noteq> r_type r" for rest
    using newest_unlink_other [OF that] c [OF t] by simp
  have none: "newest (r_type r) (q_pending q) = None" if "unlink_newest (r_type r) (q_pending ?c) = None"
  proof -
    have "newest (r_type r) (q_pending ?c) = None"
      unfolding newest_None using unlink_newest_None [OF that] .
    then show ?thesis using c [OF r(2)] by simp
  qed
  show ?thesis
    using adm r c [OF t] unl none
    by (auto simp: admit_def Let_def newest_append split: if_splits option.splits)
qed

text \<open>overflow never costs a client the current state: after a state push the newest
  pending state event of every type is the one that was newest before, or the pushed event
  itself for its own type; the push is refused for lack of room only when no event of its type
  is pending.\<close>

theorem overflow_keeps_newest_state:
  assumes "reachable_from queue_start queue_step s" and "fill_record heap None d now True = Some r"
    and "push_state heap now d (run_queue_state s) = (q', ok)"
    and "usable_type (d_type d)" and "\<not> needs_reservation (d_type d)" and "usable_type t"
  shows "newest t (q_pending q') = (if ok \<and> t = d_type d then Some r else newest t (q_pending (run_queue_state s))) \<and>
    (\<not> ok \<longrightarrow> newest (d_type d) (q_pending (run_queue_state s)) = None)"
proof -
  have types: "\<forall>x\<in>set (q_pending (run_queue_state s)). usable_type (r_type x)"
    using event_queue_system.reachable_inv [OF assms(1)] by (auto simp: run_inv_def queue_core_defs)
  have r: "r_coalescible r" "r_type r = d_type d" using fill_record_None_Some [OF assms(2)] by auto
  obtain q1 where adm: "admit r (run_queue_state s) = (q1, ok)" and q': "q' = update_signal q1"
    using assms(2-5) by (auto simp: push_state_def split: prod.splits)
  show ?thesis using admit_newest [OF adm types r(1) _ assms(6)] assms(4) r(2) q' by simp
qed

subsection \<open>Texts stay inside their block\<close>

definition text_bytes :: "'p event_record \<Rightarrow> nat" where
  "text_bytes r = (case r_output_path r of None \<Rightarrow> 0 | Some p \<Rightarrow> length p + 1) +
     sum_list (map (\<lambda>p. length p + 1) (r_paths r)) +
     (case r_message r of None \<Rightarrow> 0 | Some m \<Rightarrow> length m + 1)"

lemma place_paths_fits:
  "place_paths ps slots room = (placed, left) \<Longrightarrow>
     length placed \<le> slots \<and> sum_list (map (\<lambda>p. length p + 1) placed) + left = room \<and>
     (\<exists>k. placed = take k ps)"
proof (induction ps slots room arbitrary: placed left rule: place_paths.induct)
  case (1 slots room)
  then show ?case by auto
next
  case (2 p ps slots room)
  show ?case
  proof (cases "slots = 0 \<or> length p + 1 > room")
    case True
    then show ?thesis using 2 by (auto intro: exI [of _ 0])
  next
    case False
    obtain pl lf where rec: "place_paths ps (slots - 1) (room - (length p + 1)) = (pl, lf)" by fastforce
    from 2(1) [OF False rec] obtain k where k: "pl = take k ps" and
      len: "length pl \<le> slots - 1" "sum_list (map (\<lambda>p. length p + 1) pl) + lf = room - (length p + 1)"
      by auto
    have res: "placed = p # pl" "left = lf" using 2(2) False rec by auto
    have "placed = take (Suc k) (p # ps)" using k res by simp
    moreover have "length placed \<le> slots" using len(1) False res by (cases slots) auto
    moreover have "length p + 1 \<le> room" using False by simp
    then have "sum_list (map (\<lambda>p. length p + 1) placed) + left = room" using len(2) res by simp
    ultimately show ?thesis by blast
  qed
qed

lemma utf8_prefix_le: "utf8_prefix_length bs limit \<le> limit \<or> limit \<ge> length bs"
  "utf8_prefix_length bs limit \<le> length bs"
proof -
  have "utf8_back bs limit \<le> limit" by (induction bs limit rule: utf8_back.induct) auto
  then show "utf8_prefix_length bs limit \<le> limit \<or> limit \<ge> length bs"
    and "utf8_prefix_length bs limit \<le> length bs" by (auto simp: utf8_prefix_length_def)
qed

lemma utf8_prefix_boundary:
  "0 < utf8_prefix_length bs limit \<Longrightarrow> utf8_prefix_length bs limit < length bs \<Longrightarrow>
     bs ! utf8_prefix_length bs limit AND 0xC0 \<noteq> 0x80"
proof -
  have "0 < utf8_back bs n \<Longrightarrow> bs ! utf8_back bs n AND 0xC0 \<noteq> 0x80" for n
    by (induction bs n rule: utf8_back.induct) auto
  then show "0 < utf8_prefix_length bs limit \<Longrightarrow> utf8_prefix_length bs limit < length bs \<Longrightarrow>
     bs ! utf8_prefix_length bs limit AND 0xC0 \<noteq> 0x80"
    by (auto simp: utf8_prefix_length_def split: if_splits)
qed

text \<open>filling a record never writes past its block: the texts with their terminators fit
  the reserved room and the paths their slots, even when a reserved record cannot be enlarged;
  a path is kept whole or omitted, and a shortened message ends on a code point boundary.\<close>

theorem record_text_fits:
  assumes "fill_record heap record d now c = Some r"
  shows "text_bytes r \<le> r_textCapacity r \<and> length (r_paths r) \<le> r_pathSlots r \<and>
    (\<exists>k. r_paths r = take k (d_paths d)) \<and> r_output_path r \<in> {None, Some (d_outputPath d)} \<and>
    (case r_message r of None \<Rightarrow> True | Some m \<Rightarrow>
       (\<exists>k. m = take k (d_message d) \<and> 0 < k \<and> (k < length (d_message d) \<longrightarrow> d_message d ! k AND 0xC0 \<noteq> 0x80)))"
proof -
  obtain b where r: "r = write_record b d now c" using assms
    by (auto simp: fill_record_def Let_def split: prod.splits)
  define fits where "fits = (file_event (d_type d) \<and> d_outputPath d \<noteq> [] \<and>
    length (d_outputPath d) + 1 \<le> r_textCapacity b)"
  define room1 where "room1 = (if fits then r_textCapacity b - (length (d_outputPath d) + 1) else r_textCapacity b)"
  obtain placed room2 where placed: "(if \<not> file_event (d_type d) \<and> d_type d = ev_screenshot
      then place_paths (d_paths d) (r_pathSlots b) room1 else ([], room1)) = (placed, room2)" by fastforce
  define len where "len = (if d_message d \<noteq> [] \<and> room2 > 1 then utf8_prefix_length (d_message d) (room2 - 1) else 0)"
  have fields: "r_output_path r = (if fits then Some (d_outputPath d) else None)" "r_paths r = placed"
    "r_message r = (if len > 0 then Some (take len (d_message d)) else None)"
    "r_textCapacity r = r_textCapacity b" "r_pathSlots r = r_pathSlots b"
    using placed unfolding r write_record_def Let_def fits_def room1_def len_def
    by (simp_all split: prod.splits)
  have pl: "length placed \<le> r_pathSlots b \<and> sum_list (map (\<lambda>p. length p + 1) placed) + room2 = room1 \<and>
      (\<exists>k. placed = take k (d_paths d))"
    using placed place_paths_fits by (auto split: if_splits intro: exI [of _ 0])
  have len: "len \<le> length (d_message d)" "0 < len \<Longrightarrow> len + 1 \<le> room2"
    using utf8_prefix_le [of "d_message d" "room2 - 1"] by (auto simp: len_def)
  have "text_bytes r \<le> r_textCapacity r"
    using pl len by (auto simp: text_bytes_def fields room1_def fits_def)
  moreover have "0 < len \<Longrightarrow> len < length (d_message d) \<Longrightarrow> d_message d ! len AND 0xC0 \<noteq> 0x80"
    using utf8_prefix_boundary by (auto simp: len_def split: if_splits)
  ultimately show ?thesis using pl by (auto simp: fields)
qed

section \<open>A concrete run\<close>

text \<open>Capacity 2: a guaranteed event, then state events of one type until the queue overflows,
  then two deliveries.\<close>

definition sample_draft :: "int \<Rightarrow> nat \<Rightarrow> unit event_draft" where
  "sample_draft ty n = \<lparr>d_type = ty, d_request = n, d_status = 0, d_message = [104, 105],
     d_outputPath = [], d_paths = [], d_payload = ()\<rparr>"

definition sample_0 :: "unit event_queue" where
  "sample_0 = (case create_queue 2 of Inl q \<Rightarrow> q | Inr _ \<Rightarrow> undefined)"

definition sample_1 :: "unit event_queue" where "sample_1 = fst (reserve (Some 5) 8 0 sample_0)"
definition sample_2 :: "unit event_queue" where
  "sample_2 = fst (push_reserved None 100 5 (sample_draft 2 1) sample_1)"
definition sample_3 :: "unit event_queue" where
  "sample_3 = fst (push_state (Some 6) 101 (sample_draft 1 2) sample_2)"
definition sample_4 :: "unit event_queue" where
  "sample_4 = fst (push_state (Some 7) 102 (sample_draft 1 3) sample_3)"
definition sample_5 :: "unit event_queue" where
  "sample_5 = fst (next_event (Some 8) 103 False sample_4)"
definition sample_6 :: "unit event_queue" where
  "sample_6 = fst (next_event None 104 False sample_5)"

lemmas sample_defs = sample_0_def sample_1_def sample_2_def sample_3_def sample_4_def sample_5_def
  sample_6_def

lemmas queue_eval = create_queue_def reserve_def push_reserved_def push_state_def next_event_def
  try_deliver_def deliver_def admit_def fill_record_def write_record_def measure_draft_def
  allocate_record_def blank_record_def sample_draft_def collapse_state_pending_def update_signal_def
  deliverable_def find_claim_def drop_claim_def k_max_text_bytes_def k_max_path_slots_def
  usable_type_def needs_reservation_def file_event_def utf8_prefix_length_def event_constants Let_def

lemma sample_values:
  "addrs sample_0 = []" "addrs sample_1 = [5]" "addrs sample_2 = [5]" "addrs sample_3 = [5, 6]"
  "addrs sample_4 = [5, 7]" "addrs sample_5 = [5, 7, 8]"
  "map r_request (q_pending sample_2) = [1]" "map r_request (q_pending sample_4) = [1, 3]"
  "map r_sequence (q_outstanding sample_6) = [1, 2]" "q_droppedTotal sample_6 = 1" "q_unannounced sample_6 = 0"
  "snd (push_reserved None 100 5 (sample_draft 2 1) sample_1)"
  by (simp_all add: sample_defs queue_eval addrs_def)

definition sample_run_4 :: "unit queue_run" where
  "sample_run_4 = \<lparr>run_queue_state = sample_4, run_pushed = [last (q_pending sample_2)], run_log = []\<rparr>"

definition sample_run_6 :: "unit queue_run" where
  "sample_run_6 = sample_run_4\<lparr>run_queue_state := sample_6,
     run_log := the (snd (snd (next_event (Some 8) 103 False sample_4))) #
                [the (snd (snd (next_event None 104 False sample_5)))]\<rparr>"

lemma sample_run_3_reachable: "reachable_from queue_start queue_step
    \<lparr>run_queue_state = sample_3, run_pushed = [last (q_pending sample_2)], run_log = []\<rparr>"
proof -
  let ?s = "\<lambda>q. \<lparr>run_queue_state = q, run_pushed = [], run_log = []\<rparr> :: unit queue_run"
  let ?t = "\<lambda>q. \<lparr>run_queue_state = q, run_pushed = [last (q_pending sample_2)], run_log = []\<rparr> :: unit queue_run"
  have "queue_start (?s sample_0)"
    by (auto simp: queue_start_def sample_0_def create_queue_def intro: exI [of _ 2])
  then have "reachable_from queue_start queue_step (?s sample_0)" by (rule reachable_from.start)
  moreover have "queue_step (?s sample_0) (?s sample_1)"
    using step_reserve [of "Some 5" "?s sample_0" 8 0 sample_1]
    by (simp add: fresh_block_def sample_values sample_1_def prod_eq_iff)
  moreover have "queue_step (?s sample_1) (?t sample_2)"
    using step_push_reserved [of None "?s sample_1" 100 5 "sample_draft 2 1" sample_2 True] sample_values(12)
    by (simp add: fresh_block_def sample_2_def prod_eq_iff)
  moreover have "queue_step (?t sample_2) (?t sample_3)"
    using step_push_state [of "Some 6" "?t sample_2" 101 "sample_draft 1 2" sample_3]
    by (simp add: fresh_block_def sample_values sample_3_def prod_eq_iff)
  ultimately show ?thesis by (meson reachable_from.more)
qed

lemma sample_run_4_reachable: "reachable_from queue_start queue_step sample_run_4"
proof (rule reachable_from.more [OF sample_run_3_reachable])
  let ?t = "\<lparr>run_queue_state = sample_3, run_pushed = [last (q_pending sample_2)], run_log = []\<rparr>"
  show "queue_step ?t sample_run_4"
    using step_push_state [of "Some 7" ?t 102 "sample_draft 1 3" sample_4]
    by (simp add: fresh_block_def sample_values sample_4_def sample_run_4_def prod_eq_iff)
qed

lemma sample_run_6_reachable: "reachable_from queue_start queue_step sample_run_6"
proof -
  have ev: "snd (snd (next_event (Some 8) 103 False sample_4)) \<noteq> None"
    "snd (snd (next_event None 104 False sample_5)) \<noteq> None"
    by (simp_all add: sample_defs queue_eval)
  let ?u = "sample_run_4\<lparr>run_queue_state := sample_5,
     run_log := [the (snd (snd (next_event (Some 8) 103 False sample_4)))]\<rparr>"
  have "queue_step sample_run_4 ?u"
    using step_next [of "Some 8" sample_run_4 103 False sample_5 _ _] ev(1)
    by (cases "next_event (Some 8) 103 False sample_4")
       (auto simp: fresh_block_def sample_run_4_def sample_values sample_5_def)
  moreover have "queue_step ?u sample_run_6"
    using step_next [of None ?u 104 False sample_6 _ _] ev(2)
    by (cases "next_event None 104 False sample_5")
       (auto simp: fresh_block_def sample_run_4_def sample_run_6_def sample_6_def)
  ultimately show ?thesis using sample_run_4_reachable by (meson reachable_from.more)
qed

theorem event_queue_budget_witness: "length (q_pending sample_4) \<le> q_capacity sample_4"
  using event_queue_budget [OF sample_run_4_reachable refl] by (simp add: sample_run_4_def)

theorem guaranteed_events_survive_witness:
  "[last (q_pending sample_2)] = filter (\<lambda>r. \<not> r_coalescible r) (q_pending sample_4)"
  using guaranteed_events_survive [OF sample_run_4_reachable] by (simp add: sample_run_4_def)

theorem drops_are_announced_witness:
  "map r_sequence (run_log sample_run_6) = [1, 2] \<and>
   sum_list (map r_dropped_count (filter r_notice (run_log sample_run_6))) = 1"
proof -
  have "length (run_log sample_run_6) = 2" by (simp add: sample_run_6_def)
  then show ?thesis using drops_are_announced [OF sample_run_6_reachable]
    by (simp add: sample_run_6_def sample_values upt_rec)
qed

theorem overflow_keeps_newest_state_witness:
  "map_option r_request (newest 1 (q_pending sample_4)) = Some 3"
proof -
  obtain r where fill: "fill_record (Some 7) None (sample_draft 1 3) 102 True = Some r" "r_request r = 3"
    by (simp add: queue_eval)
  have push: "push_state (Some 7) 102 (sample_draft 1 3) sample_3 = (sample_4, True)"
    by (simp add: sample_4_def prod_eq_iff) (simp add: sample_defs queue_eval)
  show ?thesis
    using overflow_keeps_newest_state [OF sample_run_3_reachable fill(1), of sample_4 True 1] push fill(2)
    by (simp add: sample_draft_def usable_type_def needs_reservation_def event_constants)
qed

theorem record_text_fits_witness:
  "text_bytes (the (fill_record None (Some (blank_record 5 2 0)) (sample_draft 1 2) 100 False)) \<le> 2"
proof -
  let ?f = "fill_record None (Some (blank_record 5 2 0)) (sample_draft 1 2) 100 False"
  obtain r where r: "?f = Some r" using fill_record_reserved [of None "blank_record 5 2 0"] by blast
  have "r_textCapacity r = 2" using r by (auto simp: queue_eval)
  with record_text_fits [OF r] r show ?thesis by simp
qed

end
