(* ===== verification/FpsLimiter.thy ===== *)
theory FpsLimiter
  imports CfrGrid
begin

text \<open>
  The frame limiter's decisions: \<^verbatim>\<open>hook/pacing/fps_limiter_policy.h\<close> (which constraint limits,
  how a target scales with frame generation, which present owns a cadence slot, how a late
  frame rejoins the grid, how much of a period is front-loaded) and the deadline arithmetic of
  \<^verbatim>\<open>RunLocalCadence\<close> in \<^verbatim>\<open>hook/pacing/fps_limiter_detail/frame_pacing.h\<close>. An \<^verbatim>\<open>int\<close> or
  \<^verbatim>\<open>int64_t\<close> is an \<^typ>\<open>int\<close>; where the code guards against overflow the guard is a branch.
\<close>

section \<open>Frame generation and drivers\<close>

datatype runtime_mode = KOff | KNvidiaSmoothMotion | KStreamlineNoFG | KDLSSFG | KFSRFG | KXeFG | KUnknown

definition int_max :: int where "int_max = 2 ^ 31 - 1"

definition should_return_nv_api_reflex_wrapper :: "bool \<Rightarrow> bool \<Rightarrow> bool \<Rightarrow> bool \<Rightarrow> bool \<Rightarrow> bool" where
  "should_return_nv_api_reflex_wrapper manual streamlineRuntime overlay systemModule captureHook \<longleftrightarrow>
     manual \<and> \<not> streamlineRuntime \<and> \<not> overlay \<and> \<not> systemModule \<and> \<not> captureHook"

text \<open>Function pointers are addresses, \<open>0\<close> the null pointer.\<close>

definition should_adopt_exported_query_interface :: "nat \<Rightarrow> nat \<Rightarrow> bool \<Rightarrow> bool" where
  "should_adopt_exported_query_interface stored exported storedIsInlineTrampoline =
     (if exported = 0 then False
      else if stored = 0 then True
      else \<not> storedIsInlineTrampoline \<and> stored \<noteq> exported)"

definition is_manual_reflex_limiter_configured :: "bool \<Rightarrow> int \<Rightarrow> nat \<Rightarrow> bool \<Rightarrow> nat \<Rightarrow> nat \<Rightarrow> bool" where
  "is_manual_reflex_limiter_configured generalEnabled generalFps generalMode captureSyncEnabled
     captureSyncMode nativeModeValue \<longleftrightarrow>
     (generalEnabled \<and> generalFps > 0 \<and> generalMode = nativeModeValue) \<or>
     (captureSyncEnabled \<and> captureSyncMode = nativeModeValue)"

definition should_scale_target_for_frame_generation :: "bool \<Rightarrow> bool \<Rightarrow> bool \<Rightarrow> bool" where
  "should_scale_target_for_frame_generation usingCaptureSync injectVideo finalOutputAvailable \<longleftrightarrow>
     \<not> usingCaptureSync \<or> \<not> injectVideo \<or> finalOutputAvailable"

definition is_frame_generation_producing_for_pacing :: "runtime_mode \<Rightarrow> bool \<Rightarrow> bool \<Rightarrow> bool \<Rightarrow> bool \<Rightarrow> bool" where
  "is_frame_generation_producing_for_pacing mode active recentD3DSleep externalNative idle =
     (if \<not> active then False
      else if mode \<noteq> KDLSSFG then True
      else (recentD3DSleep \<or> externalNative) \<and> \<not> idle)"

definition resolve_idle_generation_driver_target_fps :: "int \<Rightarrow> bool \<Rightarrow> int \<Rightarrow> bool \<Rightarrow> int" where
  "resolve_idle_generation_driver_target_fps driverTargetFps idle multiplier covers =
     (if \<not> idle \<or> \<not> covers \<or> multiplier < 2 \<or> driverTargetFps \<le> 0 then driverTargetFps
      else driverTargetFps * min multiplier 6)"

definition driver_interval_covers_generated_frames :: "runtime_mode \<Rightarrow> bool" where
  "driver_interval_covers_generated_frames mode \<longleftrightarrow> mode = KDLSSFG \<or> mode = KNvidiaSmoothMotion"

section \<open>The limiting constraint\<close>

datatype limiter_source = SNone | SCaptureSync | SGeneral | SDisplayVblankCeiling

record limiter_selection =
  ls_source :: limiter_source
  ls_targetFps :: int
  ls_captureTargetFps :: int
  ls_captureOutputEquivalentFps :: int
  ls_generalTargetFps :: int
  ls_displayCeilingTargetFps :: int
  ls_captureSourceIsFinalOutput :: bool

definition saturating_positive_product :: "int \<Rightarrow> int \<Rightarrow> int" where
  "saturating_positive_product v multiplier =
     (if v \<le> 0 \<or> multiplier \<le> 0 then 0
      else if v > int_max sdiv multiplier then int_max
      else v * multiplier)"

definition resolve_limiter_target_selection :: "bool \<Rightarrow> bool \<Rightarrow> int \<Rightarrow> int \<Rightarrow> bool \<Rightarrow> bool \<Rightarrow> int \<Rightarrow> bool
    \<Rightarrow> int \<Rightarrow> bool \<Rightarrow> bool \<Rightarrow> int \<Rightarrow> limiter_selection" where
  "resolve_limiter_target_selection captureRequested captureSyncEnabled captureFps captureSyncMultiplier
     useVfr generalEnabled generalFps fgActive fgMultiplier injectVideo finalOutputAvailable ceilingFps =
     (let captureAvailable = captureRequested \<and> captureSyncEnabled \<and> \<not> useVfr \<and> captureFps > 0 \<and>
            captureSyncMultiplier \<ge> 1 \<and> captureSyncMultiplier \<le> 8;
          generalAvailable = generalEnabled \<and> generalFps > 0;
          captureTarget = (if captureAvailable then saturating_positive_product captureFps captureSyncMultiplier else 0);
          isFinal = (captureAvailable \<and> (\<not> injectVideo \<or> finalOutputAvailable));
          equivalent = (if captureAvailable
             then if fgActive \<and> fgMultiplier \<ge> 2 \<and> \<not> isFinal
                  then saturating_positive_product captureTarget (min fgMultiplier 4) else captureTarget
             else 0);
          ceilingAvailable = ceilingFps > 0;
          base = \<lparr>ls_source = SNone, ls_targetFps = 0, ls_captureTargetFps = captureTarget,
             ls_captureOutputEquivalentFps = equivalent,
             ls_generalTargetFps = (if generalAvailable then generalFps else 0),
             ls_displayCeilingTargetFps = (if ceilingAvailable then ceilingFps else 0),
             ls_captureSourceIsFinalOutput = isFinal\<rparr>
      in if captureAvailable \<and> (\<not> generalAvailable \<or> equivalent \<le> generalFps) \<and>
            (\<not> ceilingAvailable \<or> equivalent \<le> ceilingFps)
         then base\<lparr>ls_source := SCaptureSync, ls_targetFps := captureTarget\<rparr>
         else if generalAvailable \<and> (\<not> ceilingAvailable \<or> generalFps \<le> ceilingFps)
         then base\<lparr>ls_source := SGeneral, ls_targetFps := generalFps\<rparr>
         else if ceilingAvailable
         then base\<lparr>ls_source := SDisplayVblankCeiling, ls_targetFps := ceilingFps\<rparr>
         else base)"

definition resolve_frame_generation_base_target :: "int \<Rightarrow> bool \<Rightarrow> int \<Rightarrow> bool \<Rightarrow> int" where
  "resolve_frame_generation_base_target outputTargetFps fgActive multiplier scale =
     (if outputTargetFps \<le> 0 then outputTargetFps
      else if \<not> fgActive \<or> multiplier < 2 \<or> \<not> scale then outputTargetFps
      else max 1 (outputTargetFps sdiv min multiplier 4))"

definition resolve_output_group_admission_multiplier :: "bool \<Rightarrow> int \<Rightarrow> int" where
  "resolve_output_group_admission_multiplier fgActive multiplier =
     (if \<not> fgActive \<or> multiplier < 2 then 1 else min multiplier 4)"

definition resolve_cadence_scale_multiplier :: "bool \<Rightarrow> int \<Rightarrow> bool \<Rightarrow> int" where
  "resolve_cadence_scale_multiplier fgActive multiplier scale =
     (if \<not> fgActive \<or> \<not> scale \<or> multiplier < 2 then 1 else min multiplier 4)"

definition resolve_native_driver_pacing_target_fps :: "int \<Rightarrow> int \<Rightarrow> bool \<Rightarrow> int \<Rightarrow> bool \<Rightarrow> bool \<Rightarrow> int" where
  "resolve_native_driver_pacing_target_fps configured baseTarget fgActive multiplier scale covers =
     (if configured \<le> 0 \<or> baseTarget \<le> 0 then baseTarget
      else if \<not> fgActive \<or> multiplier < 2 \<or> \<not> covers then baseTarget
      else if scale then configured
      else let clamped = min multiplier 4
           in if configured > int_max sdiv clamped then configured else configured * clamped)"

section \<open>Present sites\<close>

datatype present_site = KDuplicateProne | KUniqueApplicationPresent | KFinalOutputBoundary
  | KRuntimeOutputPresent | KRuntimeInputPresent | KInterposerOutputPresent

definition resolve_dxgi_present_site :: "bool \<Rightarrow> bool \<Rightarrow> bool \<Rightarrow> present_site" where
  "resolve_dxgi_present_site runtimeOutput streamlineBoundary interposerOutput =
     (if runtimeOutput then KRuntimeOutputPresent
      else if interposerOutput then KInterposerOutputPresent
      else if streamlineBoundary then KFinalOutputBoundary else KUniqueApplicationPresent)"

definition resolve_bypassed_final_output_site :: "bool \<Rightarrow> present_site" where
  "resolve_bypassed_final_output_site runtimeOutput =
     (if runtimeOutput then KRuntimeOutputPresent else KFinalOutputBoundary)"

definition resolve_evaluations_per_game_frame :: "present_site \<Rightarrow> bool \<Rightarrow> int \<Rightarrow> nat" where
  "resolve_evaluations_per_game_frame site fgActive multiplier =
     (if \<not> fgActive \<or> site = KFinalOutputBoundary \<or> site = KRuntimeInputPresent \<or>
         site = KInterposerOutputPresent then 1
      else nat (max multiplier 1))"

definition is_inject_capture_final_output_for_site :: "bool \<Rightarrow> present_site \<Rightarrow> bool" where
  "is_inject_capture_final_output_for_site published site \<longleftrightarrow> published \<or> site = KRuntimeOutputPresent"

record local_cadence_plan =
  cp_presentTargetFps :: int
  cp_presentCadenceTargetFps :: int
  cp_presentCadenceScale :: int
  cp_renderCadenceTargetFps :: int
  cp_renderCadenceScale :: int

definition group_boundary :: "present_site \<Rightarrow> bool" where
  "group_boundary site \<longleftrightarrow> site = KFinalOutputBoundary \<or> site = KRuntimeInputPresent \<or>
     site = KInterposerOutputPresent"

definition resolve_local_cadence_plan :: "int \<Rightarrow> int \<Rightarrow> bool \<Rightarrow> int \<Rightarrow> bool \<Rightarrow> present_site
    \<Rightarrow> local_cadence_plan" where
  "resolve_local_cadence_plan outputTargetFps baseTargetFps fgActive multiplier scale site =
     (let runtimeOutput = (site = KRuntimeOutputPresent);
          renderScale = resolve_cadence_scale_multiplier fgActive multiplier
            (scale \<and> (group_boundary site \<or> runtimeOutput));
          renderTarget = (if renderScale > 1 then outputTargetFps else baseTargetFps)
      in if runtimeOutput \<and> scale
         then \<lparr>cp_presentTargetFps = outputTargetFps, cp_presentCadenceTargetFps = outputTargetFps,
               cp_presentCadenceScale = 1, cp_renderCadenceTargetFps = renderTarget,
               cp_renderCadenceScale = renderScale\<rparr>
         else \<lparr>cp_presentTargetFps = baseTargetFps,
               cp_presentCadenceTargetFps = (if runtimeOutput then baseTargetFps else renderTarget),
               cp_presentCadenceScale = (if runtimeOutput then 1 else renderScale),
               cp_renderCadenceTargetFps = renderTarget, cp_renderCadenceScale = renderScale\<rparr>)"

definition should_gate_every_apply_on_cadence_grid :: "present_site \<Rightarrow> bool \<Rightarrow> bool" where
  "should_gate_every_apply_on_cadence_grid site fgActive =
     (case site of
        KFinalOutputBoundary \<Rightarrow> True
      | KRuntimeInputPresent \<Rightarrow> True
      | KInterposerOutputPresent \<Rightarrow> True
      | KUniqueApplicationPresent \<Rightarrow> \<not> fgActive
      | KRuntimeOutputPresent \<Rightarrow> False
      | KDuplicateProne \<Rightarrow> False)"

definition should_use_duplicate_present_window :: "present_site \<Rightarrow> bool \<Rightarrow> bool" where
  "should_use_duplicate_present_window site fgActive \<longleftrightarrow>
     site = KDuplicateProne \<or> (site = KUniqueApplicationPresent \<and> fgActive)"

section \<open>Front-loading\<close>

definition resolve_frame_work_budget_us :: "int \<Rightarrow> int \<Rightarrow> int \<Rightarrow> nat \<Rightarrow> nat \<Rightarrow> int" where
  "resolve_frame_work_budget_us observedWorkCeilingUs fineMarginUs intervalUs sampleCount minimumSamples =
     (if intervalUs \<le> 0 then 0
      else if sampleCount < minimumSamples \<or> observedWorkCeilingUs < 0 then intervalUs
      else let margin = (if fineMarginUs > 0 then fineMarginUs else 0)
           in if observedWorkCeilingUs > intervalUs - margin then intervalUs
              else observedWorkCeilingUs + margin)"

definition should_front_load_cadence_wait :: "bool \<Rightarrow> bool \<Rightarrow> bool \<Rightarrow> bool \<Rightarrow> bool \<Rightarrow> bool" where
  "should_front_load_cadence_wait gated postPresent fgActive explicitPending usingCaptureSync \<longleftrightarrow>
     gated \<and> postPresent \<and> \<not> fgActive \<and> \<not> explicitPending \<and> \<not> usingCaptureSync"

definition grow_front_load_headroom_us :: "int \<Rightarrow> int \<Rightarrow> int \<Rightarrow> int" where
  "grow_front_load_headroom_us headroomUs lateUs intervalUs =
     (if lateUs \<le> 0 \<or> intervalUs \<le> 0 \<or> lateUs \<ge> intervalUs then headroomUs
      else if lateUs > headroomUs then lateUs else headroomUs)"

definition decay_front_load_headroom_us :: "int \<Rightarrow> int" where
  "decay_front_load_headroom_us headroomUs =
     (if headroomUs \<le> 0 then 0
      else let step = headroomUs sdiv 8 in headroomUs - (if step > 0 then step else 1))"

definition resolve_front_load_gpu_excess_us :: "int \<Rightarrow> int \<Rightarrow> int \<Rightarrow> int" where
  "resolve_front_load_gpu_excess_us recentUs floorUs marginUs =
     (if recentUs \<le> 0 \<or> floorUs < 0 then 0
      else let excess = recentUs - floorUs in if excess > marginUs then excess else 0)"

definition decay_front_load_gpu_headroom_us :: "int \<Rightarrow> int \<Rightarrow> int" where
  "decay_front_load_gpu_headroom_us headroomUs marginUs =
     (if headroomUs \<le> 0 then 0
      else let step = (if marginUs > 0 then marginUs else 1)
           in if headroomUs > step then headroomUs - step else 0)"

definition has_usable_gpu_completion_evidence :: "nat \<Rightarrow> nat \<Rightarrow> bool \<Rightarrow> bool" where
  "has_usable_gpu_completion_evidence samples minimumSamples floorSeeded \<longleftrightarrow>
     floorSeeded \<and> samples \<ge> minimumSamples"

section \<open>Output-group admission\<close>

datatype admission_decision = KPaceGroup | KPassGeneratedSlot

text \<open>The ordinal is the object's only state.\<close>

definition classify_output :: "nat \<Rightarrow> int \<Rightarrow> nat \<times> admission_decision" where
  "classify_output ordinal multiplier =
     (if multiplier < 2 then (0, KPaceGroup)
      else let decision = (if ordinal = 0 then KPaceGroup else KPassGeneratedSlot);
               next = ordinal + 1
           in (if next \<ge> nat multiplier then 0 else next, decision))"

definition reset_admission :: "nat \<Rightarrow> nat \<times> bool" where
  "reset_admission ordinal = (0, ordinal \<noteq> 0)"

fun classify_run :: "nat \<Rightarrow> int \<Rightarrow> nat \<Rightarrow> nat \<times> admission_decision list" where
  "classify_run ordinal multiplier 0 = (ordinal, [])"
| "classify_run ordinal multiplier (Suc n) =
     (case classify_output ordinal multiplier of (o1, d) \<Rightarrow>
        (case classify_run o1 multiplier n of (o2, ds) \<Rightarrow> (o2, d # ds)))"

section \<open>Waiting\<close>

definition smart_wait_arms_kernel_timer :: "int \<Rightarrow> int \<Rightarrow> bool \<Rightarrow> bool" where
  "smart_wait_arms_kernel_timer remainingUs fineMarginUs timerUnavailable \<longleftrightarrow>
     \<not> timerUnavailable \<and> remainingUs > fineMarginUs + 1000"

definition resolve_smart_wait_fine_margin_us :: "int \<Rightarrow> int" where
  "resolve_smart_wait_fine_margin_us p99TimerOvershootUs = clamp (p99TimerOvershootUs + 25) 50 1000"

definition smart_wait_p99_index :: "nat \<Rightarrow> nat" where
  "smart_wait_p99_index count = (if count > 1 then (count * 99 + 99) div 100 - 1 else 0)"

section \<open>Rejoining the grid after a late frame\<close>

lemma group_interval_pos: "0 < fst (next_rational_group_interval_ticks frequency fps scale remainder)"
  by (auto simp: next_rational_group_interval_ticks_def Let_def split: prod.splits)

text \<open>The \<^verbatim>\<open>do ... while\<close> loop, from the state before a pass: target, skipped slots, remainder.\<close>

function late_advance_loop :: "int \<Rightarrow> int \<Rightarrow> int \<Rightarrow> int \<Rightarrow> int \<Rightarrow> nat \<Rightarrow> int \<Rightarrow> int \<times> nat \<times> int" where
  "late_advance_loop minimumNext frequency fps scale target skipped remainder =
     (case next_rational_group_interval_ticks frequency fps scale remainder of
        (step, remainder') \<Rightarrow>
          if target > int64_max - step then (minimumNext, skipped + 1, remainder')
          else if target + step < minimumNext
          then late_advance_loop minimumNext frequency fps scale (target + step) (skipped + 1) remainder'
          else (target + step, skipped + 1, remainder'))"
  by auto
termination
proof (relation "measure (\<lambda>(m, f, d, s, t, k, r). nat (m - t))")
  fix minimumNext frequency fps scale target :: int and skipped :: nat and remainder step r' :: int
  assume eq: "(step, r') = next_rational_group_interval_ticks frequency fps scale remainder"
    and lt: "target + step < minimumNext"
  have "0 < step" using group_interval_pos [of frequency fps scale remainder] eq by (metis fst_conv)
  then show "((minimumNext, frequency, fps, scale, target + step, skipped + 1, r'),
      (minimumNext, frequency, fps, scale, target, skipped, remainder))
      \<in> measure (\<lambda>(m, f, d, s, t, k, r). nat (m - t))" using lt by simp
qed simp

definition advance_capture_sync_deadline_after_late_frame ::
    "int \<Rightarrow> int \<Rightarrow> int \<Rightarrow> int \<Rightarrow> int \<Rightarrow> int \<Rightarrow> int \<times> nat \<times> int" where
  "advance_capture_sync_deadline_after_late_frame currentTarget now frequency fps scale remainder =
     (if currentTarget \<le> 0 \<or> now \<le> 0 \<or> frequency \<le> 0 \<or> fps \<le> 0
      then (case next_rational_group_interval_ticks frequency fps scale remainder of
              (step, remainder') \<Rightarrow> (now + step, 1, remainder'))
      else let halfInterval = max 1 ((frequency sdiv fps) * max 1 scale sdiv 2);
               minimumNext = (if now \<le> int64_max - halfInterval then now + halfInterval else int64_max)
           in late_advance_loop minimumNext frequency fps scale currentTarget 0 remainder)"

section \<open>The local cadence\<close>

text \<open>The deadline state of \<^verbatim>\<open>FpsLimiter\<close>; \<open>lc_target = 0\<close> is "no deadline yet".\<close>

record local_cadence =
  lc_intervalFps :: int
  lc_intervalScale :: int
  lc_remainder :: int
  lc_target :: int

record cadence_result =
  cr_deadline :: int
  cr_waited :: bool
  cr_lateUs :: int
  cr_nextDeadline :: int
  cr_resetCadence :: bool
  cr_skippedGridSlots :: nat

text \<open>\<open>now\<close> is the clock before the wait, \<open>after\<close> the clock once \<^verbatim>\<open>SmartWait\<close> returned.
  Statistics and the published telemetry are left out.\<close>

definition run_local_cadence :: "local_cadence \<Rightarrow> int \<Rightarrow> int \<Rightarrow> int \<Rightarrow> bool \<Rightarrow> int \<Rightarrow> int
    \<Rightarrow> local_cadence \<times> cadence_result option" where
  "run_local_cadence lc frequency targetFps scale preservePhase now after =
     (if targetFps \<le> 0 then (lc, None)
      else let lc = (if lc_intervalFps lc \<noteq> targetFps \<or> lc_intervalScale lc \<noteq> scale
                     then lc\<lparr>lc_intervalFps := targetFps, lc_intervalScale := scale, lc_remainder := 0\<rparr> else lc);
               target = (if lc_target lc = 0
                         then now + max 1 ((frequency sdiv targetFps) * scale sdiv 2) else lc_target lc);
               waitTicks = target - now;
               lateUs = (if waitTicks < 0 then (- waitTicks * 1000000) sdiv frequency else 0);
               (nextTarget, skipped, remainder) =
                 (if waitTicks \<le> 0
                  then if preservePhase
                       then advance_capture_sync_deadline_after_late_frame target after frequency targetFps
                              scale (lc_remainder lc)
                       else (case next_rational_group_interval_ticks frequency targetFps scale (lc_remainder lc) of
                               (step, r) \<Rightarrow> (after + step, 0, r))
                  else (case next_rational_group_interval_ticks frequency targetFps scale (lc_remainder lc) of
                          (step, r) \<Rightarrow> (target + step, 0, r)))
           in (lc\<lparr>lc_target := nextTarget, lc_remainder := remainder\<rparr>,
               Some \<lparr>cr_deadline = target, cr_waited = (waitTicks > 0), cr_lateUs = lateUs,
                     cr_nextDeadline = nextTarget, cr_resetCadence = (waitTicks \<le> 0),
                     cr_skippedGridSlots = skipped\<rparr>))"

declare late_advance_loop.simps [simp del]

section \<open>The strictest constraint limits\<close>

text \<open>The rate a constraint allows at the final output, \<open>None\<close> when it does not apply.\<close>

definition capture_limit :: "limiter_selection \<Rightarrow> int option" where
  "capture_limit s = (if ls_captureTargetFps s > 0 then Some (ls_captureOutputEquivalentFps s) else None)"

definition general_limit :: "limiter_selection \<Rightarrow> int option" where
  "general_limit s = (if ls_generalTargetFps s > 0 then Some (ls_generalTargetFps s) else None)"

definition ceiling_limit :: "limiter_selection \<Rightarrow> int option" where
  "ceiling_limit s = (if ls_displayCeilingTargetFps s > 0 then Some (ls_displayCeilingTargetFps s) else None)"

definition selected_limit :: "limiter_selection \<Rightarrow> int option" where
  "selected_limit s = (case ls_source s of SNone \<Rightarrow> None | SCaptureSync \<Rightarrow> capture_limit s
     | SGeneral \<Rightarrow> general_limit s | SDisplayVblankCeiling \<Rightarrow> ceiling_limit s)"

lemma saturating_positive_product_pos:
  "0 < v \<Longrightarrow> 0 < k \<Longrightarrow> 0 < saturating_positive_product v k \<and> saturating_positive_product v k \<le> int_max"
proof -
  assume v: "0 < v" and k: "0 < k"
  have "v * k \<le> int_max" if "\<not> v > int_max div k"
  proof -
    have "v * k \<le> (int_max div k) * k" using that k by (intro mult_right_mono) auto
    also have "\<dots> \<le> int_max" using k by (simp add: int_max_def minus_mod_eq_div_mult [symmetric])
    finally show ?thesis .
  qed
  then show ?thesis using v k by (auto simp: saturating_positive_product_def int_max_def)
qed

text \<open>capture sync, the general limiter and the display ceiling are simultaneous
  constraints: the chosen one allows no more final output frames than any constraint that
  applies, something is chosen whenever any applies, and the target is the chosen one's.\<close>

theorem strictest_constraint_limits:
  assumes "s = resolve_limiter_target_selection captureRequested captureSyncEnabled captureFps
     captureSyncMultiplier useVfr generalEnabled generalFps fgActive fgMultiplier injectVideo
     finalOutputAvailable ceilingFps"
    and "l \<in> {capture_limit s, general_limit s, ceiling_limit s}" and "l = Some x"
  shows "\<exists>y. selected_limit s = Some y \<and> y \<le> x \<and> 0 < ls_targetFps s \<and>
    ls_targetFps s = (case ls_source s of SCaptureSync \<Rightarrow> ls_captureTargetFps s
      | SGeneral \<Rightarrow> ls_generalTargetFps s | SDisplayVblankCeiling \<Rightarrow> ls_displayCeilingTargetFps s | SNone \<Rightarrow> 0)"
proof -
  define A where "A = (captureRequested \<and> captureSyncEnabled \<and> \<not> useVfr \<and> captureFps > 0 \<and>
      captureSyncMultiplier \<ge> 1 \<and> captureSyncMultiplier \<le> 8)"
  define G where "G = (generalEnabled \<and> generalFps > 0)"
  define fin where "fin = (A \<and> (\<not> injectVideo \<or> finalOutputAvailable))"
  define ct where "ct = (if A then saturating_positive_product captureFps captureSyncMultiplier else 0)"
  define eq where "eq = (if A then if fgActive \<and> fgMultiplier \<ge> 2 \<and> \<not> fin
      then saturating_positive_product ct (min fgMultiplier 4) else ct else 0)"
  have ct: "A \<Longrightarrow> 0 < ct" "\<not> A \<Longrightarrow> ct = 0"
    using saturating_positive_product_pos [of captureFps captureSyncMultiplier] by (auto simp: ct_def A_def)
  have G: "G \<Longrightarrow> 0 < generalFps" by (simp add: G_def)
  define base where "base = \<lparr>ls_source = SNone, ls_targetFps = 0, ls_captureTargetFps = ct,
     ls_captureOutputEquivalentFps = eq, ls_generalTargetFps = (if G then generalFps else 0),
     ls_displayCeilingTargetFps = (if ceilingFps > 0 then ceilingFps else 0),
     ls_captureSourceIsFinalOutput = fin\<rparr>"
  have s: "s = (if A \<and> (\<not> G \<or> eq \<le> generalFps) \<and> (\<not> ceilingFps > 0 \<or> eq \<le> ceilingFps)
         then base\<lparr>ls_source := SCaptureSync, ls_targetFps := ct\<rparr>
         else if G \<and> (\<not> ceilingFps > 0 \<or> generalFps \<le> ceilingFps)
         then base\<lparr>ls_source := SGeneral, ls_targetFps := generalFps\<rparr>
         else if ceilingFps > 0
         then base\<lparr>ls_source := SDisplayVblankCeiling, ls_targetFps := ceilingFps\<rparr>
         else base)"
    unfolding assms(1) resolve_limiter_target_selection_def Let_def base_def eq_def ct_def fin_def A_def G_def
    by (rule refl)
  have lim: "capture_limit s = (if A then Some eq else None)"
    "general_limit s = (if G then Some generalFps else None)"
    "ceiling_limit s = (if ceilingFps > 0 then Some ceilingFps else None)"
    using ct G by (auto simp: s base_def capture_limit_def general_limit_def ceiling_limit_def)
  show ?thesis
  proof (cases "A \<and> (\<not> G \<or> eq \<le> generalFps) \<and> (\<not> ceilingFps > 0 \<or> eq \<le> ceilingFps)")
    case True
    have s1: "s = base\<lparr>ls_source := SCaptureSync, ls_targetFps := ct\<rparr>"
      by (simp only: s if_P [OF True])
    have "selected_limit s = Some eq" using True lim(1) by (simp add: s1 selected_limit_def)
    moreover have "ls_targetFps s = ct" "ls_source s = SCaptureSync" "ls_captureTargetFps s = ct"
      by (simp_all add: s1 base_def)
    ultimately show ?thesis using True ct assms(2,3) lim by (auto split: if_splits)
  next
    case noCapture: False
    show ?thesis
    proof (cases "G \<and> (\<not> ceilingFps > 0 \<or> generalFps \<le> ceilingFps)")
      case True
      have s1: "s = base\<lparr>ls_source := SGeneral, ls_targetFps := generalFps\<rparr>"
        by (simp only: s if_not_P [OF noCapture] if_P [OF True])
      have "selected_limit s = Some generalFps" using True lim(2) by (simp add: s1 selected_limit_def)
      moreover have "ls_targetFps s = generalFps" "ls_source s = SGeneral" "ls_generalTargetFps s = generalFps"
        using True by (simp_all add: s1 base_def)
      ultimately show ?thesis using True noCapture G assms(2,3) lim by (auto split: if_splits)
    next
      case noGeneral: False
      then have c: "ceilingFps > 0" using noCapture assms(2,3) lim by (auto split: if_splits)
      have s1: "s = base\<lparr>ls_source := SDisplayVblankCeiling, ls_targetFps := ceilingFps\<rparr>"
        by (simp only: s if_not_P [OF noCapture] if_not_P [OF noGeneral] if_P [OF c])
      have "selected_limit s = Some ceilingFps" using c lim(3) by (simp add: s1 selected_limit_def)
      moreover have "ls_targetFps s = ceilingFps" "ls_source s = SDisplayVblankCeiling"
        "ls_displayCeilingTargetFps s = ceilingFps" using c by (simp_all add: s1 base_def)
      ultimately show ?thesis using c noCapture noGeneral assms(2,3) lim by (auto split: if_splits)
    qed
  qed
qed

theorem strictest_constraint_limits_witness:
  "ls_source (resolve_limiter_target_selection True True 60 2 False True 130 True 3 True False 0) = SGeneral \<and>
   ls_targetFps (resolve_limiter_target_selection True True 60 2 False True 130 True 3 True False 0) = 130"
proof -
  let ?s = "resolve_limiter_target_selection True True 60 2 False True 130 True 3 True False 0"
  have s: "ls_source ?s = SGeneral" "general_limit ?s = Some 130" "ls_generalTargetFps ?s = 130"
    by (simp_all add: resolve_limiter_target_selection_def saturating_positive_product_def int_max_def
        general_limit_def Let_def)
  then show ?thesis
    using strictest_constraint_limits [OF refl, where x = 130 and l = "Some 130", of True True 60 2 False
        True 130 True 3 True False 0] by auto
qed

section \<open>One paced output per group\<close>

lemma classify_run_append:
  "classify_run ord m (a + b) = (case classify_run ord m a of (o1, xs) \<Rightarrow>
     case classify_run o1 m b of (o2, ys) \<Rightarrow> (o2, xs @ ys))"
  by (induction a arbitrary: ord) (auto split: prod.splits)

lemma classify_run_nth:
  assumes "2 \<le> m" and "ord < nat m"
  shows "classify_run ord m n = ((ord + n) mod nat m,
    map (\<lambda>k. if (ord + k) mod nat m = 0 then KPaceGroup else KPassGeneratedSlot) [0..<n])"
  using assms(2)
proof (induction n arbitrary: ord)
  case (Suc n)
  let ?next = "(ord + 1) mod nat m"
  have step: "classify_output ord m = (?next, if ord = 0 then KPaceGroup else KPassGeneratedSlot)"
    using assms(1) Suc.prems by (auto simp: classify_output_def Let_def mod_if)
  have "?next < nat m" using assms(1) by simp
  note IH = Suc.IH [OF this]
  have tail: "map (\<lambda>k. if (?next + k) mod nat m = 0 then KPaceGroup else KPassGeneratedSlot) [0..<n] =
      map (\<lambda>k. if (ord + k) mod nat m = 0 then KPaceGroup else KPassGeneratedSlot) [Suc 0..<Suc n]"
    by (rule nth_equalityI) (simp_all add: mod_add_left_eq del: upt_Suc)
  have head: "[0..<Suc n] = 0 # [Suc 0..<Suc n]" by (simp add: upt_conv_Cons del: upt_Suc)
  have "(?next + n) mod nat m = (ord + Suc n) mod nat m" by (simp add: mod_add_left_eq)
  then show ?case using IH tail Suc.prems by (simp add: step head del: upt_Suc)
qed simp

text \<open>at a final-output boundary exactly one callback of every \<open>multiplier\<close> consecutive
  ones owns a cadence slot, starting with the first, however the callbacks are spaced in time:
  after \<open>n\<close> callbacks the owners are those whose ordinal is a multiple of the group size.\<close>

theorem one_paced_output_per_group:
  assumes "2 \<le> multiplier"
  shows "snd (classify_run 0 multiplier n) =
    map (\<lambda>k. if int k mod multiplier = 0 then KPaceGroup else KPassGeneratedSlot) [0..<n]"
proof -
  have "int k mod multiplier = 0 \<longleftrightarrow> k mod nat multiplier = 0" for k
    using assms by (metis nat_int nat_mod_as_int of_nat_0 of_nat_eq_0_iff int_nat_eq zmod_int le_numeral_extra(3) order_trans zero_le_numeral)
  then show ?thesis using classify_run_nth [of multiplier 0 n] assms by simp
qed

theorem one_paced_output_per_group_witness:
  "snd (classify_run 0 3 4) = [KPaceGroup, KPassGeneratedSlot, KPassGeneratedSlot, KPaceGroup]"
  using one_paced_output_per_group [of 3 4] by (simp add: upt_rec)

section \<open>A late frame rejoins the same grid\<close>

abbreviation group_step :: "int \<Rightarrow> int \<Rightarrow> int \<Rightarrow> int \<Rightarrow> int \<times> int" where
  "group_step \<equiv> next_rational_group_interval_ticks"

lemma group_step_value:
  assumes "group_ok (f, d, s)" and "0 \<le> r" and "r < d"
  shows "group_step f d s r = ((f * s + r) div d, (f * s + r) mod d)"
  using group_stride.next_eq [of "(f, d, s)" r] assms by simp

lemma group_steps_value:
  assumes "group_ok (f, d, s)" and "0 \<le> r" and "r < d"
  shows "run_steps (group_step f d s) k r = ((int k * (f * s) + r) div d, (int k * (f * s) + r) mod d)"
  using group_stride.run_steps_total [of "(f, d, s)" r k] assms by simp

lemma group_step_bounds:
  assumes "group_ok (f, d, s)" and "0 \<le> r" and "r < d"
  shows "fst (group_step f d s r) \<le> f * s div d + 1" and "0 \<le> snd (group_step f d s r)"
    and "snd (group_step f d s r) < d"
proof -
  have d: "0 < d" using assms(1) by (simp add: group_ok_def)
  show "fst (group_step f d s r) \<le> f * s div d + 1"
    using add_div_carry(1) [OF d assms(2,3), of "f * s"] group_step_value [OF assms] by simp
  show "0 \<le> snd (group_step f d s r)" and "snd (group_step f d s r) < d"
    using group_step_value [OF assms] d by simp_all
qed

lemma late_advance_loop_spec:
  assumes "group_ok (f, d, s)" and "0 \<le> r" and "r < d"
    and "max target minNext + (f * s div d + 1) \<le> int64_max"
    and "late_advance_loop minNext f d s target k r = (nextTarget, skipped, r')"
  shows "\<exists>n. skipped = k + Suc n \<and> nextTarget = target + fst (run_steps (group_step f d s) (Suc n) r) \<and>
    r' = snd (run_steps (group_step f d s) (Suc n) r) \<and> minNext \<le> nextTarget \<and>
    (n = 0 \<or> target + fst (run_steps (group_step f d s) n r) < minNext)"
  using assms
proof (induction minNext f d s target k r rule: late_advance_loop.induct)
  case (1 minNext f d s target k r)
  obtain step r1 where st: "group_step f d s r = (step, r1)" by fastforce
  have r1: "0 \<le> r1" "r1 < d" "step \<le> f * s div d + 1"
    using group_step_bounds [OF "1.prems"(1-3)] st by auto
  have no_ov: "\<not> target > int64_max - step" using r1(3) "1.prems"(4) by simp
  show ?case
  proof (cases "target + step < minNext")
    case False
    then have "nextTarget = target + step" "skipped = k + 1" "r' = r1"
      using "1.prems"(5) no_ov st by (simp_all add: late_advance_loop.simps [of minNext])
    then show ?thesis using False st by (intro exI [of _ 0]) simp
  next
    case True
    have run: "late_advance_loop minNext f d s (target + step) (k + 1) r1 = (nextTarget, skipped, r')"
      using "1.prems"(5) no_ov st True by (simp add: late_advance_loop.simps [of minNext _ _ _ target])
    have room: "max (target + step) minNext + (f * s div d + 1) \<le> int64_max"
      using True "1.prems"(4) by simp
    from "1.IH" [OF st [symmetric] no_ov True "1.prems"(1) r1(1,2) room run]
    obtain n where n: "skipped = k + 1 + Suc n"
      "nextTarget = target + step + fst (run_steps (group_step f d s) (Suc n) r1)"
      "r' = snd (run_steps (group_step f d s) (Suc n) r1)" "minNext \<le> nextTarget"
      "n = 0 \<or> target + step + fst (run_steps (group_step f d s) n r1) < minNext" by blast
    have unfold: "run_steps (group_step f d s) (Suc m) r =
        (step + fst (run_steps (group_step f d s) m r1), snd (run_steps (group_step f d s) m r1))" for m
      using st by (simp split: prod.splits)
    show ?thesis
      using n True unfold [of n] unfold [of "Suc n"]
      by (intro exI [of _ "Suc n"]) (auto simp del: run_steps.simps(2) simp: add.assoc)
  qed
qed

text \<open>after a hitch capture sync keeps its phase: the next deadline is the old one plus a
  whole number of rational group intervals (the skipped slots), it leaves at least half an
  interval of room, and no earlier slot would; the loop always ends.\<close>

theorem late_frame_keeps_phase:
  assumes "group_ok (frequency, fps, scale)" and "0 \<le> r" and "r < fps" and "0 < currentTarget" and "0 < now"
    and "half = max 1 ((frequency div fps) * max 1 scale div 2)"
    and "max currentTarget (now + half) + (frequency * scale div fps + 1) \<le> int64_max"
    and "advance_capture_sync_deadline_after_late_frame currentTarget now frequency fps scale r =
      (nextTarget, skipped, r')"
  shows "1 \<le> skipped \<and> nextTarget = currentTarget + (int skipped * (frequency * scale) + r) div fps \<and>
    r' = (int skipped * (frequency * scale) + r) mod fps \<and> now + half \<le> nextTarget \<and>
    (skipped = 1 \<or> currentTarget + (int (skipped - 1) * (frequency * scale) + r) div fps < now + half)"
proof -
  have pos: "0 < frequency" "0 < fps" "0 < scale" using assms(1) by (auto simp: group_ok_def)
  have q: "0 \<le> frequency * scale div fps" using pos by (simp add: pos_imp_zdiv_nonneg_iff)
  have half: "(frequency sdiv fps) * max 1 scale sdiv 2 = (frequency div fps) * max 1 scale div 2"
    using pos by (simp add: pos_imp_zdiv_nonneg_iff)
  have "now \<le> int64_max - half" using assms(7) q by (simp add: max_def split: if_splits)
  then have "late_advance_loop (now + half) frequency fps scale currentTarget 0 r = (nextTarget, skipped, r')"
    using assms(4-6,8) pos half
    by (simp add: advance_capture_sync_deadline_after_late_frame_def Let_def)
  from late_advance_loop_spec [OF assms(1-3,7) this] obtain n where
    "skipped = Suc n" "nextTarget = currentTarget + fst (run_steps (group_step frequency fps scale) (Suc n) r)"
    "r' = snd (run_steps (group_step frequency fps scale) (Suc n) r)" "now + half \<le> nextTarget"
    "n = 0 \<or> currentTarget + fst (run_steps (group_step frequency fps scale) n r) < now + half" by auto
  then show ?thesis unfolding group_steps_value [OF assms(1-3)] by auto
qed

theorem late_frame_keeps_phase_witness:
  "fst (advance_capture_sync_deadline_after_late_frame 1000 200500 10000000 120 1 0) = 251000"
proof -
  obtain a b c where run: "advance_capture_sync_deadline_after_late_frame 1000 200500 10000000 120 1 0 = (a, b, c)"
    by (cases "advance_capture_sync_deadline_after_late_frame 1000 200500 10000000 120 1 0")
  have "1 \<le> b \<and> a = 1000 + (int b * (10000000 * 1) + 0) div 120 \<and>
    c = (int b * (10000000 * 1) + 0) mod 120 \<and> 200500 + 41666 \<le> a \<and>
    (b = 1 \<or> 1000 + (int (b - 1) * (10000000 * 1) + 0) div 120 < 200500 + 41666)"
    by (rule late_frame_keeps_phase [OF _ _ _ _ _ _ _ run]) (simp_all add: group_ok_def int64_max_def)
  then have b: "1 \<le> b" "a = 1000 + (int b * 10000000) div 120" "242166 \<le> a"
    "b = 1 \<or> 1000 + (int (b - 1) * 10000000) div 120 < 242166" by auto
  have "3 \<le> b"
  proof (rule ccontr)
    assume "\<not> 3 \<le> b"
    then have "b = 1 \<or> b = 2" using b(1) by linarith
    then show False using b(2,3) by auto
  qed
  moreover have "b \<le> 3"
  proof (rule ccontr)
    assume "\<not> b \<le> 3"
    then have "3 \<le> int (b - 1)" by simp
    then have "3 * 10000000 div 120 \<le> (int (b - 1) * 10000000) div 120" by (intro zdiv_mono1) simp_all
    then show False using b(1,4) \<open>\<not> b \<le> 3\<close> by simp
  qed
  ultimately show ?thesis using b(2) run by simp
qed

section \<open>The local cadence never drifts\<close>

text \<open>Consecutive calls, each with its clock before the wait and after it.\<close>

fun cadence_run :: "local_cadence \<Rightarrow> int \<Rightarrow> int \<Rightarrow> int \<Rightarrow> bool \<Rightarrow> (int \<times> int) list \<Rightarrow> local_cadence" where
  "cadence_run lc f fps s p [] = lc"
| "cadence_run lc f fps s p ((now, after) # ts) =
     cadence_run (fst (run_local_cadence lc f fps s p now after)) f fps s p ts"

fun all_waited :: "local_cadence \<Rightarrow> int \<Rightarrow> int \<Rightarrow> int \<Rightarrow> bool \<Rightarrow> (int \<times> int) list \<Rightarrow> bool" where
  "all_waited lc f fps s p [] = True"
| "all_waited lc f fps s p ((now, after) # ts) =
     (now < lc_target lc \<and> all_waited (fst (run_local_cadence lc f fps s p now after)) f fps s p ts)"

lemma cadence_run_total:
  assumes "group_ok (f, fps, s)" and "0 < lc_target lc" and "lc_intervalFps lc = fps"
    and "lc_intervalScale lc = s" and "0 \<le> lc_remainder lc" and "lc_remainder lc < fps"
    and "all_waited lc f fps s p ts"
  shows "lc_target (cadence_run lc f fps s p ts) =
    lc_target lc + fst (run_steps (group_step f fps s) (length ts) (lc_remainder lc))"
  using assms(2-)
proof (induction ts arbitrary: lc)
  case (Cons c ts)
  obtain now after where c: "c = (now, after)" by fastforce
  obtain step r1 where st: "group_step f fps s (lc_remainder lc) = (step, r1)" by fastforce
  have fps: "0 < fps" using assms(1) by (simp add: group_ok_def)
  have pos: "0 < step" using group_interval_pos [of f fps s "lc_remainder lc"] st by simp
  have now: "now < lc_target lc" using Cons.prems(6) c by simp
  let ?lc = "lc\<lparr>lc_target := lc_target lc + step, lc_remainder := r1\<rparr>"
  have nxt: "fst (run_local_cadence lc f fps s p now after) = ?lc"
    using Cons.prems(1-3) fps now st by (simp add: run_local_cadence_def Let_def)
  have r1: "0 \<le> r1" "r1 < fps" using group_step_bounds [OF assms(1) Cons.prems(4,5)] st by auto
  have "lc_target (cadence_run ?lc f fps s p ts) =
      lc_target ?lc + fst (run_steps (group_step f fps s) (length ts) (lc_remainder ?lc))"
    by (rule Cons.IH) (use Cons.prems pos r1 c nxt in auto)
  then show ?case using c nxt st by (simp split: prod.splits)
qed simp

text \<open>C6: while frames arrive before their deadline, the deadlines of a constant target lie on
  the exact rational grid: after \<open>n\<close> frames the next one is the first plus
  \<open>floor((n * frequency * scale + r) / fps)\<close>, so the long-run rate is the target's, not the
  truncated interval's.\<close>

theorem local_cadence_never_drifts:
  assumes "group_ok (frequency, fps, scale)" and "0 < lc_target lc" and "lc_intervalFps lc = fps"
    and "lc_intervalScale lc = scale" and "0 \<le> lc_remainder lc" and "lc_remainder lc < fps"
    and "all_waited lc frequency fps scale preserve ts"
  shows "lc_target (cadence_run lc frequency fps scale preserve ts) =
    lc_target lc + (int (length ts) * (frequency * scale) + lc_remainder lc) div fps"
  using cadence_run_total [OF assms] group_steps_value [OF assms(1,5,6)] by simp

theorem local_cadence_never_drifts_witness:
  "lc_target (cadence_run \<lparr>lc_intervalFps = 130, lc_intervalScale = 3, lc_remainder = 0, lc_target = 1000\<rparr>
     10000000 130 3 True [(0, 1000), (1000, 231769)]) = 462538"
proof -
  have "lc_target (cadence_run \<lparr>lc_intervalFps = 130, lc_intervalScale = 3, lc_remainder = 0, lc_target = 1000\<rparr>
     10000000 130 3 True [(0, 1000), (1000, 231769)]) = 1000 + (2 * 30000000) div 130"
    by (rule local_cadence_never_drifts [THEN trans])
       (simp_all add: group_ok_def int64_max_def run_local_cadence_def next_rational_group_interval_ticks_def Let_def)
  then show ?thesis by simp
qed

end
