(* ===== verification/FrameSelect.thy ===== *)
theory FrameSelect
  imports CfrGrid
begin

text \<open>
  Which queued frame a constant-frame-rate slot shows: the closest-timestamp searches of
  \<^verbatim>\<open>common/capture/frame_timing_utils.h\<close> and the source-driven clock beside them. Only the two
  timestamps a search reads are modelled of a frame; a predicate is an argument.
\<close>

record timed_frame =
  selectionTimestamp :: int
  frame_timestamp :: int

definition absolute_timestamp_distance :: "int \<Rightarrow> int \<Rightarrow> int" where
  "absolute_timestamp_distance lhs rhs = (if lhs \<ge> rhs then lhs - rhs else rhs - lhs)"

definition get_frame_selection_timestamp :: "timed_frame \<Rightarrow> int" where
  "get_frame_selection_timestamp f =
     (if selectionTimestamp f > 0 then selectionTimestamp f else frame_timestamp f)"

abbreviation sel_ts :: "timed_frame list \<Rightarrow> nat \<Rightarrow> int" where
  "sel_ts frames i \<equiv> get_frame_selection_timestamp (frames ! i)"

text \<open>One pass of the search loop: the state is \<^verbatim>\<open>bestIndex\<close> and \<^verbatim>\<open>bestDistance\<close>.\<close>

definition closest_step :: "timed_frame list \<Rightarrow> int \<Rightarrow> nat \<Rightarrow> nat \<times> int \<Rightarrow> nat \<times> int" where
  "closest_step frames target i best =
     (case best of (bestIndex, bestDistance) \<Rightarrow>
        let distance = absolute_timestamp_distance (sel_ts frames i) target
        in if distance < bestDistance \<or>
              (distance = bestDistance \<and> sel_ts frames i > sel_ts frames bestIndex)
           then (i, distance) else best)"

definition closest_if_step :: "timed_frame list \<Rightarrow> nat \<Rightarrow> int \<Rightarrow> (timed_frame \<Rightarrow> bool) \<Rightarrow> nat \<Rightarrow> nat \<times> int
    \<Rightarrow> nat \<times> int" where
  "closest_if_step frames availableCount target pred i best =
     (if \<not> pred (frames ! i) then best
      else case best of (bestIndex, bestDistance) \<Rightarrow>
        let distance = absolute_timestamp_distance (sel_ts frames i) target
        in if bestIndex = availableCount \<or> distance < bestDistance \<or>
              (distance = bestDistance \<and> sel_ts frames i > sel_ts frames bestIndex)
           then (i, distance) else best)"

definition select_frame_closest_to_timestamp :: "timed_frame list \<Rightarrow> nat \<Rightarrow> int \<Rightarrow> nat" where
  "select_frame_closest_to_timestamp frames availableCount target =
     (if availableCount \<le> 1 \<or> target \<le> 0 then 0
      else fst (fold (closest_step frames target) [1..<availableCount]
             (0, absolute_timestamp_distance (sel_ts frames 0) target)))"

definition select_frame_closest_to_timestamp_if :: "timed_frame list \<Rightarrow> nat \<Rightarrow> int
    \<Rightarrow> (timed_frame \<Rightarrow> bool) \<Rightarrow> nat" where
  "select_frame_closest_to_timestamp_if frames availableCount target pred =
     (if availableCount = 0 \<or> target \<le> 0 then availableCount
      else fst (fold (closest_if_step frames availableCount target pred) [0..<availableCount]
             (availableCount, 0)))"

definition select_frame_closest_to_grid :: "timed_frame list \<Rightarrow> nat \<Rightarrow> int \<Rightarrow> int \<Rightarrow> int \<Rightarrow> nat" where
  "select_frame_closest_to_grid frames availableCount gridStart tickCount interval =
     (if availableCount \<le> 1 \<or> gridStart \<le> 0 \<or> interval \<le> 0 then 0
      else let ideal = compute_ideal_output_qpc gridStart tickCount interval
           in fst (fold (closest_step frames ideal) [1..<availableCount]
                (0, absolute_timestamp_distance (sel_ts frames 0) ideal)))"

definition select_frame_closest_to_grid_if :: "timed_frame list \<Rightarrow> nat \<Rightarrow> int \<Rightarrow> int \<Rightarrow> int
    \<Rightarrow> (timed_frame \<Rightarrow> bool) \<Rightarrow> nat" where
  "select_frame_closest_to_grid_if frames availableCount gridStart tickCount interval pred =
     (if availableCount = 0 \<or> gridStart \<le> 0 \<or> interval \<le> 0 then availableCount
      else let ideal = compute_ideal_output_qpc gridStart tickCount interval
           in fst (fold (closest_if_step frames availableCount ideal pred) [0..<availableCount]
                (availableCount, 0)))"

text \<open>The neighbour searches; a container's size is the list's length.\<close>

fun previous_from :: "timed_frame list \<Rightarrow> (timed_frame \<Rightarrow> bool) \<Rightarrow> nat \<Rightarrow> nat" where
  "previous_from frames pred 0 = length frames"
| "previous_from frames pred (Suc candidate) =
     (if pred (frames ! candidate) then candidate else previous_from frames pred candidate)"

definition find_previous_frame_index_if :: "timed_frame list \<Rightarrow> nat \<Rightarrow> (timed_frame \<Rightarrow> bool) \<Rightarrow> nat" where
  "find_previous_frame_index_if frames startExclusive pred =
     previous_from frames pred (min startExclusive (length frames))"

definition find_next_frame_index_if :: "timed_frame list \<Rightarrow> nat \<Rightarrow> (timed_frame \<Rightarrow> bool) \<Rightarrow> nat" where
  "find_next_frame_index_if frames startExclusive pred =
     (case find (\<lambda>i. pred (frames ! i)) [min startExclusive (length frames)..<length frames] of
        Some i \<Rightarrow> i | None \<Rightarrow> length frames)"

definition should_hold_frame_for_next_tick :: "int \<Rightarrow> int \<Rightarrow> int \<Rightarrow> int \<Rightarrow> bool" where
  "should_hold_frame_for_next_tick frameTimestamp ideal interval holdSlack =
     (if frameTimestamp \<le> 0 \<or> ideal \<le> 0 \<or> interval \<le> 0 then False
      else if frameTimestamp \<le> ideal then False
      else absolute_timestamp_distance frameTimestamp (ideal + interval) + max holdSlack 0
             < absolute_timestamp_distance frameTimestamp ideal)"

section \<open>The source-driven clock\<close>

record source_timeline =
  startSourceQpc :: int
  lastElapsedUs :: int

definition source_timeline_reset :: source_timeline where
  "source_timeline_reset = \<lparr>startSourceQpc = 0, lastElapsedUs = 0\<rparr>"

definition compute_source_driven_elapsed_us :: "int \<Rightarrow> int \<Rightarrow> int \<Rightarrow> source_timeline
    \<Rightarrow> source_timeline \<times> int" where
  "compute_source_driven_elapsed_us qpcFreq frameQpc steadyElapsedUs state =
     (let fallback = (\<lambda>state. let e = max steadyElapsedUs (lastElapsedUs state)
                              in (state\<lparr>lastElapsedUs := e\<rparr>, e))
      in if qpcFreq > 0 \<and> frameQpc > 0
         then let state = (if startSourceQpc state \<le> 0 then state\<lparr>startSourceQpc := frameQpc\<rparr> else state)
              in if frameQpc \<ge> startSourceQpc state
                 then let e = ((frameQpc - startSourceQpc state) * 1000000) sdiv qpcFreq
                      in if e > lastElapsedUs state then (state\<lparr>lastElapsedUs := e\<rparr>, e) else fallback state
                 else fallback state
         else fallback state)"

section \<open>The searches find the closest frame\<close>

text \<open>Frame \<open>i\<close> is preferred to frame \<open>j\<close>: closer to the target, or as close and newer, or as
  close, as new, and not later in the queue.\<close>

definition prefers :: "timed_frame list \<Rightarrow> int \<Rightarrow> nat \<Rightarrow> nat \<Rightarrow> bool" where
  "prefers frames target i j \<longleftrightarrow>
     (let di = \<bar>sel_ts frames i - target\<bar>; dj = \<bar>sel_ts frames j - target\<bar>
      in di < dj \<or> (di = dj \<and> (sel_ts frames i > sel_ts frames j \<or>
           (sel_ts frames i = sel_ts frames j \<and> i \<le> j))))"

lemma distance_abs: "absolute_timestamp_distance a b = \<bar>a - b\<bar>"
  by (simp add: absolute_timestamp_distance_def)

lemma closest_if_fold:
  assumes "k \<le> n"
  shows "fold (closest_if_step frames n target pred) [0..<k] (n, 0) = (b, d) \<Longrightarrow>
    (b = n \<longrightarrow> (\<forall>j<k. \<not> pred (frames ! j))) \<and>
    (b \<noteq> n \<longrightarrow> b < k \<and> pred (frames ! b) \<and> d = \<bar>sel_ts frames b - target\<bar> \<and>
       (\<forall>j<k. pred (frames ! j) \<longrightarrow> prefers frames target b j))"
  using assms
proof (induction k arbitrary: b d)
  case (Suc k)
  obtain b0 d0 where prev: "fold (closest_if_step frames n target pred) [0..<k] (n, 0) = (b0, d0)"
    by fastforce
  note IH = Suc.IH [OF prev]
  have step: "closest_if_step frames n target pred k (b0, d0) = (b, d)" using Suc.prems(1) prev by simp
  show ?case
  proof (cases "pred (frames ! k)")
    case False
    then show ?thesis using step IH Suc.prems(2)
      by (auto simp: closest_if_step_def less_Suc_eq)
  next
    case True
    have old: "\<forall>j<k. pred (frames ! j) \<longrightarrow> b0 \<noteq> n \<and> prefers frames target b0 j"
      using IH Suc.prems(2) by auto
    show ?thesis
    proof (cases "b0 = n \<or> \<bar>sel_ts frames k - target\<bar> < d0 \<or>
        (\<bar>sel_ts frames k - target\<bar> = d0 \<and> sel_ts frames k > sel_ts frames b0)")
      case better: True
      then have b: "b = k" "d = \<bar>sel_ts frames k - target\<bar>"
        using step True by (auto simp: closest_if_step_def distance_abs Let_def)
      have "prefers frames target k j" if "j < Suc k" "pred (frames ! j)" for j
        using better old that IH Suc.prems(2)
        by (cases "j = k") (auto simp: prefers_def Let_def less_Suc_eq)
      then show ?thesis using b True Suc.prems(2) by auto
    next
      case keep: False
      then have b: "b = b0" "d = d0" "b0 \<noteq> n"
        using step True by (auto simp: closest_if_step_def distance_abs Let_def)
      have "prefers frames target b0 j" if "j < Suc k" "pred (frames ! j)" for j
        using keep old that IH Suc.prems(2)
        by (cases "j = k") (auto simp: prefers_def Let_def less_Suc_eq)
      then show ?thesis using b IH Suc.prems(2) by auto
    qed
  qed
qed simp

lemma closest_fold_if:
  assumes "1 \<le> n"
  shows "fold (closest_step frames target) [1..<n] (0, absolute_timestamp_distance (sel_ts frames 0) target) =
    fold (closest_if_step frames n target (\<lambda>_. True)) [0..<n] (n, 0)"
proof -
  have head: "[0..<n] = 0 # [1..<n]" using assms by (simp add: upt_conv_Cons)
  have first: "closest_if_step frames n target (\<lambda>_. True) 0 (n, 0) =
      (0, absolute_timestamp_distance (sel_ts frames 0) target)"
    by (simp add: closest_if_step_def Let_def)
  have eq: "fold (closest_step frames target) [1..<k] (b, d) =
      fold (closest_if_step frames n target (\<lambda>_. True)) [1..<k] (b, d)" if "k \<le> n" "b < n" for k b d
    using that
  proof (induction k)
    case (Suc k)
    have "fst (fold (closest_if_step frames n target (\<lambda>_. True)) [1..<k] (b, d)) < n"
    proof -
      have "fst (fold (closest_if_step frames n target (\<lambda>_. True)) [1..<j] (b, d)) < n" if "j \<le> n" for j
        using that Suc.prems(2)
        by (induction j) (auto simp: closest_if_step_def Let_def split: prod.splits)
      then show ?thesis using Suc.prems by simp
    qed
    moreover obtain b' d' where f: "fold (closest_if_step frames n target (\<lambda>_. True)) [1..<k] (b, d) = (b', d')"
      by fastforce
    ultimately have "closest_if_step frames n target (\<lambda>_. True) k (b', d') = closest_step frames target k (b', d')"
      by (simp add: closest_step_def closest_if_step_def Let_def)
    moreover have "fold (closest_step frames target) [1..<k] (b, d) = (b', d')"
      using Suc.IH Suc.prems f by simp
    ultimately show ?case using f by (cases "1 \<le> k") simp_all
  qed simp
  show ?thesis unfolding head using eq [of n 0] assms by (simp add: first)
qed

lemma prefers_nth: "(\<forall>j<n. prefers frames target b j) \<longleftrightarrow> (\<forall>j\<in>{..<n}. prefers frames target b j)"
  by auto

text \<open>the frame a slot shows is the best one: among the available frames that satisfy the
  predicate no other is closer to the slot's ideal time, none as close is newer, and none as
  close and as new is earlier in the queue; "none" is returned exactly when no frame qualifies.\<close>

theorem selects_closest_frame:
  assumes "0 < availableCount" and "0 < gridStart" and "0 < interval"
    and "b = select_frame_closest_to_grid_if frames availableCount gridStart tickCount interval pred"
  shows "(b = availableCount \<longleftrightarrow> (\<forall>j<availableCount. \<not> pred (frames ! j))) \<and>
    (b \<noteq> availableCount \<longrightarrow> b < availableCount \<and> pred (frames ! b) \<and>
      (\<forall>j<availableCount. pred (frames ! j) \<longrightarrow>
        prefers frames (compute_ideal_output_qpc gridStart tickCount interval) b j)) \<and>
    (pred = (\<lambda>_. True) \<longrightarrow> select_frame_closest_to_grid frames availableCount gridStart tickCount interval = b)"
proof -
  let ?t = "compute_ideal_output_qpc gridStart tickCount interval"
  obtain d where fold: "fold (closest_if_step frames availableCount ?t pred) [0..<availableCount]
      (availableCount, 0) = (b, d)"
    using assms by (simp add: select_frame_closest_to_grid_if_def Let_def) (metis prod.collapse)
  note main = closest_if_fold [OF order.refl fold]
  have plain: "select_frame_closest_to_grid frames availableCount gridStart tickCount interval = b"
    if "pred = (\<lambda>_. True)"
  proof (cases "availableCount = 1")
    case True
    then show ?thesis using main that assms(2,3) by (auto simp: select_frame_closest_to_grid_def)
  next
    case False
    then show ?thesis
      using closest_fold_if [of availableCount frames ?t] fold that assms(1-3)
      by (simp add: select_frame_closest_to_grid_def Let_def)
  qed
  show ?thesis using main plain by auto
qed

theorem selects_closest_frame_witness:
  "select_frame_closest_to_grid_if [\<lparr>selectionTimestamp = 0, frame_timestamp = 90\<rparr>,
     \<lparr>selectionTimestamp = 110, frame_timestamp = 0\<rparr>, \<lparr>selectionTimestamp = 0, frame_timestamp = 110\<rparr>]
     3 50 2 50 (\<lambda>_. True) = 1"
proof -
  define fs :: "timed_frame list" where "fs = [\<lparr>selectionTimestamp = 0, frame_timestamp = 90\<rparr>,
     \<lparr>selectionTimestamp = 110, frame_timestamp = 0\<rparr>, \<lparr>selectionTimestamp = 0, frame_timestamp = 110\<rparr>]"
  have v: "sel_ts fs 0 = 90" "sel_ts fs 1 = 110" "sel_ts fs 2 = 110" "compute_ideal_output_qpc 50 2 50 = 100"
    by (simp_all add: fs_def get_frame_selection_timestamp_def compute_ideal_output_qpc_def)
  define b where b: "b = select_frame_closest_to_grid_if fs 3 50 2 50 (\<lambda>_. True)"
  have nz: "\<not> (\<forall>j<(3::nat). \<not> True)" by (auto intro: exI [of _ 0])
  have "b \<noteq> 3 \<and> b < 3 \<and> (\<forall>j<3. prefers fs 100 b j)"
    using selects_closest_frame [of 3 50 50 b fs 2 "\<lambda>_. True"] b v(4) nz by simp
  moreover have "\<not> prefers fs 100 0 1" "\<not> prefers fs 100 2 1"
    unfolding prefers_def Let_def v by simp_all
  ultimately have "b = 1" by (auto simp: numeral_3_eq_3 less_Suc_eq numeral_2_eq_2)
  then show ?thesis using b fs_def by simp
qed

end
