(* ===== verification/HorizonPlayout.thy ===== *)
theory HorizonPlayout
  imports Prelude
begin

text \<open>
  The look-ahead playout of \<^verbatim>\<open>common/capture/capture_policy/cfr_horizon_playout.h\<close>: a dynamic
  program over the next output slots whose first decision is applied. Candidate pointers are lists
  (\<^verbatim>\<open>count\<close> is their length), QPC values are integers, and the sums of the plan, far below
  \<^verbatim>\<open>INT64_MAX / 4\<close> for any real clock, are not wrapped. The lemmas show that the dynamic program
  computes the cheapest explicit plan.
\<close>

definition horizon_max_candidates :: nat where "horizon_max_candidates = 32"

definition horizon_infinite_cost :: int where "horizon_infinite_cost = int64_max div 4"

record horizon_input =
  timestampsQpc :: "int list"
  readyNow :: "bool list"
  shownTimestampQpc :: int
  targetQpc :: int
  slotQpc :: int
  leadToleranceQpc :: int
  lagBoundQpc :: int
  horizonSlots :: nat

record horizon_decision =
  dec_valid :: bool
  dec_emit :: bool
  dec_index :: nat
  dec_costQpc :: int

definition horizon_distance :: "int \<Rightarrow> int \<Rightarrow> int" where
  "horizon_distance a b = (if a \<ge> b then a - b else b - a)"

definition slot_target :: "horizon_input \<Rightarrow> nat \<Rightarrow> int" where
  "slot_target inp slot = targetQpc inp + int slot * slotQpc inp"

definition shown_ts :: "horizon_input \<Rightarrow> nat \<Rightarrow> int" where
  "shown_ts inp s = (if s = 0 then shownTimestampQpc inp else timestampsQpc inp ! (s - 1))"

text \<open>One state of one slot: the repeat, then every candidate from \<open>s\<close> on until one is too new.\<close>

definition relax :: "nat \<Rightarrow> int \<Rightarrow> int list \<Rightarrow> int list" where
  "relax j v nx = nx[j := min (nx ! j) v]"

definition show_from :: "horizon_input \<Rightarrow> nat \<Rightarrow> nat \<Rightarrow> int \<Rightarrow> nat \<Rightarrow> int list \<Rightarrow> int list" where
  "show_from inp slot n base s nx =
     fold (\<lambda>i nx. let offset = timestampsQpc inp ! i - slot_target inp slot
             in if offset < - lagBoundQpc inp then nx
                else relax (i + 1) (base + int (i - s) * slotQpc inp + horizon_distance offset 0) nx)
       (takeWhile (\<lambda>i. \<not> timestampsQpc inp ! i - slot_target inp slot > leadToleranceQpc inp) [s..<n]) nx"

definition expand_state :: "horizon_input \<Rightarrow> nat \<Rightarrow> nat \<Rightarrow> int list \<Rightarrow> nat \<Rightarrow> int list \<Rightarrow> int list" where
  "expand_state inp slot n cost s nx =
     (if cost ! s \<ge> horizon_infinite_cost then nx
      else show_from inp slot n (cost ! s) s
        (relax s (cost ! s + slotQpc inp +
            (if shown_ts inp s > 0 then horizon_distance (shown_ts inp s) (slot_target inp slot) else 0)) nx))"

definition slot_pass :: "horizon_input \<Rightarrow> nat \<Rightarrow> nat \<Rightarrow> int list \<Rightarrow> int list" where
  "slot_pass inp n slot cost =
     fold (expand_state inp slot n cost) [0..<n + 1] (replicate (n + 1) horizon_infinite_cost)"

definition horizon_plan_cost :: "horizon_input \<Rightarrow> nat \<Rightarrow> int \<Rightarrow> nat \<Rightarrow> nat \<Rightarrow> int" where
  "horizon_plan_cost inp n shownIndex firstSlot horizon =
     (let cost = (replicate (n + 1) horizon_infinite_cost)[nat (shownIndex + 1) := 0];
          cost = fold (slot_pass inp n) [firstSlot..<horizon] cost
      in fold (\<lambda>s best. min best (cost ! s)) [0..<n + 1] horizon_infinite_cost)"

fun trim_newer :: "int list \<Rightarrow> int \<Rightarrow> nat \<Rightarrow> nat" where
  "trim_newer ts newest 0 = 0"
| "trim_newer ts newest (Suc n) = (if ts ! n > newest then trim_newer ts newest n else Suc n)"

definition first_cost :: "horizon_input \<Rightarrow> nat \<Rightarrow> nat \<Rightarrow> bool \<Rightarrow> nat \<Rightarrow> int" where
  "first_cost inp n horizon emit index =
     (if \<not> emit
      then let hold = slotQpc inp + (if shownTimestampQpc inp > 0
                        then horizon_distance (shownTimestampQpc inp) (targetQpc inp) else 0);
               rest = horizon_plan_cost inp n (-1) 1 horizon
           in if rest \<ge> horizon_infinite_cost then rest else hold + rest
      else let offset = timestampsQpc inp ! index - targetQpc inp
           in if \<not> readyNow inp ! index \<or> offset > leadToleranceQpc inp \<or> offset < - lagBoundQpc inp
              then horizon_infinite_cost
              else let cost_now = int index * slotQpc inp + horizon_distance offset 0;
                       rest = horizon_plan_cost inp n (int index) 1 horizon
                   in if rest \<ge> horizon_infinite_cost then rest else cost_now + rest)"

text \<open>The scan for a ready candidate in the window, with its two early exits.\<close>

fun any_in_window :: "horizon_input \<Rightarrow> nat list \<Rightarrow> bool" where
  "any_in_window inp [] = False"
| "any_in_window inp (i # is) =
     (let offset = timestampsQpc inp ! i - targetQpc inp
      in if offset > leadToleranceQpc inp then False
         else if readyNow inp ! i \<and> offset \<ge> - lagBoundQpc inp then True else any_in_window inp is)"

definition best_step :: "horizon_input \<Rightarrow> nat \<Rightarrow> nat \<Rightarrow> nat \<Rightarrow> int \<times> bool \<times> nat \<Rightarrow> int \<times> bool \<times> nat" where
  "best_step inp n horizon i best =
     (let cost = first_cost inp n horizon True i in if cost < fst best then (cost, True, i) else best)"

definition decide_cfr_horizon_playout :: "horizon_input \<Rightarrow> bool \<Rightarrow> nat \<Rightarrow> horizon_decision" where
  "decide_cfr_horizon_playout inp nearestEmit nearestIndex =
     (let decision = \<lparr>dec_valid = False, dec_emit = False, dec_index = 0, dec_costQpc = 0\<rparr>;
          in_count = length (timestampsQpc inp)
      in if in_count = 0 \<or> slotQpc inp \<le> 0 \<or> targetQpc inp \<le> 0 \<or> leadToleranceQpc inp < 0 \<or>
            lagBoundQpc inp < 0 \<or> horizonSlots inp = 0 then decision
         else let horizon = min (horizonSlots inp) 8;
                  newest = targetQpc inp + int (horizon - 1) * slotQpc inp + leadToleranceQpc inp;
                  n = trim_newer (timestampsQpc inp) newest (min in_count horizon_max_candidates)
              in if n = 0 \<or> \<not> any_in_window inp [0..<n] then decision
                 else let best = fold (best_step inp n horizon)
                              (takeWhile (\<lambda>i. \<not> timestampsQpc inp ! i - targetQpc inp > leadToleranceQpc inp) [0..<n])
                              (first_cost inp n horizon False 0, False, 0);
                          best = (if \<not> nearestEmit \<or> nearestIndex < n
                             then let i = (if nearestEmit then nearestIndex else 0);
                                      nearestCost = first_cost inp n horizon nearestEmit i
                                  in if nearestCost \<le> fst best then (nearestCost, nearestEmit, i) else best
                             else best)
                      in if fst best \<ge> horizon_infinite_cost then decision
                         else \<lparr>dec_valid = True, dec_emit = fst (snd best), dec_index = snd (snd best),
                               dec_costQpc = fst best\<rparr>)"

section \<open>Explicit plans\<close>

text \<open>A plan says for each slot whether the shown frame repeats (\<open>None\<close>) or candidate \<open>i\<close> is shown.
  \<open>plan_run\<close> charges a plan from slot \<open>k\<close> on and refuses a frame outside its slot's window, an
  older one than the shown frame, or one that does not exist.\<close>

definition fits_slot :: "horizon_input \<Rightarrow> nat \<Rightarrow> nat \<Rightarrow> bool" where
  "fits_slot inp k i \<longleftrightarrow> (let offset = timestampsQpc inp ! i - slot_target inp k
     in - lagBoundQpc inp \<le> offset \<and> offset \<le> leadToleranceQpc inp)"

definition repeat_cost :: "horizon_input \<Rightarrow> nat \<Rightarrow> nat \<Rightarrow> int" where
  "repeat_cost inp k s = slotQpc inp + (if shown_ts inp s > 0 then \<bar>shown_ts inp s - slot_target inp k\<bar> else 0)"

definition show_cost :: "horizon_input \<Rightarrow> nat \<Rightarrow> nat \<Rightarrow> nat \<Rightarrow> int" where
  "show_cost inp k s i = int (i - s) * slotQpc inp + \<bar>timestampsQpc inp ! i - slot_target inp k\<bar>"

fun plan_run :: "horizon_input \<Rightarrow> nat \<Rightarrow> nat \<Rightarrow> nat \<Rightarrow> int \<Rightarrow> nat option list \<Rightarrow> (nat \<times> int) option" where
  "plan_run inp n k s c [] = Some (s, c)"
| "plan_run inp n k s c (None # p) = plan_run inp n (Suc k) s (c + repeat_cost inp k s) p"
| "plan_run inp n k s c (Some i # p) =
     (if s \<le> i \<and> i < n \<and> fits_slot inp k i
      then plan_run inp n (Suc k) (Suc i) (c + show_cost inp k s i) p else None)"

lemma distance_abs_horizon: "horizon_distance a b = \<bar>a - b\<bar>"
  by (simp add: horizon_distance_def)

lemma infinite_pos: "0 < horizon_infinite_cost"
  by (simp add: horizon_infinite_cost_def int64_max_def)

lemma plan_run_append:
  "plan_run inp n k s c (p @ q) =
     (case plan_run inp n k s c p of None \<Rightarrow> None | Some (s', c') \<Rightarrow> plan_run inp n (k + length p) s' c' q)"
  by (induction inp n k s c p rule: plan_run.induct) (auto split: option.splits prod.splits)

lemma action_costs_nonneg:
  assumes "0 < slotQpc inp"
  shows "0 \<le> repeat_cost inp k s" and "0 \<le> show_cost inp k s i"
  using assms by (simp_all add: repeat_cost_def show_cost_def)

lemma plan_run_offset:
  "plan_run inp n k s (c + d) p = map_option (\<lambda>(s', c'). (s', c' + d)) (plan_run inp n k s c p)"
proof (induction inp n k s c p rule: plan_run.induct)
  case (2 inp n k s c p)
  then show ?case by (simp add: algebra_simps)
next
  case (3 inp n k s c i p)
  then show ?case by (simp add: algebra_simps)
qed simp

lemma plan_run_bounds:
  assumes "0 < slotQpc inp" and "s \<le> n"
  shows "plan_run inp n k s c p = Some (s', c') \<Longrightarrow> s' \<le> n \<and> c \<le> c'"
  using assms
proof (induction inp n k s c p rule: plan_run.induct)
  case (2 inp n k s c p)
  then show ?case using action_costs_nonneg(1) [of inp k s] by simp
next
  case (3 inp n k s c i p)
  then show ?case using action_costs_nonneg(2) [of inp k s i] by (simp split: if_splits)
qed simp

section \<open>A slot's pass relaxes every continuation once\<close>

abbreviation relax_all :: "(nat \<times> int) list \<Rightarrow> int list \<Rightarrow> int list" where
  "relax_all us \<equiv> fold (\<lambda>(j, v). relax j v) us"

lemma relax_all_length [simp]: "length (relax_all us nx) = length nx"
  by (induction us arbitrary: nx) (auto simp: relax_def split: prod.splits)

lemma relax_all_nth:
  assumes "t < length nx"
  shows "relax_all us nx ! t \<le> nx ! t \<and> (\<forall>v. (t, v) \<in> set us \<longrightarrow> relax_all us nx ! t \<le> v) \<and>
    (relax_all us nx ! t = nx ! t \<or> (t, relax_all us nx ! t) \<in> set us)"
  using assms
proof (induction us arbitrary: nx)
  case (Cons u us)
  obtain j v where u: "u = (j, v)" by fastforce
  have len: "t < length (relax j v nx)" using Cons.prems by (simp add: relax_def)
  have at: "relax j v nx ! t = (if j = t then min (nx ! t) v else nx ! t)"
    using Cons.prems by (auto simp: relax_def)
  show ?case using Cons.IH [OF len] by (auto simp: u at split: if_splits)
qed simp

lemma takeWhile_antitone:
  "sorted_wrt (\<lambda>i j. P j \<longrightarrow> P i) xs \<Longrightarrow> takeWhile P xs = filter P xs"
  by (induction xs) (auto simp: filter_empty_conv)

lemma fold_skip:
  "fold (\<lambda>i nx. if P i then nx else relax (g i) (h i) nx) xs nx =
     relax_all (map (\<lambda>i. (g i, h i)) (filter (\<lambda>i. \<not> P i) xs)) nx"
  by (induction xs arbitrary: nx) auto

lemma fold_nested: "fold (\<lambda>s. fold f (g s)) xs nx = fold f (concat (map g xs)) nx"
  by (induction xs arbitrary: nx) auto

definition continuations :: "horizon_input \<Rightarrow> nat \<Rightarrow> nat \<Rightarrow> int list \<Rightarrow> nat \<Rightarrow> (nat \<times> int) list" where
  "continuations inp slot n cost s =
     (if cost ! s \<ge> horizon_infinite_cost then []
      else (s, cost ! s + repeat_cost inp slot s) #
           map (\<lambda>i. (Suc i, cost ! s + show_cost inp slot s i)) (filter (fits_slot inp slot) [s..<n]))"

lemma takeWhile_window:
  assumes "sorted (timestampsQpc inp)" and "n \<le> length (timestampsQpc inp)"
  shows "takeWhile (\<lambda>i. \<not> timestampsQpc inp ! i - x > d) [s..<n] =
    filter (\<lambda>i. \<not> timestampsQpc inp ! i - x > d) [s..<n]"
proof (rule takeWhile_antitone)
  show "sorted_wrt (\<lambda>i j. \<not> d < timestampsQpc inp ! j - x \<longrightarrow> \<not> d < timestampsQpc inp ! i - x) [s..<n]"
  proof (rule sorted_wrt_mono_rel)
    show "sorted_wrt (<) [s..<n]" by simp
    fix i j assume "i \<in> set [s..<n]" "j \<in> set [s..<n]" "i < j"
    then have "timestampsQpc inp ! i \<le> timestampsQpc inp ! j"
      using assms by (intro sorted_nth_mono) auto
    then show "\<not> d < timestampsQpc inp ! j - x \<longrightarrow> \<not> d < timestampsQpc inp ! i - x" by simp
  qed
qed

lemma expand_state_relax:
  assumes "sorted (timestampsQpc inp)" and "n \<le> length (timestampsQpc inp)"
  shows "expand_state inp slot n cost s nx = relax_all (continuations inp slot n cost s) nx"
proof -
  have shows_eq: "show_from inp slot n b s m =
      relax_all (map (\<lambda>i. (Suc i, b + show_cost inp slot s i)) (filter (fits_slot inp slot) [s..<n])) m" for b m
    unfolding show_from_def takeWhile_window [OF assms] Let_def fold_skip filter_filter
    by (rule arg_cong [where f = "\<lambda>us. relax_all us m"])
       (auto simp: show_cost_def distance_abs_horizon fits_slot_def Let_def not_less algebra_simps
          intro!: map_cong filter_cong)
  show ?thesis
    by (simp add: expand_state_def continuations_def shows_eq repeat_cost_def distance_abs_horizon add.assoc)
qed

lemma slot_pass_relax:
  assumes "sorted (timestampsQpc inp)" and "n \<le> length (timestampsQpc inp)"
  shows "slot_pass inp n slot cost =
    relax_all (concat (map (continuations inp slot n cost) [0..<n + 1])) (replicate (n + 1) horizon_infinite_cost)"
proof -
  have "slot_pass inp n slot cost =
      fold (\<lambda>s. relax_all (continuations inp slot n cost s)) [0..<n + 1] (replicate (n + 1) horizon_infinite_cost)"
    unfolding slot_pass_def
    by (rule fold_cong) (auto simp: expand_state_relax [OF assms] fun_eq_iff)
  then show ?thesis by (simp only: fold_nested)
qed

section \<open>The dynamic program is the minimum over plans\<close>

text \<open>\<open>cheapest\<close>: entry \<open>s\<close> of a cost row is the cheapest of the given plans that end in state \<open>s\<close>,
  cut off at the infinite cost.\<close>

definition cheapest :: "horizon_input \<Rightarrow> nat \<Rightarrow> nat \<Rightarrow> nat \<Rightarrow> nat \<Rightarrow> int list \<Rightarrow> bool" where
  "cheapest inp n k s0 len cost \<longleftrightarrow> length cost = n + 1 \<and>
     (\<forall>s\<le>n. cost ! s \<le> horizon_infinite_cost \<and>
        (\<forall>p c. length p = len \<longrightarrow> plan_run inp n k s0 0 p = Some (s, c) \<longrightarrow> cost ! s \<le> c) \<and>
        (cost ! s < horizon_infinite_cost \<longrightarrow>
           (\<exists>p. length p = len \<and> plan_run inp n k s0 0 p = Some (s, cost ! s))))"

lemma cheapest_start:
  assumes "s0 \<le> n"
  shows "cheapest inp n k s0 0 ((replicate (n + 1) horizon_infinite_cost)[s0 := 0])"
  using assms infinite_pos by (auto simp: cheapest_def nth_list_update nth_append simp del: replicate_Suc)

lemma continuations_mem:
  "(t, v) \<in> set (continuations inp slot n cost s) \<longleftrightarrow>
     cost ! s < horizon_infinite_cost \<and>
     (t = s \<and> v = cost ! s + repeat_cost inp slot s \<or>
      (\<exists>i. t = Suc i \<and> s \<le> i \<and> i < n \<and> fits_slot inp slot i \<and> v = cost ! s + show_cost inp slot s i))"
  by (auto simp: continuations_def)

lemma cheapest_pass:
  assumes sorted: "sorted (timestampsQpc inp)" "n \<le> length (timestampsQpc inp)"
    and pos: "0 < slotQpc inp" and s0: "s0 \<le> n" and row: "cheapest inp n k s0 len cost"
  shows "cheapest inp n k s0 (Suc len) (slot_pass inp n (k + len) cost)"
proof -
  let ?us = "concat (map (continuations inp (k + len) n cost) [0..<n + 1])"
  let ?new = "relax_all ?us (replicate (n + 1) horizon_infinite_cost)"
  have mem: "(t, v) \<in> set ?us \<longleftrightarrow> (\<exists>s\<le>n. (t, v) \<in> set (continuations inp (k + len) n cost s))" for t v
    by (auto simp: less_Suc_eq_le simp del: upt_Suc)
  have one: "?new ! t \<le> horizon_infinite_cost \<and>
      (\<forall>p c. length p = Suc len \<longrightarrow> plan_run inp n k s0 0 p = Some (t, c) \<longrightarrow> ?new ! t \<le> c) \<and>
      (?new ! t < horizon_infinite_cost \<longrightarrow>
         (\<exists>p. length p = Suc len \<and> plan_run inp n k s0 0 p = Some (t, ?new ! t)))" if t: "t \<le> n" for t
  proof -
    have "t < length (replicate (n + 1) horizon_infinite_cost)" using t by simp
    note nth = relax_all_nth [OF this, of ?us]
    have init: "replicate (n + 1) horizon_infinite_cost ! t = horizon_infinite_cost"
      using t by (simp del: replicate_Suc)
    have lower: "?new ! t \<le> c" if p: "length p = Suc len" "plan_run inp n k s0 0 p = Some (t, c)" for p c
    proof -
      obtain q a where q: "p = q @ [a]" "length q = len"
        using p(1) by (metis length_Suc_conv_rev)
      obtain s c0 where run: "plan_run inp n k s0 0 q = Some (s, c0)"
        and last: "plan_run inp n (k + len) s c0 [a] = Some (t, c)"
        using p(2) q by (auto simp: plan_run_append split: option.splits)
      have s: "s \<le> n" using plan_run_bounds [OF pos s0 run] by simp
      have le: "cost ! s \<le> c0" using row s run q(2) by (auto simp: cheapest_def)
      obtain w where w: "c = c0 + w" "0 \<le> w"
        "cost ! s < horizon_infinite_cost \<Longrightarrow> (t, cost ! s + w) \<in> set (continuations inp (k + len) n cost s)"
        using last action_costs_nonneg [OF pos] by (cases a) (auto simp: continuations_mem split: if_splits)
      show ?thesis
      proof (cases "cost ! s < horizon_infinite_cost")
        case True
        then have "?new ! t \<le> cost ! s + w" using nth mem s w(3) by blast
        then show ?thesis using le w(1) by simp
      next
        case False
        then show ?thesis using nth init le w by linarith
      qed
    qed
    have attained: "\<exists>p. length p = Suc len \<and> plan_run inp n k s0 0 p = Some (t, ?new ! t)"
      if "?new ! t < horizon_infinite_cost"
    proof -
      have "(t, ?new ! t) \<in> set ?us" using nth init that by auto
      then obtain s where s: "s \<le> n" "(t, ?new ! t) \<in> set (continuations inp (k + len) n cost s)"
        using mem by blast
      then have fin: "cost ! s < horizon_infinite_cost" by (simp add: continuations_mem)
      then obtain q where q: "length q = len" "plan_run inp n k s0 0 q = Some (s, cost ! s)"
        using row s(1) by (auto simp: cheapest_def)
      have "\<exists>a. plan_run inp n (k + len) s (cost ! s) [a] = Some (t, ?new ! t)"
        using s(2) unfolding continuations_mem
      proof (elim conjE disjE exE)
        assume "t = s" "?new ! t = cost ! s + repeat_cost inp (k + len) s"
        then show ?thesis by (intro exI [of _ None]) simp
      next
        fix i assume "t = Suc i" "s \<le> i" "i < n" "fits_slot inp (k + len) i"
          "?new ! t = cost ! s + show_cost inp (k + len) s i"
        then show ?thesis by (intro exI [of _ "Some i"]) simp
      qed
      then obtain a where "plan_run inp n k s0 0 (q @ [a]) = Some (t, ?new ! t)"
        using q by (auto simp: plan_run_append)
      then show ?thesis using q(1) by (intro exI [of _ "q @ [a]"]) simp
    qed
    show ?thesis using nth init lower attained by simp
  qed
  show ?thesis
    unfolding slot_pass_relax [OF sorted] cheapest_def using one by (simp del: replicate_Suc upt_Suc)
qed

lemma cheapest_passes:
  assumes "sorted (timestampsQpc inp)" "n \<le> length (timestampsQpc inp)" "0 < slotQpc inp" "s0 \<le> n"
    and "cheapest inp n k s0 0 cost"
  shows "cheapest inp n k s0 m (fold (slot_pass inp n) [k..<k + m] cost)"
proof (induction m)
  case (Suc m)
  then show ?case using cheapest_pass [OF assms(1-4) Suc.IH] by simp
qed (use assms in simp)

lemma fold_min:
  fixes c :: "int list"
  shows "fold (\<lambda>s best. min best (c ! s)) xs b \<le> b \<and>
    (\<forall>s\<in>set xs. fold (\<lambda>s best. min best (c ! s)) xs b \<le> c ! s) \<and>
    (fold (\<lambda>s best. min best (c ! s)) xs b = b \<or>
       (\<exists>s\<in>set xs. fold (\<lambda>s best. min best (c ! s)) xs b = c ! s))"
proof (induction xs arbitrary: b)
  case (Cons x xs)
  obtain m where m: "m = min b (c ! x)" by blast
  have min: "m = b \<or> m = c ! x" "m \<le> b" "m \<le> c ! x" using m by linarith+
  obtain F where F: "F = fold (\<lambda>s best. min best (c ! s)) xs m" by blast
  have IH: "F \<le> m" "\<forall>s\<in>set xs. F \<le> c ! s" "F = m \<or> (\<exists>s\<in>set xs. F = c ! s)"
    using Cons.IH [of m] F by blast+
  have fold: "fold (\<lambda>s best. min best (c ! s)) (x # xs) b = F" using F m by simp
  have "F = b \<or> F = c ! x \<or> (\<exists>s\<in>set xs. F = c ! s)" using IH(3) min(1) by blast
  then show ?case unfolding fold using IH(1,2) min(2,3) by auto
qed simp

lemma plan_cost_cheapest:
  assumes hyps: "sorted (timestampsQpc inp)" "n \<le> length (timestampsQpc inp)" "0 < slotQpc inp"
    and "nat (shownIndex + 1) \<le> n" and "k \<le> horizon"
  defines "r \<equiv> horizon_plan_cost inp n shownIndex k horizon"
  shows "r \<le> horizon_infinite_cost \<and>
    (\<forall>p s c. length p = horizon - k \<longrightarrow> plan_run inp n k (nat (shownIndex + 1)) 0 p = Some (s, c) \<longrightarrow> r \<le> c) \<and>
    (r < horizon_infinite_cost \<longrightarrow>
      (\<exists>p s. length p = horizon - k \<and> plan_run inp n k (nat (shownIndex + 1)) 0 p = Some (s, r)))"
proof -
  let ?s0 = "nat (shownIndex + 1)"
  define row where "row = fold (slot_pass inp n) [k..<horizon]
      ((replicate (n + 1) horizon_infinite_cost)[?s0 := 0])"
  have row: "cheapest inp n k ?s0 (horizon - k) row"
    using cheapest_passes [OF hyps assms(4) cheapest_start [OF assms(4)], of k "horizon - k"] assms(5)
    by (simp add: row_def)
  have r: "r = fold (\<lambda>s best. min best (row ! s)) [0..<n + 1] horizon_infinite_cost"
    by (simp add: r_def horizon_plan_cost_def row_def Let_def)
  have range: "set [0..<n + 1] = {..n}" by auto
  have f: "r \<le> horizon_infinite_cost \<and> (\<forall>s\<in>{..n}. r \<le> row ! s) \<and>
      (r = horizon_infinite_cost \<or> (\<exists>s\<in>{..n}. r = row ! s))"
    using fold_min [of row "[0..<n + 1]" horizon_infinite_cost] unfolding range r .
  have "r \<le> c" if "length p = horizon - k" "plan_run inp n k ?s0 0 p = Some (s, c)" for p s c
  proof -
    have "s \<le> n" using plan_run_bounds [OF hyps(3) assms(4) that(2)] by simp
    then have "r \<le> row ! s" "row ! s \<le> c" using f row that by (auto simp: cheapest_def)
    then show ?thesis by simp
  qed
  moreover have "\<exists>p s. length p = horizon - k \<and> plan_run inp n k ?s0 0 p = Some (s, r)"
    if "r < horizon_infinite_cost"
  proof -
    have fin: "r < horizon_infinite_cost" by (rule that)
    then obtain s where s: "s \<le> n" "r = row ! s" using f by auto
    then show ?thesis using row fin unfolding cheapest_def by blast
  qed
  ultimately show ?thesis using f by blast
qed

section \<open>The decision starts a cheapest plan\<close>

definition horizon_of :: "horizon_input \<Rightarrow> nat" where
  "horizon_of inp = min (horizonSlots inp) 8"

definition planned_candidates :: "horizon_input \<Rightarrow> nat" where
  "planned_candidates inp = min (length (timestampsQpc inp)) horizon_max_candidates"

text \<open>\<open>playable inp p c\<close>: plan \<open>p\<close> fills the horizon at cost \<open>c\<close>, and what it shows on this slot is ready.\<close>

definition playable :: "horizon_input \<Rightarrow> nat option list \<Rightarrow> int \<Rightarrow> bool" where
  "playable inp p c \<longleftrightarrow> length p = horizon_of inp \<and>
     (case hd p of None \<Rightarrow> True | Some i \<Rightarrow> readyNow inp ! i) \<and>
     map_option snd (plan_run inp (planned_candidates inp) 0 0 0 p) = Some c"

lemma trim_newer:
  "trim_newer ts newest m \<le> m \<and> (\<forall>i. trim_newer ts newest m \<le> i \<and> i < m \<longrightarrow> ts ! i > newest)"
  by (induction m) (auto simp: less_Suc_eq)

lemma plan_run_trim:
  assumes "n \<le> m" and late: "\<And>i. n \<le> i \<Longrightarrow> i < m \<Longrightarrow>
      timestampsQpc inp ! i > targetQpc inp + int (h - 1) * slotQpc inp + leadToleranceQpc inp"
    and "0 < slotQpc inp" and "k + length p \<le> h"
  shows "plan_run inp m k s c p = plan_run inp n k s c p"
  using assms(4)
proof (induction p arbitrary: k s c)
  case (Cons a p)
  have "int k * slotQpc inp \<le> int (h - 1) * slotQpc inp"
    using Cons.prems assms(3) by (intro mult_right_mono) auto
  then have "fits_slot inp k i \<Longrightarrow> i < m \<longleftrightarrow> i < n" for i
    using late [of i] assms(1) by (force simp: fits_slot_def slot_target_def Let_def not_less)
  then show ?case using Cons.IH [of "Suc k"] Cons.prems by (cases a) auto
qed simp

lemma first_cost_cheapest:
  assumes hyps: "sorted (timestampsQpc inp)" "n \<le> length (timestampsQpc inp)" "0 < slotQpc inp"
    and "0 < horizon" and "emit \<Longrightarrow> index < n"
  defines "a \<equiv> (if emit then Some index else None)" and "f \<equiv> first_cost inp n horizon emit index"
  shows "(\<forall>p s c. length p = horizon \<and> hd p = a \<and> (emit \<longrightarrow> readyNow inp ! index) \<and>
       plan_run inp n 0 0 0 p = Some (s, c) \<longrightarrow> f \<le> c) \<and>
    (f < horizon_infinite_cost \<longrightarrow> (\<exists>p s. length p = horizon \<and> hd p = a \<and> (emit \<longrightarrow> readyNow inp ! index) \<and>
       plan_run inp n 0 0 0 p = Some (s, f)))"
proof -
  define s1 where "s1 = (if emit then Suc index else 0)"
  define now where "now = (if emit then show_cost inp 0 0 index else repeat_cost inp 0 0)"
  define rest where "rest = horizon_plan_cost inp n (int s1 - 1) 1 horizon"
  let ?ok = "emit \<longrightarrow> readyNow inp ! index \<and> fits_slot inp 0 index"
  have s1: "nat ((int s1 - 1) + 1) = s1" by simp
  have s1n: "s1 \<le> n" using assms(5) by (simp add: s1_def Suc_le_eq)
  note R = plan_cost_cheapest [OF hyps, of "int s1 - 1" 1 horizon, unfolded s1, folded rest_def]
  have R: "(\<forall>p s c. length p = horizon - 1 \<longrightarrow> plan_run inp n 1 s1 0 p = Some (s, c) \<longrightarrow> rest \<le> c) \<and>
      (rest < horizon_infinite_cost \<longrightarrow>
         (\<exists>p s. length p = horizon - 1 \<and> plan_run inp n 1 s1 0 p = Some (s, rest)))"
    using R s1n assms(4) by force
  have now: "0 \<le> now" using action_costs_nonneg [OF hyps(3)] by (simp add: now_def)
  have f: "f = (if \<not> ?ok then horizon_infinite_cost
      else if rest \<ge> horizon_infinite_cost then rest else now + rest)"
    unfolding f_def first_cost_def now_def rest_def s1_def fits_slot_def
    by (simp add: Let_def slot_target_def repeat_cost_def show_cost_def shown_ts_def distance_abs_horizon)
  have split_plan: "plan_run inp n 0 0 0 (a # q) =
      (if ?ok \<or> emit \<and> fits_slot inp 0 index then map_option (\<lambda>(s, c). (s, c + now)) (plan_run inp n 1 s1 0 q) else None)" for q
    using plan_run_offset [of inp n 1 s1 0 now q] assms(5)
    by (cases emit) (simp_all add: a_def s1_def now_def One_nat_def [symmetric] del: One_nat_def)
  have lower: "f \<le> c" if plan: "length p = horizon" "hd p = a" "emit \<longrightarrow> readyNow inp ! index"
      "plan_run inp n 0 0 0 p = Some (s, c)" for p s c
  proof -
    obtain q where q: "p = a # q" "length q = horizon - 1"
      using plan(1,2) assms(4) by (cases p) auto
    obtain c' where c': "plan_run inp n 1 s1 0 q = Some (s, c')" "c = c' + now" and ok: ?ok
      using plan(3,4) unfolding q(1) split_plan by (auto split: if_splits)
    have "rest \<le> c'" using R q(2) c'(1) by blast
    then show ?thesis using f ok c'(2) now by auto
  qed
  have "\<exists>p s. length p = horizon \<and> hd p = a \<and> (emit \<longrightarrow> readyNow inp ! index) \<and> plan_run inp n 0 0 0 p = Some (s, f)"
    if fin: "f < horizon_infinite_cost"
  proof -
    have ok: ?ok and rest: "rest < horizon_infinite_cost" "f = now + rest"
      using f fin by (auto split: if_splits)
    obtain q s where "length q = horizon - 1" "plan_run inp n 1 s1 0 q = Some (s, rest)"
      using R rest(1) by blast
    then show ?thesis using ok rest(2) assms(4)
      by (intro exI [of _ "a # q"] exI [of _ s]) (simp add: split_plan add.commute)
  qed
  then show ?thesis using lower by blast
qed

lemma best_fold:
  "fst (fold (best_step inp n h) xs b) \<le> fst b \<and>
   (\<forall>x\<in>set xs. fst (fold (best_step inp n h) xs b) \<le> first_cost inp n h True x) \<and>
   (fold (best_step inp n h) xs b = b \<or>
      (\<exists>x\<in>set xs. fold (best_step inp n h) xs b = (first_cost inp n h True x, True, x)))"
proof (induction xs arbitrary: b)
  case (Cons x xs)
  obtain b' where b': "b' = best_step inp n h x b" by blast
  have step: "b' = b \<or> b' = (first_cost inp n h True x, True, x)" "fst b' \<le> fst b"
    "fst b' \<le> first_cost inp n h True x"
    by (auto simp: b' best_step_def Let_def)
  obtain r where r: "r = fold (best_step inp n h) xs b'" by blast
  have IH: "fst r \<le> fst b'" "\<forall>x\<in>set xs. fst r \<le> first_cost inp n h True x"
    "r = b' \<or> (\<exists>x\<in>set xs. r = (first_cost inp n h True x, True, x))"
    using Cons.IH [of b'] r by blast+
  have fold: "fold (best_step inp n h) (x # xs) b = r" by (simp add: r b')
  have "fst r \<le> fst b" "fst r \<le> first_cost inp n h True x" using IH(1) step by linarith+
  moreover have "r = b \<or> (\<exists>y\<in>set (x # xs). r = (first_cost inp n h True y, True, y))"
    using IH(3) step(1) by auto
  ultimately show ?case unfolding fold using IH(2) by simp
qed simp

lemma any_in_window_iff:
  assumes "sorted (timestampsQpc inp)" and "n \<le> length (timestampsQpc inp)"
  shows "any_in_window inp [0..<n] \<longleftrightarrow> (\<exists>i<n. readyNow inp ! i \<and> fits_slot inp 0 i)"
proof -
  let ?P = "\<lambda>i. \<not> timestampsQpc inp ! i - targetQpc inp > leadToleranceQpc inp"
  have any: "any_in_window inp xs \<longleftrightarrow> (\<exists>i\<in>set (takeWhile ?P xs).
      readyNow inp ! i \<and> timestampsQpc inp ! i - targetQpc inp \<ge> - lagBoundQpc inp)" for xs
    by (induction xs) (auto simp: Let_def)
  show ?thesis
    unfolding any takeWhile_window [OF assms, where x = "targetQpc inp" and d = "leadToleranceQpc inp" and s = 0]
    by (auto simp: fits_slot_def slot_target_def Let_def)
qed

text \<open>What the selection loop and the tie rule leave is at most every first cost that can be finite.\<close>

definition chosen :: "horizon_input \<Rightarrow> nat \<Rightarrow> bool \<Rightarrow> nat \<Rightarrow> int \<times> bool \<times> nat" where
  "chosen inp n nearestEmit nearestIndex =
     (let h = horizon_of inp;
          best = fold (best_step inp n h)
            (takeWhile (\<lambda>i. \<not> timestampsQpc inp ! i - targetQpc inp > leadToleranceQpc inp) [0..<n])
            (first_cost inp n h False 0, False, 0)
      in if \<not> nearestEmit \<or> nearestIndex < n
         then let i = (if nearestEmit then nearestIndex else 0);
                  nearestCost = first_cost inp n h nearestEmit i
              in if nearestCost \<le> fst best then (nearestCost, nearestEmit, i) else best
         else best)"

lemma first_cost_repeat: "first_cost inp n h False i = first_cost inp n h False 0"
  by (simp add: first_cost_def)

lemma chosen_best:
  assumes "sorted (timestampsQpc inp)" and "n \<le> length (timestampsQpc inp)"
    and "chosen inp n nearestEmit nearestIndex = (c, e, i)"
  shows "c = first_cost inp n (horizon_of inp) e i \<and> (e \<longrightarrow> i < n)"
    and "e' \<longrightarrow> i' < n \<Longrightarrow> c \<le> first_cost inp n (horizon_of inp) e' i' \<or>
      first_cost inp n (horizon_of inp) e' i' = horizon_infinite_cost"
    and "nearestEmit \<longrightarrow> nearestIndex < n \<Longrightarrow>
      first_cost inp n (horizon_of inp) nearestEmit nearestIndex \<le> c \<Longrightarrow>
      e = nearestEmit \<and> (nearestEmit \<longrightarrow> i = nearestIndex)"
proof -
  let ?h = "horizon_of inp"
  let ?P = "\<lambda>i. \<not> timestampsQpc inp ! i - targetQpc inp > leadToleranceQpc inp"
  obtain b where b: "b = fold (best_step inp n ?h) (filter ?P [0..<n]) (first_cost inp n ?h False 0, False, 0)"
    by blast
  note fold = best_fold [of inp n ?h "filter ?P [0..<n]" "(first_cost inp n ?h False 0, False, 0)", folded b]
  have low: "fst b \<le> first_cost inp n ?h False 0"
    "x < n \<Longrightarrow> ?P x \<Longrightarrow> fst b \<le> first_cost inp n ?h True x" for x
    using fold by auto
  have shape: "fst b = first_cost inp n ?h (fst (snd b)) (snd (snd b)) \<and> (fst (snd b) \<longrightarrow> snd (snd b) < n)"
    using fold by auto
  have none: "\<not> ?P x \<Longrightarrow> first_cost inp n ?h True x = horizon_infinite_cost" for x
    by (simp add: first_cost_def Let_def)
  have best: "fst b \<le> first_cost inp n ?h e' i' \<or> first_cost inp n ?h e' i' = horizon_infinite_cost"
    if "e' \<longrightarrow> i' < n" for e' i'
    using that low none by (cases e'; cases "?P i'") (auto simp: first_cost_repeat [of _ _ _ i'])
  have ch: "(c, e, i) = (if \<not> nearestEmit \<or> nearestIndex < n
      then let j = (if nearestEmit then nearestIndex else 0)
           in if first_cost inp n ?h nearestEmit j \<le> fst b then (first_cost inp n ?h nearestEmit j, nearestEmit, j) else b
      else b)"
    using assms(3) unfolding chosen_def takeWhile_window [OF assms(1,2)] Let_def b by simp
  have cases: "(c, e, i) = b \<or> (nearestEmit \<longrightarrow> nearestIndex < n) \<and> c \<le> fst b \<and>
      c = first_cost inp n ?h nearestEmit (if nearestEmit then nearestIndex else 0) \<and>
      e = nearestEmit \<and> i = (if nearestEmit then nearestIndex else 0)"
    using ch by (auto simp: Let_def split: if_splits)
  show "c = first_cost inp n ?h e i \<and> (e \<longrightarrow> i < n)" using cases shape by auto
  have "c \<le> fst b" using cases by auto
  then show "c \<le> first_cost inp n ?h e' i' \<or> first_cost inp n ?h e' i' = horizon_infinite_cost"
    if "e' \<longrightarrow> i' < n" using best [OF that] by linarith
  show "e = nearestEmit \<and> (nearestEmit \<longrightarrow> i = nearestIndex)"
    if "nearestEmit \<longrightarrow> nearestIndex < n" "first_cost inp n ?h nearestEmit nearestIndex \<le> c"
  proof -
    have "first_cost inp n ?h nearestEmit (if nearestEmit then nearestIndex else 0) \<le> fst b"
      using that(2) \<open>c \<le> fst b\<close> by (cases nearestEmit) (auto simp: first_cost_repeat [of _ _ _ nearestIndex])
    then show ?thesis using ch that(1) by (auto simp: Let_def split: if_splits)
  qed
qed

lemma nested_guards:
  "(if a then d else if b \<or> c then d else if e then d else x) = (if a \<or> b \<or> c \<or> e then d else x)"
  by simp

lemma decide_unfold:
  "decide_cfr_horizon_playout inp nearestEmit nearestIndex =
     (let decision = \<lparr>dec_valid = False, dec_emit = False, dec_index = 0, dec_costQpc = 0\<rparr>;
          newest = targetQpc inp + int (horizon_of inp - 1) * slotQpc inp + leadToleranceQpc inp;
          n = trim_newer (timestampsQpc inp) newest (planned_candidates inp)
      in if length (timestampsQpc inp) = 0 \<or> slotQpc inp \<le> 0 \<or> targetQpc inp \<le> 0 \<or>
            leadToleranceQpc inp < 0 \<or> lagBoundQpc inp < 0 \<or> horizonSlots inp = 0 \<or>
            n = 0 \<or> \<not> any_in_window inp [0..<n] \<or>
            fst (chosen inp n nearestEmit nearestIndex) \<ge> horizon_infinite_cost then decision
         else case chosen inp n nearestEmit nearestIndex of (c, e, i) \<Rightarrow>
           \<lparr>dec_valid = True, dec_emit = e, dec_index = i, dec_costQpc = c\<rparr>)"
  unfolding decide_cfr_horizon_playout_def chosen_def Let_def horizon_of_def planned_candidates_def
  by (simp only: nested_guards disj_assoc case_prod_beta)

definition plan_guards :: "horizon_input \<Rightarrow> bool" where
  "plan_guards inp \<longleftrightarrow> 0 < slotQpc inp \<and> 0 < targetQpc inp \<and> 0 \<le> leadToleranceQpc inp \<and>
     0 \<le> lagBoundQpc inp \<and> 0 < horizonSlots inp"

definition usable :: "horizon_input \<Rightarrow> nat" where
  "usable inp = trim_newer (timestampsQpc inp)
     (targetQpc inp + int (horizon_of inp - 1) * slotQpc inp + leadToleranceQpc inp) (planned_candidates inp)"

lemma usable_le: "usable inp \<le> planned_candidates inp" "usable inp \<le> length (timestampsQpc inp)"
  using trim_newer [of "timestampsQpc inp" _ "planned_candidates inp"]
  by (auto simp: usable_def planned_candidates_def min.coboundedI1 intro: order.trans)

lemma playable_usable:
  assumes "plan_guards inp"
  shows "playable inp p c \<longleftrightarrow> length p = horizon_of inp \<and>
     (case hd p of None \<Rightarrow> True | Some i \<Rightarrow> readyNow inp ! i) \<and>
     (\<exists>s. plan_run inp (usable inp) 0 0 0 p = Some (s, c))"
proof -
  have eq: "plan_run inp (planned_candidates inp) 0 0 0 p = plan_run inp (usable inp) 0 0 0 p"
    if "length p = horizon_of inp"
    using trim_newer [of "timestampsQpc inp"
        "targetQpc inp + int (horizon_of inp - 1) * slotQpc inp + leadToleranceQpc inp" "planned_candidates inp"]
      that assms
    by (intro plan_run_trim [where h = "horizon_of inp"]) (auto simp: usable_def plan_guards_def)
  have opt: "map_option snd x = Some c \<longleftrightarrow> (\<exists>s. x = Some (s, c))" for x :: "(nat \<times> int) option"
    by (cases x) auto
  show ?thesis
  proof (cases "length p = horizon_of inp")
    case True
    show ?thesis unfolding playable_def eq [OF True] opt ..
  qed (simp add: playable_def)
qed

lemma horizon_of_pos: "plan_guards inp \<Longrightarrow> 0 < horizon_of inp"
  by (simp add: plan_guards_def horizon_of_def)

lemma playable_first_cost:
  assumes "plan_guards inp" and "sorted (timestampsQpc inp)" and "playable inp p c"
  shows "\<exists>e i. hd p = (if e then Some i else None) \<and> (e \<longrightarrow> i < usable inp \<and> readyNow inp ! i \<and> fits_slot inp 0 i) \<and>
    first_cost inp (usable inp) (horizon_of inp) e i \<le> c"
proof -
  obtain s where p: "length p = horizon_of inp" "plan_run inp (usable inp) 0 0 0 p = Some (s, c)"
      "case hd p of None \<Rightarrow> True | Some i \<Rightarrow> readyNow inp ! i"
    using assms(3) unfolding playable_usable [OF assms(1)] by blast
  obtain a q where q: "p = a # q" using p(1) horizon_of_pos [OF assms(1)] by (cases p) auto
  have slot: "0 < slotQpc inp" using assms(1) by (simp add: plan_guards_def)
  note fc = first_cost_cheapest [OF assms(2) usable_le(2) slot horizon_of_pos [OF assms(1)], THEN conjunct1,
      THEN spec, THEN spec, THEN spec, THEN mp]
  have hd: "hd p = a" using q by simp
  show ?thesis
  proof (cases a)
    case None
    then have "first_cost inp (usable inp) (horizon_of inp) False 0 \<le> c"
      using p(1,2) hd by (intro fc) auto
    then show ?thesis using hd None by (intro exI [of _ False] exI [of _ 0]) simp
  next
    case (Some i)
    then have i: "i < usable inp" "fits_slot inp 0 i" "readyNow inp ! i"
      using p(2,3) q by (auto split: if_splits)
    then have "first_cost inp (usable inp) (horizon_of inp) True i \<le> c"
      using p(1,2) hd Some by (intro fc) auto
    then show ?thesis using hd Some i by (intro exI [of _ True] exI [of _ i]) simp
  qed
qed

lemma first_cost_playable:
  assumes "plan_guards inp" and "sorted (timestampsQpc inp)" and "e \<longrightarrow> i < usable inp"
    and "first_cost inp (usable inp) (horizon_of inp) e i < horizon_infinite_cost"
  shows "\<exists>p. playable inp p (first_cost inp (usable inp) (horizon_of inp) e i) \<and>
    hd p = (if e then Some i else None)"
proof -
  have slot: "0 < slotQpc inp" using assms(1) by (simp add: plan_guards_def)
  show ?thesis
    using first_cost_cheapest [OF assms(2) usable_le(2) slot horizon_of_pos [OF assms(1)], of e i] assms(3,4)
    unfolding playable_usable [OF assms(1)] by (auto split: if_splits option.splits)
qed

text \<open>C7: the look-ahead decision is optimal. It is valid exactly when the input is well formed, a
  ready candidate fits this slot, and some playable plan costs less than the cut-off. Then it
  starts a playable plan of the stated cost, no playable plan is cheaper, and when a plan that
  starts with the nearest-timestamp choice is as cheap, the nearest choice is kept.\<close>

theorem horizon_decision_optimal:
  assumes sorted: "sorted (timestampsQpc inp)"
    and d: "d = decide_cfr_horizon_playout inp nearestEmit nearestIndex"
  shows "(dec_valid d \<longleftrightarrow> plan_guards inp \<and>
        (\<exists>i<usable inp. readyNow inp ! i \<and> fits_slot inp 0 i) \<and>
        (\<exists>p c. playable inp p c \<and> c < horizon_infinite_cost)) \<and>
    (dec_valid d \<longrightarrow>
        (\<exists>p. playable inp p (dec_costQpc d) \<and> hd p = (if dec_emit d then Some (dec_index d) else None)) \<and>
        (\<forall>p c. playable inp p c \<longrightarrow> dec_costQpc d \<le> c) \<and>
        (\<forall>p. playable inp p (dec_costQpc d) \<longrightarrow> hd p = (if nearestEmit then Some nearestIndex else None) \<longrightarrow>
           dec_emit d = nearestEmit \<and> (nearestEmit \<longrightarrow> dec_index d = nearestIndex)))"
proof (cases "plan_guards inp \<and> (\<exists>i<usable inp. readyNow inp ! i \<and> fits_slot inp 0 i)")
  case False
  then have "\<not> dec_valid d"
    using any_in_window_iff [OF sorted usable_le(2)]
    unfolding d decide_unfold Let_def usable_def [symmetric] plan_guards_def by auto
  then show ?thesis using False by blast
next
  case True
  then have g: "plan_guards inp" and window: "\<exists>i<usable inp. readyNow inp ! i \<and> fits_slot inp 0 i" by auto
  obtain c e i where ch: "chosen inp (usable inp) nearestEmit nearestIndex = (c, e, i)" by (metis prod.collapse)
  note best = chosen_best [OF sorted usable_le(2) ch]
  have d': "d = (if c \<ge> horizon_infinite_cost
      then \<lparr>dec_valid = False, dec_emit = False, dec_index = 0, dec_costQpc = 0\<rparr>
      else \<lparr>dec_valid = True, dec_emit = e, dec_index = i, dec_costQpc = c\<rparr>)"
    using any_in_window_iff [OF sorted usable_le(2)] window g usable_le(2) [of inp] ch
    unfolding d decide_unfold Let_def usable_def [symmetric] plan_guards_def by auto
  have below: "min c horizon_infinite_cost \<le> c'" if plays: "playable inp p c'" for p c'
  proof -
    obtain e' i' where f: "e' \<longrightarrow> i' < usable inp" "first_cost inp (usable inp) (horizon_of inp) e' i' \<le> c'"
      using playable_first_cost [OF g sorted plays] by blast
    then show ?thesis using best(2) [OF f(1)] by linarith
  qed
  have start: "\<exists>p. playable inp p c \<and> hd p = (if e then Some i else None)" if "c < horizon_infinite_cost"
    using first_cost_playable [OF g sorted, of e i] best(1) that by auto
  have tie: "e = nearestEmit \<and> (nearestEmit \<longrightarrow> i = nearestIndex)"
    if near: "playable inp p c" "hd p = (if nearestEmit then Some nearestIndex else None)" for p
  proof -
    obtain e' i' where f: "hd p = (if e' then Some i' else None)" "e' \<longrightarrow> i' < usable inp"
        "first_cost inp (usable inp) (horizon_of inp) e' i' \<le> c"
      using playable_first_cost [OF g sorted near(1)] by blast
    have same: "e' = nearestEmit" "nearestEmit \<longrightarrow> i' = nearestIndex"
      using f(1) near(2) by (auto split: if_splits)
    have "first_cost inp (usable inp) (horizon_of inp) nearestEmit nearestIndex \<le> c"
      using f(3) same first_cost_repeat [of inp "usable inp" "horizon_of inp" i']
        first_cost_repeat [of inp "usable inp" "horizon_of inp" nearestIndex] by (cases nearestEmit) auto
    then show ?thesis using f(2) same by (intro best(3)) auto
  qed
  show ?thesis
  proof (cases "c < horizon_infinite_cost")
    case True
    have low: "c \<le> c'" if "playable inp p c'" for p c'
      using below [OF that] True by linarith
    have d_eq: "dec_valid d" "dec_emit d = e" "dec_index d = i" "dec_costQpc d = c"
      using d' True by simp_all
    show ?thesis unfolding d_eq using g window start [OF True] low tie True d_eq(1) by blast
  next
    case False
    have "\<not> c' < horizon_infinite_cost" if "playable inp p c'" for p c'
      using below [OF that] False by linarith
    moreover have "\<not> dec_valid d" using d' False by simp
    ultimately show ?thesis by blast
  qed
qed

definition jittered_input :: horizon_input where
  "jittered_input = \<lparr>timestampsQpc = [152, 248], readyNow = [True, True], shownTimestampQpc = 1,
     targetQpc = 200, slotQpc = 100, leadToleranceQpc = 60, lagBoundQpc = 100, horizonSlots = 2\<rparr>"

text \<open>Nearest selection alone would show the second frame on the first slot and skip the first one.\<close>

theorem horizon_decision_optimal_witness:
  "let d = decide_cfr_horizon_playout jittered_input True 1
   in dec_valid d \<and> dec_costQpc d \<le> 100"
proof -
  let ?d = "decide_cfr_horizon_playout jittered_input True 1"
  have usable: "usable jittered_input = 2" "planned_candidates jittered_input = 2" "horizon_of jittered_input = 2"
    by (simp_all add: usable_def planned_candidates_def horizon_of_def jittered_input_def
        horizon_max_candidates_def numeral_2_eq_2)
  have fits: "fits_slot jittered_input 0 0" "fits_slot jittered_input 1 1"
    by (simp_all add: fits_slot_def slot_target_def jittered_input_def)
  have playable: "playable jittered_input [Some 0, Some 1] 100"
    unfolding playable_def usable using fits
    by (simp add: show_cost_def slot_target_def jittered_input_def)
  have sorted: "sorted (timestampsQpc jittered_input)" by (simp add: jittered_input_def)
  have guards: "plan_guards jittered_input" by (simp add: plan_guards_def jittered_input_def)
  have window: "\<exists>i<usable jittered_input. readyNow jittered_input ! i \<and> fits_slot jittered_input 0 i"
    unfolding usable using fits by (intro exI [of _ 0]) (simp add: jittered_input_def)
  have cheap: "\<exists>p c. playable jittered_input p c \<and> c < horizon_infinite_cost"
    using playable by (intro exI [of _ "[Some 0, Some 1]"] exI [of _ 100])
      (simp add: horizon_infinite_cost_def int64_max_def)
  note opt = horizon_decision_optimal [OF sorted, of ?d True 1, OF refl]
  have "dec_valid ?d" using opt guards window cheap by blast
  moreover from this have "dec_costQpc ?d \<le> 100" using opt playable by blast
  ultimately show ?thesis by simp
qed

end
