(* ===== verification/SequenceLock.thy ===== *)
theory SequenceLock
  imports Prelude
begin

unbundle bit_operations_syntax

text \<open>
  The sequence lock of \<^verbatim>\<open>common/platform/sequence_lock.h\<close>. The protected value is a list of
  cells that a copy reads or writes one at a time, so a read can overlap a write anywhere; every
  load, store, compare-exchange and cell copy is one step of \<open>seq_step\<close>, and any number of readers
  and writers interleave. The memory model is sequential consistency. \<open>history\<close> is a ghost: the
  initial value followed by the arguments of the completed writes.
\<close>

definition max_retries :: nat where "max_retries = 100"

datatype 'a writer =
    WIdle
  | WLoaded "'a list" u32
  | WCopying "'a list" u32 nat

text \<open>A reader in its retry loop, in its copy (retry, the loaded sequence number, the number of
  writes completed at that load, the cells copied), or back with its result.\<close>

datatype 'a reader =
    RIdle
  | RLoad nat
  | RCopying nat u32 nat "'a list"
  | RDone nat nat "'a list"
  | RFailed

record 'a seq_lock =
  sequence :: u32
  cells :: "'a list"
  writers :: "nat \<Rightarrow> 'a writer"
  readers :: "nat \<Rightarrow> 'a reader"
  history :: "'a list list"

definition completed :: "'a seq_lock \<Rightarrow> nat" where
  "completed s = length (history s) - 1"

definition locked_value :: "u32 \<Rightarrow> u32" where
  "locked_value sq = (let desired = sq + 1 in if desired AND 1 = 0 then desired + 1 else desired)"

section \<open>The write\<close>

definition write_begin :: "nat \<Rightarrow> 'a list \<Rightarrow> 'a seq_lock \<Rightarrow> 'a seq_lock" where
  "write_begin w source s = s\<lparr>writers := (writers s)(w := WLoaded source (sequence s))\<rparr>"

text \<open>One compare-exchange: a failure, spurious or not, reloads the expected value.\<close>

definition write_lock :: "bool \<Rightarrow> nat \<Rightarrow> 'a list \<Rightarrow> u32 \<Rightarrow> 'a seq_lock \<Rightarrow> 'a seq_lock" where
  "write_lock spurious w source sq s =
     (if \<not> spurious \<and> sequence s = sq
      then s\<lparr>sequence := locked_value sq, writers := (writers s)(w := WCopying source (locked_value sq) 0)\<rparr>
      else s\<lparr>writers := (writers s)(w := WLoaded source (sequence s))\<rparr>)"

definition write_cell :: "nat \<Rightarrow> 'a list \<Rightarrow> u32 \<Rightarrow> nat \<Rightarrow> 'a seq_lock \<Rightarrow> 'a seq_lock" where
  "write_cell w source desired i s =
     s\<lparr>cells := (cells s)[i := source ! i], writers := (writers s)(w := WCopying source desired (Suc i))\<rparr>"

definition write_unlock :: "nat \<Rightarrow> 'a list \<Rightarrow> u32 \<Rightarrow> 'a seq_lock \<Rightarrow> 'a seq_lock" where
  "write_unlock w source desired s =
     s\<lparr>sequence := desired + 1, writers := (writers s)(w := WIdle), history := history s @ [source]\<rparr>"

section \<open>The read\<close>

definition read_load :: "nat \<Rightarrow> nat \<Rightarrow> 'a seq_lock \<Rightarrow> 'a seq_lock" where
  "read_load r retry s =
     s\<lparr>readers := (readers s)(r :=
        if retry \<ge> max_retries then RFailed
        else if sequence s AND 1 \<noteq> 0 then RLoad retry
        else RCopying retry (sequence s) (completed s) [])\<rparr>"

definition read_cell :: "nat \<Rightarrow> nat \<Rightarrow> u32 \<Rightarrow> nat \<Rightarrow> 'a list \<Rightarrow> 'a seq_lock \<Rightarrow> 'a seq_lock" where
  "read_cell r retry seqBefore g out s =
     s\<lparr>readers := (readers s)(r := RCopying retry seqBefore g (out @ [cells s ! length out]))\<rparr>"

definition read_check :: "nat \<Rightarrow> nat \<Rightarrow> u32 \<Rightarrow> nat \<Rightarrow> 'a list \<Rightarrow> 'a seq_lock \<Rightarrow> 'a seq_lock" where
  "read_check r retry seqBefore g out s =
     s\<lparr>readers := (readers s)(r :=
        if seqBefore = sequence s then RDone g (completed s) out else RLoad (retry + 1))\<rparr>"

section \<open>Interleavings\<close>

text \<open>\<open>ws\<close> are the threads that write.\<close>

inductive seq_step :: "nat set \<Rightarrow> 'a seq_lock \<Rightarrow> 'a seq_lock \<Rightarrow> bool" for ws where
  begin_write: "w \<in> ws \<Longrightarrow> writers s w = WIdle \<Longrightarrow> length source = length (cells s)
    \<Longrightarrow> seq_step ws s (write_begin w source s)"
| lock_write: "writers s w = WLoaded source sq \<Longrightarrow> seq_step ws s (write_lock spurious w source sq s)"
| cell_write: "writers s w = WCopying source desired i \<Longrightarrow> i < length (cells s)
    \<Longrightarrow> seq_step ws s (write_cell w source desired i s)"
| unlock_write: "writers s w = WCopying source desired (length (cells s))
    \<Longrightarrow> seq_step ws s (write_unlock w source desired s)"
| begin_read: "readers s r \<in> {RIdle, RFailed} \<or> (\<exists>g k out. readers s r = RDone g k out)
    \<Longrightarrow> seq_step ws s (s\<lparr>readers := (readers s)(r := RLoad 0)\<rparr>)"
| load_read: "readers s r = RLoad retry \<Longrightarrow> seq_step ws s (read_load r retry s)"
| cell_read: "readers s r = RCopying retry sq g out \<Longrightarrow> length out < length (cells s)
    \<Longrightarrow> seq_step ws s (read_cell r retry sq g out s)"
| check_read: "readers s r = RCopying retry sq g out \<Longrightarrow> length out = length (cells s)
    \<Longrightarrow> seq_step ws s (read_check r retry sq g out s)"

definition seq_init :: "'a seq_lock \<Rightarrow> bool" where
  "seq_init s \<longleftrightarrow> sequence s = 0 \<and> writers s = (\<lambda>_. WIdle) \<and> readers s = (\<lambda>_. RIdle) \<and>
     history s = [cells s]"

section \<open>One writer\<close>

lemma even_word_of_nat: "(of_nat n :: u32) AND 1 = 0 \<longleftrightarrow> even n"
  by (simp add: and_one_eq even_iff_mod_2_eq_zero [symmetric])

lemma locked_value_even: "even n \<Longrightarrow> locked_value (of_nat n) = of_nat (n + 1)"
  using even_word_of_nat [of "n + 1"] by (simp add: locked_value_def Let_def add.commute)

lemma same_sequence:
  assumes "(of_nat (2 * k) :: u32) = of_nat (2 * g)" and "g \<le> k" and "k < g + 2 ^ 31"
  shows "k = g"
proof -
  have "2 * k mod 2 ^ 32 = 2 * g mod (2 ^ 32 :: nat)"
    using assms(1) unfolding word_of_nat_eq_iff take_bit_eq_mod by simp
  then have "2 ^ 32 dvd 2 * k - 2 * g" using mod_eq_dvd_iff_nat [of "2 * g" "2 * k" "2 ^ 32"] assms(2) by simp
  then show ?thesis using assms(2,3) by (auto dest!: dvd_imp_le)
qed

definition writer_inv :: "'a seq_lock \<Rightarrow> bool" where
  "writer_inv s \<longleftrightarrow>
     (case writers s 0 of
        WIdle \<Rightarrow> sequence s = of_nat (2 * completed s) \<and> cells s = last (history s)
      | WLoaded source sq \<Rightarrow> sequence s = of_nat (2 * completed s) \<and> cells s = last (history s) \<and>
          sq = sequence s \<and> length source = length (cells s)
      | WCopying source desired i \<Rightarrow> sequence s = of_nat (2 * completed s + 1) \<and> desired = sequence s \<and>
          length source = length (cells s) \<and> i \<le> length source \<and>
          cells s = take i source @ drop i (last (history s)))"

definition reader_ok :: "'a seq_lock \<Rightarrow> 'a reader \<Rightarrow> bool" where
  "reader_ok s rd \<longleftrightarrow>
     (case rd of
        RCopying retry sq g out \<Rightarrow> g \<le> completed s \<and> sq = of_nat (2 * g) \<and>
          length out \<le> length (cells s) \<and>
          (completed s = g \<and> (\<forall>src d i. writers s 0 \<noteq> WCopying src d i) \<longrightarrow>
             out = take (length out) (history s ! g))
      | RDone g k out \<Rightarrow> g \<le> k \<and> k \<le> completed s \<and> (k < g + 2 ^ 31 \<longrightarrow> out = history s ! g)
      | _ \<Rightarrow> True)"

definition same_lengths :: "'a list list \<Rightarrow> nat \<Rightarrow> bool" where
  "same_lengths hs n \<longleftrightarrow> (\<forall>h\<in>set hs. length h = n)"

definition seq_inv :: "'a seq_lock \<Rightarrow> bool" where
  "seq_inv s \<longleftrightarrow> history s \<noteq> [] \<and> same_lengths (history s) (length (cells s)) \<and>
     (\<forall>w. w \<noteq> 0 \<longrightarrow> writers s w = WIdle) \<and> writer_inv s \<and> (\<forall>r. reader_ok s (readers s r))"

lemma same_lengths_append [simp]: "same_lengths (hs @ [x]) n \<longleftrightarrow> same_lengths hs n \<and> length x = n"
  by (auto simp: same_lengths_def)

lemma same_lengths_last: "same_lengths hs n \<Longrightarrow> hs \<noteq> [] \<Longrightarrow> length (last hs) = n"
  by (simp add: same_lengths_def)

definition copying :: "'a writer \<Rightarrow> bool" where
  "copying w \<longleftrightarrow> (\<exists>src d i. w = WCopying src d i)"

lemma reader_ok_kept:
  assumes "reader_ok s rd" and "length (cells t) = length (cells s)" and "completed s \<le> completed t"
    and "\<And>g. g \<le> completed s \<Longrightarrow> history t ! g = history s ! g"
    and "completed t = completed s \<Longrightarrow> \<not> copying (writers t 0) \<Longrightarrow> \<not> copying (writers s 0)"
  shows "reader_ok t rd"
  using assms by (cases rd) (auto simp: reader_ok_def copying_def)

lemma writer_inv_cong:
  assumes "sequence t = sequence s" "cells t = cells s" "writers t = writers s" "history t = history s"
  shows "writer_inv t = writer_inv s"
  unfolding writer_inv_def completed_def assms ..

lemma read_only_step:
  assumes inv: "seq_inv s"
    and same: "sequence t = sequence s" "cells t = cells s" "writers t = writers s" "history t = history s"
    and readers: "readers t = (readers s)(r := rd)" and ok: "reader_ok s rd"
  shows "seq_inv t"
proof -
  have "reader_ok t x = reader_ok s x" for x
    by (simp add: reader_ok_def completed_def same split: reader.split)
  then show ?thesis
    using inv ok writer_inv_cong [OF same] by (auto simp: seq_inv_def same readers)
qed

lemma write_step:
  assumes inv: "seq_inv s"
    and readers: "readers t = readers s" and len: "length (cells t) = length (cells s)"
    and writers: "\<forall>w. w \<noteq> 0 \<longrightarrow> writers t w = WIdle" and writer: "writer_inv t"
    and hist: "history t = history s \<or> (\<exists>x. history t = history s @ [x] \<and> length x = length (cells s))"
    and copy: "history t = history s \<Longrightarrow> \<not> copying (writers t 0) \<Longrightarrow> \<not> copying (writers s 0)"
  shows "seq_inv t"
proof -
  have ne: "history s \<noteq> []" using inv by (simp add: seq_inv_def)
  have le: "completed s \<le> completed t" and kept: "g \<le> completed s \<Longrightarrow> history t ! g = history s ! g" for g
    using hist ne by (auto simp: completed_def nth_append Suc_le_eq dest: le_less_trans)
  have eq: "completed t = completed s \<Longrightarrow> history t = history s"
    using hist ne by (cases "history s") (auto simp: completed_def)
  have old: "reader_ok s (readers s r)" for r using inv unfolding seq_inv_def by blast
  have "reader_ok t (readers s r)" for r
    by (rule reader_ok_kept [OF old len le]) (use kept copy eq in blast)+
  moreover have "same_lengths (history s) (length (cells s))" using inv unfolding seq_inv_def by blast
  then have "history t \<noteq> []" "same_lengths (history t) (length (cells t))"
    using hist ne unfolding len by (elim disjE exE conjE; simp)+
  ultimately show ?thesis unfolding seq_inv_def readers using writers writer by blast
qed

lemma seq_inv_begin_write:
  assumes "seq_inv s" "writers s 0 = WIdle" "length source = length (cells s)"
  shows "seq_inv (write_begin 0 source s)"
  using assms
  by (intro write_step [OF assms(1)])
    (auto simp: write_begin_def seq_inv_def writer_inv_def completed_def copying_def)

lemma seq_inv_lock_write:
  assumes "seq_inv s" "writers s 0 = WLoaded source sq"
  shows "seq_inv (write_lock spurious 0 source sq s)"
  using assms locked_value_even [of "2 * completed s"]
  by (intro write_step [OF assms(1)])
    (auto simp: write_lock_def seq_inv_def writer_inv_def completed_def copying_def)

lemma copy_next_cell:
  assumes "length src = length old" and "i < length src"
  shows "(take i src @ drop i old)[i := src ! i] = take (Suc i) src @ drop (Suc i) old"
  using assms by (intro nth_equalityI) (auto simp: nth_append nth_list_update less_Suc_eq min_def)

lemma copying_facts:
  assumes "seq_inv s" and "writers s 0 = WCopying source desired i"
  shows "sequence s = of_nat (2 * completed s + 1)" "desired = sequence s"
    "length source = length (cells s)" "i \<le> length source"
    "cells s = take i source @ drop i (last (history s))"
    "length (last (history s)) = length (cells s)" "history s \<noteq> []" "\<forall>w. w \<noteq> 0 \<longrightarrow> writers s w = WIdle"
proof -
  have inv: "history s \<noteq> []" "same_lengths (history s) (length (cells s))" "\<forall>w. w \<noteq> 0 \<longrightarrow> writers s w = WIdle"
      "writer_inv s"
    using assms(1) unfolding seq_inv_def by blast+
  note writer = inv(4) [unfolded writer_inv_def assms(2) writer.case]
  show "sequence s = of_nat (2 * completed s + 1)" "desired = sequence s"
    "length source = length (cells s)" "i \<le> length source"
    "cells s = take i source @ drop i (last (history s))" using writer by blast+
  show "length (last (history s)) = length (cells s)" by (rule same_lengths_last [OF inv(2,1)])
  show "history s \<noteq> []" "\<forall>w. w \<noteq> 0 \<longrightarrow> writers s w = WIdle" by (rule inv)+
qed

lemma seq_inv_cell_write:
  assumes "seq_inv s" "writers s 0 = WCopying source desired i" "i < length (cells s)"
  shows "seq_inv (write_cell 0 source desired i s)"
proof (rule write_step [OF assms(1)])
  note c = copying_facts [OF assms(1,2)]
  have len: "length source = length (last (history s))" "i < length source" using c(3,6) assms(3) by linarith+
  have step: "(cells s)[i := source ! i] = take (Suc i) source @ drop (Suc i) (last (history s))"
    unfolding c(5) by (rule copy_next_cell [OF len])
  have count: "completed (write_cell 0 source desired i s) = completed s"
    by (simp add: completed_def write_cell_def)
  have sel: "writers (write_cell 0 source desired i s) 0 = WCopying source desired (Suc i)"
    "sequence (write_cell 0 source desired i s) = sequence s"
    "cells (write_cell 0 source desired i s) = (cells s)[i := source ! i]"
    "history (write_cell 0 source desired i s) = history s" by (simp_all add: write_cell_def)
  show "writer_inv (write_cell 0 source desired i s)"
    unfolding writer_inv_def count sel writer.case length_list_update step [symmetric]
    using c(1-3) len(2) by (intro conjI) simp_all
  show "\<forall>w. w \<noteq> 0 \<longrightarrow> writers (write_cell 0 source desired i s) w = WIdle"
    using c(8) by (simp add: write_cell_def)
qed (simp_all add: write_cell_def copying_def)

lemma seq_inv_unlock_write:
  assumes "seq_inv s" "writers s 0 = WCopying source desired (length (cells s))"
  shows "seq_inv (write_unlock 0 source desired s)"
proof (rule write_step [OF assms(1)])
  note c = copying_facts [OF assms]
  have "take (length (cells s)) source = source" using c(3) by (intro take_all) linarith
  moreover have "drop (length (cells s)) (last (history s)) = []" using c(6) by (intro drop_all) linarith
  ultimately have full: "cells s = source" by (subst c(5)) (simp only: append_Nil2)
  have "Suc (2 * completed s) + 1 = 2 * length (history s)"
    using c(7) by (cases "history s") (simp_all add: completed_def)
  then have "desired + 1 = (of_nat (2 * length (history s)) :: u32)"
    using c(1,2) by (metis Suc_eq_plus1 of_nat_Suc add.commute)
  then show "writer_inv (write_unlock 0 source desired s)"
    unfolding writer_inv_def write_unlock_def completed_def by (simp add: full)
  show "\<forall>w. w \<noteq> 0 \<longrightarrow> writers (write_unlock 0 source desired s) w = WIdle"
    using c(8) by (simp add: write_unlock_def)
qed (use copying_facts(3) [OF assms] in \<open>simp_all add: write_unlock_def\<close>)

lemma idle_facts:
  assumes "seq_inv s" and "\<not> copying (writers s 0)"
  shows "sequence s = of_nat (2 * completed s)" "cells s = history s ! completed s"
proof -
  have inv: "history s \<noteq> []" "writer_inv s" using assms(1) unfolding seq_inv_def by blast+
  have facts: "sequence s = of_nat (2 * completed s) \<and> cells s = last (history s)"
  proof (cases "writers s 0")
    case WIdle
    show ?thesis using inv(2) unfolding writer_inv_def WIdle writer.case .
  next
    case (WLoaded source sq)
    show ?thesis using inv(2) unfolding writer_inv_def WLoaded writer.case by blast
  next
    case (WCopying source desired i)
    then show ?thesis using assms(2) unfolding copying_def by blast
  qed
  show "sequence s = of_nat (2 * completed s)" using facts by (rule conjunct1)
  show "cells s = history s ! completed s"
    unfolding facts [THEN conjunct2] completed_def by (rule last_conv_nth [OF inv(1)])
qed

lemma even_idle:
  assumes "seq_inv s" and "sequence s AND 1 = 0"
  shows "\<not> copying (writers s 0)"
proof
  assume "copying (writers s 0)"
  then obtain src d i where "writers s 0 = WCopying src d i" unfolding copying_def by blast
  then have "sequence s = of_nat (2 * completed s + 1)" using copying_facts(1) [OF assms(1)] by blast
  then show False using assms(2) even_word_of_nat [of "2 * completed s + 1"] by simp
qed

lemma seq_inv_init: "seq_init s \<Longrightarrow> seq_inv s"
  by (simp add: seq_init_def seq_inv_def same_lengths_def writer_inv_def completed_def reader_ok_def)

lemma seq_inv_step:
  assumes "seq_step {0} s t" and inv: "seq_inv s"
  shows "seq_inv t"
proof -
  have only: "writers s w \<noteq> WIdle \<Longrightarrow> w = 0" for w using inv by (auto simp: seq_inv_def)
  have ok: "reader_ok s (readers s r)" for r using inv by (simp add: seq_inv_def)
  show ?thesis
    using assms(1)
  proof cases
    case (begin_write w source)
    then show ?thesis using inv by (simp add: seq_inv_begin_write)
  next
    case (lock_write w source sq spurious)
    then show ?thesis using inv only [of w] by (simp add: seq_inv_lock_write)
  next
    case (cell_write w source desired i)
    then show ?thesis using inv only [of w] by (simp add: seq_inv_cell_write)
  next
    case (unlock_write w source desired)
    then show ?thesis using inv only [of w] by (simp add: seq_inv_unlock_write)
  next
    case (begin_read r)
    then show ?thesis by (intro read_only_step [OF inv]) (auto simp: reader_ok_def)
  next
    case (load_read r retry)
    have "reader_ok s (RCopying retry (sequence s) (completed s) [])" if "sequence s AND 1 = 0"
      using idle_facts(1) [OF inv even_idle [OF inv that]] by (simp add: reader_ok_def)
    then show ?thesis using load_read
      by (intro read_only_step [OF inv]) (auto simp: read_load_def reader_ok_def)
  next
    case (cell_read r retry sq g out)
    have "reader_ok s (RCopying retry sq g (out @ [cells s ! length out]))"
    proof -
      have old: "reader_ok s (RCopying retry sq g out)" using ok [of r] cell_read by simp
      have next_cell: "out @ [cells s ! length out] = take (Suc (length out)) (history s ! g)"
        if idle: "completed s = g" "\<forall>src d i. writers s 0 \<noteq> WCopying src d i"
      proof -
        have "cells s = history s ! g" using idle_facts(2) [OF inv] idle by (simp add: copying_def)
        moreover have "out = take (length out) (history s ! g)" using old idle by (simp add: reader_ok_def)
        ultimately show ?thesis using take_Suc_conv_app_nth [of "length out" "history s ! g"] cell_read(3) by simp
      qed
      note old' = old [unfolded reader_ok_def reader.case]
      have "Suc (length out) \<le> length (cells s)" using cell_read(3) by (rule Suc_leI)
      then show ?thesis unfolding reader_ok_def reader.case length_append_singleton
        using old' next_cell by blast
    qed
    then show ?thesis using cell_read by (intro read_only_step [OF inv]) (auto simp: read_cell_def)
  next
    case (check_read r retry sq g out)
    have "reader_ok s (RDone g (completed s) out)" if same: "sq = sequence s"
    proof -
      have old: "reader_ok s (RCopying retry sq g out)" using ok [of r] check_read by simp
      have "out = history s ! g" if bound: "completed s < g + 2 ^ 31"
      proof -
        have even: "(of_nat (2 * g) :: u32) = sequence s" using old same by (simp add: reader_ok_def)
        then have "sequence s AND 1 = 0" using even_word_of_nat [of "2 * g"] by simp
        then have "\<not> copying (writers s 0)" by (rule even_idle [OF inv])
        then have idle: "\<forall>src d i. writers s 0 \<noteq> WCopying src d i" "sequence s = of_nat (2 * completed s)"
          using idle_facts(1) [OF inv] by (auto simp: copying_def)
        have "completed s = g"
          using same_sequence [of "completed s" g] even idle(2) bound old by (simp add: reader_ok_def)
        moreover have "history s \<noteq> []" "same_lengths (history s) (length (cells s))"
          using inv unfolding seq_inv_def by blast+
        then have "length (history s ! g) = length (cells s)"
          using calculation by (auto simp: same_lengths_def completed_def)
        ultimately show ?thesis using old idle(1) check_read(3) by (simp add: reader_ok_def)
      qed
      then show ?thesis using old by (simp add: reader_ok_def)
    qed
    then show ?thesis using check_read
      by (intro read_only_step [OF inv]) (auto simp: read_check_def reader_ok_def)
  qed
qed

interpretation seq_lock_system: invariant_system seq_init "seq_step {0}" seq_inv
  by unfold_locales (auto intro: seq_inv_init seq_inv_step)

section \<open>What a read returns\<close>

text \<open>C8: with one writing thread, a successful read is never torn: whatever the interleaving, it
  returned the argument of one complete write (or the initial value), namely the newest one
  completed when the successful attempt loaded the sequence number; the only premise is that fewer
  than \<open>2^31\<close> writes completed inside that attempt, so that the 32-bit number did not come round.\<close>

theorem reads_are_untorn:
  assumes "reachable_from seq_init (seq_step {0}) s"
    and "readers s r = RDone g k out" and "k < g + 2 ^ 31"
  shows "out = history s ! g \<and> g \<le> k \<and> k \<le> completed s"
proof -
  have "seq_inv s" using assms(1) by (rule seq_lock_system.reachable_inv)
  then have "reader_ok s (RDone g k out)" using assms(2) unfolding seq_inv_def by metis
  then show ?thesis using assms(3) by (simp add: reader_ok_def)
qed

definition two_cells :: "nat seq_lock" where
  "two_cells = \<lparr>sequence = 0, cells = [0, 0], writers = (\<lambda>_. WIdle), readers = (\<lambda>_. RIdle), history = [[0, 0]]\<rparr>"

lemmas seq_ops = write_begin_def write_lock_def write_cell_def write_unlock_def read_load_def read_cell_def
  read_check_def locked_value_def completed_def max_retries_def

theorem reads_are_untorn_witness:
  "\<exists>s. reachable_from seq_init (seq_step {0}) s \<and> readers s 5 = RDone 1 1 (history s ! 1) \<and> history s ! 1 = [7, 8::nat]"
proof -
  let ?R = "reachable_from seq_init (seq_step {0 :: nat})"
  define s1 where "s1 = write_lock False 0 [7, 8] 0 (write_begin 0 [7, 8] two_cells)"
  define s2 where "s2 = write_unlock 0 [7, 8] 1 (write_cell 0 [7, 8] 1 1 (write_cell 0 [7, 8] 1 0 s1))"
  define s3 where "s3 = read_load 5 0 (s2\<lparr>readers := (readers s2)(5 := RLoad 0)\<rparr>)"
  define s4 where "s4 = read_check 5 0 2 1 [7, 8] (read_cell 5 0 2 1 [7] (read_cell 5 0 2 1 [] s3))"
  have "?R two_cells" by (intro reachable_from.start) (simp add: seq_init_def two_cells_def)
  then have "?R (write_begin 0 [7, 8] two_cells)"
    by (rule reachable_from.more) (rule begin_write; simp add: two_cells_def)
  then have 1: "?R s1"
    unfolding s1_def by (rule reachable_from.more) (rule lock_write; simp add: two_cells_def write_begin_def)
  have s1: "s1 = two_cells\<lparr>sequence := 1, writers := (writers two_cells)(0 := WCopying [7, 8] 1 0)\<rparr>"
    by (simp add: s1_def two_cells_def seq_ops fun_eq_iff)
  have "?R (write_cell 0 [7, 8] 1 0 s1)"
    by (rule reachable_from.more [OF 1]) (rule cell_write; simp add: s1 two_cells_def)
  then have "?R (write_cell 0 [7, 8] 1 1 (write_cell 0 [7, 8] 1 0 s1))"
    by (rule reachable_from.more) (rule cell_write; simp add: s1 two_cells_def write_cell_def)
  then have 2: "?R s2"
    unfolding s2_def by (rule reachable_from.more) (rule unlock_write; simp add: s1 two_cells_def write_cell_def)
  have s2: "s2 = \<lparr>sequence = 2, cells = [7, 8], writers = (\<lambda>_. WIdle), readers = (\<lambda>_. RIdle), history = [[0, 0], [7, 8]]\<rparr>"
    by (simp add: s2_def s1 two_cells_def seq_ops fun_upd_def fun_eq_iff)
  have "?R (s2\<lparr>readers := (readers s2)(5 := RLoad 0)\<rparr>)"
    by (rule reachable_from.more [OF 2]) (rule begin_read; simp add: s2)
  then have 3: "?R s3"
    unfolding s3_def by (rule reachable_from.more) (rule load_read; simp)
  have s3: "s3 = s2\<lparr>readers := (\<lambda>_. RIdle)(5 := RCopying 0 2 1 [])\<rparr>"
    by (simp add: s3_def s2 seq_ops fun_eq_iff)
  have "?R (read_cell 5 0 2 1 [] s3)"
    by (rule reachable_from.more [OF 3]) (rule cell_read; simp add: s3 s2)
  then have "?R (read_cell 5 0 2 1 [7] (read_cell 5 0 2 1 [] s3))"
    by (rule reachable_from.more) (rule cell_read; simp add: s3 s2 read_cell_def)
  then have 4: "?R s4"
    unfolding s4_def by (rule reachable_from.more) (rule check_read; simp add: s3 s2 read_cell_def)
  have rd: "readers s4 5 = RDone 1 1 [7, 8]" and hist: "history s4 = [[0, 0], [7, 8]]"
    by (simp_all add: s4_def s3 s2 seq_ops)
  have "[7, 8] = history s4 ! 1" using reads_are_untorn [OF 4 rd] by simp
  then show ?thesis using 4 rd hist by (intro exI [of _ s4]) simp
qed

text \<open>The premise of one writing thread is needed: a second writer passes the compare-exchange while
  the first is copying (the odd number 1 becomes the odd number 3), and the first one's unlocking
  store makes the number even under the second one's copy.\<close>

lemma two_writers_tear:
  defines "a \<equiv> [1, 1]" and "b \<equiv> [2, 2 :: nat]"
  defines "trace \<equiv> [write_begin 0 a, write_lock False 0 a 0, write_begin 1 b, write_lock False 1 b 1,
    write_cell 0 a 1 0, write_cell 0 a 1 1, write_cell 1 b 3 0, write_unlock 0 a 1,
    \<lambda>s. s\<lparr>readers := (readers s)(5 := RLoad 0)\<rparr>, read_load 5 0, read_cell 5 0 2 1 [], read_cell 5 0 2 1 [2],
    read_check 5 0 2 1 [2, 1]]"
  shows "readers (fold (\<lambda>f. f) trace two_cells) 5 = RDone 1 1 [2, 1]"
  by (simp add: trace_def a_def b_def two_cells_def seq_ops)

end
