(* ===== verification/Av1Obu.thy ===== *)
theory Av1Obu
  imports Prelude "HOL-Library.State_Monad"
begin

unbundle bit_operations_syntax

text \<open>
  The AV1 OBU reader and writer of \<^verbatim>\<open>mediaengine/video/av1_obu.{h,cpp}\<close>. A bit reader is state
  threaded through the parsing functions by the state monad, in the order the code reads; a byte
  array is a list of 8-bit words. Fields the code keeps in small unsigned types and that a lemma
  below bounds are naturals.
\<close>

definition num_ref_frames :: nat where "num_ref_frames = 8"
definition max_operating_points :: nat where "max_operating_points = 32"
definition select_screen_content_tools :: nat where "select_screen_content_tools = 2"
definition select_integer_mv :: nat where "select_integer_mv = 2"

datatype frame_type = Key | Inter | IntraOnly | Switch

datatype parse_status = Ok | Truncated | NoSequence | Unsupported

record parse_result =
  status :: parse_status
  reason :: string

record sequence_header =
  seq_valid :: bool
  profile :: nat
  reducedStillPicture :: bool
  timingInfoPresent :: bool
  equalPictureInterval :: bool
  decoderModelInfoPresent :: bool
  bufferRemovalTimeLength :: nat
  framePresentationTimeLength :: nat
  operatingPointCount :: nat
  operatingPointIdc :: "u16 list"
  decoderModelPresentForOp :: "bool list"
  frameIdNumbersPresent :: bool
  frameIdLength :: nat
  forceScreenContentTools :: nat
  forceIntegerMv :: nat
  orderHintBits :: nat

definition empty_sequence :: sequence_header where
  "empty_sequence = \<lparr>seq_valid = False, profile = 0, reducedStillPicture = False, timingInfoPresent = False,
     equalPictureInterval = False, decoderModelInfoPresent = False, bufferRemovalTimeLength = 0,
     framePresentationTimeLength = 0, operatingPointCount = 0,
     operatingPointIdc = replicate max_operating_points 0,
     decoderModelPresentForOp = replicate max_operating_points False, frameIdNumbersPresent = False,
     frameIdLength = 0, forceScreenContentTools = 0, forceIntegerMv = 0, orderHintBits = 0\<rparr>"

record frame_header =
  showExistingFrame :: bool
  frameToShowMapIdx :: nat
  frameType :: frame_type
  showFrame :: bool
  showableFrame :: bool
  refreshFrameFlags :: u8
  currentFrameId :: u32

definition empty_frame :: frame_header where
  "empty_frame = \<lparr>showExistingFrame = False, frameToShowMapIdx = 0, frameType = Key, showFrame = False,
     showableFrame = False, refreshFrameFlags = 0, currentFrameId = 0\<rparr>"

record temporal_unit_info =
  sequenceHeaderSeen :: bool
  extensionSeen :: bool
  frameHeaders :: nat
  first_frame :: frame_header

definition empty_unit :: temporal_unit_info where
  "empty_unit = \<lparr>sequenceHeaderSeen = False, extensionSeen = False, frameHeaders = 0, first_frame = empty_frame\<rparr>"

definition parse_ok :: parse_result where
  "parse_ok = \<lparr>status = Ok, reason = ''''\<rparr>"

definition fail :: "parse_status \<Rightarrow> string \<Rightarrow> parse_result" where
  "fail st why = \<lparr>status = st, reason = why\<rparr>"

section \<open>The bit reader\<close>

record bit_reader =
  rd_data :: "u8 list"
  rd_position :: nat
  overrun :: bool

definition bit_reader :: "u8 list \<Rightarrow> bit_reader" where
  "bit_reader bytes = \<lparr>rd_data = bytes, rd_position = 0, overrun = False\<rparr>"

definition bit_at :: "u8 list \<Rightarrow> nat \<Rightarrow> u32" where
  "bit_at bytes p = ucast (drop_bit (7 - p mod 8) (bytes ! (p div 8))) AND 1"

fun read_loop :: "nat \<Rightarrow> u32 \<Rightarrow> bit_reader \<Rightarrow> u32 \<times> bit_reader" where
  "read_loop 0 v b = (v, b)"
| "read_loop (Suc n) v b =
     (if rd_position b \<ge> length (rd_data b) * 8 then (0, b\<lparr>overrun := True\<rparr>)
      else read_loop n (push_bit 1 v OR bit_at (rd_data b) (rd_position b))
             (b\<lparr>rd_position := rd_position b + 1\<rparr>))"

definition read_bits :: "nat \<Rightarrow> (bit_reader, u32) state" where
  "read_bits n = State (read_loop n 0)"

definition read_nat :: "nat \<Rightarrow> (bit_reader, nat) state" where
  "read_nat n = do { v \<leftarrow> read_bits n; State_Monad.return (unat v) }"

definition flag :: "(bit_reader, bool) state" where
  "flag = do { v \<leftarrow> read_bits 1; State_Monad.return (v \<noteq> 0) }"

text \<open>\<^verbatim>\<open>uvlc()\<close>: the result of the zero-counting loop is the count, or \<open>None\<close> for its early return.\<close>

function uvlc_loop :: "nat \<Rightarrow> bit_reader \<Rightarrow> nat option \<times> bit_reader" where
  "uvlc_loop leadingZeros b =
     (if overrun b then (Some leadingZeros, b)
      else case run_state flag b of (f, b') \<Rightarrow>
        if f then (Some leadingZeros, b')
        else if leadingZeros + 1 \<ge> 32 then (None, b') else uvlc_loop (leadingZeros + 1) b')"
  by pat_completeness auto
termination by (relation "measure (\<lambda>(z, b). 32 - z)") auto

definition uvlc :: "(bit_reader, u32) state" where
  "uvlc = do {
     zeros \<leftarrow> State (uvlc_loop 0);
     (case zeros of
        None \<Rightarrow> State_Monad.return 0
      | Some z \<Rightarrow> if z = 0 then State_Monad.return 0
                 else do { v \<leftarrow> read_bits z; State_Monad.return (v + (push_bit z 1 - 1)) })
   }"

abbreviation skip_bits :: "bool \<Rightarrow> nat \<Rightarrow> (bit_reader, u32) state" where
  "skip_bits c n \<equiv> (if c then read_bits n else State_Monad.return 0)"

abbreviation flag_if :: "bool \<Rightarrow> (bit_reader, bool) state" where
  "flag_if c \<equiv> (if c then flag else State_Monad.return False)"

section \<open>The sequence header\<close>

definition read_timing_info :: "sequence_header \<Rightarrow> (bit_reader, sequence_header \<times> nat) state" where
  "read_timing_info sq = do {
     timing \<leftarrow> flag;
     let sq = sq\<lparr>timingInfoPresent := timing\<rparr>;
     (if \<not> timing then State_Monad.return (sq, 0) else do {
        _ \<leftarrow> read_bits 32;
        _ \<leftarrow> read_bits 32;
        equal \<leftarrow> flag;
        _ \<leftarrow> (if equal then uvlc else State_Monad.return 0);
        model \<leftarrow> flag;
        let sq = sq\<lparr>equalPictureInterval := equal, decoderModelInfoPresent := model\<rparr>;
        (if \<not> model then State_Monad.return (sq, 0) else do {
           delay \<leftarrow> read_nat 5;
           _ \<leftarrow> read_bits 32;
           removal \<leftarrow> read_nat 5;
           presentation \<leftarrow> read_nat 5;
           State_Monad.return (sq\<lparr>bufferRemovalTimeLength := removal + 1,
             framePresentationTimeLength := presentation + 1\<rparr>, delay + 1) }) })
   }"

definition read_operating_point :: "bool \<Rightarrow> nat \<Rightarrow> nat \<Rightarrow> sequence_header \<Rightarrow> (bit_reader, sequence_header) state" where
  "read_operating_point initialDisplayDelayPresent bufferDelayLength op sq = do {
     idc \<leftarrow> read_bits 12;
     level \<leftarrow> read_nat 5;
     _ \<leftarrow> skip_bits (level > 7) 1;
     let sq = sq\<lparr>operatingPointIdc := (operatingPointIdc sq)[op := ucast idc]\<rparr>;
     present \<leftarrow> flag_if (decoderModelInfoPresent sq);
     let sq = (if decoderModelInfoPresent sq
       then sq\<lparr>decoderModelPresentForOp := (decoderModelPresentForOp sq)[op := present]\<rparr> else sq);
     _ \<leftarrow> skip_bits present bufferDelayLength;
     _ \<leftarrow> skip_bits present bufferDelayLength;
     _ \<leftarrow> skip_bits present 1;
     delay \<leftarrow> flag_if initialDisplayDelayPresent;
     _ \<leftarrow> skip_bits delay 4;
     State_Monad.return sq
   }"

fun read_operating_points :: "bool \<Rightarrow> nat \<Rightarrow> nat list \<Rightarrow> sequence_header \<Rightarrow> (bit_reader, sequence_header) state" where
  "read_operating_points initial delay [] sq = State_Monad.return sq"
| "read_operating_points initial delay (op # ops) sq = do {
     sq \<leftarrow> read_operating_point initial delay op sq;
     read_operating_points initial delay ops sq }"

definition read_levels :: "sequence_header \<Rightarrow> (bit_reader, sequence_header) state" where
  "read_levels sq =
     (if reducedStillPicture sq
      then do { _ \<leftarrow> read_bits 5; State_Monad.return (sq\<lparr>operatingPointCount := 1\<rparr>) }
      else do {
        r \<leftarrow> read_timing_info sq;
        initialDisplayDelayPresent \<leftarrow> flag;
        count \<leftarrow> read_nat 5;
        let sq = (fst r)\<lparr>operatingPointCount := count + 1\<rparr>;
        read_operating_points initialDisplayDelayPresent (snd r) [0..<count + 1] sq })"

definition read_frame_ids :: "sequence_header \<Rightarrow> (bit_reader, sequence_header) state" where
  "read_frame_ids sq = do {
     widthBits \<leftarrow> read_nat 4;
     heightBits \<leftarrow> read_nat 4;
     _ \<leftarrow> read_bits (widthBits + 1);
     _ \<leftarrow> read_bits (heightBits + 1);
     ids \<leftarrow> flag_if (\<not> reducedStillPicture sq);
     let sq = (if \<not> reducedStillPicture sq then sq\<lparr>frameIdNumbersPresent := ids\<rparr> else sq);
     (if frameIdNumbersPresent sq then do {
        deltaLengthMinus2 \<leftarrow> read_nat 4;
        additionalLengthMinus1 \<leftarrow> read_nat 3;
        State_Monad.return (sq\<lparr>frameIdLength := additionalLengthMinus1 + deltaLengthMinus2 + 3\<rparr>) }
      else State_Monad.return sq)
   }"

definition read_tools :: "sequence_header \<Rightarrow> (bit_reader, sequence_header) state" where
  "read_tools sq = do {
     _ \<leftarrow> read_bits 3;
     let sq = sq\<lparr>forceScreenContentTools := select_screen_content_tools, forceIntegerMv := select_integer_mv\<rparr>;
     (if reducedStillPicture sq then State_Monad.return sq else do {
        _ \<leftarrow> read_bits 4;
        enableOrderHint \<leftarrow> flag;
        _ \<leftarrow> skip_bits enableOrderHint 2;
        chooseTools \<leftarrow> flag;
        tools \<leftarrow> (if \<not> chooseTools then read_nat 1 else State_Monad.return (forceScreenContentTools sq));
        let sq = sq\<lparr>forceScreenContentTools := tools\<rparr>;
        chooseMv \<leftarrow> (if tools > 0 then flag else State_Monad.return True);
        mv \<leftarrow> (if \<not> chooseMv then read_nat 1 else State_Monad.return (forceIntegerMv sq));
        let sq = sq\<lparr>forceIntegerMv := mv\<rparr>;
        hint \<leftarrow> (if enableOrderHint then read_nat 3 else State_Monad.return 0);
        State_Monad.return (if enableOrderHint then sq\<lparr>orderHintBits := hint + 1\<rparr> else sq) })
   }"

definition read_sequence_header :: "(bit_reader, sequence_header) state" where
  "read_sequence_header = do {
     prof \<leftarrow> read_nat 3;
     _ \<leftarrow> read_bits 1;
     reduced \<leftarrow> flag;
     sq \<leftarrow> read_levels (empty_sequence\<lparr>profile := prof, reducedStillPicture := reduced\<rparr>);
     sq \<leftarrow> read_frame_ids sq;
     read_tools sq
   }"

text \<open>\<^verbatim>\<open>*out\<close> is written on success only.\<close>

definition parse_sequence_header_obu :: "u8 list \<Rightarrow> sequence_header \<Rightarrow> parse_result \<times> sequence_header" where
  "parse_sequence_header_obu payload old =
     (case run_state read_sequence_header (bit_reader payload) of (sq, b) \<Rightarrow>
        if overrun b then (fail Truncated ''sequence_header'', old)
        else (parse_ok, sq\<lparr>seq_valid := True\<rparr>))"

section \<open>The frame header\<close>

definition frame_type_of :: "nat \<Rightarrow> frame_type" where
  "frame_type_of n = (if n = 0 then Key else if n = 1 then Inter else if n = 2 then IntraOnly else Switch)"

definition presentation_time_present :: "sequence_header \<Rightarrow> bool" where
  "presentation_time_present sq \<longleftrightarrow> decoderModelInfoPresent sq \<and> \<not> equalPictureInterval sq"

definition read_show_existing :: "sequence_header \<Rightarrow> (bit_reader, frame_header) state" where
  "read_show_existing sq = do {
     idx \<leftarrow> read_nat 3;
     _ \<leftarrow> skip_bits (presentation_time_present sq) (framePresentationTimeLength sq);
     ident \<leftarrow> skip_bits (frameIdNumbersPresent sq) (frameIdLength sq);
     State_Monad.return (empty_frame\<lparr>showExistingFrame := True, frameToShowMapIdx := idx,
       currentFrameId := ident, showFrame := True\<rparr>)
   }"

fun read_removal_times :: "sequence_header \<Rightarrow> nat \<Rightarrow> nat \<Rightarrow> nat list \<Rightarrow> (bit_reader, unit) state" where
  "read_removal_times sq temporalId spatialId [] = State_Monad.return ()"
| "read_removal_times sq temporalId spatialId (op # ops) = do {
     _ \<leftarrow> (if \<not> decoderModelPresentForOp sq ! op then State_Monad.return 0
       else let idc = operatingPointIdc sq ! op;
                inTemporalLayer = bit idc temporalId;
                inSpatialLayer = bit idc (spatialId + 8)
            in skip_bits (idc = 0 \<or> (inTemporalLayer \<and> inSpatialLayer)) (bufferRemovalTimeLength sq));
     read_removal_times sq temporalId spatialId ops }"

definition read_new_frame :: "sequence_header \<Rightarrow> nat \<Rightarrow> nat \<Rightarrow> (bit_reader, frame_header) state" where
  "read_new_frame sq temporalId spatialId = do {
     kind \<leftarrow> read_nat 2;
     let ft = frame_type_of kind;
     let intra = (ft = Key \<or> ft = IntraOnly);
     shown \<leftarrow> flag;
     _ \<leftarrow> skip_bits (shown \<and> presentation_time_present sq) (framePresentationTimeLength sq);
     showable \<leftarrow> (if shown then State_Monad.return (ft \<noteq> Key) else flag);
     let shownKey = (ft = Key \<and> shown);
     resilient \<leftarrow> (if ft = Switch \<or> shownKey then State_Monad.return True else flag);
     _ \<leftarrow> read_bits 1;
     tools \<leftarrow> (if forceScreenContentTools sq = select_screen_content_tools then flag
       else State_Monad.return (forceScreenContentTools sq \<noteq> 0));
     _ \<leftarrow> skip_bits (tools \<and> forceIntegerMv sq = select_integer_mv) 1;
     ident \<leftarrow> skip_bits (frameIdNumbersPresent sq) (frameIdLength sq);
     _ \<leftarrow> skip_bits (ft \<noteq> Switch) 1;
     _ \<leftarrow> read_bits (orderHintBits sq);
     _ \<leftarrow> skip_bits (\<not> intra \<and> \<not> resilient) 3;
     removal \<leftarrow> flag_if (decoderModelInfoPresent sq);
     _ \<leftarrow> (if removal then read_removal_times sq temporalId spatialId [0..<operatingPointCount sq]
       else State_Monad.return ());
     refresh \<leftarrow> (if ft = Switch \<or> shownKey then State_Monad.return 0xff
       else do { v \<leftarrow> read_bits 8; State_Monad.return (ucast v) });
     State_Monad.return (empty_frame\<lparr>frameType := ft, showFrame := shown, showableFrame := showable,
       refreshFrameFlags := refresh, currentFrameId := ident\<rparr>)
   }"

text \<open>\<^verbatim>\<open>*out\<close> is written on success only.\<close>

definition parse_frame_header_prefix :: "bit_reader \<Rightarrow> sequence_header \<Rightarrow> nat \<Rightarrow> nat \<Rightarrow> frame_header
    \<Rightarrow> parse_result \<times> frame_header" where
  "parse_frame_header_prefix b sq temporalId spatialId old =
     (if reducedStillPicture sq then (fail Unsupported ''reduced_still_picture_header'', old)
      else case run_state flag b of (existing, b) \<Rightarrow>
        if existing
        then case run_state (read_show_existing sq) b of (f, b) \<Rightarrow>
               if overrun b then (fail Truncated ''show_existing_header'', old) else (parse_ok, f)
        else case run_state (read_new_frame sq temporalId spatialId) b of (f, b) \<Rightarrow>
               if overrun b then (fail Truncated ''frame_header'', old) else (parse_ok, f))"

section \<open>The temporal unit\<close>

text \<open>\<open>leb_loop i\<close> is the loop from pass \<open>i\<close> on; the value is the code's 64-bit accumulator.\<close>

function leb_loop :: "u8 list \<Rightarrow> nat \<Rightarrow> nat \<Rightarrow> u64 \<Rightarrow> bool \<times> nat \<times> u64" where
  "leb_loop bytes i offset v =
     (if i \<ge> 8 \<or> offset \<ge> length bytes then (False, offset, v)
      else let byte = bytes ! offset;
               v = v OR push_bit (i * 7) (ucast (byte AND 0x7f))
           in if byte AND 0x80 = 0 then (True, offset + 1, v) else leb_loop bytes (i + 1) (offset + 1) v)"
  by pat_completeness auto
termination by (relation "measure (\<lambda>(bytes, i, offset, v). 8 - i)") auto

declare leb_loop.simps [simp del]

definition read_leb128 :: "u8 list \<Rightarrow> nat \<Rightarrow> bool \<times> nat \<times> u64" where
  "read_leb128 bytes offset = leb_loop bytes 0 offset 0"

definition obu_sequence_header :: nat where "obu_sequence_header = 1"
definition obu_temporal_delimiter :: nat where "obu_temporal_delimiter = 2"
definition obu_frame_header :: nat where "obu_frame_header = 3"
definition obu_frame :: nat where "obu_frame = 6"

text \<open>The framing of one unit: its type, layer ids, whether it has the extension, its payload and
  the offset after it.\<close>

record obu =
  obu_type :: nat
  temporal_id :: nat
  spatial_id :: nat
  has_extension :: bool
  payload :: "u8 list"
  obu_end :: nat

definition obu_framing :: "u8 list \<Rightarrow> nat \<Rightarrow> parse_result + obu" where
  "obu_framing bytes offset =
     (let header = bytes ! offset; offset = offset + 1
      in if header AND 0x80 \<noteq> 0 then Inl (fail Truncated ''obu_forbidden_bit'')
         else let ty = unat (drop_bit 3 header AND 0x0f);
                  extension = (header AND 0x04 \<noteq> 0);
                  hasSize = (header AND 0x02 \<noteq> 0)
              in if extension \<and> offset \<ge> length bytes then Inl (fail Truncated ''obu_extension'')
                 else let temporalId = (if extension then unat (drop_bit 5 (bytes ! offset)) else 0);
                          spatialId = (if extension then unat (drop_bit 3 (bytes ! offset) AND 0x03) else 0);
                          offset = (if extension then offset + 1 else offset);
                          leb = (if hasSize then read_leb128 bytes offset else (True, offset, of_nat (length bytes - offset)));
                          offset = fst (snd leb);
                          payloadSize = (if hasSize then unat (snd (snd leb)) else length bytes - offset)
                      in if \<not> fst leb then Inl (fail Truncated ''obu_size'')
                         else if payloadSize > length bytes - offset then Inl (fail Truncated ''obu_payload'')
                         else Inr \<lparr>obu_type = ty, temporal_id = temporalId, spatial_id = spatialId,
                                has_extension = extension, payload = take payloadSize (drop offset bytes),
                                obu_end = offset + payloadSize\<rparr>)"

text \<open>What one unit does to the sequence and the info; a failure leaves the loop.\<close>

definition apply_obu :: "obu \<Rightarrow> sequence_header \<Rightarrow> temporal_unit_info
    \<Rightarrow> (parse_result \<times> sequence_header) + (sequence_header \<times> temporal_unit_info)" where
  "apply_obu u sq info =
     (let info = (if has_extension u then info\<lparr>extensionSeen := True\<rparr> else info)
      in if obu_type u = obu_sequence_header
         then case parse_sequence_header_obu (payload u) sq of (r, sq') \<Rightarrow>
                if status r \<noteq> Ok then Inl (r, sq') else Inr (sq', info\<lparr>sequenceHeaderSeen := True\<rparr>)
         else if obu_type u = obu_frame_header \<or> obu_type u = obu_frame
         then if \<not> seq_valid sq then Inl (fail NoSequence ''frame_before_sequence_header'', sq)
              else let info = info\<lparr>frameHeaders := frameHeaders info + 1\<rparr>
                   in if frameHeaders info > 1 then Inr (sq, info)
                      else case parse_frame_header_prefix (bit_reader (payload u)) sq (temporal_id u) (spatial_id u)
                                  (first_frame info) of
                             (r, f) \<Rightarrow> if status r \<noteq> Ok then Inl (r, sq) else Inr (sq, info\<lparr>first_frame := f\<rparr>)
         else Inr (sq, info))"

lemma leb_loop_offset: "offset \<le> fst (snd (leb_loop bytes i offset v))"
  by (induction bytes i offset v rule: leb_loop.induct)
     (subst leb_loop.simps, fastforce simp: Let_def)

lemma obu_framing_advances: "obu_framing bytes offset = Inr u \<Longrightarrow> offset < obu_end u"
  using leb_loop_offset [of "offset + 1" bytes 0 0] leb_loop_offset [of "offset + 2" bytes 0 0]
  by (auto simp: obu_framing_def read_leb128_def Let_def split: if_splits)

text \<open>\<open>None\<close> as the last component: \<^verbatim>\<open>*out\<close> is not written.\<close>

function obu_loop :: "u8 list \<Rightarrow> nat \<Rightarrow> sequence_header \<Rightarrow> temporal_unit_info
    \<Rightarrow> parse_result \<times> sequence_header \<times> temporal_unit_info option" where
  "obu_loop bytes offset sq info =
     (if offset \<ge> length bytes then (parse_ok, sq, Some info)
      else case obu_framing bytes offset of
             Inl r \<Rightarrow> (r, sq, None)
           | Inr u \<Rightarrow> (case apply_obu u sq info of
                 Inl (r, sq') \<Rightarrow> (r, sq', None)
               | Inr (sq', info') \<Rightarrow> obu_loop bytes (obu_end u) sq' info'))"
  by pat_completeness auto
termination
  by (relation "measure (\<lambda>(bytes, offset, sq, info). length bytes - offset)")
     (auto dest!: obu_framing_advances)

declare obu_loop.simps [simp del]

definition parse_temporal_unit :: "u8 list \<Rightarrow> sequence_header
    \<Rightarrow> parse_result \<times> sequence_header \<times> temporal_unit_info option" where
  "parse_temporal_unit bytes sq = obu_loop bytes 0 sq empty_unit"

section \<open>The show-existing unit\<close>

definition can_write_show_existing :: "sequence_header \<Rightarrow> parse_result" where
  "can_write_show_existing sq =
     (if \<not> seq_valid sq then fail NoSequence ''no_sequence_header''
      else if reducedStillPicture sq then fail Unsupported ''reduced_still_picture_header''
      else if decoderModelInfoPresent sq \<and> \<not> equalPictureInterval sq
      then fail Unsupported ''decoder_model_without_equal_picture_interval''
      else parse_ok)"

record bit_writer =
  wr_data :: "u8 list"
  wr_position :: nat
  overflow :: bool

definition put_bit :: "bool \<Rightarrow> bit_writer \<Rightarrow> bit_writer" where
  "put_bit x w =
     (let byte = wr_position w div 8;
          d = (if wr_position w mod 8 = 0 then (wr_data w)[byte := 0] else wr_data w);
          d = (if x then d[byte := d ! byte OR drop_bit (wr_position w mod 8) 0x80] else d)
      in w\<lparr>wr_data := d, wr_position := wr_position w + 1\<rparr>)"

fun write_bits :: "u32 \<Rightarrow> nat \<Rightarrow> bit_writer \<Rightarrow> bit_writer" where
  "write_bits v 0 w = w"
| "write_bits v (Suc i) w =
     (if wr_position w div 8 \<ge> length (wr_data w) then w\<lparr>overflow := True\<rparr>
      else write_bits v i (put_bit (drop_bit i v AND 1 \<noteq> 0) w))"

text \<open>The padding loop has no counter of its own: not returning is the value \<open>None\<close>.\<close>

partial_function (option) pad_to_byte :: "bit_writer \<Rightarrow> bit_writer option" where
  "pad_to_byte w = (if wr_position w mod 8 = 0 then Some w else pad_to_byte (write_bits 0 1 w))"

declare pad_to_byte.simps [code]

definition trailing_bits :: "bit_writer \<Rightarrow> bit_writer option" where
  "trailing_bits w = pad_to_byte (write_bits 1 1 w)"

definition written_bytes :: "bit_writer \<Rightarrow> nat" where
  "written_bytes w = (wr_position w + 7) div 8"

text \<open>The bytes put into \<^verbatim>\<open>out\<close>; the empty list is the return value 0.\<close>

definition write_show_existing_temporal_unit :: "sequence_header \<Rightarrow> nat \<Rightarrow> u32 \<Rightarrow> nat \<Rightarrow> u8 list option" where
  "write_show_existing_temporal_unit sq mapIdx displayFrameId capacity =
     (if status (can_write_show_existing sq) \<noteq> Ok \<or> mapIdx \<ge> num_ref_frames \<or> capacity < 4 then Some []
      else let w = write_bits 1 1 \<lparr>wr_data = replicate 8 0, wr_position = 0, overflow = False\<rparr>;
               w = write_bits (of_nat mapIdx) 3 w;
               w = (if frameIdNumbersPresent sq then write_bits displayFrameId (frameIdLength sq) w else w)
           in case trailing_bits w of
                None \<Rightarrow> None
              | Some w \<Rightarrow>
                  if overflow w \<or> written_bytes w > 127 \<or> capacity < 4 + written_bytes w then Some []
                  else Some ([of_nat obu_temporal_delimiter * 8 OR 0x02, 0, of_nat obu_frame_header * 8 OR 0x02,
                         of_nat (written_bytes w)] @ take (written_bytes w) (wr_data w)))"

section \<open>Bits written are the bits read\<close>

definition bit_of :: "u8 list \<Rightarrow> nat \<Rightarrow> bool" where
  "bit_of bytes p = bit (bytes ! (p div 8)) (7 - p mod 8)"

lemma bit_at_of: "bit_at bytes p = (if bit_of bytes p then 1 else 0)"
proof (rule bit_word_eqI)
  fix n assume "n < LENGTH(32)"
  then show "bit (bit_at bytes p) n = bit (if bit_of bytes p then 1 else 0 :: u32) n"
    by (cases "n = 0") (auto simp: bit_at_def bit_of_def bit_simps bit_1_iff)
qed

lemma shift_in_bit:
  fixes w :: u32
  assumes "n < 32"
  shows "push_bit 1 (drop_bit (Suc n) w) OR (if bit w n then 1 else 0) = drop_bit n w"
proof (rule bit_word_eqI)
  fix i assume "i < LENGTH(32)"
  then show "bit (push_bit 1 (drop_bit (Suc n) w) OR (if bit w n then 1 else 0)) i = bit (drop_bit n w) i"
    by (cases i) (auto simp only: bit_or_iff bit_push_bit_iff bit_drop_bit_eq o_def bit_1_iff bit_0_eq split: if_splits,
        auto simp: bit_simps bit_1_iff)
qed

lemma read_loop_bits:
  assumes "n \<le> 32" and "rd_position b + n \<le> length (rd_data b) * 8"
    and "\<And>k. k < n \<Longrightarrow> bit_of (rd_data b) (rd_position b + k) = bit w (n - Suc k)"
  shows "read_loop n (drop_bit n w) b = (w, b\<lparr>rd_position := rd_position b + n\<rparr>)"
  using assms
proof (induction n arbitrary: b)
  case (Suc n)
  have "bit_of (rd_data b) (rd_position b) = bit w n" using Suc.prems(3) [of 0] by simp
  then have step: "push_bit 1 (drop_bit (Suc n) w) OR bit_at (rd_data b) (rd_position b) = drop_bit n w"
    unfolding bit_at_of using shift_in_bit [of n w] Suc.prems(1) by simp
  have "read_loop n (drop_bit n w) (b\<lparr>rd_position := rd_position b + 1\<rparr>) =
      (w, b\<lparr>rd_position := rd_position b + 1 + n\<rparr>)"
    using Suc.prems Suc.prems(3) [of "Suc _"] Suc.IH [of "b\<lparr>rd_position := rd_position b + 1\<rparr>"] by simp
  then show ?case using Suc.prems(2) by (simp only: read_loop.simps step) simp
qed simp

lemma read_bits_value:
  assumes "n \<le> 32" and "rd_position b + n \<le> length (rd_data b) * 8"
    and "\<And>k. k < n \<Longrightarrow> bit_of (rd_data b) (rd_position b + k) = bit v (n - Suc k)"
  shows "run_state (read_bits n) b = (take_bit n v, b\<lparr>rd_position := rd_position b + n\<rparr>)"
proof -
  have "drop_bit n (take_bit n v) = 0" by (rule bit_word_eqI) (simp add: bit_simps)
  then show ?thesis
    using read_loop_bits [of n b "take_bit n v"] assms by (simp add: read_bits_def bit_simps)
qed

lemma bit_0x80: "bit (0x80 :: u8) k \<longleftrightarrow> k = 7"
proof (cases "k < 8")
  case True
  then have "k = 0 \<or> k = 1 \<or> k = 2 \<or> k = 3 \<or> k = 4 \<or> k = 5 \<or> k = 6 \<or> k = 7" by linarith
  then show ?thesis by (elim disjE) (simp_all add: bit_iff_odd_drop_bit drop_bit_eq_div)
next
  case False
  then show ?thesis using bit_imp_le_length [of "0x80 :: u8" k] by auto
qed

lemma bit_top: "bit (drop_bit j (0x80 :: u8)) i \<longleftrightarrow> i + j = 7"
  unfolding bit_drop_bit_eq o_def bit_0x80 by linarith

lemma put_bit_shape [simp]:
  "wr_position (put_bit x w) = wr_position w + 1" "overflow (put_bit x w) = overflow w"
  "length (wr_data (put_bit x w)) = length (wr_data w)"
  by (simp_all add: put_bit_def Let_def)

text \<open>The rest of the current byte is clear.\<close>

definition writer_ok :: "bit_writer \<Rightarrow> bool" where
  "writer_ok w \<longleftrightarrow> wr_position w \<le> length (wr_data w) * 8 \<and>
     (\<forall>q. wr_position w mod 8 \<le> q \<and> q < 8 \<and> wr_position w mod 8 \<noteq> 0 \<longrightarrow>
        \<not> bit (wr_data w ! (wr_position w div 8)) (7 - q))"

lemma put_bit_byte:
  assumes "wr_position w div 8 < length (wr_data w)" and "q < 8"
  shows "bit (wr_data (put_bit x w) ! (wr_position w div 8)) (7 - q) \<longleftrightarrow>
    (x \<and> q = wr_position w mod 8) \<or>
    (wr_position w mod 8 \<noteq> 0 \<and> bit (wr_data w ! (wr_position w div 8)) (7 - q))"
proof -
  have "wr_position w mod 8 < 8" by simp
  then have "7 - q + wr_position w mod 8 = 7 \<longleftrightarrow> q = wr_position w mod 8" using assms(2) by linarith
  then show ?thesis using assms(1) by (auto simp: put_bit_def Let_def bit_or_iff bit_top)
qed

lemma put_bit_other: "i \<noteq> wr_position w div 8 \<Longrightarrow> wr_data (put_bit x w) ! i = wr_data w ! i"
  by (simp add: put_bit_def Let_def)

lemma put_bit_ok:
  assumes "wr_position w div 8 < length (wr_data w)" and "writer_ok w"
  shows "bit_of (wr_data (put_bit x w)) (wr_position w) = x"
    and "p < wr_position w \<Longrightarrow> bit_of (wr_data (put_bit x w)) p = bit_of (wr_data w) p"
    and "writer_ok (put_bit x w)"
proof -
  have mod: "wr_position w mod 8 < 8" by simp
  have clear: "wr_position w mod 8 \<le> q \<Longrightarrow> q < 8 \<Longrightarrow> wr_position w mod 8 \<noteq> 0 \<Longrightarrow>
      \<not> bit (wr_data w ! (wr_position w div 8)) (7 - q)" for q
    using assms(2) by (simp add: writer_ok_def)
  show "bit_of (wr_data (put_bit x w)) (wr_position w) = x"
    unfolding bit_of_def put_bit_byte [OF assms(1) mod] using clear [OF order.refl mod] by blast
  show "bit_of (wr_data (put_bit x w)) p = bit_of (wr_data w) p" if p: "p < wr_position w"
  proof (cases "p div 8 = wr_position w div 8")
    case True
    have pm: "p mod 8 < 8" by simp
    have "p mod 8 < wr_position w mod 8" using True p using div_mult_mod_eq [of p 8] div_mult_mod_eq [of "wr_position w" 8] by linarith
    then show ?thesis unfolding bit_of_def True put_bit_byte [OF assms(1) pm] by simp
  next
    case False
    then show ?thesis by (simp add: bit_of_def put_bit_other)
  qed
  show "writer_ok (put_bit x w)"
    unfolding writer_ok_def put_bit_shape
  proof (intro conjI allI impI)
    show "wr_position w + 1 \<le> length (wr_data w) * 8" using assms(1) by linarith
    fix q assume q: "(wr_position w + 1) mod 8 \<le> q \<and> q < 8 \<and> (wr_position w + 1) mod 8 \<noteq> 0"
    then have same: "(wr_position w + 1) div 8 = wr_position w div 8" "(wr_position w + 1) mod 8 = wr_position w mod 8 + 1"
      by (auto simp: mod_Suc div_Suc split: if_splits)
    have "q < 8" "q \<noteq> wr_position w mod 8" "wr_position w mod 8 \<le> q" using q same(2) by linarith+
    then show "\<not> bit (wr_data (put_bit x w) ! ((wr_position w + 1) div 8)) (7 - q)"
      unfolding same(1) put_bit_byte [OF assms(1) \<open>q < 8\<close>] using clear [of q] by blast
  qed
qed

lemma write_bits_ok:
  assumes "wr_position w + n \<le> length (wr_data w) * 8" and "writer_ok w"
  shows "wr_position (write_bits v n w) = wr_position w + n \<and> length (wr_data (write_bits v n w)) = length (wr_data w) \<and>
    overflow (write_bits v n w) = overflow w \<and> writer_ok (write_bits v n w) \<and>
    (\<forall>p<wr_position w. bit_of (wr_data (write_bits v n w)) p = bit_of (wr_data w) p) \<and>
    (\<forall>k<n. bit_of (wr_data (write_bits v n w)) (wr_position w + k) = bit v (n - Suc k))"
  using assms
proof (induction n arbitrary: w)
  case (Suc n)
  have room: "wr_position w div 8 < length (wr_data w)" using Suc.prems(1) by linarith
  let ?w = "put_bit (drop_bit n v AND 1 \<noteq> 0) w"
  have here: "(drop_bit n v AND 1 \<noteq> 0) = bit v n" by (simp add: bit_iff_odd_drop_bit and_one_eq odd_iff_mod_2_eq_one)
  have eq: "write_bits v (Suc n) w = write_bits v n ?w" using room by simp
  note put = put_bit_ok [OF room Suc.prems(2), where x = "drop_bit n v AND 1 \<noteq> 0"]
  have pos: "wr_position ?w + n \<le> length (wr_data ?w) * 8" using Suc.prems(1) by simp
  note IH = Suc.IH [OF pos put(3), unfolded put_bit_shape]
  have first: "bit_of (wr_data (write_bits v n ?w)) (wr_position w) = bit v n"
    using IH put(1) here by simp
  have rest: "bit_of (wr_data (write_bits v n ?w)) (wr_position w + k) = bit v (Suc n - Suc k)" if "k < Suc n" for k
    using first IH that by (cases k) auto
  have old: "bit_of (wr_data (write_bits v n ?w)) p = bit_of (wr_data w) p" if "p < wr_position w" for p
    using IH put(2) that by simp
  show ?case unfolding eq using IH rest old by simp
qed simp

lemma write_bits_Suc:
  "wr_position w div 8 < length (wr_data w) \<Longrightarrow>
     write_bits v (Suc n) w = write_bits v n (put_bit (drop_bit n v AND 1 \<noteq> 0) w)"
  by simp

declare write_bits.simps(2) [simp del]

lemma pad_gap: "\<exists>n<8. ((m :: nat) + n) mod 8 = 0"
  by presburger

lemma pad_to_byte_returns:
  "writer_ok w \<Longrightarrow> n < 8 \<Longrightarrow> (wr_position w + n) mod 8 = 0 \<Longrightarrow> pad_to_byte w = Some (write_bits 0 n w)"
proof (induction n arbitrary: w)
  case 0
  then show ?case by (simp add: pad_to_byte.simps)
next
  case (Suc n)
  have part: "wr_position w mod 8 \<noteq> 0" using Suc.prems(2,3) by presburger
  have "wr_position w \<le> length (wr_data w) * 8" using Suc.prems(1) by (simp add: writer_ok_def)
  then have room: "wr_position w div 8 < length (wr_data w)" using part by presburger
  have one: "write_bits 0 (Suc m) w = write_bits 0 m (put_bit False w)" for m
    using write_bits_Suc [OF room, of 0 m] by simp
  have "pad_to_byte w = pad_to_byte (put_bit False w)"
    using part one [of 0] pad_to_byte.simps [of w] by simp
  also have "\<dots> = Some (write_bits 0 n (put_bit False w))"
    using Suc.prems put_bit_ok(3) [OF room Suc.prems(1)] by (intro Suc.IH) simp_all
  finally show ?case unfolding one .
qed

lemma trailing_bits_returns:
  assumes "writer_ok w"
  shows "\<exists>n<8. trailing_bits w = Some (write_bits 0 n (write_bits 1 1 w)) \<and>
    (wr_position (write_bits 1 1 w) + n) mod 8 = 0"
proof -
  have ok: "writer_ok (write_bits 1 1 w)"
  proof (cases "wr_position w div 8 < length (wr_data w)")
    case True
    then show ?thesis using put_bit_ok(3) [OF True assms] write_bits_Suc [OF True, of 1 0] by simp
  next
    case False
    then have "write_bits 1 1 w = w\<lparr>overflow := True\<rparr>" using write_bits.simps(2) [of 1 0 w] by simp
    then show ?thesis using assms by (simp add: writer_ok_def)
  qed
  obtain n where n: "n < 8" "(wr_position (write_bits 1 1 w) + n) mod 8 = 0"
    using pad_gap [of "wr_position (write_bits 1 1 w)"] by (elim exE conjE) (rule that)
  then show ?thesis using pad_to_byte_returns [OF ok n]
    by (intro exI [of _ n]) (simp add: trailing_bits_def)
qed

text \<open>What the sequence fields the writer and the frame-header parser rely on always satisfy.\<close>

definition sequence_ok :: "sequence_header \<Rightarrow> bool" where
  "sequence_ok sq \<longleftrightarrow>
     length (operatingPointIdc sq) = max_operating_points \<and>
     length (decoderModelPresentForOp sq) = max_operating_points \<and>
     operatingPointCount sq \<le> max_operating_points \<and>
     bufferRemovalTimeLength sq \<le> 32 \<and> framePresentationTimeLength sq \<le> 32 \<and>
     frameIdLength sq \<le> 25 \<and> forceScreenContentTools sq \<le> 2 \<and> forceIntegerMv sq \<le> 2 \<and>
     orderHintBits sq \<le> 8 \<and> profile sq < 8"

section \<open>A written unit parses back\<close>

abbreviation fresh_writer :: bit_writer where
  "fresh_writer \<equiv> \<lparr>wr_data = replicate 8 0, wr_position = 0, overflow = False\<rparr>"

text \<open>The header bits: the flag, the slot, the frame id, then the trailing one and zeros.\<close>

lemma show_existing_bits:
  assumes "L \<le> 25" and w: "w = (if ids then write_bits ident L (write_bits slot 3 (write_bits 1 1 fresh_writer))
      else write_bits slot 3 (write_bits 1 1 fresh_writer))"
    and "trailing_bits w = Some t"
  defines "len \<equiv> (if ids then L else 0)"
  shows "\<not> overflow t \<and> wr_position t mod 8 = 0 \<and> len + 5 \<le> wr_position t \<and> wr_position t \<le> len + 12 \<and>
    length (wr_data t) = 8 \<and> bit_of (wr_data t) 0 \<and>
    (\<forall>k<3. bit_of (wr_data t) (1 + k) = bit slot (3 - Suc k)) \<and>
    (ids \<longrightarrow> (\<forall>k<L. bit_of (wr_data t) (4 + k) = bit ident (L - Suc k)))"
proof -
  let ?a = "write_bits 1 1 fresh_writer" and ?b = "write_bits slot 3 (write_bits 1 1 fresh_writer)"
  have ok0: "writer_ok fresh_writer" by (simp add: writer_ok_def)
  note a = write_bits_ok [of fresh_writer 1, OF _ ok0, of 1, simplified]
  have ba: "wr_position ?a + 3 \<le> length (wr_data ?a) * 8" "writer_ok ?a" using a by simp_all
  note b = write_bits_ok [OF ba, of slot]
  have w: "wr_position w = len + 4 \<and> length (wr_data w) = 8 \<and> overflow w = False \<and> writer_ok w \<and>
      bit_of (wr_data w) 0 \<and> (\<forall>k<3. bit_of (wr_data w) (1 + k) = bit slot (3 - Suc k)) \<and>
      (ids \<longrightarrow> (\<forall>k<L. bit_of (wr_data w) (4 + k) = bit ident (L - Suc k)))"
  proof (cases ids)
    case True
    have "wr_position ?b + L \<le> length (wr_data ?b) * 8" using a b assms(1) by simp
    note c = write_bits_ok [OF this, of ident]
    show ?thesis using a b c True w by (simp add: len_def)
  next
    case False
    then show ?thesis using a b w by (simp add: len_def)
  qed
  obtain n where n: "n < 8" "t = write_bits 0 n (write_bits 1 1 w)"
      "(wr_position (write_bits 1 1 w) + n) mod 8 = 0"
    using trailing_bits_returns [of w] w assms(3) by auto
  have "wr_position w + 1 \<le> length (wr_data w) * 8" using w assms(1) by (simp add: len_def split: if_splits)
  note d = write_bits_ok [OF this, of 1]
  have "wr_position (write_bits 1 1 w) + n \<le> length (wr_data (write_bits 1 1 w)) * 8"
    using w d n(1) assms(1) by (simp add: len_def split: if_splits)
  note e = write_bits_ok [OF this, of 0]
  have kept: "bit_of (wr_data t) p = bit_of (wr_data w) p" if "p < len + 4" for p
    using that w d e n(2) by simp
  have "\<forall>k<3. bit_of (wr_data t) (1 + k) = bit slot (3 - Suc k)" using kept w by simp
  moreover have "ids \<longrightarrow> (\<forall>k<L. bit_of (wr_data t) (4 + k) = bit ident (L - Suc k))"
    using kept w by (simp add: len_def)
  moreover have "bit_of (wr_data t) 0" using kept w by simp
  ultimately show ?thesis using w d e n by simp
qed

lemma run_flag:
  assumes "rd_position b + 1 \<le> length (rd_data b) * 8"
  shows "run_state flag b = (bit_of (rd_data b) (rd_position b), b\<lparr>rd_position := rd_position b + 1\<rparr>)"
proof -
  have "run_state (read_bits 1) b = (take_bit 1 (if bit_of (rd_data b) (rd_position b) then 1 else 0),
      b\<lparr>rd_position := rd_position b + 1\<rparr>)"
    using assms by (intro read_bits_value) simp_all
  then show ?thesis by (simp add: flag_def)
qed

lemma run_read_nat:
  fixes v :: u32
  assumes "n \<le> 32" and "rd_position b + n \<le> length (rd_data b) * 8"
    and "\<And>k. k < n \<Longrightarrow> bit_of (rd_data b) (rd_position b + k) = bit v (n - Suc k)"
  shows "run_state (read_nat n) b = (unat (take_bit n v), b\<lparr>rd_position := rd_position b + n\<rparr>)"
  using read_bits_value [OF assms] by (simp add: read_nat_def)

lemma show_existing_header_parses:
  fixes slot ident :: u32
  assumes "\<not> reducedStillPicture sq" "\<not> presentation_time_present sq" "frameIdLength sq \<le> 25"
    and len: "frameIdNumbersPresent sq \<Longrightarrow> frameIdLength sq + 4 \<le> length P * 8" "4 \<le> length P * 8"
    and bits: "bit_of P 0" "\<And>k. k < 3 \<Longrightarrow> bit_of P (1 + k) = bit slot (3 - Suc k)"
      "\<And>k. frameIdNumbersPresent sq \<Longrightarrow> k < frameIdLength sq \<Longrightarrow>
         bit_of P (4 + k) = bit ident (frameIdLength sq - Suc k)"
  shows "parse_frame_header_prefix (bit_reader P) sq t s old =
    (parse_ok, empty_frame\<lparr>showExistingFrame := True, frameToShowMapIdx := unat (take_bit 3 slot),
       currentFrameId := (if frameIdNumbersPresent sq then take_bit (frameIdLength sq) ident else 0),
       showFrame := True\<rparr>)"
proof -
  let ?b = "\<lambda>p. \<lparr>rd_data = P, rd_position = p, overrun = False\<rparr>"
  have "run_state flag (?b 0) = (True, ?b 1)" using run_flag [of "?b 0"] len bits(1) by simp
  moreover have "run_state (read_nat 3) (?b 1) = (unat (take_bit 3 slot), ?b 4)"
    using run_read_nat [of 3 "?b 1" slot] len bits(2) by simp
  moreover have "run_state (read_bits (frameIdLength sq)) (?b 4) =
      (take_bit (frameIdLength sq) ident, ?b (frameIdLength sq + 4))" if "frameIdNumbersPresent sq"
    using read_bits_value [of "frameIdLength sq" "?b 4" ident] len bits(3) assms(3) that
    by (simp add: add.commute)
  ultimately show ?thesis
    using assms(1,2) by (simp add: parse_frame_header_prefix_def bit_reader_def read_show_existing_def)
qed

lemma framing_sized:
  assumes "drop off bytes = [h, of_nat n] @ rest" and "n < 128" and "h AND 0x80 = 0" "h AND 0x04 = 0" "h AND 0x02 \<noteq> 0"
    and "n \<le> length rest" and "off < length bytes"
  shows "obu_framing bytes off = Inr \<lparr>obu_type = unat (drop_bit 3 h AND 0x0f), temporal_id = 0, spatial_id = 0,
    has_extension = False, payload = take n rest, obu_end = off + 2 + n\<rparr>"
proof -
  have at: "bytes ! off = h" "bytes ! (off + 1) = of_nat n"
    using assms(1,7) nth_drop [of off bytes 0] nth_drop [of off bytes 1] by simp_all
  have len: "length bytes = off + 2 + length rest"
    using arg_cong [OF assms(1), of length] assms(7) by simp
  have low: "bit (of_nat n :: u8) i \<Longrightarrow> i < 7" for i
  proof (rule ccontr)
    assume high: "bit (of_nat n :: u8) i" "\<not> i < 7"
    have "bit n i" using high(1) by (simp only: bit_of_nat_iff)
    then have "odd (n div 2 ^ i)" by (simp add: bit_iff_odd)
    moreover have "(2 :: nat) ^ 7 \<le> 2 ^ i" using high(2) by (intro power_increasing) simp_all
    then have "n div 2 ^ i = 0" using assms(2) by simp
    ultimately show False by simp
  qed
  have small: "(of_nat n :: u8) AND 0x80 = 0"
  proof (rule bit_word_eqI)
    fix i assume "i < LENGTH(8)"
    show "bit ((of_nat n :: u8) AND 0x80) i = bit (0 :: u8) i"
      unfolding bit_and_iff bit_0_eq bot_apply bot_bool_def using low [of i] bit_0x80 [of i] by (metis less_irrefl)
  qed
  have mask: "ucast ((of_nat n :: u8) AND 0x7f) = (of_nat n :: u64)"
  proof -
    have "(of_nat n :: u8) AND 0x7f = (of_nat n :: u8) AND mask 7" by (simp add: mask_eq_exp_minus_1)
    also have "\<dots> = of_nat n" by (rule bit_word_eqI) (use low in \<open>auto simp: bit_simps\<close>)
    finally have "ucast ((of_nat n :: u8) AND 0x7f) = (ucast (of_nat n :: u8) :: u64)" by simp
    then show ?thesis using assms(2)
      by (simp only: word_unat_eq_iff unsigned_ucast_eq unat_of_nat) (simp add: take_bit_eq_mod)
  qed
  have leb: "read_leb128 bytes (off + 1) = (True, off + 2, of_nat n)"
    unfolding read_leb128_def using at(2) len small mask by (subst leb_loop.simps) (simp add: Let_def)
  have size: "unat (of_nat n :: u64) = n" using assms(2) by (simp add: unat_of_nat)
  have tail: "drop (off + 2) bytes = rest"
    using arg_cong [OF assms(1), of "drop 2"] by (simp add: add.commute)
  show ?thesis
    using at(1) assms(3-6) leb size tail len by (simp add: obu_framing_def Let_def)
qed

lemma show_existing_parses_back:
  assumes "status (can_write_show_existing sq) = Ok" and "sequence_ok sq"
    and "mapIdx < num_ref_frames" and "8 \<le> capacity"
  shows "\<exists>bytes. write_show_existing_temporal_unit sq mapIdx ident capacity = Some bytes \<and>
    bytes \<noteq> [] \<and> length bytes \<le> 8 \<and>
    parse_temporal_unit bytes sq =
      (parse_ok, sq, Some (empty_unit\<lparr>frameHeaders := 1, first_frame :=
         empty_frame\<lparr>showExistingFrame := True, frameToShowMapIdx := mapIdx,
           currentFrameId := (if frameIdNumbersPresent sq then take_bit (frameIdLength sq) ident else 0), showFrame := True\<rparr>\<rparr>))"
proof -
  define L where "L = frameIdLength sq"
  have sq: "seq_valid sq" "\<not> reducedStillPicture sq" "\<not> presentation_time_present sq" "L \<le> 25"
    using assms(1,2) by (auto simp: can_write_show_existing_def fail_def presentation_time_present_def
        sequence_ok_def L_def split: if_splits)
  define w where "w = (if frameIdNumbersPresent sq
      then write_bits ident L (write_bits (of_nat mapIdx) 3 (write_bits 1 1 fresh_writer))
      else write_bits (of_nat mapIdx) 3 (write_bits 1 1 fresh_writer))"
  have ok0: "writer_ok fresh_writer" by (simp add: writer_ok_def)
  have "writer_ok w"
    using write_bits_ok [of fresh_writer 1 1] write_bits_ok [of "write_bits 1 1 fresh_writer" 3 "of_nat mapIdx"]
      write_bits_ok [of "write_bits (of_nat mapIdx) 3 (write_bits 1 1 fresh_writer)" L ident] ok0 sq(4)
    by (simp add: w_def)
  then obtain t where t: "trailing_bits w = Some t" using trailing_bits_returns by blast
  note bits = show_existing_bits [OF sq(4) w_def t]
  define P where "P = take (written_bytes t) (wr_data t)"
  define n where "n = written_bytes t"
  have n: "n = wr_position t div 8" "n * 8 = wr_position t" "n \<le> 4" "length P = n" "1 \<le> n"
    using bits sq(4) by (auto simp: n_def P_def written_bytes_def split: if_splits)
  have P: "bit_of P p = bit_of (wr_data t) p" if "p < wr_position t" for p
    using that n by (simp add: bit_of_def P_def n_def [symmetric])
  define bytes where "bytes = [0x12, 0, 0x1a, of_nat n] @ P"
  have run: "write_show_existing_temporal_unit sq mapIdx ident capacity = Some bytes"
  proof -
    have "\<not> overflow t" "n \<le> 127" "4 + n \<le> capacity" using bits n assms(4) by auto
    moreover have "(of_nat obu_temporal_delimiter * 8 OR 0x02 :: u8) = 0x12" "(of_nat obu_frame_header * 8 OR 0x02 :: u8) = 0x1a"
      by (simp_all add: obu_temporal_delimiter_def obu_frame_header_def)
    moreover have "\<not> (status (can_write_show_existing sq) \<noteq> Ok \<or> mapIdx \<ge> num_ref_frames \<or> capacity < 4)"
      using assms(1,3,4) by simp
    ultimately show ?thesis
      unfolding write_show_existing_temporal_unit_def Let_def L_def [symmetric] w_def [symmetric] t option.case
        n_def [symmetric] bytes_def P_def
      by (simp only: if_False simp_thms not_le not_less) simp
  qed
  have slot: "unat (take_bit 3 (of_nat mapIdx :: u32)) = mapIdx"
    using assms(3) unfolding num_ref_frames_def unsigned_take_bit_eq by (simp add: unat_of_nat take_bit_eq_mod)
  have header: "parse_frame_header_prefix (bit_reader P) sq t' s' old = (parse_ok, empty_frame\<lparr>showExistingFrame := True,
      frameToShowMapIdx := mapIdx, currentFrameId := (if frameIdNumbersPresent sq then take_bit (frameIdLength sq) ident else 0), showFrame := True\<rparr>)"
    for t' s' old
  proof -
    have "parse_frame_header_prefix (bit_reader P) sq t' s' old = (parse_ok, empty_frame\<lparr>showExistingFrame := True,
        frameToShowMapIdx := unat (take_bit 3 (of_nat mapIdx :: u32)),
        currentFrameId := (if frameIdNumbersPresent sq then take_bit (frameIdLength sq) ident else 0), showFrame := True\<rparr>)"
      using bits n P sq by (intro show_existing_header_parses) (auto simp: L_def)
    then show ?thesis using slot by simp
  qed
  have f1: "obu_framing bytes 0 = Inr \<lparr>obu_type = 2, temporal_id = 0, spatial_id = 0, has_extension = False,
      payload = [], obu_end = 2\<rparr>"
    using framing_sized [where off = 0 and bytes = bytes and h = "0x12" and n = 0 and rest = "[0x1a, of_nat n] @ P"] by (simp add: bytes_def)
  have f2: "obu_framing bytes 2 = Inr \<lparr>obu_type = 3, temporal_id = 0, spatial_id = 0, has_extension = False,
      payload = P, obu_end = 4 + n\<rparr>"
    using framing_sized [where off = 2 and bytes = bytes and h = "0x1a" and n = n and rest = P] n by (simp add: bytes_def)
  have parse: "parse_temporal_unit bytes sq = (parse_ok, sq, Some (empty_unit\<lparr>frameHeaders := 1, first_frame :=
       empty_frame\<lparr>showExistingFrame := True, frameToShowMapIdx := mapIdx,
         currentFrameId := (if frameIdNumbersPresent sq then take_bit (frameIdLength sq) ident else 0), showFrame := True\<rparr>\<rparr>))"
  proof -
    have len: "length bytes = 4 + n" using n by (simp add: bytes_def)
    have a1: "apply_obu \<lparr>obu_type = 2, temporal_id = 0, spatial_id = 0, has_extension = False, payload = [], obu_end = 2\<rparr>
        sq empty_unit = Inr (sq, empty_unit)"
      by (simp add: apply_obu_def obu_sequence_header_def obu_frame_header_def obu_frame_def)
    have a2: "apply_obu \<lparr>obu_type = 3, temporal_id = 0, spatial_id = 0, has_extension = False, payload = P, obu_end = 4 + n\<rparr>
        sq empty_unit = Inr (sq, empty_unit\<lparr>frameHeaders := 1, first_frame :=
         empty_frame\<lparr>showExistingFrame := True, frameToShowMapIdx := mapIdx,
           currentFrameId := (if frameIdNumbersPresent sq then take_bit (frameIdLength sq) ident else 0), showFrame := True\<rparr>\<rparr>)"
      using sq(1) by (simp add: apply_obu_def obu_sequence_header_def obu_frame_header_def obu_frame_def Let_def
          header empty_unit_def parse_ok_def)
    have "obu_loop bytes 0 sq empty_unit = obu_loop bytes 2 sq empty_unit"
      by (subst obu_loop.simps) (simp add: len f1 a1)
    also have "\<dots> = obu_loop bytes (4 + n) sq (empty_unit\<lparr>frameHeaders := 1, first_frame :=
         empty_frame\<lparr>showExistingFrame := True, frameToShowMapIdx := mapIdx,
           currentFrameId := (if frameIdNumbersPresent sq then take_bit (frameIdLength sq) ident else 0), showFrame := True\<rparr>\<rparr>)"
      by (subst obu_loop.simps) (simp only: len f2 a2 sum.case prod.case obu.simps, simp)
    also have "\<dots> = (parse_ok, sq, Some (empty_unit\<lparr>frameHeaders := 1, first_frame :=
         empty_frame\<lparr>showExistingFrame := True, frameToShowMapIdx := mapIdx,
           currentFrameId := (if frameIdNumbersPresent sq then take_bit (frameIdLength sq) ident else 0), showFrame := True\<rparr>\<rparr>))"
      by (subst obu_loop.simps) (simp add: len)
    finally show ?thesis unfolding parse_temporal_unit_def .
  qed
  show ?thesis using run parse n by (intro exI [of _ bytes]) (simp add: bytes_def)
qed

text \<open>C9: the unit written for a repeat slot parses back. For every well-formed sequence a
  show-existing unit can be written for, every reference slot and every frame id the sequence can
  carry, the writer returns (its padding loop ends), its at most 8 bytes fit the capacity, and
  \<^verbatim>\<open>ParseTemporalUnit\<close> reads them as exactly one frame header that shows that slot and that id,
  leaving the sequence as it was.\<close>

theorem show_existing_roundtrip:
  assumes "status (can_write_show_existing sq) = Ok" and "sequence_ok sq"
    and "mapIdx < num_ref_frames" and "8 \<le> capacity"
    and "frameIdNumbersPresent sq \<Longrightarrow> unat ident < 2 ^ frameIdLength sq"
  shows "\<exists>bytes. write_show_existing_temporal_unit sq mapIdx ident capacity = Some bytes \<and>
    bytes \<noteq> [] \<and> length bytes \<le> 8 \<and>
    parse_temporal_unit bytes sq =
      (parse_ok, sq, Some (empty_unit\<lparr>frameHeaders := 1, first_frame :=
         empty_frame\<lparr>showExistingFrame := True, frameToShowMapIdx := mapIdx,
           currentFrameId := (if frameIdNumbersPresent sq then ident else 0), showFrame := True\<rparr>\<rparr>))"
proof -
  have "take_bit (frameIdLength sq) ident = ident" if "frameIdNumbersPresent sq"
    using assms(5) [OF that] unfolding word_unat_eq_iff unsigned_take_bit_eq by (simp add: take_bit_eq_mod)
  then show ?thesis using show_existing_parses_back [OF assms(1-4), of ident] by (auto split: if_splits)
qed

definition sample_sequence :: sequence_header where
  "sample_sequence = empty_sequence\<lparr>seq_valid := True, frameIdNumbersPresent := True, frameIdLength := 15\<rparr>"

theorem show_existing_roundtrip_witness:
  "\<exists>bytes. write_show_existing_temporal_unit sample_sequence 5 777 16 = Some bytes \<and>
    snd (snd (parse_temporal_unit bytes sample_sequence)) = Some (empty_unit\<lparr>frameHeaders := 1, first_frame :=
      empty_frame\<lparr>showExistingFrame := True, frameToShowMapIdx := 5, currentFrameId := 777, showFrame := True\<rparr>\<rparr>)"
proof -
  have "sequence_ok sample_sequence" "status (can_write_show_existing sample_sequence) = Ok"
    by (simp_all add: sequence_ok_def sample_sequence_def empty_sequence_def can_write_show_existing_def
        parse_ok_def max_operating_points_def)
  then show ?thesis
    using show_existing_roundtrip [of sample_sequence 5 16 777]
    by (auto simp: num_ref_frames_def sample_sequence_def)
qed

section \<open>The writer returns\<close>

lemma write_bits_keeps_ok:
  "writer_ok w \<Longrightarrow> length (wr_data w) = n \<Longrightarrow>
     writer_ok (write_bits v k w) \<and> length (wr_data (write_bits v k w)) = n"
proof (induction k arbitrary: w)
  case (Suc k)
  show ?case
  proof (cases "wr_position w div 8 < length (wr_data w)")
    case True
    show ?thesis
      unfolding write_bits_Suc [OF True] using Suc.prems put_bit_ok(3) [OF True] by (intro Suc.IH) simp_all
  next
    case False
    then show ?thesis using Suc.prems by (simp add: write_bits.simps(2) writer_ok_def)
  qed
qed simp

text \<open>C11: the writer always returns. Its padding loop runs until the bit position is a byte boundary
  and has no counter; for every sequence, slot, frame id and capacity, also where the bits do not fit
  the 8-byte payload and the position no longer moves, the loop ends.\<close>

theorem show_existing_writer_returns:
  "\<exists>bytes. write_show_existing_temporal_unit sq mapIdx ident capacity = Some bytes"
proof -
  let ?w = "if frameIdNumbersPresent sq
      then write_bits ident (frameIdLength sq) (write_bits (of_nat mapIdx) 3 (write_bits 1 1 fresh_writer))
      else write_bits (of_nat mapIdx) 3 (write_bits 1 1 fresh_writer)"
  have fresh: "writer_ok fresh_writer" "length (wr_data fresh_writer) = 8" by (simp_all add: writer_ok_def)
  note first = write_bits_keeps_ok [OF fresh, of 1 1]
  note second = write_bits_keeps_ok [OF first [THEN conjunct1] first [THEN conjunct2], of "of_nat mapIdx" 3]
  note third = write_bits_keeps_ok [OF second [THEN conjunct1] second [THEN conjunct2], of ident "frameIdLength sq"]
  have "writer_ok ?w" using second third by simp
  then obtain t where t: "trailing_bits ?w = Some t" using trailing_bits_returns by blast
  show ?thesis
    unfolding write_show_existing_temporal_unit_def Let_def t option.case
    by (cases "status (can_write_show_existing sq) \<noteq> Ok \<or> mapIdx \<ge> num_ref_frames \<or> capacity < 4") auto
qed

text \<open>What the writer returns to its callers; it always does.\<close>

definition show_existing_unit :: "sequence_header \<Rightarrow> nat \<Rightarrow> u32 \<Rightarrow> nat \<Rightarrow> u8 list" where
  "show_existing_unit sq mapIdx ident capacity =
     (case write_show_existing_temporal_unit sq mapIdx ident capacity of Some bytes \<Rightarrow> bytes | None \<Rightarrow> [])"

section \<open>Parsed fields are in range\<close>

lemma pred_state_bind:
  assumes "pred_state Q m" and "\<And>x. Q x \<Longrightarrow> pred_state P (f x)"
  shows "pred_state P (State_Monad.bind m f)"
  using assms by (intro pred_stateI) (auto simp: State_Monad.bind_def split: prod.splits dest!: pred_stateD)

lemma pred_state_return: "P x \<Longrightarrow> pred_state P (State_Monad.return x)"
  by (intro pred_stateI) simp

lemma pred_state_any: "pred_state (\<lambda>_. True) m"
  by (intro pred_stateI) simp

lemma read_loop_high_bits:
  "(\<And>i. bit v i \<Longrightarrow> i < k) \<Longrightarrow> bit (fst (read_loop n v b)) i \<Longrightarrow> i < k + n"
proof (induction n arbitrary: v b k)
  case (Suc n)
  have step: "bit (push_bit 1 v OR bit_at (rd_data b) (rd_position b)) j \<Longrightarrow> j < Suc k" for j
    using Suc.prems(1) [of "j - 1"] unfolding bit_at_of bit_or_iff bit_push_bit_iff
    by (auto simp: bit_1_iff split: if_splits)
  show ?case
    using Suc.prems(2) Suc.IH [of "push_bit 1 v OR bit_at (rd_data b) (rd_position b)" "Suc k"] step
    by (auto split: if_splits)
qed simp

lemma pred_read_nat: "pred_state (\<lambda>v. v < 2 ^ n) (read_nat n)"
proof (intro pred_stateI)
  fix v b b' assume "run_state (read_nat n) b = (v, b')"
  then have v: "v = unat (fst (read_loop n 0 b))"
    by (auto simp: read_nat_def read_bits_def split: prod.splits)
  have "take_bit n (fst (read_loop n 0 b)) = fst (read_loop n 0 b)"
    using read_loop_high_bits [of 0 0 n b] by (intro bit_word_eqI) (auto simp: bit_take_bit_iff)
  then show "v < 2 ^ n"
    unfolding v by (metis unsigned_take_bit_eq take_bit_nat_less_exp)
qed

lemma pred_state_if:
  "(c \<Longrightarrow> pred_state P m) \<Longrightarrow> (\<not> c \<Longrightarrow> pred_state P n) \<Longrightarrow> pred_state P (if c then m else n)"
  by simp

lemmas skip_any = pred_state_bind [OF pred_state_any]
lemmas bind_nat = pred_state_bind [OF pred_read_nat]

lemma pred_state_mono: "pred_state P m \<Longrightarrow> (\<And>x. P x \<Longrightarrow> Q x) \<Longrightarrow> pred_state Q m"
  by (intro pred_stateI) (blast dest: pred_stateD)

text \<open>A field update that keeps the bounds.\<close>

lemma sequence_ok_updates:
  assumes "sequence_ok sq"
  shows "sequence_ok (sq\<lparr>timingInfoPresent := b\<rparr>)"
    "sequence_ok (sq\<lparr>equalPictureInterval := b, decoderModelInfoPresent := c\<rparr>)"
    "m < 32 \<Longrightarrow> n < 32 \<Longrightarrow> sequence_ok (sq\<lparr>bufferRemovalTimeLength := m + 1, framePresentationTimeLength := n + 1\<rparr>)"
    "sequence_ok (sq\<lparr>frameIdNumbersPresent := b\<rparr>)"
    "m < 8 \<Longrightarrow> n < 16 \<Longrightarrow> sequence_ok (sq\<lparr>frameIdLength := m + n + 3\<rparr>)"
    "m < 32 \<Longrightarrow> sequence_ok (sq\<lparr>operatingPointCount := m + 1\<rparr>)"
    "sequence_ok (sq\<lparr>operatingPointIdc := (operatingPointIdc sq)[op := idc]\<rparr>)"
    "sequence_ok (sq\<lparr>decoderModelPresentForOp := (decoderModelPresentForOp sq)[op := b]\<rparr>)"
    "m \<le> 2 \<Longrightarrow> sequence_ok (sq\<lparr>forceScreenContentTools := m\<rparr>)"
    "m \<le> 2 \<Longrightarrow> sequence_ok (sq\<lparr>forceIntegerMv := m\<rparr>)"
    "m \<le> 7 \<Longrightarrow> sequence_ok (sq\<lparr>orderHintBits := m + 1\<rparr>)"
    "sequence_ok (sq\<lparr>seq_valid := b\<rparr>)"
  using assms by (simp_all add: sequence_ok_def max_operating_points_def)

lemma pred_timing_info:
  assumes "sequence_ok sq"
  shows "pred_state (\<lambda>r. sequence_ok (fst r)) (read_timing_info sq)"
proof -
  have nat5: "pred_state (\<lambda>v. v < 32) (read_nat 5)" using pred_read_nat [of 5] by simp
  note ok = sequence_ok_updates [OF assms] sequence_ok_updates [OF sequence_ok_updates(1) [OF assms]]
  show ?thesis
    unfolding read_timing_info_def Let_def
    apply (rule skip_any, rule pred_state_if, rule pred_state_return, simp add: ok)
    apply (rule skip_any, rule skip_any, rule skip_any, rule skip_any, rule skip_any)
    apply (rule pred_state_if, rule pred_state_return, simp add: ok)
    apply (rule skip_any, rule skip_any)
    apply (rule pred_state_bind [OF nat5], rule pred_state_bind [OF nat5], rule pred_state_return)
    apply (unfold fst_conv, rule sequence_ok_updates(3), rule ok, assumption+)
    done
qed

lemma pred_operating_point:
  assumes "sequence_ok sq"
  shows "pred_state sequence_ok (read_operating_point initial delay op sq)"
proof -
  have ok: "sequence_ok (if c then s\<lparr>decoderModelPresentForOp := (decoderModelPresentForOp s)[op := b]\<rparr> else s)"
    if "s = sq\<lparr>operatingPointIdc := (operatingPointIdc sq)[op := idc]\<rparr>" for c b idc s
  proof -
    have "sequence_ok s" unfolding that by (rule sequence_ok_updates(7) [OF assms])
    then show ?thesis using sequence_ok_updates(8) [of s] by simp
  qed
  show ?thesis
    unfolding read_operating_point_def Let_def
    by (rule skip_any, rule skip_any, rule skip_any, rule skip_any, rule skip_any, rule skip_any, rule skip_any,
        rule skip_any, rule skip_any, rule pred_state_return, rule ok, rule refl)
qed

lemma pred_operating_points: "sequence_ok sq \<Longrightarrow> pred_state sequence_ok (read_operating_points initial delay ops sq)"
  by (induction ops arbitrary: sq)
     (auto intro: pred_state_return pred_state_bind [OF pred_operating_point])

lemma pred_levels:
  assumes "sequence_ok sq"
  shows "pred_state sequence_ok (read_levels sq)"
proof -
  have nat5: "pred_state (\<lambda>v. v < 32) (read_nat 5)" using pred_read_nat [of 5] by simp
  have one: "sequence_ok (sq\<lparr>operatingPointCount := 1\<rparr>)"
    using sequence_ok_updates(6) [OF assms, of 0] by simp
  show ?thesis
    unfolding read_levels_def Let_def
    apply (rule pred_state_if, rule skip_any, rule pred_state_return, rule one)
    apply (rule pred_state_bind [OF pred_timing_info [OF assms]], rule skip_any, rule pred_state_bind [OF nat5])
    apply (rule pred_operating_points, erule sequence_ok_updates(6), assumption)
    done
qed

lemma pred_frame_ids:
  assumes "sequence_ok sq"
  shows "pred_state sequence_ok (read_frame_ids sq)"
proof -
  have nat3: "pred_state (\<lambda>v. v < 8) (read_nat 3)" and nat4: "pred_state (\<lambda>v. v < 16) (read_nat 4)"
    using pred_read_nat [of 3] pred_read_nat [of 4] by simp_all
  have ok: "sequence_ok (if c then sq\<lparr>frameIdNumbersPresent := b\<rparr> else sq)" for c b
    using sequence_ok_updates(4) [OF assms] assms by simp
  show ?thesis
    unfolding read_frame_ids_def Let_def
    apply (rule skip_any, rule skip_any, rule skip_any, rule skip_any, rule skip_any, rule pred_state_if)
     apply (rule pred_state_bind [OF nat4], rule pred_state_bind [OF nat3], rule pred_state_return)
     apply (rule sequence_ok_updates(5), rule ok, assumption+)
    apply (rule pred_state_return, rule ok)
    done
qed

lemma pred_tools:
  assumes "sequence_ok sq"
  shows "pred_state sequence_ok (read_tools sq)"
proof -
  have bit: "pred_state (\<lambda>v. v \<le> 2) (if c then read_nat 1 else State_Monad.return d)" if "d \<le> 2" for c d
    using that by (intro pred_state_if pred_state_return) (auto intro: pred_state_mono [OF pred_read_nat])
  have hint: "pred_state (\<lambda>v. v \<le> 7) (if c then read_nat 3 else State_Monad.return 0)" for c
    by (intro pred_state_if pred_state_return) (auto intro: pred_state_mono [OF pred_read_nat])
  have start: "sequence_ok (sq\<lparr>forceScreenContentTools := select_screen_content_tools, forceIntegerMv := select_integer_mv\<rparr>)"
    (is "sequence_ok ?s")
    using assms by (simp add: sequence_ok_def select_screen_content_tools_def select_integer_mv_def)
  have le: "forceScreenContentTools ?s \<le> 2" "forceIntegerMv (?s\<lparr>forceScreenContentTools := m\<rparr>) \<le> 2" for m
    by (simp_all add: select_screen_content_tools_def select_integer_mv_def)
  have final: "sequence_ok (if c then s\<lparr>orderHintBits := h + 1\<rparr> else s)"
    if "s = ?s\<lparr>forceScreenContentTools := a, forceIntegerMv := b\<rparr>" "a \<le> 2" "b \<le> 2" "h \<le> 7" for c s a b h
  proof -
    have "sequence_ok s"
      unfolding that(1) by (rule sequence_ok_updates(10) [OF sequence_ok_updates(9) [OF start that(2)] that(3)])
    then show ?thesis using sequence_ok_updates(11) [OF _ that(4)] by simp
  qed
  show ?thesis
    unfolding read_tools_def Let_def
    apply (rule skip_any, rule pred_state_if, rule pred_state_return, rule start)
    apply (rule skip_any, rule skip_any, rule skip_any, rule skip_any)
    apply (rule pred_state_bind [OF bit [OF le(1)]], rule skip_any, rule pred_state_bind [OF bit [OF le(2)]])
    apply (rule pred_state_bind [OF hint], rule pred_state_return)
    apply (rule final, rule refl, assumption+)
    done
qed

lemma empty_sequence_ok: "n < 8 \<Longrightarrow> sequence_ok (empty_sequence\<lparr>profile := n, reducedStillPicture := r\<rparr>)"
  by (simp add: sequence_ok_def empty_sequence_def max_operating_points_def)

lemma pred_sequence_header: "pred_state sequence_ok read_sequence_header"
  unfolding read_sequence_header_def
  apply (rule bind_nat, rule skip_any, rule skip_any)
  apply (rule pred_state_bind [OF pred_levels], simp add: empty_sequence_ok)
  apply (rule pred_state_bind [OF pred_frame_ids], assumption)
  apply (rule pred_tools, assumption)
  done

lemma parse_sequence_header_ok:
  assumes "parse_sequence_header_obu p old = (r, sq)"
  shows "(status r = Ok \<longrightarrow> seq_valid sq \<and> sequence_ok sq) \<and> (status r \<noteq> Ok \<longrightarrow> sq = old)"
proof -
  obtain sq1 b where run: "run_state read_sequence_header (bit_reader p) = (sq1, b)" by fastforce
  then have "sequence_ok sq1" using pred_sequence_header pred_stateD by blast
  then have "sequence_ok (sq1\<lparr>seq_valid := True\<rparr>)" by (simp add: sequence_ok_def)
  then show ?thesis using assms run
    by (auto simp: parse_sequence_header_obu_def parse_ok_def fail_def split: if_splits)
qed

text \<open>What the walk over the units keeps, from any offset.\<close>

lemma apply_obu_fail:
  assumes "apply_obu u sq info = Inl (r, sq')"
  shows "status r \<noteq> Ok \<and> sq' = sq"
  using assms parse_sequence_header_ok [of "payload u" sq]
  by (auto simp: apply_obu_def Let_def fail_def split: if_splits prod.splits)

lemma apply_obu_ok:
  assumes "apply_obu u sq info = Inr (sq', info')"
  shows "(sq' = sq \<or> seq_valid sq' \<and> sequence_ok sq' \<and> sequenceHeaderSeen info') \<and>
    (sequenceHeaderSeen info \<longrightarrow> sequenceHeaderSeen info') \<and>
    ((0 < frameHeaders info \<longrightarrow> seq_valid sq) \<longrightarrow> (0 < frameHeaders info' \<longrightarrow> seq_valid sq'))"
  using assms parse_sequence_header_ok [of "payload u" sq]
  by (auto simp: apply_obu_def Let_def split: if_splits prod.splits)

lemma obu_loop_outcome:
  assumes "obu_loop bytes offset sq info = (r, sq', out)"
  shows "(out = None \<longleftrightarrow> status r \<noteq> Ok) \<and> (sq' = sq \<or> seq_valid sq' \<and> sequence_ok sq') \<and>
    (\<forall>i. out = Some i \<longrightarrow> (sequenceHeaderSeen i \<or> sq' = sq) \<and> (sequenceHeaderSeen info \<longrightarrow> sequenceHeaderSeen i) \<and>
       ((0 < frameHeaders info \<longrightarrow> seq_valid sq) \<longrightarrow> (0 < frameHeaders i \<longrightarrow> seq_valid sq')))"
  using assms
proof (induction bytes offset sq info rule: obu_loop.induct)
  case (1 bytes offset sq info)
  show ?case
  proof (cases "offset \<ge> length bytes")
    case True
    then show ?thesis using "1.prems" by (auto simp: obu_loop.simps [of bytes offset] parse_ok_def)
  next
    case False
    show ?thesis
    proof (cases "obu_framing bytes offset")
      case (Inl e)
      then have "r = e" "sq' = sq" "out = None"
        using "1.prems" False by (auto simp: obu_loop.simps [of bytes offset])
      moreover have "status e \<noteq> Ok"
        using Inl by (auto simp: obu_framing_def Let_def fail_def split: if_splits)
      ultimately show ?thesis by simp
    next
      case (Inr u)
      show ?thesis
      proof (cases "apply_obu u sq info")
        case (Inl e)
        obtain r0 s0 where e: "e = (r0, s0)" by fastforce
        then have "r = r0" "sq' = s0" "out = None"
          using "1.prems" False Inr Inl by (auto simp: obu_loop.simps [of bytes offset])
        then show ?thesis using apply_obu_fail [of u sq info r0 s0] Inl e by simp
      next
        case inner: (Inr x)
        obtain s1 i1 where x: "x = (s1, i1)" by fastforce
        then have run: "obu_loop bytes (obu_end u) s1 i1 = (r, sq', out)"
          using "1.prems" False Inr inner by (simp add: obu_loop.simps [of bytes offset])
        note IH = "1.IH" [OF False Inr inner x [symmetric] run]
        note step = apply_obu_ok [OF inner [unfolded x]]
        show ?thesis
        proof (intro conjI allI impI)
          show "out = None \<longleftrightarrow> status r \<noteq> Ok" using IH by (rule conjunct1)
          show "sq' = sq \<or> seq_valid sq' \<and> sequence_ok sq'" using IH step by (elim conjE disjE) simp_all
          fix i assume i: "out = Some i"
          note at = IH [THEN conjunct2, THEN conjunct2, THEN spec, THEN mp, OF i]
          show "sequenceHeaderSeen i \<or> sq' = sq" using at step by (elim conjE disjE) simp_all
          show "sequenceHeaderSeen i" if "sequenceHeaderSeen info" using at step that by simp
          show "seq_valid sq'" if "0 < frameHeaders info \<longrightarrow> seq_valid sq" "0 < frameHeaders i"
            using at step that by simp
        qed
      qed
    qed
  qed
qed

text \<open>C10: how \<^verbatim>\<open>ParseTemporalUnit\<close> fails. On every byte string it returns; the caller's info is
  written exactly on success; the caller's sequence is never left half-written: it is the old one
  or a completely parsed, valid one whose counts, bit lengths and array sizes are in the bounds the
  frame-header parser indexes and shifts with; an info with a frame header comes with a valid
  sequence; and a sequence that changed was announced.\<close>

theorem temporal_unit_outcome:
  assumes "parse_temporal_unit bytes sq = (r, sq', out)"
  shows "(out = None \<longleftrightarrow> status r \<noteq> Ok) \<and> (sq' = sq \<or> seq_valid sq' \<and> sequence_ok sq') \<and>
    (\<forall>i. out = Some i \<longrightarrow> (0 < frameHeaders i \<longrightarrow> seq_valid sq') \<and> (sequenceHeaderSeen i \<or> sq' = sq))"
  using obu_loop_outcome [OF assms [unfolded parse_temporal_unit_def]] by (simp add: empty_unit_def)

theorem temporal_unit_outcome_witness:
  "case parse_temporal_unit [0x0a, 5, 1, 2] empty_sequence of (r, sq', out) \<Rightarrow>
     r = fail Truncated ''obu_payload'' \<and> sq' = empty_sequence \<and> out = None"
proof -
  have leb: "read_leb128 [0x0a, 5, 1, 2] 1 = (True, 2, 5)"
    unfolding read_leb128_def by (subst leb_loop.simps) simp
  have "obu_framing [0x0a, 5, 1, 2] 0 = Inl (fail Truncated ''obu_payload'')"
    by (simp add: obu_framing_def Let_def leb [simplified])
  then have run: "parse_temporal_unit [0x0a, 5, 1, 2] empty_sequence = (fail Truncated ''obu_payload'', empty_sequence, None)"
    unfolding parse_temporal_unit_def by (subst obu_loop.simps) simp
  show ?thesis using temporal_unit_outcome [OF run] run by simp
qed

end
