(* ===== verification/Av1Repeats.thy ===== *)
theory Av1Repeats
  imports Av1Obu
begin

text \<open>
  The submit ledger of AV1 show-existing repeats, \<^verbatim>\<open>mediaengine/video/av1_show_existing.{h,cpp}\<close>, and
  the keyframe prediction and packet order of its session, \<^verbatim>\<open>av1_show_existing_session.cpp\<close>. Each
  member function is a function of the object's state; the 64-bit counters are naturals. Logging and
  the bitrate compensation, which touch none of this state, are left out; FFmpeg's packets are
  their timestamp, bytes and duration.
\<close>

section \<open>Data\<close>

datatype reencode_reason =
  Disabled | NotArmed | Disarmed | Overlay | KeyframeDue | AfterKeyframe | NoPriorFrame | LedgerBound

fun reencode_reason_name :: "reencode_reason \<Rightarrow> string" where
  "reencode_reason_name Disabled = ''disabled''"
| "reencode_reason_name NotArmed = ''not_armed''"
| "reencode_reason_name Disarmed = ''disarmed''"
| "reencode_reason_name Overlay = ''overlay''"
| "reencode_reason_name KeyframeDue = ''keyframe_due''"
| "reencode_reason_name AfterKeyframe = ''after_keyframe''"
| "reencode_reason_name NoPriorFrame = ''no_prior_frame''"
| "reencode_reason_name LedgerBound = ''ledger_bound''"

record repeat_config =
  cfg_enabled :: bool
  cfg_disabledReason :: string
  armAfterInterFrames :: nat
  maxPendingShowExisting :: nat

record synthetic_packet =
  syn_pts :: int
  syn_bytes :: "u8 list"

record packet_plan =
  holdSlots :: nat
  after :: "synthetic_packet list"
  violation :: "string option"

definition empty_plan :: packet_plan where
  "empty_plan = \<lparr>holdSlots = 0, after = [], violation = None\<rparr>"

definition held_packet_duration :: "int \<Rightarrow> int \<Rightarrow> int" where
  "held_packet_duration encoderDuration hold =
     (if hold > 0 then (if encoderDuration > 1 then encoderDuration else 1) + hold else encoderDuration)"

record repeat_stats =
  written :: nat
  reencoded :: "reencode_reason \<Rightarrow> nat"
  st_holdSlots :: nat
  violations :: nat
  packetsVerified :: nat
  pendingPeak :: nat

record entry =
  pts :: int
  showExisting :: bool
  is_key :: bool

record repeats =
  config :: repeat_config
  disabledReason :: string
  sequence_hdr :: sequence_header
  ledger :: "entry list"
  pendingShowExisting :: nat
  armed :: bool
  disarmed :: bool
  firstSubmitSeen :: bool
  keySeen :: bool
  verifiedInterFrames :: nat
  lastSubmittedKnown :: bool
  lastSubmittedKey :: bool
  lastWrittenShowable :: bool
  lastWrittenSlot :: nat
  refFrameId :: "u32 list"
  stats :: repeat_stats

definition empty_stats :: repeat_stats where
  "empty_stats = \<lparr>written = 0, reencoded = (\<lambda>_. 0), st_holdSlots = 0, violations = 0, packetsVerified = 0,
     pendingPeak = 0\<rparr>"

definition reset :: "repeat_config \<Rightarrow> repeats" where
  "reset c = \<lparr>config = c, disabledReason = (if cfg_enabled c then '''' else cfg_disabledReason c),
     sequence_hdr = empty_sequence, ledger = [], pendingShowExisting = 0, armed = False, disarmed = False,
     firstSubmitSeen = False, keySeen = False, verifiedInterFrames = 0, lastSubmittedKnown = False,
     lastSubmittedKey = False, lastWrittenShowable = False, lastWrittenSlot = 0,
     refFrameId = replicate num_ref_frames 0, stats = empty_stats\<rparr>"

section \<open>Operations\<close>

definition disable :: "string \<Rightarrow> repeats \<Rightarrow> repeats" where
  "disable why s = s\<lparr>config := (config s)\<lparr>cfg_enabled := False\<rparr>, armed := False, disabledReason := why\<rparr>"

definition observe_extradata :: "u8 list \<Rightarrow> repeats \<Rightarrow> repeats \<times> bool" where
  "observe_extradata bytes s =
     (if \<not> cfg_enabled (config s) \<or> bytes = [] then (s, cfg_enabled (config s))
      else let bytes = (if length bytes \<ge> 4 \<and> bytes ! 0 = 0x81 then drop 4 bytes else bytes)
           in case parse_temporal_unit bytes (sequence_hdr s) of
                (parsed, sq, info) \<Rightarrow>
                  let s = s\<lparr>sequence_hdr := sq\<rparr>; writable = can_write_show_existing sq
                  in if status parsed \<noteq> Ok then (disable (reason parsed) s, False)
                     else if (case info of None \<Rightarrow> False | Some i \<Rightarrow> sequenceHeaderSeen i) \<and> status writable \<noteq> Ok
                     then (disable (reason writable) s, False)
                     else (s, True))"

text \<open>Two results: the object and what \<^verbatim>\<open>plan->violation\<close> becomes.\<close>

definition disarm :: "string \<Rightarrow> packet_plan \<Rightarrow> repeats \<Rightarrow> repeats \<times> packet_plan" where
  "disarm why plan s =
     (if disarmed s then (s\<lparr>armed := False\<rparr>, plan)
      else (s\<lparr>armed := False, disarmed := True, disabledReason := why,
              stats := (stats s)\<lparr>violations := violations (stats s) + 1\<rparr>\<rparr>, plan\<lparr>violation := Some why\<rparr>))"

definition max_unit_bytes :: nat where "max_unit_bytes = 16"

definition write_unit :: "int \<Rightarrow> packet_plan \<Rightarrow> repeats \<Rightarrow> (repeats \<times> packet_plan) option" where
  "write_unit p plan s =
     (let bytes = show_existing_unit (sequence_hdr s) (lastWrittenSlot s) (refFrameId s ! lastWrittenSlot s) max_unit_bytes
      in if bytes = [] then None
         else Some (s\<lparr>stats := (stats s)\<lparr>written := written (stats s) + 1\<rparr>\<rparr>,
                    plan\<lparr>after := after plan @ [\<lparr>syn_pts = p, syn_bytes = bytes\<rparr>]\<rparr>))"

definition hold_slot :: "string \<Rightarrow> packet_plan \<Rightarrow> repeats \<Rightarrow> repeats \<times> packet_plan" where
  "hold_slot why plan s =
     disarm why (plan\<lparr>holdSlots := holdSlots plan + 1\<rparr>)
       (s\<lparr>stats := (stats s)\<lparr>st_holdSlots := st_holdSlots (stats s) + 1\<rparr>\<rparr>)"

definition count_reencode :: "reencode_reason \<Rightarrow> repeats \<Rightarrow> repeats" where
  "count_reencode why s = s\<lparr>stats := (stats s)\<lparr>reencoded := (reencoded (stats s))(why := reencoded (stats s) why + 1)\<rparr>\<rparr>"

text \<open>The result is the object, the plan, and the reason unless the slot was committed.\<close>

definition try_commit :: "int \<Rightarrow> bool \<Rightarrow> bool \<Rightarrow> packet_plan \<Rightarrow> repeats
    \<Rightarrow> repeats \<times> packet_plan \<times> reencode_reason option" where
  "try_commit p pixelsDiffer keyframeDue plan s =
     (let reencode = (\<lambda>why s plan. (count_reencode why s, plan, Some why))
      in if \<not> cfg_enabled (config s) then reencode Disabled s plan
         else if disarmed s then reencode Disarmed s plan
         else if \<not> armed s then reencode NotArmed s plan
         else if pixelsDiffer then reencode Overlay s plan
         else if keyframeDue then reencode KeyframeDue s plan
         else if \<not> lastSubmittedKnown s then reencode NoPriorFrame s plan
         else if lastSubmittedKey s then reencode AfterKeyframe s plan
         else if ledger s = []
         then (if \<not> lastWrittenShowable s then reencode AfterKeyframe s plan
               else case write_unit p plan s of
                      Some (s, plan) \<Rightarrow> (s, plan, None)
                    | None \<Rightarrow> (case disarm ''show_existing_unwritable'' plan s of
                        (s, plan) \<Rightarrow> reencode Disarmed s plan))
         else if pendingShowExisting s \<ge> maxPendingShowExisting (config s) then reencode LedgerBound s plan
         else (s\<lparr>ledger := ledger s @ [\<lparr>pts = p, showExisting = True, is_key = False\<rparr>],
                 pendingShowExisting := pendingShowExisting s + 1,
                 stats := (stats s)\<lparr>pendingPeak := max (pendingPeak (stats s)) (pendingShowExisting s + 1)\<rparr>\<rparr>,
               plan, None))"

definition on_frame_submitted :: "int \<Rightarrow> bool \<Rightarrow> repeats \<Rightarrow> repeats" where
  "on_frame_submitted p key s =
     (if \<not> cfg_enabled (config s) \<and> ledger s = [] then s
      else let key = (key \<or> \<not> firstSubmitSeen s)
           in s\<lparr>firstSubmitSeen := True, ledger := ledger s @ [\<lparr>pts = p, showExisting = False, is_key = key\<rparr>],
                lastSubmittedKnown := True, lastSubmittedKey := key\<rparr>)"

text \<open>The search from the back erases the last frame entry with this timestamp.\<close>

definition is_frame :: "int \<Rightarrow> entry \<Rightarrow> bool" where
  "is_frame p e \<longleftrightarrow> \<not> showExisting e \<and> pts e = p"

definition on_frame_dropped :: "int \<Rightarrow> repeats \<Rightarrow> repeats" where
  "on_frame_dropped p s =
     (let newer = takeWhile (\<lambda>e. \<not> is_frame p e) (rev (ledger s));
          older = dropWhile (\<lambda>e. \<not> is_frame p e) (rev (ledger s))
      in if older = [] then s
         else s\<lparr>ledger := rev (tl older) @ rev newer, lastSubmittedKnown := False\<rparr>)"

text \<open>The loop over the ledger head; the list is the rest of the ledger.\<close>

fun release_loop :: "entry list \<Rightarrow> packet_plan \<Rightarrow> repeats \<Rightarrow> repeats \<times> packet_plan" where
  "release_loop [] plan s = (s\<lparr>ledger := []\<rparr>, plan)"
| "release_loop (e # rest) plan s =
     (if \<not> showExisting e then (s\<lparr>ledger := e # rest\<rparr>, plan)
      else let s = s\<lparr>ledger := rest, pendingShowExisting := pendingShowExisting s - 1\<rparr>
           in if \<not> lastWrittenShowable s
              then (case hold_slot ''committed_repeat_unshowable'' plan s of (s, plan) \<Rightarrow> release_loop rest plan s)
              else case write_unit (pts e) plan s of
                     Some (s, plan) \<Rightarrow> release_loop rest plan s
                   | None \<Rightarrow> (case hold_slot ''show_existing_unwritable'' plan s of
                       (s, plan) \<Rightarrow> release_loop rest plan s))"

definition release_following_entries :: "packet_plan \<Rightarrow> repeats \<Rightarrow> repeats \<times> packet_plan" where
  "release_following_entries plan s = release_loop (ledger s) plan s"

definition lowest_slot :: "u8 \<Rightarrow> nat \<Rightarrow> nat" where
  "lowest_slot flags old = (case find (bit flags) [0..<num_ref_frames] of Some k \<Rightarrow> k | None \<Rightarrow> old)"

text \<open>The branch of a verified header; the last component is \<^verbatim>\<open>showable\<close>.\<close>

definition verify_frame :: "entry \<Rightarrow> frame_header \<Rightarrow> packet_plan \<Rightarrow> repeats \<Rightarrow> repeats \<times> packet_plan \<times> bool" where
  "verify_frame entry frame plan s =
     (let shownKey = (frameType frame = Key \<and> showFrame frame);
          s = s\<lparr>stats := (stats s)\<lparr>packetsVerified := packetsVerified (stats s) + 1\<rparr>,
                refFrameId := map (\<lambda>slot. if bit (refreshFrameFlags frame) slot then currentFrameId frame
                                         else refFrameId s ! slot) [0..<num_ref_frames],
                lastWrittenSlot := (if refreshFrameFlags frame \<noteq> 0
                  then lowest_slot (refreshFrameFlags frame) (lastWrittenSlot s) else lastWrittenSlot s)\<rparr>;
          showable = (showFrame frame \<and> showableFrame frame \<and> refreshFrameFlags frame \<noteq> 0)
      in if shownKey
         then let s = s\<lparr>keySeen := True\<rparr>
              in if \<not> is_key entry
                 then (case disarm ''unexpected_keyframe'' plan s of (s, plan) \<Rightarrow> (s, plan, showable))
                 else (s, plan, showable)
         else if \<not> showFrame frame
         then (case disarm ''hidden_frame'' plan s of (s, plan) \<Rightarrow> (s, plan, showable))
         else if refreshFrameFlags frame = 0
         then (case disarm ''non_reference_frame'' plan s of (s, plan) \<Rightarrow> (s, plan, showable))
         else if \<not> armed s \<and> \<not> disarmed s \<and> keySeen s
         then let s = s\<lparr>verifiedInterFrames := verifiedInterFrames s + 1\<rparr>
              in (if verifiedInterFrames s \<ge> armAfterInterFrames (config s)
                  then s\<lparr>armed := cfg_enabled (config s)\<rparr> else s, plan, showable)
         else (s, plan, showable))"

definition verify_packet :: "entry \<Rightarrow> u8 list \<Rightarrow> packet_plan \<Rightarrow> repeats \<Rightarrow> repeats \<times> packet_plan \<times> bool" where
  "verify_packet entry bytes plan s =
     (case parse_temporal_unit bytes (sequence_hdr s) of
        (parsed, sq, out) \<Rightarrow>
          let s = s\<lparr>sequence_hdr := sq\<rparr>;
              info = (case out of None \<Rightarrow> empty_unit | Some i \<Rightarrow> i);
              refuse = (\<lambda>why. case disarm why plan s of (s, plan) \<Rightarrow> (s, plan, False))
          in if status parsed \<noteq> Ok then refuse (reason parsed)
             else if extensionSeen info then refuse ''obu_extension''
             else if frameHeaders info \<noteq> 1
             then refuse (if frameHeaders info = 0 then ''no_frame_header'' else ''multiple_frames_per_unit'')
             else if status (can_write_show_existing sq) \<noteq> Ok then refuse (reason (can_write_show_existing sq))
             else if showExistingFrame (first_frame info) then refuse ''encoder_show_existing''
             else verify_frame entry (first_frame info) plan s)"

definition on_encoder_packet :: "int \<Rightarrow> u8 list \<Rightarrow> repeats \<Rightarrow> repeats \<times> packet_plan" where
  "on_encoder_packet p bytes s =
     (let plan = empty_plan
      in if ledger s = [] \<and> \<not> cfg_enabled (config s) then (s, plan)
         else let skipped = takeWhile (\<lambda>e. \<not> is_frame p e) (ledger s);
                  found = dropWhile (\<lambda>e. \<not> is_frame p e) (ledger s)
              in case found of
                   [] \<Rightarrow> disarm ''packet_without_submit'' plan s
                 | entry # rest \<Rightarrow>
                     let lost = length (filter showExisting skipped);
                         s = s\<lparr>pendingShowExisting := pendingShowExisting s - lost,
                               stats := (stats s)\<lparr>st_holdSlots := st_holdSlots (stats s) + lost\<rparr>\<rparr>
                     in case (if skipped \<noteq> [] then disarm ''packet_order_mismatch'' plan s else (s, plan)) of
                          (s, plan) \<Rightarrow>
                            (case verify_packet entry bytes plan (s\<lparr>ledger := rest\<rparr>) of
                               (s, plan, showable) \<Rightarrow>
                                 release_following_entries plan (s\<lparr>lastWrittenShowable := showable\<rparr>)))"

section \<open>The invariant of the object\<close>

abbreviation pending_entries :: "entry list \<Rightarrow> nat" where
  "pending_entries es \<equiv> length (filter showExisting es)"

text \<open>\<open>commits\<close> is the number of slots committed so far.\<close>

definition repeats_inv :: "nat \<Rightarrow> repeats \<Rightarrow> bool" where
  "repeats_inv commits s \<longleftrightarrow>
     pendingShowExisting s = pending_entries (ledger s) \<and>
     written (stats s) + st_holdSlots (stats s) + pendingShowExisting s = commits \<and>
     (armed s \<longrightarrow> cfg_enabled (config s) \<and> \<not> disarmed s) \<and>
     violations (stats s) = (if disarmed s then 1 else 0) \<and>
     lastWrittenSlot s < num_ref_frames \<and> length (refFrameId s) = num_ref_frames \<and>
     sequence_ok (sequence_hdr s) \<and>
     (lastWrittenShowable s \<longrightarrow> status (can_write_show_existing (sequence_hdr s)) = Ok)"

lemma repeats_inv_reset: "repeats_inv 0 (reset c)"
  by (simp add: repeats_inv_def reset_def empty_stats_def empty_sequence_def num_ref_frames_def sequence_ok_def
      max_operating_points_def)

text \<open>Everything but the fields a disarming touches.\<close>

lemma disarm_fields:
  assumes "disarm why plan s = (t, plan')"
  shows "ledger t = ledger s" "pendingShowExisting t = pendingShowExisting s" "config t = config s"
    "written (stats t) = written (stats s)" "st_holdSlots (stats t) = st_holdSlots (stats s)"
    "lastWrittenSlot t = lastWrittenSlot s" "refFrameId t = refFrameId s" "sequence_hdr t = sequence_hdr s"
    "lastWrittenShowable t = lastWrittenShowable s" "\<not> armed t" "disarmed t"
    "violations (stats t) = (if disarmed s then violations (stats s) else violations (stats s) + 1)"
    "holdSlots plan' = holdSlots plan" "after plan' = after plan"
  using assms by (auto simp: disarm_def split: if_splits)

lemma repeats_inv_disarm:
  assumes "disarm why plan s = (t, plan')" and "repeats_inv n s"
  shows "repeats_inv n t"
  using disarm_fields [OF assms(1)] assms(2) by (simp add: repeats_inv_def split: if_splits)

lemma show_existing_unit_nonempty:
  assumes "status (can_write_show_existing sq) = Ok" "sequence_ok sq" "k < num_ref_frames"
  shows "show_existing_unit sq k ident max_unit_bytes \<noteq> []"
  using show_existing_parses_back [OF assms, of max_unit_bytes ident]
  by (auto simp: show_existing_unit_def max_unit_bytes_def)

lemma write_unit_succeeds:
  assumes "repeats_inv n s" and "lastWrittenShowable s"
  shows "write_unit p plan s = Some (s\<lparr>stats := (stats s)\<lparr>written := written (stats s) + 1\<rparr>\<rparr>,
    plan\<lparr>after := after plan @ [\<lparr>syn_pts = p, syn_bytes =
      show_existing_unit (sequence_hdr s) (lastWrittenSlot s) (refFrameId s ! lastWrittenSlot s) max_unit_bytes\<rparr>]\<rparr>)"
  using show_existing_unit_nonempty [of "sequence_hdr s" "lastWrittenSlot s"] assms
  by (simp add: write_unit_def Let_def repeats_inv_def)

lemma repeats_inv_count: "repeats_inv n (count_reencode why s) = repeats_inv n s"
  by (simp add: repeats_inv_def count_reencode_def)

lemma try_commit_cases:
  assumes "repeats_inv n s" and "try_commit p differ due plan s = (t, plan', r)"
  shows "(\<exists>why. r = Some why \<and> t = count_reencode why s \<and> plan' = plan) \<or>
    (r = None \<and> ledger s = [] \<and> lastWrittenShowable s \<and> write_unit p plan s = Some (t, plan')) \<or>
    (r = None \<and> ledger s \<noteq> [] \<and> plan' = plan \<and>
       t = s\<lparr>ledger := ledger s @ [\<lparr>pts = p, showExisting = True, is_key = False\<rparr>],
             pendingShowExisting := pendingShowExisting s + 1,
             stats := (stats s)\<lparr>pendingPeak := max (pendingPeak (stats s)) (pendingShowExisting s + 1)\<rparr>\<rparr>)"
proof (cases "ledger s = [] \<and> lastWrittenShowable s")
  case True
  then obtain x where x: "write_unit p plan s = Some x" using write_unit_succeeds [OF assms(1)] by blast
  then show ?thesis
    using assms(2) [unfolded try_commit_def Let_def x option.case] True x
    by (auto split: if_splits prod.splits)
next
  case False
  then show ?thesis
    using assms(2) [unfolded try_commit_def Let_def]
    by (cases "ledger s = []") (auto split: if_splits)
qed

lemma repeats_inv_commit:
  assumes "repeats_inv n s" and "try_commit p differ due plan s = (t, plan', r)"
  shows "repeats_inv (if r = None then n + 1 else n) t"
  using try_commit_cases [OF assms]
proof (elim disjE exE conjE)
  fix why assume "r = Some why" "t = count_reencode why s"
  then show ?thesis using assms(1) by (simp add: repeats_inv_count)
next
  assume "r = None" "lastWrittenShowable s" "write_unit p plan s = Some (t, plan')"
  then show ?thesis using assms(1) write_unit_succeeds [OF assms(1), of p plan] by (auto simp: repeats_inv_def)
next
  assume "r = None" "t = s\<lparr>ledger := ledger s @ [\<lparr>pts = p, showExisting = True, is_key = False\<rparr>],
      pendingShowExisting := pendingShowExisting s + 1,
      stats := (stats s)\<lparr>pendingPeak := max (pendingPeak (stats s)) (pendingShowExisting s + 1)\<rparr>\<rparr>"
  then show ?thesis using assms(1) by (simp add: repeats_inv_def)
qed

lemma repeats_inv_submitted: "repeats_inv n s \<Longrightarrow> repeats_inv n (on_frame_submitted p key s)"
  by (auto simp: on_frame_submitted_def Let_def repeats_inv_def)

lemma pending_rev [simp]: "pending_entries (rev es) = pending_entries es"
  by (induction es) auto

lemma repeats_inv_dropped:
  assumes "repeats_inv n s"
  shows "repeats_inv n (on_frame_dropped p s)"
proof (cases "dropWhile (\<lambda>e. \<not> is_frame p e) (rev (ledger s))")
  case Nil
  then show ?thesis using assms by (simp add: on_frame_dropped_def)
next
  case (Cons e rest)
  have "is_frame p e" using hd_dropWhile [of "\<lambda>e. \<not> is_frame p e" "rev (ledger s)"] Cons by simp
  moreover have "pending_entries (ledger s) =
      pending_entries (takeWhile (\<lambda>e. \<not> is_frame p e) (rev (ledger s)) @ e # rest)"
    using takeWhile_dropWhile_id [of "\<lambda>e. \<not> is_frame p e" "rev (ledger s)"] Cons by simp
  ultimately show ?thesis
    using assms Cons by (simp add: on_frame_dropped_def Let_def repeats_inv_def is_frame_def)
qed

lemma release_loop_inv:
  assumes "repeats_inv n (s\<lparr>ledger := es\<rparr>)" and "release_loop es plan s = (t, plan')"
  shows "repeats_inv n t"
  using assms
proof (induction es arbitrary: plan s)
  case Nil
  then show ?case by simp
next
  case (Cons e rest)
  show ?case
  proof (cases "showExisting e")
    case False
    then show ?thesis using Cons.prems by simp
  next
    case show_slot: True
    define s1 where "s1 = s\<lparr>ledger := rest, pendingShowExisting := pendingShowExisting s - 1\<rparr>"
    show ?thesis
    proof (cases "lastWrittenShowable s")
      case True
      have inv: "repeats_inv (n - 1) s1"
        using Cons.prems(1) show_slot by (auto simp: repeats_inv_def s1_def)
      have "1 \<le> n" using Cons.prems(1) show_slot by (auto simp: repeats_inv_def)
      then have "repeats_inv n (s1\<lparr>stats := (stats s1)\<lparr>written := written (stats s1) + 1\<rparr>, ledger := rest\<rparr>)"
        using inv by (auto simp: repeats_inv_def s1_def)
      then show ?thesis
        using Cons.prems(2) show_slot True write_unit_succeeds [OF inv, of "pts e" plan]
        by (intro Cons.IH) (auto simp: s1_def Let_def)
    next
      case False
      obtain s2 plan2 where hold: "hold_slot ''committed_repeat_unshowable'' plan s1 = (s2, plan2)" by fastforce
      have "repeats_inv n (s1\<lparr>stats := (stats s1)\<lparr>st_holdSlots := st_holdSlots (stats s1) + 1\<rparr>\<rparr>)"
        using Cons.prems(1) show_slot by (auto simp: repeats_inv_def s1_def)
      then have "repeats_inv n s2" using repeats_inv_disarm hold by (auto simp: hold_slot_def)
      moreover have "ledger s2 = rest" using disarm_fields(1) hold by (fastforce simp: hold_slot_def s1_def)
      then have "s2\<lparr>ledger := rest\<rparr> = s2" by simp
      ultimately show ?thesis
        using Cons.prems(2) show_slot False hold by (intro Cons.IH) (auto simp: s1_def Let_def)
    qed
  qed
qed

lemma lowest_slot_less: "old < num_ref_frames \<Longrightarrow> lowest_slot flags old < num_ref_frames"
  by (auto simp: lowest_slot_def find_Some_iff split: option.splits)

lemma verify_frame_inv:
  assumes "repeats_inv n s" and "status (can_write_show_existing (sequence_hdr s)) = Ok"
    and "verify_frame entry frame plan s = (t, plan', showable)"
  shows "repeats_inv n (t\<lparr>lastWrittenShowable := showable\<rparr>) \<and> ledger t = ledger s"
proof -
  define s1 where "s1 = s\<lparr>stats := (stats s)\<lparr>packetsVerified := packetsVerified (stats s) + 1\<rparr>,
      refFrameId := map (\<lambda>slot. if bit (refreshFrameFlags frame) slot then currentFrameId frame
                               else refFrameId s ! slot) [0..<num_ref_frames],
      lastWrittenSlot := (if refreshFrameFlags frame \<noteq> 0
        then lowest_slot (refreshFrameFlags frame) (lastWrittenSlot s) else lastWrittenSlot s)\<rparr>"
  have inv: "repeats_inv n s1" using assms(1) by (simp add: repeats_inv_def s1_def lowest_slot_less)
  have inv': "repeats_inv n (s1\<lparr>keySeen := k\<rparr>)" for k using inv by (simp add: repeats_inv_def)
  have ok: "sequence_hdr s1 = sequence_hdr s" "ledger s1 = ledger s" by (simp_all add: s1_def)
  have show_any: "repeats_inv n x \<Longrightarrow> sequence_hdr x = sequence_hdr s \<Longrightarrow> repeats_inv n (x\<lparr>lastWrittenShowable := b\<rparr>)" for x b
    using assms(2) by (simp add: repeats_inv_def)
  have refuse: "repeats_inv n (x'\<lparr>lastWrittenShowable := b\<rparr>) \<and> ledger x' = ledger x"
    if "disarm why plan x = (x', q)" "repeats_inv n x" "sequence_hdr x = sequence_hdr s" for why x x' q b
    using show_any [OF repeats_inv_disarm [OF that(1,2)]] disarm_fields(1,8) [OF that(1)] that(3) by simp
  have arm_ok: "repeats_inv n (if c then s1\<lparr>verifiedInterFrames := v, armed := cfg_enabled (config s1)\<rparr>
      else s1\<lparr>verifiedInterFrames := v\<rparr>)" if "\<not> disarmed s1" for c v
    using inv that by (auto simp: repeats_inv_def)
  let ?shownKey = "frameType frame = Key \<and> showFrame frame"
  let ?showable = "showFrame frame \<and> showableFrame frame \<and> refreshFrameFlags frame \<noteq> 0"
  note run = assms(3) [unfolded verify_frame_def Let_def s1_def [symmetric]]
  consider (bad_key) "?shownKey" "\<not> is_key entry" | (key) "?shownKey" "is_key entry"
    | (hidden) "\<not> ?shownKey" "\<not> showFrame frame" | (nonref) "\<not> ?shownKey" "showFrame frame" "refreshFrameFlags frame = 0"
    | (arm) "\<not> ?shownKey" "showFrame frame" "refreshFrameFlags frame \<noteq> 0" "\<not> armed s1 \<and> \<not> disarmed s1 \<and> keySeen s1"
    | (rest) "\<not> ?shownKey" "showFrame frame" "refreshFrameFlags frame \<noteq> 0" "\<not> (\<not> armed s1 \<and> \<not> disarmed s1 \<and> keySeen s1)"
    by blast
  then show ?thesis
  proof cases
    case bad_key
    then show ?thesis using run refuse [OF _ inv' [of True]] ok by (simp split: prod.splits)
  next
    case key
    then have "t = s1\<lparr>keySeen := True\<rparr>" using run by simp
    then show ?thesis using show_any [OF inv' [of True]] ok by simp
  next
    case hidden
    then show ?thesis using run refuse [OF _ inv] ok by (simp split: prod.splits)
  next
    case nonref
    then show ?thesis using run refuse [OF _ inv] ok by (simp split: prod.splits)
  next
    case arm
    have t: "t = (if armAfterInterFrames (config s1) \<le> verifiedInterFrames s1 + 1
        then s1\<lparr>verifiedInterFrames := verifiedInterFrames s1 + 1, armed := cfg_enabled (config s1)\<rparr>
        else s1\<lparr>verifiedInterFrames := verifiedInterFrames s1 + 1\<rparr>)"
      using run arm by (simp split: if_splits)
    have "repeats_inv n t" unfolding t by (rule arm_ok) (use arm(4) in simp)
    moreover have "sequence_hdr t = sequence_hdr s" "ledger t = ledger s" unfolding t using ok by simp_all
    ultimately show ?thesis using show_any by blast
  next
    case rest
    then have "t = s1" using run by (auto split: if_splits)
    then show ?thesis using show_any [OF inv] ok by simp
  qed
qed

lemma verify_packet_inv:
  assumes inv: "repeats_inv n s" and run: "verify_packet entry bytes plan s = (t, plan', showable)"
  shows "repeats_inv n (t\<lparr>lastWrittenShowable := showable\<rparr>) \<and> ledger t = ledger s"
proof -
  obtain parsed sq out where parse: "parse_temporal_unit bytes (sequence_hdr s) = (parsed, sq, out)"
    by (metis prod_cases3)
  have sq: "sequence_ok sq"
    using obu_loop_outcome [OF parse [unfolded parse_temporal_unit_def]] inv by (auto simp: repeats_inv_def)
  define s1 where "s1 = s\<lparr>sequence_hdr := sq\<rparr>"
  have inv1: "repeats_inv n (s1\<lparr>lastWrittenShowable := False\<rparr>)"
    using inv sq by (simp add: repeats_inv_def s1_def)
  have refuse: "repeats_inv n (x\<lparr>lastWrittenShowable := False\<rparr>) \<and> ledger x = ledger s"
    if "disarm why plan s1 = (x, q)" for why x q
  proof -
    have "disarm why plan (s1\<lparr>lastWrittenShowable := False\<rparr>) = (x\<lparr>lastWrittenShowable := False\<rparr>, q)"
      using that by (auto simp: disarm_def split: if_splits)
    then show ?thesis using repeats_inv_disarm inv1 disarm_fields(1) [OF that] by (auto simp: s1_def)
  qed
  let ?info = "case out of None \<Rightarrow> empty_unit | Some i \<Rightarrow> i"
  have good: "repeats_inv n (t\<lparr>lastWrittenShowable := showable\<rparr>) \<and> ledger t = ledger s"
    if can: "status (can_write_show_existing sq) = Ok" and
      v: "verify_frame entry (first_frame ?info) plan s1 = (t, plan', showable)"
  proof -
    have "repeats_inv n s1" using inv sq can by (simp add: repeats_inv_def s1_def)
    then show ?thesis using verify_frame_inv [OF _ _ v] can by (simp add: s1_def)
  qed
  show ?thesis
    using run [unfolded verify_packet_def parse prod.case Let_def, folded s1_def] refuse good
    by (auto split: if_splits prod.splits)
qed

lemma repeats_inv_packet:
  assumes "repeats_inv n s" and "on_encoder_packet p bytes s = (t, plan)"
  shows "repeats_inv n t"
proof (cases "dropWhile (\<lambda>e. \<not> is_frame p e) (ledger s)")
  case Nil
  have "t = s \<or> disarm ''packet_without_submit'' empty_plan s = (t, plan)"
    using assms(2) [unfolded on_encoder_packet_def Let_def Nil list.case] by (auto split: if_splits)
  then show ?thesis using assms(1) repeats_inv_disarm by blast
next
  case (Cons entry rest)
  let ?skipped = "takeWhile (\<lambda>e. \<not> is_frame p e) (ledger s)"
  define s1 where "s1 = s\<lparr>pendingShowExisting := pendingShowExisting s - pending_entries ?skipped,
      stats := (stats s)\<lparr>st_holdSlots := st_holdSlots (stats s) + pending_entries ?skipped\<rparr>\<rparr>"
  obtain s2 plan2 where two: "(if ?skipped \<noteq> [] then disarm ''packet_order_mismatch'' empty_plan s1 else (s1, empty_plan)) =
      (s2, plan2)" by fastforce
  obtain s3 plan3 showable where three: "verify_packet entry bytes plan2 (s2\<lparr>ledger := rest\<rparr>) = (s3, plan3, showable)"
    by (metis prod_cases3)
  have nonempty: "ledger s \<noteq> []" using Cons by auto
  have run: "release_following_entries plan3 (s3\<lparr>lastWrittenShowable := showable\<rparr>) = (t, plan)"
    using assms(2) [unfolded on_encoder_packet_def Let_def Cons list.case, folded s1_def, unfolded two prod.case three]
      nonempty by simp
  have "is_frame p entry" using hd_dropWhile [of "\<lambda>e. \<not> is_frame p e" "ledger s"] Cons by simp
  moreover have "pending_entries (ledger s) = pending_entries (?skipped @ entry # rest)"
    using takeWhile_dropWhile_id [of "\<lambda>e. \<not> is_frame p e" "ledger s"] Cons by simp
  ultimately have count: "pending_entries (ledger s) = pending_entries ?skipped + pending_entries rest"
    by (simp add: is_frame_def)
  have one: "repeats_inv n (s1\<lparr>ledger := rest\<rparr>)" using assms(1) count by (simp add: repeats_inv_def s1_def)
  have "repeats_inv n (s2\<lparr>ledger := rest\<rparr>)"
  proof (cases "?skipped = []")
    case True
    then show ?thesis using two one by auto
  next
    case False
    then have "disarm ''packet_order_mismatch'' empty_plan (s1\<lparr>ledger := rest\<rparr>) = (s2\<lparr>ledger := rest\<rparr>, plan2)"
      using two by (auto simp: disarm_def split: if_splits)
    then show ?thesis using repeats_inv_disarm one by blast
  qed
  then have "repeats_inv n (s3\<lparr>lastWrittenShowable := showable\<rparr>)" using verify_packet_inv three by blast
  then show ?thesis
    using run release_loop_inv [where n = n and s = "s3\<lparr>lastWrittenShowable := showable\<rparr>" and es = "ledger s3"]
    by (simp add: release_following_entries_def)
qed

lemma repeats_inv_extradata:
  assumes "repeats_inv n s" "\<not> lastWrittenShowable s" and "observe_extradata bytes s = (t, b)"
  shows "repeats_inv n t \<and> \<not> lastWrittenShowable t"
proof (cases "\<not> cfg_enabled (config s) \<or> bytes = []")
  case True
  then show ?thesis using assms by (simp add: observe_extradata_def)
next
  case False
  let ?d = "if length bytes \<ge> 4 \<and> bytes ! 0 = 0x81 then drop 4 bytes else bytes"
  obtain parsed sq out where parse: "parse_temporal_unit ?d (sequence_hdr s) = (parsed, sq, out)"
    by (metis prod_cases3)
  have sq: "sequence_ok sq"
    using obu_loop_outcome [OF parse [unfolded parse_temporal_unit_def]] assms(1) by (auto simp: repeats_inv_def)
  have "t = s\<lparr>sequence_hdr := sq\<rparr> \<or> (\<exists>why. t = disable why (s\<lparr>sequence_hdr := sq\<rparr>))"
    using assms(3) [unfolded observe_extradata_def Let_def if_not_P [OF False] parse prod.case]
    by (auto split: if_splits)
  moreover have "repeats_inv n (s\<lparr>sequence_hdr := sq\<rparr>)" using assms(1,2) sq by (simp add: repeats_inv_def)
  moreover from this have "repeats_inv n (disable why (s\<lparr>sequence_hdr := sq\<rparr>))" for why
    by (simp add: repeats_inv_def disable_def)
  ultimately show ?thesis using assms(2) by (auto simp: disable_def)
qed

section \<open>A session's calls\<close>

text \<open>The member functions in any order the encoder thread makes, after the reset and the reading of
  the codec's extradata; the count is that of the committed slots.\<close>

datatype repeat_call =
  TryCommit int bool bool
| Submitted int bool
| Dropped int
| DisarmFor string
| Packet int "u8 list"

fun repeat_step :: "repeat_call \<Rightarrow> repeats \<times> nat \<Rightarrow> repeats \<times> nat" where
  "repeat_step (TryCommit p differ due) (s, n) =
     (case try_commit p differ due empty_plan s of (s, plan, why) \<Rightarrow> (s, if why = None then n + 1 else n))"
| "repeat_step (Submitted p key) (s, n) = (on_frame_submitted p key s, n)"
| "repeat_step (Dropped p) (s, n) = (on_frame_dropped p s, n)"
| "repeat_step (DisarmFor why) (s, n) = (fst (disarm why empty_plan s), n)"
| "repeat_step (Packet p bytes) (s, n) = (fst (on_encoder_packet p bytes s), n)"

definition repeats_start :: "repeats \<times> nat \<Rightarrow> bool" where
  "repeats_start x \<longleftrightarrow> (\<exists>c bytes. x = (fst (observe_extradata bytes (reset c)), 0))"

definition repeats_next :: "repeats \<times> nat \<Rightarrow> repeats \<times> nat \<Rightarrow> bool" where
  "repeats_next x y \<longleftrightarrow> (\<exists>call. y = repeat_step call x)"

lemma repeat_step_inv: "repeats_inv (snd x) (fst x) \<Longrightarrow> repeats_inv (snd (repeat_step call x)) (fst (repeat_step call x))"
proof (induction call x rule: repeat_step.induct)
  case (1 p differ due s n)
  obtain t plan why where "try_commit p differ due empty_plan s = (t, plan, why)" by (metis prod_cases3)
  then show ?case using repeats_inv_commit [of n s p differ due empty_plan t plan why] 1 by auto
next
  case (4 why s n)
  then show ?case using repeats_inv_disarm [of why empty_plan s] by (metis fst_conv prod.collapse repeat_step.simps(4) snd_conv)
next
  case (5 p bytes s n)
  then show ?case using repeats_inv_packet [of n s p bytes] by (metis fst_conv prod.collapse repeat_step.simps(5) snd_conv)
qed (simp_all add: repeats_inv_submitted repeats_inv_dropped)

interpretation repeats_system: invariant_system repeats_start repeats_next "\<lambda>x. repeats_inv (snd x) (fst x)"
proof
  show "repeats_inv (snd x) (fst x)" if "repeats_start x" for x
  proof -
    obtain c bytes where x: "x = (fst (observe_extradata bytes (reset c)), 0)" using \<open>repeats_start x\<close>
      by (auto simp: repeats_start_def)
    have "\<not> lastWrittenShowable (reset c)" by (simp add: reset_def)
    then show ?thesis using repeats_inv_extradata [OF repeats_inv_reset] x by (metis fst_conv prod.collapse snd_conv)
  qed
  show "repeats_inv (snd t) (fst t)" if "repeats_next s t" "repeats_inv (snd s) (fst s)" for s t
    using that repeat_step_inv [of s] unfolding repeats_next_def by blast
qed

text \<open>C12: no committed repeat slot is lost. After any sequence of commits, submits, drops, disarmings and
  encoder packets, with any packet bytes, the slots committed so far are exactly those written as
  units, those left to the container's hold, and those still waiting, and the waiting count is the
  number of repeat entries in the ledger; a disarmed session never commits again and reported one
  violation; and when the last packet may be shown its unit can be written.\<close>

theorem committed_slots_accounted:
  assumes "reachable_from repeats_start repeats_next (s, commits)"
  shows "written (stats s) + st_holdSlots (stats s) + pendingShowExisting s = commits \<and>
    pendingShowExisting s = length (filter showExisting (ledger s)) \<and>
    (disarmed s \<longrightarrow> \<not> armed s \<and> violations (stats s) = 1) \<and>
    (lastWrittenShowable s \<longrightarrow> write_unit p plan s \<noteq> None)"
  using repeats_system.reachable_inv [OF assms] write_unit_succeeds [of commits s p plan]
  by (auto simp: repeats_inv_def)

definition sample_config :: repeat_config where
  "sample_config = \<lparr>cfg_enabled = True, cfg_disabledReason = '''', armAfterInterFrames = 1, maxPendingShowExisting = 2\<rparr>"

text \<open>A stream of a sequence header with a keyframe, then shown inter frames that refresh slot 0.\<close>

definition key_unit :: "u8 list" where
  "key_unit = [0x0a, 7, 0, 0, 0, 0, 0, 0, 0xe0, 0x1a, 1, 0x10]"

definition inter_unit :: "u8 list" where
  "inter_unit = [0x1a, 2, 0x38, 0x01]"

definition sample_calls :: "repeat_call list" where
  "sample_calls = [Submitted 0 True, Packet 0 key_unit, Submitted 1 False, Packet 1 inter_unit,
     Submitted 2 False, TryCommit 3 False False]"

lemma reachable_calls:
  "reachable_from repeats_start repeats_next x \<Longrightarrow>
     reachable_from repeats_start repeats_next (fold repeat_step calls x)"
proof (induction calls arbitrary: x)
  case (Cons call calls)
  have "repeats_next x (repeat_step call x)" unfolding repeats_next_def by blast
  then show ?case using Cons.IH [OF reachable_from.more [OF Cons.prems]] by simp
qed simp

lemma sample_reachable: "reachable_from repeats_start repeats_next (fold repeat_step calls (reset sample_config, 0))"
proof (intro reachable_calls reachable_from.start)
  have "observe_extradata [] (reset sample_config) = (reset sample_config, cfg_enabled (config (reset sample_config)))"
    by (simp add: observe_extradata_def)
  then show "repeats_start (reset sample_config, 0)"
    unfolding repeats_start_def by (metis fst_conv)
qed

theorem committed_slots_accounted_witness:
  "let s = fst (fold repeat_step (sample_calls @ [Packet 2 inter_unit]) (reset sample_config, 0))
   in armed s \<and> written (stats s) + st_holdSlots (stats s) + pendingShowExisting s = 1"
proof -
  obtain s n where run: "fold repeat_step (sample_calls @ [Packet 2 inter_unit]) (reset sample_config, 0) = (s, n)"
    by fastforce
  have n: "snd (fold repeat_step (sample_calls @ [Packet 2 inter_unit]) (reset sample_config, 0)) = 1"
    and armed: "armed (fst (fold repeat_step (sample_calls @ [Packet 2 inter_unit]) (reset sample_config, 0)))"
    by code_simp+
  have "written (stats s) + st_holdSlots (stats s) + pendingShowExisting s = n"
    using committed_slots_accounted [OF sample_reachable [of "sample_calls @ [Packet 2 inter_unit]", unfolded run]]
    by blast
  then show ?thesis using n armed unfolding Let_def run fst_conv snd_conv by simp
qed

section \<open>What a committed slot shows\<close>

definition unit_for :: "repeats \<Rightarrow> entry \<Rightarrow> synthetic_packet" where
  "unit_for s e = \<lparr>syn_pts = pts e, syn_bytes =
     show_existing_unit (sequence_hdr s) (lastWrittenSlot s) (refFrameId s ! lastWrittenSlot s) max_unit_bytes\<rparr>"

definition unit_ready :: "repeats \<Rightarrow> bool" where
  "unit_ready s \<longleftrightarrow> lastWrittenShowable s \<and> status (can_write_show_existing (sequence_hdr s)) = Ok \<and>
     sequence_ok (sequence_hdr s) \<and> lastWrittenSlot s < num_ref_frames"

lemma release_loop_writes:
  assumes "unit_ready s" and "release_loop es plan s = (t, plan')"
  shows "holdSlots plan' = holdSlots plan \<and> violation plan' = violation plan \<and>
    after plan' = after plan @ map (unit_for s) (takeWhile showExisting es) \<and> ledger t = dropWhile showExisting es"
  using assms
proof (induction es arbitrary: plan s)
  case (Cons e rest)
  show ?case
  proof (cases "showExisting e")
    case True
    define s1 where "s1 = s\<lparr>ledger := rest, pendingShowExisting := pendingShowExisting s - 1\<rparr>"
    define s2 where "s2 = s1\<lparr>stats := (stats s1)\<lparr>written := written (stats s1) + 1\<rparr>\<rparr>"
    have same: "unit_for s2 = unit_for s" "unit_ready s2" "unit_for s1 = unit_for s" "lastWrittenShowable s1"
      using Cons.prems(1) by (simp_all add: s2_def s1_def unit_for_def unit_ready_def fun_eq_iff)
    have "syn_bytes (unit_for s e) \<noteq> []"
      using show_existing_unit_nonempty Cons.prems(1) by (simp add: unit_for_def unit_ready_def)
    then have "write_unit (pts e) plan s1 = Some (s2, plan\<lparr>after := after plan @ [unit_for s e]\<rparr>)"
      using same(3) by (simp add: write_unit_def Let_def s2_def unit_for_def s1_def)
    then have "release_loop rest (plan\<lparr>after := after plan @ [unit_for s e]\<rparr>) s2 = (t, plan')"
      using Cons.prems(2) [unfolded release_loop.simps Let_def, folded s1_def] True same(4) by simp
    then show ?thesis using Cons.IH [OF same(2)] True same(1) by simp
  qed (use Cons.prems in auto)
qed auto

lemma lowest_slot_bit: "flags \<noteq> 0 \<Longrightarrow> lowest_slot flags old < num_ref_frames \<and> bit flags (lowest_slot flags old)"
proof -
  assume "flags \<noteq> 0"
  then obtain k where k: "bit flags k" by (metis bit_0_eq bot_apply bit_word_eqI bot_bool_def)
  then have "k < num_ref_frames" using bit_imp_le_length [of flags k] by (simp add: num_ref_frames_def)
  then have "find (bit flags) [0..<num_ref_frames] \<noteq> None" using k by (auto simp: find_None_iff)
  then obtain j where j: "find (bit flags) [0..<num_ref_frames] = Some j" by blast
  then have "j < num_ref_frames \<and> bit flags j" by (auto simp: find_Some_iff)
  then show ?thesis by (simp add: lowest_slot_def j)
qed

lemma verify_packet_showable:
  assumes parse: "parse_temporal_unit bytes (sequence_hdr s) = (r, sq, Some info)"
    and ok: "status r = Ok" "\<not> extensionSeen info" "frameHeaders info = 1" "\<not> showExistingFrame (first_frame info)"
      "status (can_write_show_existing sq) = Ok"
    and frame: "showFrame (first_frame info)" "showableFrame (first_frame info)"
      "refreshFrameFlags (first_frame info) \<noteq> 0" "frameType (first_frame info) \<noteq> Key"
    and run: "verify_packet entry bytes plan s = (t, plan', showable)"
  shows "showable \<and> plan' = plan \<and> sequence_hdr t = sq \<and> ledger t = ledger s \<and>
    bit (refreshFrameFlags (first_frame info)) (lastWrittenSlot t) \<and> lastWrittenSlot t < num_ref_frames \<and>
    refFrameId t ! lastWrittenSlot t = currentFrameId (first_frame info)"
proof -
  let ?f = "first_frame info"
  note low = lowest_slot_bit [OF frame(3), of "lastWrittenSlot s"]
  have "map (\<lambda>slot. if bit (refreshFrameFlags ?f) slot then currentFrameId ?f else refFrameId s ! slot) [0..<num_ref_frames] !
      lowest_slot (refreshFrameFlags ?f) (lastWrittenSlot s) = currentFrameId ?f"
    using low by simp
  then show ?thesis
    using run ok frame low unfolding verify_packet_def parse prod.case Let_def
    by (auto simp: verify_frame_def Let_def split: if_splits)
qed

text \<open>a committed repeat shows exactly the frame sent before it. When the encoder returns the
  packet of the frame at the ledger's head and it is a shown, showable inter frame that refreshes a
  reference slot, then, whatever state the session reached, nothing is held, the units written behind
  it are those of the repeat slots committed directly after that frame, in order and with their own
  timestamps, and each one parses as a show-existing header of a slot this very packet refreshed,
  with this frame's id.\<close>

theorem repeats_show_their_frame:
  assumes reach: "reachable_from repeats_start repeats_next (s, commits)"
    and head: "ledger s = entry # rest" "is_frame p entry"
    and parse: "parse_temporal_unit bytes (sequence_hdr s) = (r, sq, Some info)"
    and ok: "status r = Ok" "\<not> extensionSeen info" "frameHeaders info = 1" "\<not> showExistingFrame (first_frame info)"
      "status (can_write_show_existing sq) = Ok"
    and frame: "showFrame (first_frame info)" "showableFrame (first_frame info)"
      "refreshFrameFlags (first_frame info) \<noteq> 0" "frameType (first_frame info) \<noteq> Key"
    and run: "on_encoder_packet p bytes s = (t, plan)"
  shows "holdSlots plan = 0 \<and> violation plan = None \<and>
    map syn_pts (after plan) = map pts (takeWhile showExisting rest) \<and> ledger t = dropWhile showExisting rest \<and>
    (\<forall>u\<in>set (after plan). \<exists>k. bit (refreshFrameFlags (first_frame info)) k \<and>
       parse_temporal_unit (syn_bytes u) sq = (parse_ok, sq, Some (empty_unit\<lparr>frameHeaders := 1, first_frame :=
         empty_frame\<lparr>showExistingFrame := True, frameToShowMapIdx := k, currentFrameId :=
           (if frameIdNumbersPresent sq then take_bit (frameIdLength sq) (currentFrameId (first_frame info)) else 0),
           showFrame := True\<rparr>\<rparr>)))"
proof -
  have inv: "repeats_inv commits s" using repeats_system.reachable_inv [OF reach] by simp
  obtain s3 plan3 showable where three:
      "verify_packet entry bytes empty_plan (s\<lparr>ledger := rest\<rparr>) = (s3, plan3, showable)"
    by (metis prod_cases3)
  have parse': "parse_temporal_unit bytes (sequence_hdr (s\<lparr>ledger := rest\<rparr>)) = (r, sq, Some info)"
    using parse by simp
  have v: "showable" "plan3 = empty_plan" "sequence_hdr s3 = sq" "ledger s3 = rest"
      "bit (refreshFrameFlags (first_frame info)) (lastWrittenSlot s3)" "lastWrittenSlot s3 < num_ref_frames"
      "refFrameId s3 ! lastWrittenSlot s3 = currentFrameId (first_frame info)"
    using verify_packet_showable [OF parse' ok frame three] by simp_all
  have sq: "sequence_ok sq"
    using obu_loop_outcome [OF parse [unfolded parse_temporal_unit_def]] inv by (auto simp: repeats_inv_def)
  define s4 where "s4 = s3\<lparr>lastWrittenShowable := showable\<rparr>"
  have "release_loop rest empty_plan s4 = (t, plan)"
    using run head v(2,4) three
    by (simp add: on_encoder_packet_def Let_def release_following_entries_def s4_def)
  moreover have "unit_ready s4" using v sq ok(5) by (simp add: unit_ready_def s4_def)
  ultimately have out: "holdSlots plan = 0" "violation plan = None"
      "after plan = map (unit_for s4) (takeWhile showExisting rest)" "ledger t = dropWhile showExisting rest"
    using release_loop_writes [of s4 rest empty_plan t plan] by (simp_all add: empty_plan_def)
  have bytes: "parse_temporal_unit (syn_bytes (unit_for s4 e)) sq = (parse_ok, sq, Some (empty_unit\<lparr>frameHeaders := 1,
       first_frame := empty_frame\<lparr>showExistingFrame := True, frameToShowMapIdx := lastWrittenSlot s3, currentFrameId :=
         (if frameIdNumbersPresent sq then take_bit (frameIdLength sq) (currentFrameId (first_frame info)) else 0),
         showFrame := True\<rparr>\<rparr>))" for e
    using show_existing_parses_back [OF ok(5) sq v(6), of max_unit_bytes "currentFrameId (first_frame info)"] v(3,7)
    by (auto simp: unit_for_def s4_def show_existing_unit_def max_unit_bytes_def)
  have pts: "map syn_pts (map (unit_for s4) es) = map pts es" for es by (simp add: unit_for_def)
  show ?thesis using out(1,2,4) pts bytes v(5) unfolding out(3) by auto
qed

theorem repeats_show_their_frame_witness:
  "let s = fst (fold repeat_step sample_calls (reset sample_config, 0))
   in map syn_pts (after (snd (on_encoder_packet 2 inter_unit s))) = [3]"
proof -
  let ?x = "fold repeat_step sample_calls (reset sample_config, 0)"
  obtain s n where x: "?x = (s, n)" by fastforce
  have reach: "reachable_from repeats_start repeats_next (s, n)" using sample_reachable [of sample_calls] x by simp
  obtain r sq out where parse: "parse_temporal_unit inter_unit (sequence_hdr s) = (r, sq, out)" by (metis prod_cases3)
  obtain t plan where run: "on_encoder_packet 2 inter_unit s = (t, plan)" by fastforce
  have "(case ?x of (s, n) \<Rightarrow> map pts (ledger s) = [2, 3] \<and> map showExisting (ledger s) = [False, True] \<and>
      (case parse_temporal_unit inter_unit (sequence_hdr s) of (r, sq, out) \<Rightarrow> status r = Ok \<and>
        status (can_write_show_existing sq) = Ok \<and>
        (case out of None \<Rightarrow> False | Some info \<Rightarrow> \<not> extensionSeen info \<and> frameHeaders info = 1 \<and>
           \<not> showExistingFrame (first_frame info) \<and> showFrame (first_frame info) \<and> showableFrame (first_frame info) \<and>
           refreshFrameFlags (first_frame info) \<noteq> 0 \<and> frameType (first_frame info) = Inter)))"
    by code_simp
  then have facts: "map pts (ledger s) = [2, 3]" "map showExisting (ledger s) = [False, True]" "status r = Ok"
      "status (can_write_show_existing sq) = Ok"
    and "out \<noteq> None"
    and frame: "\<And>info. out = Some info \<Longrightarrow> \<not> extensionSeen info \<and> frameHeaders info = 1 \<and>
           \<not> showExistingFrame (first_frame info) \<and> showFrame (first_frame info) \<and> showableFrame (first_frame info) \<and>
           refreshFrameFlags (first_frame info) \<noteq> 0 \<and> frameType (first_frame info) = Inter"
    unfolding x prod.case parse by (auto split: option.splits)
  then obtain info where info: "out = Some info" by auto
  obtain e e' where led: "ledger s = [e, e']" "pts e = 2" "\<not> showExisting e" "pts e' = 3" "showExisting e'"
    using facts(1,2) by (auto simp: map_eq_Cons_conv)
  have "map syn_pts (after plan) = map pts (takeWhile showExisting [e'])"
    using repeats_show_their_frame [OF reach led(1) _ parse [unfolded info] facts(3) _ _ _ facts(4) _ _ _ _ run]
      frame [OF info] led(2,3) by (simp add: is_frame_def)
  then show ?thesis using x run led(4,5) by simp
qed

end
