(* ===== verification/Av1Session.thy ===== *)
theory Av1Session
  imports Av1Repeats
begin

text \<open>
  The session around the repeat ledger, \<^verbatim>\<open>mediaengine/video/av1_show_existing_session.cpp\<close>:
  eligibility, the start configuration, the keyframes the engine predicts or forces, and the packets
  handed to the sink. Values read from FFmpeg's codec context, the result of its option lookup and
  of each packet allocation are arguments; the bitrate compensation and the log lines are left out.
\<close>

record session_inputs =
  encoder :: string
  vfr :: bool
  liveOutput :: bool
  in_fps :: int
  keyframeIntervalSeconds :: int
  maxBFrames :: int
  lookaheadActive :: bool
  customOptionKeys :: "string list"

definition reference_neutral_options :: "string list" where
  "reference_neutral_options =
     [''preset'', ''tune'', ''level'', ''tier'', ''profile'', ''rc'', ''b'', ''maxrate'', ''bufsize'', ''cq'', ''qp'',
      ''multipass'', ''spatial-aq'', ''spatial_aq'', ''aq-strength'', ''split_encode_mode'', ''surfaces'', ''delay'',
      ''gpu'', ''highbitdepth'', ''weighted_pred'', ''s12m_tc'', ''qmin'', ''qmax'', ''init_qpP'', ''init_qpB'',
      ''init_qpI'']"

definition is_reference_neutral_custom_option :: "string \<Rightarrow> bool" where
  "is_reference_neutral_custom_option key \<longleftrightarrow> key \<in> set reference_neutral_options"

text \<open>\<open>idr_free\<close>: the codec has the option \<^verbatim>\<open>idr_free_bitrate_change\<close>.\<close>

definition ineligible_reason :: "session_inputs \<Rightarrow> bool \<Rightarrow> string option" where
  "ineligible_reason inputs idr_free =
     (if encoder inputs \<noteq> ''av1_nvenc'' then Some ''codec''
      else if vfr inputs then Some ''vfr''
      else if in_fps inputs \<le> 0 \<or> keyframeIntervalSeconds inputs \<le> 0 then Some ''keyframe_interval_default''
      else if maxBFrames inputs > 0 then Some ''b_frames''
      else if lookaheadActive inputs then Some ''lookahead_scene_cut_keyframes''
      else if \<exists>key\<in>set (customOptionKeys inputs). \<not> is_reference_neutral_custom_option key then Some ''custom_option''
      else if \<not> idr_free then Some ''ffmpeg_without_idr_free_bitrate_change''
      else None)"

record session =
  fps :: int
  ineligibleReason :: "string option"
  eligible :: bool
  live :: bool
  gop :: int
  capSlots :: int
  encodedAfterKey :: int
  slotsAfterKey :: int
  anySubmit :: bool
  pipelineDepth :: nat
  started :: bool
  repeats_of :: repeats
  cacheHoldsLastSubmit :: bool
  forcedKeyframes :: nat

record out_packet =
  out_pts :: int
  out_data :: "u8 list"
  out_duration :: int
  held_in_sink :: int

definition configure :: "session_inputs \<Rightarrow> bool \<Rightarrow> session \<Rightarrow> session" where
  "configure inputs idr_free s =
     (let why = ineligible_reason inputs idr_free
      in s\<lparr>started := False, fps := in_fps inputs, live := liveOutput inputs, ineligibleReason := why,
           eligible := (why = None)\<rparr>)"

definition file_pending_latency_budget_ms :: int where "file_pending_latency_budget_ms = 1000"
definition int_max :: int where "int_max = 2147483647"

text \<open>The codec context's fields are arguments, as is NVENC's answer on dynamic bitrate.\<close>

definition start_config :: "nat \<Rightarrow> int \<Rightarrow> int \<Rightarrow> int \<Rightarrow> int \<Rightarrow> session \<Rightarrow> repeat_config" where
  "start_config depth gopSize bitRate maxRate dynamicBitrate s =
     (let c = \<lparr>cfg_enabled = eligible s,
               cfg_disabledReason = (case ineligibleReason s of None \<Rightarrow> '''' | Some why \<Rightarrow> why),
               armAfterInterFrames = depth,
               maxPendingShowExisting = (if live s then depth
                 else max depth (nat (max 0 (fps s) * file_pending_latency_budget_ms div 1000)))\<rparr>;
          c = (if cfg_enabled c \<and> (gopSize < 2 \<or> gopSize > int_max div 4)
               then c\<lparr>cfg_enabled := False, cfg_disabledReason := ''gop_unknown''\<rparr> else c);
          needsCompensation = (bitRate > 0 \<or> maxRate > 0)
      in if cfg_enabled c \<and> needsCompensation \<and> dynamicBitrate \<noteq> 1
         then c\<lparr>cfg_enabled := False, cfg_disabledReason := ''no_dynamic_bitrate''\<rparr> else c)"

definition start_session :: "nat \<Rightarrow> int \<Rightarrow> int \<Rightarrow> int \<Rightarrow> int \<Rightarrow> u8 list \<Rightarrow> session \<Rightarrow> session" where
  "start_session depth gopSize bitRate maxRate dynamicBitrate extradata s =
     (let depth = max 1 depth;
          c = start_config depth gopSize bitRate maxRate dynamicBitrate s;
          r = reset c;
          r = (if cfg_enabled c \<and> extradata \<noteq> [] then fst (observe_extradata extradata r) else r)
      in s\<lparr>pipelineDepth := depth, gop := gopSize, capSlots := 2 * gopSize, encodedAfterKey := 0,
           slotsAfterKey := 0, anySubmit := False, repeats_of := r, started := True, forcedKeyframes := 0\<rparr>)"

text \<open>The second result is the frame's forced picture type, the third whether a key is expected.\<close>

definition prepare_submit :: "int \<Rightarrow> session \<Rightarrow> session \<times> bool \<times> bool" where
  "prepare_submit p s =
     (if \<not> started s then (s, False, False)
      else let key = (\<not> anySubmit s \<or> encodedAfterKey s + 1 \<ge> gop s);
               forced = (eligible s \<and> anySubmit s \<and> slotsAfterKey s + 1 \<ge> capSlots s);
               key = (key \<or> forced)
           in (s\<lparr>forcedKeyframes := forcedKeyframes s + (if forced then 1 else 0), anySubmit := True,
                 encodedAfterKey := (if key then 0 else encodedAfterKey s + 1),
                 slotsAfterKey := (if key then 0 else slotsAfterKey s + 1),
                 repeats_of := on_frame_submitted p key (repeats_of s), cacheHoldsLastSubmit := False\<rparr>, forced, key))"

definition on_submit_dropped :: "int \<Rightarrow> session \<Rightarrow> session" where
  "on_submit_dropped p s =
     (if \<not> started s then s
      else let r = on_frame_dropped p (repeats_of s)
           in s\<lparr>repeats_of := (if cfg_enabled (config r) then fst (disarm ''submit_dropped'' empty_plan r) else r)\<rparr>)"

definition note_repeat_cache :: "session \<Rightarrow> session" where
  "note_repeat_cache s = s\<lparr>cacheHoldsLastSubmit := True\<rparr>"

text \<open>\<open>alloc\<close> says whether the packet of a unit could be allocated.\<close>

definition emit_units :: "(synthetic_packet \<Rightarrow> bool) \<Rightarrow> packet_plan \<Rightarrow> out_packet list" where
  "emit_units alloc plan =
     map (\<lambda>u. \<lparr>out_pts = syn_pts u, out_data = syn_bytes u, out_duration = 1, held_in_sink = 0\<rparr>)
       (filter alloc (after plan))"

definition try_repeat :: "(synthetic_packet \<Rightarrow> bool) \<Rightarrow> int \<Rightarrow> bool \<Rightarrow> session \<Rightarrow> session \<times> out_packet list \<times> bool" where
  "try_repeat alloc p pixelsDiffer s =
     (if \<not> started s then (s, [], False)
      else let keyframeDue = (slotsAfterKey s + 1 \<ge> capSlots s)
           in case try_commit p (pixelsDiffer \<or> \<not> cacheHoldsLastSubmit s) keyframeDue empty_plan (repeats_of s) of
                (r, plan, why) \<Rightarrow>
                  (case why of
                     Some _ \<Rightarrow> (s\<lparr>repeats_of := r\<rparr>, [], False)
                   | None \<Rightarrow> (s\<lparr>repeats_of := r, slotsAfterKey := slotsAfterKey s + 1\<rparr>, emit_units alloc plan, True)))"

definition write_packet :: "(synthetic_packet \<Rightarrow> bool) \<Rightarrow> int \<Rightarrow> u8 list \<Rightarrow> int \<Rightarrow> session \<Rightarrow> session \<times> out_packet list" where
  "write_packet alloc p bytes duration s =
     (if \<not> started s
      then (s, [\<lparr>out_pts = p, out_data = bytes, out_duration = duration, held_in_sink = 0\<rparr>])
      else case on_encoder_packet p bytes (repeats_of s) of
             (r, plan) \<Rightarrow>
               let hold = int (holdSlots plan)
               in (s\<lparr>repeats_of := r\<rparr>,
                   \<lparr>out_pts = p, out_data = bytes, out_duration = held_packet_duration duration hold,
                     held_in_sink = max 0 hold\<rparr> # emit_units alloc plan))"

section \<open>Keyframe distance\<close>

text \<open>The calls of a recording; the trace has one entry per output slot, true for a key.\<close>

datatype session_call =
  Prepare int
| DropSubmit int
| NoteCache
| Repeat int bool
| WritePacket int "u8 list" int

fun session_step :: "(synthetic_packet \<Rightarrow> bool) \<Rightarrow> session_call \<Rightarrow> session \<times> bool list \<Rightarrow> session \<times> bool list" where
  "session_step alloc (Prepare p) (s, tr) = (case prepare_submit p s of (s, _, key) \<Rightarrow> (s, tr @ [key]))"
| "session_step alloc (DropSubmit p) (s, tr) = (on_submit_dropped p s, tr)"
| "session_step alloc NoteCache (s, tr) = (note_repeat_cache s, tr)"
| "session_step alloc (Repeat p differ) (s, tr) =
     (case try_repeat alloc p differ s of (s, _, committed) \<Rightarrow> (s, if committed then tr @ [False] else tr))"
| "session_step alloc (WritePacket p bytes duration) (s, tr) = (fst (write_packet alloc p bytes duration s), tr)"

definition slots_since_key :: "bool list \<Rightarrow> nat" where
  "slots_since_key tr = length (takeWhile Not (rev tr))"

lemma slots_since_key_append [simp]:
  "slots_since_key (tr @ [True]) = 0" "slots_since_key (tr @ [False]) = slots_since_key tr + 1"
  by (simp_all add: slots_since_key_def)

definition session_inv :: "session \<times> bool list \<Rightarrow> bool" where
  "session_inv x \<longleftrightarrow> (case x of (s, tr) \<Rightarrow>
     started s \<and> 1 \<le> gop s \<and> capSlots s = 2 * gop s \<and> 0 \<le> encodedAfterKey s \<and> encodedAfterKey s < gop s \<and>
     slotsAfterKey s < capSlots s \<and> slotsAfterKey s = int (slots_since_key tr) \<and>
     (\<not> eligible s \<longrightarrow> \<not> cfg_enabled (config (repeats_of s)) \<and> slotsAfterKey s \<le> encodedAfterKey s) \<and>
     (\<forall>i. i + nat (capSlots s) \<le> length tr \<longrightarrow> (\<exists>j\<ge>i. j < i + nat (capSlots s) \<and> tr ! j)))"

text \<open>The ledger's configuration only ever changes by a disabling, which no call below makes.\<close>

lemma disarm_config: "config (fst (disarm why plan s)) = config s"
  by (simp add: disarm_def)

lemma write_unit_config: "write_unit p plan s = Some (t, plan') \<Longrightarrow> config t = config s"
  by (auto simp: write_unit_def Let_def split: if_splits)

lemma hold_slot_config: "config (fst (hold_slot why plan s)) = config s"
  by (simp add: hold_slot_def disarm_config)

lemma release_loop_config: "config (fst (release_loop es plan s)) = config s"
proof (induction es plan s rule: release_loop.induct)
  case (2 e rest plan s)
  show ?case
  proof (cases "showExisting e")
    case False
    then show ?thesis by simp
  next
    case True
    define s1 where "s1 = s\<lparr>ledger := rest, pendingShowExisting := pendingShowExisting s - 1\<rparr>"
    have c1: "config s1 = config s" by (simp add: s1_def)
    show ?thesis
    proof (cases "lastWrittenShowable s1")
      case False
      obtain s2 plan2 where h: "hold_slot ''committed_repeat_unshowable'' plan s1 = (s2, plan2)" by fastforce
      have "config s2 = config s" using hold_slot_config [of "''committed_repeat_unshowable''" plan s1] h c1 by simp
      moreover have "config (fst (release_loop rest plan2 s2)) = config s2"
        using "2.IH"(1) [unfolded not_not, OF True s1_def False h [symmetric]] .
      ultimately show ?thesis using True False h unfolding release_loop.simps Let_def s1_def [symmetric] by simp
    next
      case show_ok: True
      show ?thesis
      proof (cases "write_unit (pts e) plan s1")
        case None
        obtain s2 plan2 where h: "hold_slot ''show_existing_unwritable'' plan s1 = (s2, plan2)" by fastforce
        have "config s2 = config s" using hold_slot_config [of "''show_existing_unwritable''" plan s1] h c1 by simp
        moreover have "config (fst (release_loop rest plan2 s2)) = config s2"
          using "2.IH"(2) [unfolded not_not, OF True s1_def show_ok None h [symmetric]] .
        ultimately show ?thesis using True show_ok None h unfolding release_loop.simps Let_def s1_def [symmetric] by simp
      next
        case (Some x)
        obtain s2 plan2 where x: "x = (s2, plan2)" by fastforce
        have "config s2 = config s" using write_unit_config Some x c1 by fastforce
        moreover have "config (fst (release_loop rest plan2 s2)) = config s2"
          using "2.IH"(3) [unfolded not_not, OF True s1_def show_ok Some x [symmetric]] .
        ultimately show ?thesis using True show_ok Some x unfolding release_loop.simps Let_def s1_def [symmetric] by simp
      qed
    qed
  qed
qed simp

lemma verify_frame_config: "config (fst (verify_frame entry frame plan s)) = config s"
proof -
  have d: "config (fst (case disarm why plan x of (s, plan) \<Rightarrow> (s, plan, b))) = config x" for why plan x and b :: bool
    using disarm_config [of why plan x] by (cases "disarm why plan x") simp
  show ?thesis by (simp add: verify_frame_def Let_def d)
qed

lemma verify_packet_config: "config (fst (verify_packet entry bytes plan s)) = config s"
proof -
  obtain r sq out where p: "parse_temporal_unit bytes (sequence_hdr s) = (r, sq, out)" by (metis prod_cases3)
  have d: "config (fst (case disarm why plan x of (s, plan) \<Rightarrow> (s, plan, False))) = config x" for why plan x
    using disarm_config [of why plan x] by (cases "disarm why plan x") simp
  show ?thesis unfolding verify_packet_def p prod.case Let_def by (simp add: d verify_frame_config)
qed

lemma on_encoder_packet_config: "config (fst (on_encoder_packet p bytes s)) = config s"
proof (cases "dropWhile (\<lambda>e. \<not> is_frame p e) (ledger s)")
  case Nil
  then show ?thesis unfolding on_encoder_packet_def Let_def Nil list.case by (simp add: disarm_config)
next
  case (Cons entry rest)
  have one: "config (fst (if c then disarm why plan x else (x, plan))) = config x" for c why plan x
    by (simp add: disarm_config)
  have two: "config (fst (case y of (s, plan) \<Rightarrow> (case verify_packet entry bytes plan (s\<lparr>ledger := rest\<rparr>) of
      (s, plan, showable) \<Rightarrow> release_following_entries plan (s\<lparr>lastWrittenShowable := showable\<rparr>)))) = config (fst y)" for y
  proof -
    obtain u q where y: "y = (u, q)" by fastforce
    obtain v q' b where v: "verify_packet entry bytes q (u\<lparr>ledger := rest\<rparr>) = (v, q', b)" by (metis prod_cases3)
    have "config v = config u" using verify_packet_config [of entry bytes q "u\<lparr>ledger := rest\<rparr>"] v by simp
    then show ?thesis by (simp add: y v release_following_entries_def release_loop_config)
  qed
  show ?thesis
  proof (cases "ledger s = [] \<and> \<not> cfg_enabled (config s)")
    case True
    then show ?thesis by (simp add: on_encoder_packet_def)
  next
    case False
    show ?thesis unfolding on_encoder_packet_def Let_def Cons list.case if_not_P [OF False] two one by simp
  qed
qed

lemma try_commit_config:
  assumes "try_commit p differ due plan s = (t, plan', why)"
  shows "config t = config s" and "why = None \<Longrightarrow> cfg_enabled (config s) \<and> \<not> due"
proof -
  have "config t = config s \<and> (why = None \<longrightarrow> cfg_enabled (config s) \<and> \<not> due)"
  proof (cases "write_unit p plan s")
    case None
    obtain s2 plan2 where d: "disarm ''show_existing_unwritable'' plan s = (s2, plan2)" by fastforce
    have "config s2 = config s" using disarm_config [of "''show_existing_unwritable''" plan s] d by simp
    then show ?thesis
      using assms unfolding try_commit_def Let_def None option.case d prod.case
      by (auto simp: count_reencode_def split: if_splits)
  next
    case (Some x)
    obtain s2 plan2 where x: "x = (s2, plan2)" by fastforce
    have "config s2 = config s" using write_unit_config Some x by fastforce
    then show ?thesis
      using assms unfolding try_commit_def Let_def Some x option.case prod.case
      by (auto simp: count_reencode_def split: if_splits)
  qed
  then show "config t = config s" and "why = None \<Longrightarrow> cfg_enabled (config s) \<and> \<not> due" by simp_all
qed

lemma window_extend:
  assumes "\<forall>i. i + m \<le> length tr \<longrightarrow> (\<exists>j\<ge>i. j < i + m \<and> tr ! j)" and "slots_since_key (tr @ [b]) < m"
  shows "\<forall>i. i + m \<le> length (tr @ [b]) \<longrightarrow> (\<exists>j\<ge>i. j < i + m \<and> (tr @ [b]) ! j)"
proof (intro allI impI)
  fix i assume i: "i + m \<le> length (tr @ [b])"
  show "\<exists>j\<ge>i. j < i + m \<and> (tr @ [b]) ! j"
  proof (cases "i + m \<le> length tr")
    case True
    then obtain j where "j \<ge> i" "j < i + m" "tr ! j" using assms(1) by blast
    then show ?thesis using True by (intro exI [of _ j]) (simp add: nth_append)
  next
    case False
    then have end_at: "i + m = length (tr @ [b])" using i by simp
    let ?r = "rev (tr @ [b])" and ?k = "slots_since_key (tr @ [b])"
    have k: "?k < length ?r" using assms(2) end_at unfolding length_rev by linarith
    then have "?r ! ?k" unfolding slots_since_key_def using nth_length_takeWhile [of Not ?r] by blast
    then have "(tr @ [b]) ! (length (tr @ [b]) - Suc ?k)" using rev_nth [of ?k "tr @ [b]"] k by simp
    moreover have "i \<le> length (tr @ [b]) - Suc ?k" "length (tr @ [b]) - Suc ?k < i + m"
      using end_at assms(2) k by linarith+
    ultimately show ?thesis by blast
  qed
qed

lemma session_inv_step:
  assumes "session_inv x"
  shows "session_inv (session_step alloc call x)"
proof -
  obtain s tr where x: "x = (s, tr)" by fastforce
  have inv: "started s" "1 \<le> gop s" "capSlots s = 2 * gop s" "0 \<le> encodedAfterKey s" "encodedAfterKey s < gop s"
      "slotsAfterKey s < capSlots s" "slotsAfterKey s = int (slots_since_key tr)"
      "\<not> eligible s \<longrightarrow> \<not> cfg_enabled (config (repeats_of s)) \<and> slotsAfterKey s \<le> encodedAfterKey s"
      "\<forall>i. i + nat (capSlots s) \<le> length tr \<longrightarrow> (\<exists>j\<ge>i. j < i + nat (capSlots s) \<and> tr ! j)"
    using assms unfolding session_inv_def x prod.case by blast+
  show ?thesis
  proof (cases call)
    case (Prepare p)
    let ?forced = "eligible s \<and> anySubmit s \<and> slotsAfterKey s + 1 \<ge> capSlots s"
    let ?key = "(\<not> anySubmit s \<or> encodedAfterKey s + 1 \<ge> gop s) \<or> ?forced"
    have next_slot: "\<not> ?key \<Longrightarrow> slotsAfterKey s + 1 < capSlots s \<and> encodedAfterKey s + 1 < gop s"
      using inv(2-6,8) by (cases "eligible s") auto
    have same: "config (on_frame_submitted p k (repeats_of s)) = config (repeats_of s)" for k
      by (simp add: on_frame_submitted_def Let_def)
    define K where "K = ?key"
    have "prepare_submit p s = (s\<lparr>forcedKeyframes := forcedKeyframes s + (if ?forced then 1 else 0), anySubmit := True,
        encodedAfterKey := (if K then 0 else encodedAfterKey s + 1),
        slotsAfterKey := (if K then 0 else slotsAfterKey s + 1),
        repeats_of := on_frame_submitted p K (repeats_of s), cacheHoldsLastSubmit := False\<rparr>, ?forced, K)"
      unfolding prepare_submit_def Let_def K_def using inv(1) by simp
    then have run: "session_step alloc call x = (s\<lparr>forcedKeyframes := forcedKeyframes s + (if ?forced then 1 else 0), anySubmit := True,
        encodedAfterKey := (if K then 0 else encodedAfterKey s + 1),
        slotsAfterKey := (if K then 0 else slotsAfterKey s + 1),
        repeats_of := on_frame_submitted p K (repeats_of s), cacheHoldsLastSubmit := False\<rparr>, tr @ [K])"
      by (simp add: x Prepare)
    have next_slot: "\<not> K \<Longrightarrow> slotsAfterKey s + 1 < capSlots s \<and> encodedAfterKey s + 1 < gop s"
      using next_slot by (simp add: K_def)
    have "slots_since_key (tr @ [K]) < nat (capSlots s)"
      using next_slot inv(2,3,7) by (cases K) auto
    then have win: "\<forall>i. i + nat (capSlots s) \<le> length (tr @ [K]) \<longrightarrow>
        (\<exists>j\<ge>i. j < i + nat (capSlots s) \<and> (tr @ [K]) ! j)"
      by (rule window_extend [OF inv(9)])
    have count: "int (slots_since_key (tr @ [K])) = (if K then 0 else slotsAfterKey s + 1)"
      using inv(7) by (cases K) simp_all
    show ?thesis
      unfolding run session_inv_def prod.case using win count inv(1-8) next_slot
      by (cases K) (simp_all add: same del: length_append)
  next
    case (DropSubmit p)
    have "config (repeats_of (on_submit_dropped p s)) = config (repeats_of s)"
      by (simp add: on_submit_dropped_def Let_def disarm_config on_frame_dropped_def)
    then show ?thesis using inv unfolding x DropSubmit
      by (simp add: session_inv_def on_submit_dropped_def Let_def)
  next
    case NoteCache
    then show ?thesis using inv unfolding x by (simp add: session_inv_def note_repeat_cache_def)
  next
    case (Repeat p differ)
    obtain r plan why where c: "try_commit p (differ \<or> \<not> cacheHoldsLastSubmit s) (slotsAfterKey s + 1 \<ge> capSlots s)
        empty_plan (repeats_of s) = (r, plan, why)" by (metis prod_cases3)
    note conf = try_commit_config [OF c]
    show ?thesis
    proof (cases why)
      case None
      have due: "slotsAfterKey s + 1 < capSlots s" "eligible s" using conf(2) None inv(8) by auto
      then have "slots_since_key (tr @ [False]) < nat (capSlots s)" using inv(7) by simp
      note win = window_extend [OF inv(9) this]
      have run: "session_step alloc call x = (s\<lparr>repeats_of := r, slotsAfterKey := slotsAfterKey s + 1\<rparr>, tr @ [False])"
        unfolding x Repeat session_step.simps try_repeat_def Let_def c prod.case None option.case
        using inv(1) by simp
      show ?thesis unfolding run session_inv_def prod.case using inv(1-8) due win
        by (simp add: conf(1) del: length_append)
    next
      case (Some why')
      have run: "session_step alloc call x = (s\<lparr>repeats_of := r\<rparr>, tr)"
        unfolding x Repeat session_step.simps try_repeat_def Let_def c prod.case Some option.case
        using inv(1) by simp
      show ?thesis unfolding run session_inv_def prod.case using inv by (simp add: conf(1))
    qed
  next
    case (WritePacket p bytes duration)
    obtain r plan where c: "on_encoder_packet p bytes (repeats_of s) = (r, plan)" by fastforce
    have "config r = config (repeats_of s)" using on_encoder_packet_config [of p bytes "repeats_of s"] c by simp
    then show ?thesis using inv unfolding x WritePacket by (simp add: session_inv_def write_packet_def c Let_def)
  qed
qed

definition session_start :: "session \<times> bool list \<Rightarrow> bool" where
  "session_start x \<longleftrightarrow> (\<exists>depth gopSize bitRate maxRate dynamicBitrate extradata s. 1 \<le> gopSize \<and>
     x = (start_session depth gopSize bitRate maxRate dynamicBitrate extradata s, []))"

definition session_next :: "session \<times> bool list \<Rightarrow> session \<times> bool list \<Rightarrow> bool" where
  "session_next x y \<longleftrightarrow> (\<exists>alloc call. y = session_step alloc call x)"

lemma session_inv_start:
  assumes "1 \<le> gopSize"
  shows "session_inv (start_session depth gopSize bitRate maxRate dynamicBitrate extradata s, [])"
proof -
  define c where "c = start_config (max 1 depth) gopSize bitRate maxRate dynamicBitrate s"
  have "\<not> eligible s \<Longrightarrow> \<not> cfg_enabled c"
    by (simp add: c_def start_config_def Let_def)
  then show ?thesis
    using assms unfolding session_inv_def start_session_def Let_def c_def [symmetric]
    by (simp add: slots_since_key_def reset_def)
qed

interpretation session_system: invariant_system session_start session_next session_inv
proof
  show "session_inv x" if "session_start x" for x
    using that session_inv_start by (auto simp: session_start_def)
  show "session_inv t" if "session_next s t" "session_inv s" for s t
    using that session_inv_step unfolding session_next_def by blast
qed

text \<open>C13: repeats never stretch a group of pictures without bound. From a start with any encoder GOP
  of at least one frame, eligible or not, through any order of submits, drops, repeats and packets,
  every window of \<^verbatim>\<open>capSlots_\<close> consecutive output slots contains a slot the session expects or
  forces to be a key, where \<^verbatim>\<open>capSlots_\<close> is twice the encoder's GOP.\<close>

theorem keyframe_distance_bounded:
  assumes "reachable_from session_start session_next (s, slots)"
    and "i + nat (capSlots s) \<le> length slots"
  shows "capSlots s = 2 * gop s \<and> (\<exists>j\<ge>i. j < i + nat (capSlots s) \<and> slots ! j)"
  using session_system.reachable_inv [OF assms(1)] assms(2) unfolding session_inv_def prod.case by blast

definition plain_session :: session where
  "plain_session = \<lparr>fps = 60, ineligibleReason = None, eligible = True, live = False, gop = 0, capSlots = 0,
     encodedAfterKey = 0, slotsAfterKey = 0, anySubmit = False, pipelineDepth = 1, started = False,
     repeats_of = reset sample_config, cacheHoldsLastSubmit = False, forcedKeyframes = 0\<rparr>"

theorem keyframe_distance_bounded_witness:
  "\<exists>s slots. reachable_from session_start session_next (s, slots) \<and> length slots = 4 \<and> capSlots s = 4 \<and>
     (\<exists>j<4. slots ! j)"
proof -
  let ?x0 = "(start_session 1 2 0 0 0 [] plain_session, [])"
  let ?next = "\<lambda>p. session_step (\<lambda>_. True) (Prepare p)"
  have first: "session_start ?x0"
    unfolding session_start_def
    by (rule exI [of _ 1], rule exI [of _ 2], rule exI [of _ 0], rule exI [of _ 0], rule exI [of _ 0],
        rule exI [of _ "[]"], rule exI [of _ plain_session]) simp
  have start: "reachable_from session_start session_next ?x0"
    using first by (rule reachable_from.start)
  have more: "reachable_from session_start session_next (?next p x)"
    if "reachable_from session_start session_next x" for p x
    using that by (rule reachable_from.more) (force simp: session_next_def)
  obtain s slots where x: "?next 3 (?next 2 (?next 1 (?next 0 ?x0))) = (s, slots)" by fastforce
  have reach: "reachable_from session_start session_next (s, slots)"
    using more [OF more [OF more [OF more [OF start]]], of 3 2 1 0] x by simp
  have "case ?next 3 (?next 2 (?next 1 (?next 0 ?x0))) of (s, slots) \<Rightarrow> length slots = 4 \<and> capSlots s = 4"
    by code_simp
  then have len: "length slots = 4" "capSlots s = 4" unfolding x by simp_all
  have "\<exists>j\<ge>0. j < 0 + nat (capSlots s) \<and> slots ! j"
    using keyframe_distance_bounded [OF reach, of 0] len by simp
  then show ?thesis using reach len by (intro exI [of _ s] exI [of _ slots]) auto
qed

end
