(* ===== verification/MuxInvariants.thy ===== *)
theory MuxInvariants
  imports Prelude
begin

text \<open>
  The muxer's arithmetic and its decisions about a finished output file
  (\<open>src/mediaengine/mux/mux_invariants.h\<close>): which recordings are kept, the finalize progress
  watch, stream validation before the header, duration tolerances, the CFR/audio lattice and the
  packet timeline that is compared with the target duration.

  Signed 64-bit values are \<^typ>\<open>int\<close>; unsigned ones are \<^typ>\<open>nat\<close> with the wrap-around of the
  source written out.  Sums of signed microsecond values that would overflow \<open>int64_t\<close>
  (undefined in C++) are the exact sum here.
\<close>

section \<open>Publishing a finished output\<close>

datatype header_issue = NoIssue | MissingStream | MissingCodecParams | InvalidTimeBase

datatype video_disposition =
    Publish | DiscardCancelled | DiscardNoVideo | PublishAfterFinalizeFailure | PublishAfterCancel

definition select_video_output_disposition ::
    "bool \<Rightarrow> int \<Rightarrow> int \<Rightarrow> int \<Rightarrow> nat \<Rightarrow> video_disposition" where
  "select_video_output_disposition cancellationRequested trailerResult closeResult finalDurationUs
       writtenVideoPackets =
     (if writtenVideoPackets = 0 then
        (if cancellationRequested then DiscardCancelled else DiscardNoVideo)
      else if cancellationRequested then PublishAfterCancel
      else if trailerResult < 0 \<or> closeResult < 0 \<or> finalDurationUs \<le> 0 then
        PublishAfterFinalizeFailure
      else Publish)"

definition is_output_io_deadline_expired :: "nat \<Rightarrow> nat \<Rightarrow> bool" where
  "is_output_io_deadline_expired deadlineMs nowMs \<longleftrightarrow> deadlineMs \<noteq> 0 \<and> nowMs \<ge> deadlineMs"

definition live_output_io_timeout_ms :: nat where
  "live_output_io_timeout_ms = 5000"

definition local_output_io_timeout_ms :: nat where
  "local_output_io_timeout_ms = 30000"

definition writer_finalize_stall_timeout_ms :: nat where
  "writer_finalize_stall_timeout_ms = local_output_io_timeout_ms + 15000"

record progress_watch =
  lastProgress :: nat
  lastProgressTickMs :: nat

definition watch_begin :: "nat \<Rightarrow> nat \<Rightarrow> progress_watch \<Rightarrow> progress_watch" where
  "watch_begin progress nowMs w = w\<lparr>lastProgress := progress, lastProgressTickMs := nowMs\<rparr>"

definition watch_observe :: "nat \<Rightarrow> nat \<Rightarrow> progress_watch \<Rightarrow> progress_watch \<times> nat" where
  "watch_observe progress nowMs w =
     (let w = (if progress \<noteq> lastProgress w
               then w\<lparr>lastProgress := progress, lastProgressTickMs := nowMs\<rparr> else w)
      in (w, if nowMs \<ge> lastProgressTickMs w then nowMs - lastProgressTickMs w else 0))"

definition is_writer_finalize_stalled :: "nat \<Rightarrow> bool" where
  "is_writer_finalize_stalled idleMs \<longleftrightarrow> idleMs \<ge> writer_finalize_stall_timeout_ms"

definition is_finalized_output_degraded :: "nat \<Rightarrow> nat \<Rightarrow> bool \<Rightarrow> bool \<Rightarrow> bool" where
  "is_finalized_output_degraded muxOutputErrors hdrMetadataDrops cfrCoverageIncomplete
       finalizeTimedOut \<longleftrightarrow>
     muxOutputErrors > 0 \<or> hdrMetadataDrops > 0 \<or> cfrCoverageIncomplete \<or> finalizeTimedOut"

definition should_publish_video_output :: "video_disposition \<Rightarrow> bool" where
  "should_publish_video_output d \<longleftrightarrow>
     d = Publish \<or> d = PublishAfterFinalizeFailure \<or> d = PublishAfterCancel"

definition should_publish_audio_only_output :: "bool \<Rightarrow> bool \<Rightarrow> nat \<Rightarrow> bool" where
  "should_publish_audio_only_output trailerSucceeded closeSucceeded writtenPackets \<longleftrightarrow>
     writtenPackets > 0 \<or> (trailerSucceeded \<and> closeSucceeded)"

fun video_output_disposition_to_string :: "video_disposition \<Rightarrow> string" where
  "video_output_disposition_to_string Publish = ''publish''"
| "video_output_disposition_to_string DiscardCancelled = ''cancelled-before-live''"
| "video_output_disposition_to_string PublishAfterFinalizeFailure = ''publish-after-finalize-failure''"
| "video_output_disposition_to_string PublishAfterCancel = ''publish-after-cancel''"
| "video_output_disposition_to_string DiscardNoVideo = ''no-video-packets''"

definition validate_stream_for_header :: "bool \<Rightarrow> bool \<Rightarrow> int \<Rightarrow> int \<Rightarrow> header_issue" where
  "validate_stream_for_header hasStream hasCodecParams timeBaseNum timeBaseDen =
     (if \<not> hasStream then MissingStream
      else if \<not> hasCodecParams then MissingCodecParams
      else if timeBaseNum \<le> 0 \<or> timeBaseDen \<le> 0 then InvalidTimeBase
      else NoIssue)"

fun header_validation_issue_to_string :: "header_issue \<Rightarrow> string" where
  "header_validation_issue_to_string NoIssue = ''none''"
| "header_validation_issue_to_string MissingStream = ''missing stream''"
| "header_validation_issue_to_string MissingCodecParams = ''missing codec parameters''"
| "header_validation_issue_to_string InvalidTimeBase = ''invalid time base''"

section \<open>Durations\<close>

definition compute_duration_delta_us :: "int \<Rightarrow> int \<Rightarrow> int" where
  "compute_duration_delta_us lhsUs rhsUs = (if lhsUs \<ge> rhsUs then lhsUs - rhsUs else rhsUs - lhsUs)"

definition is_duration_within_tolerance_us :: "int \<Rightarrow> int \<Rightarrow> int \<Rightarrow> bool" where
  "is_duration_within_tolerance_us lhsUs rhsUs toleranceUs \<longleftrightarrow>
     compute_duration_delta_us lhsUs rhsUs \<le> (if toleranceUs < 0 then 0 else toleranceUs)"

definition ceil_duration_unit_us :: "int \<Rightarrow> int \<Rightarrow> int" where
  "ceil_duration_unit_us numerator denominator =
     (if numerator \<le> 0 \<or> denominator \<le> 0 then 0
      else (numerator * 1000000 + denominator - 1) sdiv denominator)"

definition compute_audio_mux_rounding_tolerance_us :: "int \<Rightarrow> int \<Rightarrow> int \<Rightarrow> int" where
  "compute_audio_mux_rounding_tolerance_us sampleRate timeBaseNum timeBaseDen =
     (let t = 1;
          t = (if sampleRate > 0 then max t (ceil_duration_unit_us 1 sampleRate) else t)
      in (if timeBaseNum > 0 \<and> timeBaseDen > 0
          then max t (ceil_duration_unit_us timeBaseNum timeBaseDen) else t))"

definition compute_audio_padding_duration_us :: "nat \<Rightarrow> int \<Rightarrow> int" where
  "compute_audio_padding_duration_us samples sampleRate =
     (if samples = 0 \<or> sampleRate \<le> 0 then 0
      else to_int64 (wrap64 (wrap64 (samples * 1000000) + nat sampleRate div 2)
                       div nat sampleRate))"

definition compute_decoded_audio_duration_us :: "int \<Rightarrow> int \<Rightarrow> nat \<Rightarrow> nat \<Rightarrow> int" where
  "compute_decoded_audio_duration_us packetCoverageDurationUs sampleRate initialPaddingSamples
       terminalPaddingSamples =
     (if packetCoverageDurationUs \<le> 0 then 0
      else let paddingUs = compute_audio_padding_duration_us
                 (wrap64 (initialPaddingSamples + terminalPaddingSamples)) sampleRate
           in max 0 (packetCoverageDurationUs - paddingUs))"

definition compute_residual_terminal_discard_samples :: "nat \<Rightarrow> int \<Rightarrow> int \<Rightarrow> nat" where
  "compute_residual_terminal_discard_samples endSkipSamples terminalPacketDurationSamples
       frameSamples =
     (if terminalPacketDurationSamples \<le> 0 \<or> frameSamples \<le> terminalPacketDurationSamples
      then endSkipSamples
      else let impliedByDuration = nat (frameSamples - terminalPacketDurationSamples)
           in (if endSkipSamples > impliedByDuration
               then endSkipSamples - impliedByDuration else 0))"

section \<open>The CFR/audio lattice\<close>

text \<open>One iteration of the loop over the sample rates; \<^const>\<open>None\<close> is its early \<open>return 0\<close>.\<close>

definition lattice_step :: "int \<Rightarrow> int \<Rightarrow> int \<Rightarrow> int option" where
  "lattice_step fps quantum sampleRate =
     (if sampleRate \<le> 0 then Some quantum
      else let rateQuantum = fps sdiv gcd fps sampleRate;
               divisor = gcd quantum rateQuantum
           in (if quantum > int64_max sdiv (rateQuantum sdiv divisor) then None
               else Some (quantum * (rateQuantum sdiv divisor))))"

primrec lattice_loop :: "int \<Rightarrow> int list \<Rightarrow> int \<Rightarrow> int option" where
  "lattice_loop fps [] quantum = Some quantum"
| "lattice_loop fps (r # rs) quantum =
     (case lattice_step fps quantum r of None \<Rightarrow> None | Some q \<Rightarrow> lattice_loop fps rs q)"

definition compute_cfr_audio_lattice_frame_quantum :: "int \<Rightarrow> int list \<Rightarrow> int" where
  "compute_cfr_audio_lattice_frame_quantum fps sampleRates =
     (if fps \<le> 0 then 0
      else case lattice_loop fps sampleRates 1 of None \<Rightarrow> 0 | Some q \<Rightarrow> q)"

definition compute_cfr_audio_lattice_extension_frames :: "int \<Rightarrow> int \<Rightarrow> int" where
  "compute_cfr_audio_lattice_extension_frames frameCount frameQuantum =
     (if frameCount < 0 \<or> frameQuantum \<le> 0 then 0
      else let remainder = frameCount smod frameQuantum
           in (if remainder = 0 then 0 else frameQuantum - remainder))"

definition choose_post_mux_stream_start_us :: "int \<Rightarrow> bool \<Rightarrow> int \<Rightarrow> bool \<Rightarrow> int" where
  "choose_post_mux_stream_start_us streamStartUs hasStreamStart firstPacketStartUs
       hasFirstPacketStart =
     (if hasStreamStart \<and> hasFirstPacketStart then min streamStartUs firstPacketStartUs
      else if hasStreamStart then streamStartUs
      else if hasFirstPacketStart then firstPacketStartUs
      else 0)"

section \<open>The packet timeline\<close>

record packet_timeline =
  seen :: bool
  packetCount :: u32
  firstStartUs :: int
  lastStartUs :: int
  lastEndUs :: int
  lastDecodedEndUs :: int
  maxForwardStartGapUs :: int
  maxPacketDurationSamples :: int

definition empty_timeline :: packet_timeline where
  "empty_timeline = \<lparr>seen = False, packetCount = 0, firstStartUs = 0, lastStartUs = 0, lastEndUs = 0,
     lastDecodedEndUs = 0, maxForwardStartGapUs = 0, maxPacketDurationSamples = 0\<rparr>"

definition compute_packet_end_us :: "int \<Rightarrow> int \<Rightarrow> int" where
  "compute_packet_end_us packetStartUs packetDurationUs = max 0 packetStartUs + max 0 packetDurationUs"

definition observe_packet_timeline :: "packet_timeline \<Rightarrow> int \<Rightarrow> int \<Rightarrow> int \<Rightarrow> packet_timeline" where
  "observe_packet_timeline s packetStartUs packetDurationUs terminalDiscardUs =
     (let clampedStartUs = max 0 packetStartUs;
          packetEndUs = compute_packet_end_us packetStartUs packetDurationUs;
          s = (if \<not> seen s then
                 s\<lparr>seen := True, firstStartUs := clampedStartUs, lastStartUs := clampedStartUs\<rparr>
               else if clampedStartUs \<ge> lastStartUs s then
                 s\<lparr>maxForwardStartGapUs := max (maxForwardStartGapUs s) (clampedStartUs - lastStartUs s),
                   lastStartUs := clampedStartUs\<rparr>
               else s)
      in s\<lparr>packetCount := packetCount s + 1,
           lastEndUs := max (lastEndUs s) packetEndUs,
           lastDecodedEndUs :=
             max (lastDecodedEndUs s) (max 0 (packetEndUs - max 0 terminalDiscardUs))\<rparr>)"

definition packet_timeline_exceeds_target :: "packet_timeline \<Rightarrow> int \<Rightarrow> int \<Rightarrow> bool" where
  "packet_timeline_exceeds_target s targetDurationUs toleranceUs \<longleftrightarrow>
     (if \<not> seen s then False else lastEndUs s > targetDurationUs + max 0 toleranceUs)"



section \<open>The lattice extension is minimal\<close>

lemma dvd_mult_gcd_iff:
  fixes a n r :: int
  assumes "0 < a"
  shows "a dvd n * r \<longleftrightarrow> a div gcd a r dvd n"
proof -
  define g where "g = gcd a r"
  define k where "k = a div g"
  define m where "m = r div g"
  have g: "0 < g" using assms by (simp add: g_def)
  have a: "a = g * k" and r: "r = g * m" by (simp_all add: g_def k_def m_def)
  have "coprime k m" using assms unfolding k_def m_def g_def by (intro div_gcd_coprime) auto
  then have "k dvd n * m \<longleftrightarrow> k dvd n" by (rule coprime_dvd_mult_left_iff)
  moreover have "a dvd n * r \<longleftrightarrow> k dvd n * m"
  proof -
    have "n * r = g * (n * m)" using r by simp
    then show ?thesis using a g by (metis dvd_mult_cancel_left order_less_irrefl)
  qed
  ultimately show ?thesis by (simp add: k_def g_def)
qed

definition on_lattice :: "int \<Rightarrow> int list \<Rightarrow> int \<Rightarrow> bool" where
  "on_lattice fps sampleRates n \<longleftrightarrow> list_all (\<lambda>r. 0 < r \<longrightarrow> fps dvd n * r) sampleRates"

lemma on_lattice_Cons [simp]:
  "on_lattice fps (r # rs) n \<longleftrightarrow> (0 < r \<longrightarrow> fps dvd n * r) \<and> on_lattice fps rs n"
  "on_lattice fps [] n"
  by (simp_all add: on_lattice_def)

lemma lattice_step_spec:
  assumes "0 < fps" "0 < q" "q \<le> int64_max"
  shows "case lattice_step fps q r of
      None \<Rightarrow> \<forall>n. 0 < n \<and> n \<le> int64_max \<longrightarrow> \<not> (q dvd n \<and> (0 < r \<longrightarrow> fps dvd n * r))
    | Some q' \<Rightarrow> 0 < q' \<and> q' \<le> int64_max \<and> (\<forall>n. q' dvd n \<longleftrightarrow> q dvd n \<and> (0 < r \<longrightarrow> fps dvd n * r))"
proof (cases "0 < r")
  case False
  then show ?thesis using assms by (simp add: lattice_step_def)
next
  case True
  define k where "k = fps div gcd fps r"
  define d where "d = k div gcd q k"
  have gpos: "0 < gcd fps r" using assms by simp
  have k: "0 < k" unfolding k_def using assms gpos
    by (metis dvd_div_eq_0_iff gcd_dvd1 nless_le order.strict_implies_order pos_imp_zdiv_nonneg_iff)
  have gq: "0 < gcd q k" using assms by simp
  have d: "0 < d" unfolding d_def using k gq
    by (metis dvd_div_eq_0_iff gcd_dvd2 nless_le order.strict_implies_order pos_imp_zdiv_nonneg_iff)
  have lcm: "q * d = lcm q k"
    using assms k by (simp add: d_def lcm_altdef_int div_mult_swap)
  have step: "lattice_step fps q r = (if q > int64_max div d then None else Some (q * d))"
    using True assms k d gpos gq by (simp add: lattice_step_def k_def d_def Let_def)
  have guard: "q > int64_max div d \<longleftrightarrow> q * d > int64_max"
  proof -
    have "q \<le> int64_max div d \<longleftrightarrow> q * d \<le> int64_max" 
    proof
      assume "q \<le> int64_max div d"
      then have "q * d \<le> (int64_max div d) * d" using d by (intro mult_right_mono) auto
      also have "\<dots> \<le> int64_max" using d minus_mod_eq_div_mult [of int64_max d] pos_mod_sign [of d int64_max] by linarith
      finally show "q * d \<le> int64_max" .
    next
      assume "q * d \<le> int64_max"
      from zdiv_mono1 [OF this d] show "q \<le> int64_max div d" using d by simp
    qed
    then show ?thesis by linarith
  qed
  have dvd: "lcm q k dvd n \<longleftrightarrow> q dvd n \<and> fps dvd n * r" for n
    using dvd_mult_gcd_iff [of fps n r] assms by (simp add: k_def)
  show ?thesis
  proof (cases "q * d > int64_max")
    case True
    then have "\<not> lcm q k dvd n" if "0 < n" "n \<le> int64_max" for n
      using that lcm zdvd_imp_le [of "q * d" n] by auto
    then show ?thesis using True step guard dvd \<open>0 < r\<close> by auto
  next
    case False
    moreover have "0 < q * d" using assms d by simp
    ultimately show ?thesis using step guard dvd \<open>0 < r\<close> unfolding lcm by simp
  qed
qed

lemma lattice_loop_spec:
  assumes "0 < fps" "0 < q" "q \<le> int64_max"
  shows "case lattice_loop fps rs q of
      None \<Rightarrow> \<forall>n. 0 < n \<and> n \<le> int64_max \<longrightarrow> \<not> (q dvd n \<and> on_lattice fps rs n)
    | Some q' \<Rightarrow> 0 < q' \<and> q' \<le> int64_max \<and> (\<forall>n. q' dvd n \<longleftrightarrow> q dvd n \<and> on_lattice fps rs n)"
  using assms
proof (induction rs arbitrary: q)
  case Nil
  then show ?case by simp
next
  case (Cons r rs)
  note step = lattice_step_spec [OF Cons.prems, of r]
  show ?case
  proof (cases "lattice_step fps q r")
    case None
    then show ?thesis using step by auto
  next
    case (Some q')
    then have q': "0 < q'" "q' \<le> int64_max"
      and dvd: "\<And>n. q' dvd n \<longleftrightarrow> q dvd n \<and> (0 < r \<longrightarrow> fps dvd n * r)"
      using step by auto
    have "lattice_loop fps (r # rs) q = lattice_loop fps rs q'" using Some by simp
    then show ?thesis
      using Cons.IH [OF Cons.prems(1) q'] unfolding on_lattice_Cons dvd conj_assoc by simp
  qed
qed

lemma quantum_spec:
  fixes rates :: "int list"
  assumes "0 < fps"
  defines "q \<equiv> compute_cfr_audio_lattice_frame_quantum fps rates"
  shows "q = 0 \<Longrightarrow> 0 < n \<Longrightarrow> n \<le> int64_max \<Longrightarrow> \<not> on_lattice fps rates n"
    and "q \<noteq> 0 \<Longrightarrow> 0 < q \<and> q \<le> int64_max"
    and "q \<noteq> 0 \<Longrightarrow> on_lattice fps rates n \<longleftrightarrow> q dvd n"
proof -
  have q: "q = (case lattice_loop fps rates 1 of None \<Rightarrow> 0 | Some q \<Rightarrow> q)"
    unfolding q_def compute_cfr_audio_lattice_frame_quantum_def using assms(1) by simp
  have spec: "case lattice_loop fps rates 1 of
      None \<Rightarrow> \<forall>n. 0 < n \<and> n \<le> int64_max \<longrightarrow> \<not> (1 dvd n \<and> on_lattice fps rates n)
    | Some q' \<Rightarrow> 0 < q' \<and> q' \<le> int64_max \<and> (\<forall>n. q' dvd n \<longleftrightarrow> 1 dvd n \<and> on_lattice fps rates n)"
    using assms(1) by (intro lattice_loop_spec) (auto simp: int64_max_def)
  show "q = 0 \<Longrightarrow> 0 < n \<Longrightarrow> n \<le> int64_max \<Longrightarrow> \<not> on_lattice fps rates n"
    using q spec by (cases "lattice_loop fps rates 1") auto
  show "q \<noteq> 0 \<Longrightarrow> 0 < q \<and> q \<le> int64_max"
    using q spec by (cases "lattice_loop fps rates 1") auto
  show "q \<noteq> 0 \<Longrightarrow> on_lattice fps rates n \<longleftrightarrow> q dvd n"
    using q spec by (cases "lattice_loop fps rates 1") auto
qed

lemma extension_least:
  assumes "0 \<le> c" "0 < q"
  defines "e \<equiv> compute_cfr_audio_lattice_extension_frames c q"
  shows "0 \<le> e" "e < q" "q dvd c + e" "0 \<le> e' \<Longrightarrow> q dvd c + e' \<Longrightarrow> e \<le> e'"
proof -
  have e: "e = (- c) mod q"
    using assms by (simp add: compute_cfr_audio_lattice_extension_frames_def Let_def zmod_zminus1_eq_if)
  then show "0 \<le> e" "e < q" using assms by simp_all
  show "q dvd c + e" unfolding e by (simp add: mod_eq_0_iff_dvd [symmetric] mod_simps)
  assume e': "0 \<le> e'" "q dvd c + e'"
  then have "q dvd e' - (- c)" by (simp add: add.commute)
  then have "e' mod q = e" unfolding e by (simp only: mod_eq_dvd_iff)
  then show "e \<le> e'" using e' zmod_le_nonneg_dividend by blast
qed

text \<open>C14: At the end of a CFR recording the frame count is extended to the first one at which every
  audio stream with a positive sample rate has a whole number of samples: no smaller extension
  would do, and the computed lattice step is zero exactly when no representable positive frame
  count is on the lattice of all the streams.\<close>

theorem lattice_extension_minimal:
  fixes rates :: "int list"
  assumes "0 < fps" and "0 \<le> frameCount"
  defines "q \<equiv> compute_cfr_audio_lattice_frame_quantum fps rates"
  defines "e \<equiv> compute_cfr_audio_lattice_extension_frames frameCount q"
  shows "(q = 0 \<longleftrightarrow> (\<forall>n. 0 < n \<and> n \<le> int64_max \<longrightarrow> \<not> on_lattice fps rates n)) \<and>
    (if q = 0 then e = 0
     else 0 \<le> e \<and> e < q \<and> on_lattice fps rates (frameCount + e) \<and>
       (\<forall>e'. 0 \<le> e' \<and> on_lattice fps rates (frameCount + e') \<longrightarrow> e \<le> e'))"
proof (cases "q = 0")
  case True
  then show ?thesis using quantum_spec(1) [OF assms(1), of rates]
    by (auto simp: q_def e_def compute_cfr_audio_lattice_extension_frames_def)
next
  case False
  then have q: "0 < q" "q \<le> int64_max" "\<And>n. on_lattice fps rates n \<longleftrightarrow> q dvd n"
    using quantum_spec(2,3) [OF assms(1), of rates] by (auto simp: q_def)
  then have some: "\<exists>n. 0 < n \<and> n \<le> int64_max \<and> q dvd n" by (intro exI [of _ q]) simp
  show ?thesis
    using q(1) some False extension_least [OF assms(2) q(1), folded e_def] unfolding q(3) by auto
qed

theorem lattice_extension_minimal_witness:
  "compute_cfr_audio_lattice_frame_quantum 144 [44100, 48000] = 12 \<and>
   compute_cfr_audio_lattice_extension_frames 109 12 = 11 \<and>
   on_lattice 144 [44100, 48000] 120 \<and>
   \<not> on_lattice 144 [44100, 48000] 119"
proof -
  have q: "compute_cfr_audio_lattice_frame_quantum 144 [44100, 48000] = 12"
    and e: "compute_cfr_audio_lattice_extension_frames 109 12 = 11" by code_simp+
  note least = lattice_extension_minimal [of 144 109 "[44100, 48000]", unfolded q e]
  then have "\<not> (0 \<le> (10::int) \<and> on_lattice 144 [44100, 48000] (109 + 10))" by force
  then show ?thesis using least q e by simp
qed

section \<open>The timeline against the packets it has seen\<close>

text \<open>A packet is its start, its duration and the discard at its end, in microseconds, in the order
  the muxer wrote it (decode order when the encoder reorders frames).\<close>

type_synonym timed_packet = "int \<times> int \<times> int"

definition observe_all :: "timed_packet list \<Rightarrow> packet_timeline" where
  "observe_all ps = foldl (\<lambda>s (start, dur, discard). observe_packet_timeline s start dur discard)
     empty_timeline ps"

fun packet_start :: "timed_packet \<Rightarrow> int" where
  "packet_start (start, dur, discard) = max 0 start"

fun packet_end :: "timed_packet \<Rightarrow> int" where
  "packet_end (start, dur, discard) = max 0 start + max 0 dur"

fun packet_decoded_end :: "timed_packet \<Rightarrow> int" where
  "packet_decoded_end (start, dur, discard) = max 0 (max 0 start + max 0 dur - max 0 discard)"

lemma observe_all_snoc:
  "observe_all (ps @ [(a, b, c)]) = observe_packet_timeline (observe_all ps) a b c"
  by (simp add: observe_all_def)

lemma observe_all_Nil [simp]: "observe_all [] = empty_timeline"
  by (simp add: observe_all_def)

lemma packet_start_nonneg [simp]: "0 \<le> packet_start p"
  by (cases p) simp

lemma packet_end_nonneg [simp]: "0 \<le> packet_end p"
  by (cases p) simp

lemma packet_decoded_end_nonneg [simp]: "0 \<le> packet_decoded_end p"
  by (cases p) simp

lemma observe_fields:
  fixes s :: packet_timeline and a b c :: int
  defines "s' \<equiv> observe_packet_timeline s a b c"
  shows "seen s'" "packetCount s' = packetCount s + 1"
    "lastEndUs s' = max (lastEndUs s) (packet_end (a, b, c))"
    "lastDecodedEndUs s' = max (lastDecodedEndUs s) (packet_decoded_end (a, b, c))"
    "firstStartUs s' = (if seen s then firstStartUs s else max 0 a)"
    "lastStartUs s' = (if seen s then max (lastStartUs s) (max 0 a) else max 0 a)"
    "maxForwardStartGapUs s' = (if seen s \<and> lastStartUs s \<le> max 0 a
       then max (maxForwardStartGapUs s) (max 0 a - lastStartUs s) else maxForwardStartGapUs s)"
  unfolding s'_def observe_packet_timeline_def compute_packet_end_us_def
  by (auto simp: Let_def)

lemma Max_snoc: "ps \<noteq> [] \<Longrightarrow> Max (f ` set (ps @ [p])) = max (Max (f ` set ps)) (f p)"
  for f :: "'a \<Rightarrow> int"
  by (simp add: max.commute)

lemma timeline_totals:
  "seen (observe_all ps) \<longleftrightarrow> ps \<noteq> []"
  "packetCount (observe_all ps) = of_nat (length ps)"
  "lastEndUs (observe_all ps) = (if ps = [] then 0 else Max (packet_end ` set ps))"
  "lastDecodedEndUs (observe_all ps) = (if ps = [] then 0 else Max (packet_decoded_end ` set ps))"
  "firstStartUs (observe_all ps) = (if ps = [] then 0 else packet_start (hd ps))"
  "lastStartUs (observe_all ps) = (if ps = [] then 0 else Max (packet_start ` set ps))"
proof (induction ps rule: rev_induct)
  case Nil
  { case 1 show ?case by (simp add: observe_all_def empty_timeline_def) }
  { case 2 show ?case by (simp add: observe_all_def empty_timeline_def) }
  { case 3 show ?case by (simp add: observe_all_def empty_timeline_def) }
  { case 4 show ?case by (simp add: observe_all_def empty_timeline_def) }
  { case 5 show ?case by (simp add: observe_all_def empty_timeline_def) }
  { case 6 show ?case by (simp add: observe_all_def empty_timeline_def) }
next
  case (snoc p ps)
  obtain a b c where p: "p = (a, b, c)" by (cases p) auto
  let ?s = "observe_all (ps @ [p])"
  note fields = observe_fields [of "observe_all ps" a b c, folded observe_all_snoc, folded p]
  { case 1 show ?case using fields(1) by simp }
  { case 2 show ?case using fields(2) snoc.IH(2) by simp }
  { case 3
    have "lastEndUs ?s = max (lastEndUs (observe_all ps)) (packet_end p)" using fields(3) .
    then show ?case using snoc.IH(3) Max_snoc [of ps packet_end p]
      by (cases "ps = []") (simp_all only: append_Nil set_simps image_insert image_empty Max_singleton
          max.absorb2 [OF packet_end_nonneg] append_is_Nil_conv if_True if_False list.distinct simp_thms) }
  { case 4
    have "lastDecodedEndUs ?s = max (lastDecodedEndUs (observe_all ps)) (packet_decoded_end p)"
      using fields(4) .
    then show ?case using snoc.IH(4) Max_snoc [of ps packet_decoded_end p]
      by (cases "ps = []") (simp_all only: append_Nil set_simps image_insert image_empty Max_singleton
          max.absorb2 [OF packet_decoded_end_nonneg] append_is_Nil_conv if_True if_False list.distinct simp_thms) }
  { case 5 show ?case using fields(5) snoc.IH(1,5) by (cases "ps = []") (simp_all add: p) }
  { case 6
    have "lastStartUs ?s = (if seen (observe_all ps) then max (lastStartUs (observe_all ps)) (packet_start p)
        else packet_start p)" using fields(6) unfolding p by simp
    then show ?case using snoc.IH(1,6) Max_snoc [of ps packet_start p]
      by (cases "ps = []") (simp_all only: append_Nil set_simps image_insert image_empty Max_singleton
          append_is_Nil_conv if_True if_False list.distinct simp_thms) }
qed

lemma gap_covers_silence:
  assumes "packet_start (hd ps) \<le> a" "b \<le> Max (packet_start ` set ps)" "ps \<noteq> []" "a \<le> b"
    and "\<And>p. p \<in> set ps \<Longrightarrow> packet_start p \<le> a \<or> b \<le> packet_start p"
  shows "b - a \<le> maxForwardStartGapUs (observe_all ps)"
  using assms
proof (induction ps rule: rev_induct)
  case Nil
  then show ?case by simp
next
  case (snoc p ps)
  obtain x y z where p: "p = (x, y, z)" by (cases p) auto
  define L where "L = lastStartUs (observe_all ps)"
  define g where "g = maxForwardStartGapUs (observe_all ps)"
  show ?case
  proof (cases "ps = []")
    case True
    then show ?thesis
      using snoc.prems by (auto simp: observe_all_def observe_fields empty_timeline_def p)
  next
    case False
    have L: "L = Max (packet_start ` set ps)" using False by (simp add: L_def timeline_totals)
    have "L \<in> packet_start ` set ps" unfolding L using False by (intro Max_in) auto
    then have Lab: "L \<le> a \<or> b \<le> L" using snoc.prems(5) by auto
    have hd: "packet_start (hd ps) \<le> a" using snoc.prems(1) False by simp
    have g': "maxForwardStartGapUs (observe_all (ps @ [p])) =
        (if L \<le> packet_start p then max g (packet_start p - L) else g)"
      using False by (simp add: p observe_all_snoc observe_fields timeline_totals(1) L_def g_def)
    show ?thesis
    proof (cases "b \<le> L")
      case True
      then have "b - a \<le> g"
        unfolding g_def using snoc.prems hd False L by (intro snoc.IH) auto
      then show ?thesis using g' by auto
    next
      case b: False
      then have "b \<le> packet_start p"
        using snoc.prems(2) Max_snoc [OF False, of packet_start p] L by auto
      then show ?thesis using g' Lab b by auto
    qed
  qed
qed

lemma gap_attained:
  "maxForwardStartGapUs (observe_all ps) = 0 \<or>
   (\<exists>p\<in>set ps. \<exists>q\<in>set ps. maxForwardStartGapUs (observe_all ps) = packet_start q - packet_start p)"
proof (induction ps rule: rev_induct)
  case Nil
  then show ?case by (simp add: observe_all_def empty_timeline_def)
next
  case (snoc p ps)
  obtain x y z where p: "p = (x, y, z)" by (cases p) auto
  show ?case
  proof (cases "ps = []")
    case True
    then show ?thesis by (simp add: observe_all_def observe_fields empty_timeline_def p)
  next
    case False
    have "lastStartUs (observe_all ps) = Max (packet_start ` set ps)" using False by (simp add: timeline_totals)
    moreover have "Max (packet_start ` set ps) \<in> packet_start ` set ps" using False by (intro Max_in) auto
    ultimately obtain q where q: "q \<in> set ps" "lastStartUs (observe_all ps) = packet_start q" by auto
    have "maxForwardStartGapUs (observe_all (ps @ [p])) \<in>
        {maxForwardStartGapUs (observe_all ps), packet_start p - packet_start q}"
      using False q by (auto simp: p observe_all_snoc observe_fields timeline_totals(1) max_def)
    then consider "maxForwardStartGapUs (observe_all (ps @ [p])) = maxForwardStartGapUs (observe_all ps)"
      | "maxForwardStartGapUs (observe_all (ps @ [p])) = packet_start p - packet_start q" by auto
    then show ?thesis
    proof cases
      case 1
      then show ?thesis using snoc.IH by (metis UnCI set_append)
    next
      case 2
      then show ?thesis using q(1) by (intro disjI2 bexI [of _ q] bexI [of _ p]) auto
    qed
  qed
qed

text \<open>C15: For packets written in any order, the timeline holds their number, the start of the first
  one written, the latest start, end and decoded end; the reported largest gap is the distance of
  two packet starts (or zero) and is never smaller than an interval after the first packet in
  which no packet starts; and the stream is reported past the target exactly when some packet
  ends past it by more than the tolerance.\<close>

theorem timeline_matches_packets:
  fixes target tol :: int
  assumes "ps \<noteq> []"
  defines "s \<equiv> observe_all ps"
  shows "packetCount s = of_nat (length ps) \<and> firstStartUs s = packet_start (hd ps) \<and>
    lastStartUs s = Max (packet_start ` set ps) \<and> lastEndUs s = Max (packet_end ` set ps) \<and>
    lastDecodedEndUs s = Max (packet_decoded_end ` set ps) \<and>
    (maxForwardStartGapUs s = 0 \<or>
      (\<exists>p\<in>set ps. \<exists>q\<in>set ps. maxForwardStartGapUs s = packet_start q - packet_start p)) \<and>
    (\<forall>a b. packet_start (hd ps) \<le> a \<and> a \<le> b \<and> b \<le> lastStartUs s \<and>
       (\<forall>p\<in>set ps. packet_start p \<le> a \<or> b \<le> packet_start p) \<longrightarrow> b - a \<le> maxForwardStartGapUs s) \<and>
    (packet_timeline_exceeds_target s target tol \<longleftrightarrow>
      (\<exists>p\<in>set ps. packet_end p > target + max 0 tol))"
proof -
  have ends: "finite (packet_end ` set ps)" "packet_end ` set ps \<noteq> {}" using assms by auto
  have "packet_timeline_exceeds_target s target tol \<longleftrightarrow>
      (\<exists>p\<in>set ps. packet_end p > target + max 0 tol)"
    using assms Max_gr_iff [OF ends, of "target + max 0 tol"]
    by (simp add: packet_timeline_exceeds_target_def s_def timeline_totals)
  then show ?thesis
    using assms gap_attained [of ps] gap_covers_silence [of ps]
    by (simp add: s_def timeline_totals)
qed

theorem timeline_matches_packets_witness:
  "observe_all [(0, 10, 0), (30, 10, 0), (10, 10, 0), (20, 15, 4)] =
     \<lparr>seen = True, packetCount = 4, firstStartUs = 0, lastStartUs = 30, lastEndUs = 40,
      lastDecodedEndUs = 40, maxForwardStartGapUs = 30, maxPacketDurationSamples = 0\<rparr> \<and>
   (packet_timeline_exceeds_target (observe_all [(0, 10, 0), (30, 10, 0), (10, 10, 0), (20, 15, 4)])
      30 5 \<longleftrightarrow> (\<exists>p\<in>{(0, 10, 0), (30, 10, 0), (10, 10, 0), (20, 15, 4)}. packet_end p > 30 + max 0 5))"
proof -
  have "observe_all [(0, 10, 0), (30, 10, 0), (10, 10, 0), (20, 15, 4)] =
     \<lparr>seen = True, packetCount = 4, firstStartUs = 0, lastStartUs = 30, lastEndUs = 40,
      lastDecodedEndUs = 40, maxForwardStartGapUs = 30, maxPacketDurationSamples = 0\<rparr>"
    by code_simp
  then show ?thesis
    using timeline_matches_packets [of "[(0, 10, 0), (30, 10, 0), (10, 10, 0), (20, 15, 4)]" 30 5]
    by (simp del: max.absorb4)
qed

text \<open>A complete CFR recording written in decode order (B-frames) still reports a gap of several
  ticks: the reference frame is written before the frames shown ahead of it.\<close>

lemma reordered_complete_recording_gap:
  "maxForwardStartGapUs (observe_all [(0, 10, 0), (30, 10, 0), (10, 10, 0), (20, 10, 0)]) = 30"
  by code_simp

section \<open>Waiting for the writer at stop\<close>

text \<open>
  The wait of \<open>VideoEncoder::Stop\<close>: every 250 ms it asks whether the writer has finished, reads
  the writer's progress counter and the clock, and gives up when the watch reports a stall.  A
  sample is what one round reads: finished, progress, time in milliseconds.  The log lines of the
  loop and the cancellation of expired output operations do not change the watch.
\<close>

datatype wait_result = WriterCompleted | WriterStalled | StillWaiting

fun finalize_wait :: "progress_watch \<Rightarrow> (bool \<times> nat \<times> nat) list \<Rightarrow> wait_result" where
  "finalize_wait w [] = StillWaiting"
| "finalize_wait w ((writerCompleted, progress, nowMs) # samples) =
     (if writerCompleted then WriterCompleted
      else let (w, idleMs) = watch_observe progress nowMs w
           in (if is_writer_finalize_stalled idleMs then WriterStalled else finalize_wait w samples))"

definition stop_wait :: "nat \<Rightarrow> nat \<Rightarrow> (bool \<times> nat \<times> nat) list \<Rightarrow> wait_result" where
  "stop_wait progress waitStartMs samples =
     finalize_wait (watch_begin progress waitStartMs \<lparr>lastProgress = 0, lastProgressTickMs = 0\<rparr>) samples"

text \<open>Two readings of the same progress at least the stall timeout apart, with no other progress
  read between them.\<close>

definition idle_for :: "nat \<Rightarrow> (nat \<times> nat) list \<Rightarrow> bool" where
  "idle_for timeout obs \<longleftrightarrow>
     (\<exists>pre p t mid n post. obs = pre @ (p, t) # mid @ (p, n) # post \<and>
        (\<forall>x\<in>set mid. fst x = p) \<and> t + timeout \<le> n)"

lemma idle_forI:
  "obs = pre @ (p, t) # mid @ (p, n) # post \<Longrightarrow> \<forall>x\<in>set mid. fst x = p \<Longrightarrow> t + T \<le> n \<Longrightarrow>
   idle_for T obs"
  unfolding idle_for_def by blast

lemma idle_for_single: "\<not> idle_for T [x]"
  by (auto simp: idle_for_def Cons_eq_append_conv)

lemma idle_for_advance:
  assumes "p \<noteq> q" shows "idle_for T ((p, t) # (q, n) # obs) \<longleftrightarrow> idle_for T ((q, n) # obs)"
proof
  assume "idle_for T ((p, t) # (q, n) # obs)"
  then obtain pre p' t' mid n' post where
    o: "(p, t) # (q, n) # obs = pre @ (p', t') # mid @ (p', n') # post"
    and m: "\<forall>x\<in>set mid. fst x = p'" and T: "t' + T \<le> n'" unfolding idle_for_def by blast
  then obtain x pre' where "pre = x # pre'"
    using assms by (cases pre; cases mid) auto
  then have "(q, n) # obs = pre' @ (p', t') # mid @ (p', n') # post" using o by simp
  then show "idle_for T ((q, n) # obs)" using m T by (rule idle_forI)
next
  assume "idle_for T ((q, n) # obs)"
  then show "idle_for T ((p, t) # (q, n) # obs)"
    unfolding idle_for_def by (metis append_Cons)
qed

lemma idle_for_stay:
  assumes "t \<le> n" "n < t + T"
  shows "idle_for T ((p, t) # (p, n) # obs) \<longleftrightarrow> idle_for T ((p, t) # obs)"
proof
  assume "idle_for T ((p, t) # (p, n) # obs)"
  then obtain pre p' t' mid n' post where
    o: "(p, t) # (p, n) # obs = pre @ (p', t') # mid @ (p', n') # post"
    and m: "\<forall>x\<in>set mid. fst x = p'" and T: "t' + T \<le> n'" unfolding idle_for_def by blast
  consider (first) "pre = []" | (second) "pre = [(p, t)]" | (later) pre' where "pre = (p, t) # (p, n) # pre'"
    using o by (cases pre rule: list.exhaust; cases "tl pre") auto
  then show "idle_for T ((p, t) # obs)"
  proof cases
    case first
    with o T assms obtain y mid' where mid: "mid = y # mid'" by (cases mid) auto
    then have "(p, t) # obs = [] @ (p', t') # mid' @ (p', n') # post" using o first by simp
    then show ?thesis using m T mid by (intro idle_forI) auto
  next
    case second
    then have "(p, t) # obs = [] @ (p', t) # mid @ (p', n') # post" "t + T \<le> n'" using o T assms by auto
    then show ?thesis using m by (intro idle_forI)
  next
    case later
    then have "(p, t) # obs = ((p, t) # pre') @ (p', t') # mid @ (p', n') # post" using o by auto
    then show ?thesis using m T by (intro idle_forI)
  qed
next
  assume "idle_for T ((p, t) # obs)"
  then obtain pre p' t' mid n' post where
    o: "(p, t) # obs = pre @ (p', t') # mid @ (p', n') # post"
    and m: "\<forall>x\<in>set mid. fst x = p'" and T: "t' + T \<le> n'" unfolding idle_for_def by blast
  show "idle_for T ((p, t) # (p, n) # obs)"
  proof (cases pre)
    case Nil
    then have "(p, t) # (p, n) # obs = [] @ (p', t') # ((p, n) # mid) @ (p', n') # post" using o by auto
    then show ?thesis using m T Nil o
      by (intro idle_forI [where pre = "[]" and mid = "(p, n) # mid" and p = p and t = t and n = n']) auto
  next
    case (Cons x pre')
    then have "(p, t) # (p, n) # obs = ((p, t) # (p, n) # pre') @ (p', t') # mid @ (p', n') # post"
      using o by auto
    then show ?thesis using m T by (intro idle_forI)
  qed
qed

lemma finalize_wait_idle:
  assumes "sorted (t # map (snd \<circ> snd) samples)"
  shows "finalize_wait \<lparr>lastProgress = p, lastProgressTickMs = t\<rparr> samples = WriterStalled \<longleftrightarrow>
    idle_for writer_finalize_stall_timeout_ms ((p, t) # map snd (takeWhile (Not \<circ> fst) samples))"
  using assms
proof (induction samples arbitrary: p t)
  case Nil
  then show ?case by (simp add: idle_for_single)
next
  case (Cons x samples)
  obtain c q n where x: "x = (c, q, n)" by (cases x) auto
  have mono: "t \<le> n" "sorted (n # map (snd \<circ> snd) samples)" "sorted (t # map (snd \<circ> snd) samples)"
    using Cons.prems by (auto simp: x comp_def)
  show ?case
  proof (cases c)
    case True
    then show ?thesis by (simp add: x idle_for_single)
  next
    case False
    show ?thesis
    proof (cases "q = p")
      case True
      show ?thesis
      proof (cases "n < t + writer_finalize_stall_timeout_ms")
        case less: True
        then have "\<not> writer_finalize_stall_timeout_ms \<le> n - t" using mono(1) by linarith
        then show ?thesis
          using Cons.IH [OF mono(3), of p] idle_for_stay [OF mono(1) less, of p] True False mono(1)
          by (simp add: x watch_observe_def is_writer_finalize_stalled_def)
      next
        case False': False
        then have "idle_for writer_finalize_stall_timeout_ms
            ((p, t) # map snd (takeWhile (Not \<circ> fst) (x # samples)))"
          using True False by (intro idle_forI [where pre = "[]" and mid = "[]"]) (auto simp: x)
        moreover have "finalize_wait \<lparr>lastProgress = p, lastProgressTickMs = t\<rparr> (x # samples) = WriterStalled"
        proof -
          have "writer_finalize_stall_timeout_ms \<le> n - t" using False' by linarith
          then show ?thesis
            using True False mono(1) by (simp add: x watch_observe_def is_writer_finalize_stalled_def)
        qed
        ultimately show ?thesis by blast
      qed
    next
      case neq: False
      have "0 < writer_finalize_stall_timeout_ms"
        by (simp add: writer_finalize_stall_timeout_ms_def local_output_io_timeout_ms_def)
      then show ?thesis
        using Cons.IH [OF mono(2), of q] idle_for_advance [of p q] neq False
        by (simp add: x watch_observe_def is_writer_finalize_stalled_def)
    qed
  qed
qed

text \<open>C16: Stop gives up on the asynchronous writer exactly when, before the writer finished, the
  progress counter was read unchanged over at least the stall timeout: a writer that advances
  within every 45 seconds is never abandoned, however long the whole drain takes.\<close>

theorem stop_abandons_only_idle_writer:
  assumes "sorted (waitStartMs # map (snd \<circ> snd) samples)"
  shows "stop_wait progress waitStartMs samples = WriterStalled \<longleftrightarrow>
    idle_for 45000 ((progress, waitStartMs) # map snd (takeWhile (Not \<circ> fst) samples))"
  using finalize_wait_idle [OF assms, of progress]
  by (simp add: stop_wait_def watch_begin_def writer_finalize_stall_timeout_ms_def
      local_output_io_timeout_ms_def)

theorem stop_abandons_only_idle_writer_witness:
  "stop_wait 0 1000 [(False, 1, 40000), (False, 2, 80000), (False, 2, 120000), (False, 2, 125000)] =
     WriterStalled \<and>
   idle_for 45000 [(0, 1000), (1, 40000), (2, 80000), (2, 120000), (2, 125000)]"
proof -
  have "stop_wait 0 1000 [(False, 1, 40000), (False, 2, 80000), (False, 2, 120000), (False, 2, 125000)] =
     WriterStalled"
    by (simp add: stop_wait_def watch_begin_def watch_observe_def is_writer_finalize_stalled_def
        writer_finalize_stall_timeout_ms_def local_output_io_timeout_ms_def)
  moreover have "sorted (1000 # map (snd \<circ> snd)
      [(False, 1::nat, 40000::nat), (False, 2, 80000), (False, 2, 120000), (False, 2, 125000)])" by simp
  note stop_abandons_only_idle_writer [OF this, of 0]
  moreover have "map snd (takeWhile (Not \<circ> fst)
      [(False, 1::nat, 40000::nat), (False, 2, 80000), (False, 2, 120000), (False, 2, 125000)]) =
      [(1, 40000), (2, 80000), (2, 120000), (2, 125000)]" by simp
  ultimately show ?thesis by metis
qed

end
