(* ===== verification/MuxPressure.thy ===== *)
theory MuxPressure
  imports Prelude
begin

text \<open>
  Early warning and attribution for the encoded-packet queue in front of the asynchronous mux
  writer (\<open>src/mediaengine/mux/mux_queue_pressure.h\<close>): the fill bands and the episode tracker,
  the slow-write log policy, and the lock-free tracker of completed and in-flight mux writes.
  Byte counts and times are unsigned 64-bit values as \<^typ>\<open>nat\<close>, with the wrap-around of products
  and sums written out.  The byte rates of \<open>ComputeMuxWriterWindowRates\<close> are floating point and
  are left out; its busy share is integer arithmetic and is modelled.
\<close>

section \<open>Fill bands\<close>

definition pressure_bands_permille :: "nat list" where
  "pressure_bands_permille = [250, 500, 750]"

definition pressure_recover_permille :: nat where
  "pressure_recover_permille = 125"

definition pressure_baseline_refresh_ms :: nat where
  "pressure_baseline_refresh_ms = 5000"

datatype pressure_event = NoEvent | Raised | Recovered

record pressure_update =
  event :: pressure_event
  fillPermille :: nat
  bandPermille :: nat
  episodeDurationMs :: nat
  updatePeakBytes :: nat

definition compute_mux_queue_fill_permille :: "nat \<Rightarrow> nat \<Rightarrow> nat" where
  "compute_mux_queue_fill_permille queuedBytes limitBytes =
     (if limitBytes = 0 then (if queuedBytes > 0 then 1000 else 0)
      else let permille = wrap64 (queuedBytes * 1000) div limitBytes in min permille 1000)"

definition select_pressure_band :: "nat \<Rightarrow> nat" where
  "select_pressure_band fill =
     foldl (\<lambda>band threshold. if fill \<ge> threshold then threshold else band) 0 pressure_bands_permille"

section \<open>The episode tracker\<close>

record pressure_tracker =
  episodeBandPermille :: nat
  episodeStartMs :: nat
  episodePeakBytes :: nat

definition pressure_reset :: pressure_tracker where
  "pressure_reset = \<lparr>episodeBandPermille = 0, episodeStartMs = 0, episodePeakBytes = 0\<rparr>"

definition episode_active :: "pressure_tracker \<Rightarrow> bool" where
  "episode_active t \<longleftrightarrow> episodeBandPermille t \<noteq> 0"

definition pressure_observe ::
    "nat \<Rightarrow> nat \<Rightarrow> nat \<Rightarrow> pressure_tracker \<Rightarrow> pressure_tracker \<times> pressure_update" where
  "pressure_observe queuedBytes limitBytes nowMs t =
     (let fill = compute_mux_queue_fill_permille queuedBytes limitBytes;
          band = select_pressure_band fill;
          u = \<lparr>event = NoEvent, fillPermille = fill, bandPermille = 0, episodeDurationMs = 0, updatePeakBytes = 0\<rparr>
      in if episodeBandPermille t = 0 \<and> band = 0 then (t, u)
         else
           let t = (if episodeBandPermille t = 0
                    then t\<lparr>episodeStartMs := nowMs, episodePeakBytes := 0\<rparr> else t);
               t = t\<lparr>episodePeakBytes := max (episodePeakBytes t) queuedBytes\<rparr>;
               u = u\<lparr>episodeDurationMs := (if nowMs \<ge> episodeStartMs t then nowMs - episodeStartMs t else 0),
                     updatePeakBytes := episodePeakBytes t\<rparr>
           in if band > episodeBandPermille t
              then (t\<lparr>episodeBandPermille := band\<rparr>, u\<lparr>event := Raised, bandPermille := band\<rparr>)
              else if fill < pressure_recover_permille
              then (t\<lparr>episodeBandPermille := 0\<rparr>,
                    u\<lparr>event := Recovered, bandPermille := episodeBandPermille t\<rparr>)
              else (t, u\<lparr>bandPermille := episodeBandPermille t\<rparr>))"

definition busy_permille :: "nat \<Rightarrow> nat \<Rightarrow> nat" where
  "busy_permille busyUs windowUs =
     (if windowUs = 0 then 0 else min (wrap64 (busyUs * 1000) div windowUs) 1000)"

definition slow_mux_write_threshold_us :: nat where
  "slow_mux_write_threshold_us = 250000"

definition slow_mux_write_log_interval_ms :: nat where
  "slow_mux_write_log_interval_ms = 5000"

definition is_slow_mux_write :: "nat \<Rightarrow> bool" where
  "is_slow_mux_write writeUs \<longleftrightarrow> writeUs \<ge> slow_mux_write_threshold_us"

definition should_log_slow_mux_write :: "nat \<Rightarrow> nat \<Rightarrow> bool" where
  "should_log_slow_mux_write nowMs lastLogMs \<longleftrightarrow>
     lastLogMs = 0 \<or> nowMs < lastLogMs \<or> nowMs - lastLogMs \<ge> slow_mux_write_log_interval_ms"

section \<open>Episodes\<close>

text \<open>An observation is the queued bytes, the limit and the time.\<close>

type_synonym pressure_obs = "nat \<times> nat \<times> nat"

fun obs_fill :: "pressure_obs \<Rightarrow> nat" where
  "obs_fill (queuedBytes, limitBytes, nowMs) = compute_mux_queue_fill_permille queuedBytes limitBytes"

definition observe_pressure :: "pressure_obs list \<Rightarrow> pressure_tracker \<times> pressure_update list" where
  "observe_pressure obs = foldl (\<lambda>(t, us) (queuedBytes, limitBytes, nowMs).
     let (t, u) = pressure_observe queuedBytes limitBytes nowMs t in (t, us @ [u])) (pressure_reset, []) obs"

text \<open>The running episode: the observations since the fill last was below the recovery threshold,
  from the first one that reaches the lowest band.\<close>

definition episode :: "pressure_obs list \<Rightarrow> pressure_obs list" where
  "episode obs = dropWhile (\<lambda>x. obs_fill x < 250) (rev (takeWhile (\<lambda>x. 125 \<le> obs_fill x) (rev obs)))"

lemma dropWhile_snoc:
  "dropWhile P (xs @ [y]) = (if dropWhile P xs = [] then (if P y then [] else [y]) else dropWhile P xs @ [y])"
  by (induction xs) auto

lemma episode_Nil [simp]: "episode [] = []"
  by (simp add: episode_def)

lemma episode_snoc:
  "episode (obs @ [x]) =
     (if obs_fill x < 125 then [] else if episode obs = [] then (if obs_fill x < 250 then [] else [x])
      else episode obs @ [x])"
  by (auto simp: episode_def dropWhile_snoc)

lemma band_cases:
  "select_pressure_band f =
     (if f \<ge> 750 then 750 else if f \<ge> 500 then 500 else if f \<ge> 250 then 250 else 0)"
  by (simp add: select_pressure_band_def pressure_bands_permille_def)

lemma band_zero [simp]: "select_pressure_band f = 0 \<longleftrightarrow> f < 250"
  by (simp add: band_cases)

lemma observe_pressure_snoc:
  "observe_pressure (obs @ [(q, l, n)]) =
     (let (t, us) = observe_pressure obs; (t, u) = pressure_observe q l n t in (t, us @ [u]))"
  by (simp add: observe_pressure_def split: prod.split)

definition tracks_episode :: "pressure_tracker \<Rightarrow> pressure_obs list \<Rightarrow> bool" where
  "tracks_episode t ep \<longleftrightarrow>
     (if ep = [] then episodeBandPermille t = 0
      else episodeBandPermille t = Max (select_pressure_band ` obs_fill ` set ep) \<and>
        episodeBandPermille t \<noteq> 0 \<and>
        episodeStartMs t = snd (snd (hd ep)) \<and> episodePeakBytes t = Max (fst ` set ep))"

lemma observe_band:
  "episodeBandPermille (fst (pressure_observe q l n t)) =
     (let f = compute_mux_queue_fill_permille q l in
      if f < 125 then 0 else max (episodeBandPermille t) (select_pressure_band f))"
  by (auto simp: pressure_observe_def Let_def pressure_recover_permille_def)

lemma observe_start_peak:
  "episodeBandPermille t \<noteq> 0 \<Longrightarrow> episodeStartMs (fst (pressure_observe q l n t)) = episodeStartMs t"
  "episodeBandPermille t \<noteq> 0 \<Longrightarrow>
     episodePeakBytes (fst (pressure_observe q l n t)) = max (episodePeakBytes t) q"
  "episodeBandPermille t = 0 \<Longrightarrow> 250 \<le> compute_mux_queue_fill_permille q l \<Longrightarrow>
     episodeStartMs (fst (pressure_observe q l n t)) = n"
  "episodeBandPermille t = 0 \<Longrightarrow> 250 \<le> compute_mux_queue_fill_permille q l \<Longrightarrow>
     episodePeakBytes (fst (pressure_observe q l n t)) = q"
  by (simp_all add: pressure_observe_def Let_def)

lemma tracks_episode_step:
  assumes "tracks_episode t (episode obs)"
  shows "tracks_episode (fst (pressure_observe q l n t)) (episode (obs @ [(q, l, n)]))"
proof -
  let ?f = "compute_mux_queue_fill_permille q l" and ?t = "fst (pressure_observe q l n t)"
  consider (low) "?f < 125" | (idle) "125 \<le> ?f" "?f < 250" "episode obs = []"
    | (start) "250 \<le> ?f" "episode obs = []" | (running) "125 \<le> ?f" "episode obs \<noteq> []"
    by linarith
  then show ?thesis
  proof cases
    case low
    then show ?thesis using observe_band [of q l n t] by (simp add: tracks_episode_def episode_snoc)
  next
    case idle
    then show ?thesis
      using assms observe_band [of q l n t] by (simp add: tracks_episode_def episode_snoc)
  next
    case start
    then have "episodeBandPermille t = 0" using assms by (simp add: tracks_episode_def)
    then show ?thesis
      using start observe_band [of q l n t] observe_start_peak(3,4) [of t q l n]
      by (simp add: tracks_episode_def episode_snoc)
  next
    case running
    have Max: "Max (f ` set (episode obs @ [x])) = max (Max (f ` set (episode obs))) (f x)"
      for f :: "pressure_obs \<Rightarrow> nat" and x using running by (simp add: max.commute)
    have t: "episodeBandPermille t = Max ((select_pressure_band \<circ> obs_fill) ` set (episode obs))"
      "episodeBandPermille t \<noteq> 0" "episodeStartMs t = snd (snd (hd (episode obs)))"
      "episodePeakBytes t = Max (fst ` set (episode obs))"
      using assms running by (auto simp: tracks_episode_def image_comp)
    have ep: "episode (obs @ [(q, l, n)]) = episode obs @ [(q, l, n)]"
      using running by (simp add: episode_snoc)
    have "episodeBandPermille ?t = max (episodeBandPermille t) (select_pressure_band ?f)"
      using running observe_band [of q l n t] by (simp add: Let_def)
    then have "episodeBandPermille ?t = Max ((select_pressure_band \<circ> obs_fill) ` set (episode obs @ [(q, l, n)]))"
      unfolding Max t(1) by simp
    moreover have "episodePeakBytes ?t = Max (fst ` set (episode obs @ [(q, l, n)]))"
      unfolding Max observe_start_peak(2) [OF t(2)] t(4) by simp
    moreover have "episodeBandPermille ?t \<noteq> 0"
      using t(2) \<open>episodeBandPermille ?t = max _ _\<close> by linarith
    moreover have "episodeStartMs ?t = snd (snd (hd (episode obs @ [(q, l, n)])))"
      using observe_start_peak(1) [OF t(2)] t(3) running by simp
    ultimately show ?thesis unfolding tracks_episode_def ep image_comp by simp
  qed
qed

text \<open>What the log sees: the events in order, with the band of each.\<close>

definition reports :: "pressure_update list \<Rightarrow> (pressure_event \<times> nat) list" where
  "reports us = map (\<lambda>u. (event u, bandPermille u)) (filter (\<lambda>u. event u \<noteq> NoEvent) us)"

text \<open>A report sequence made of episodes: bands rise strictly, and a recovery names the band that was
  last raised.  The first argument is the band raised last, zero outside an episode.\<close>

fun well_reported :: "nat \<Rightarrow> (pressure_event \<times> nat) list \<Rightarrow> nat option" where
  "well_reported b [] = Some b"
| "well_reported b ((Raised, c) # rs) =
     (if b < c \<and> c \<in> set pressure_bands_permille then well_reported c rs else None)"
| "well_reported b ((Recovered, c) # rs) = (if 0 < b \<and> c = b then well_reported 0 rs else None)"
| "well_reported b ((NoEvent, c) # rs) = None"

lemma well_reported_append:
  "well_reported b (xs @ ys) =
     (case well_reported b xs of None \<Rightarrow> None | Some c \<Rightarrow> well_reported c ys)"
  by (induction b xs rule: well_reported.induct) auto

lemma observe_cases:
  fixes q l n :: nat and t :: pressure_tracker
  defines "f \<equiv> compute_mux_queue_fill_permille q l"
  defines "u \<equiv> snd (pressure_observe q l n t)"
  shows "select_pressure_band f > episodeBandPermille t \<Longrightarrow>
      event u = Raised \<and> bandPermille u = select_pressure_band f"
    and "select_pressure_band f \<le> episodeBandPermille t \<Longrightarrow>
      event u = (if episodeBandPermille t \<noteq> 0 \<and> f < 125 then Recovered else NoEvent)"
    and "episodeBandPermille t \<noteq> 0 \<Longrightarrow> f < 125 \<Longrightarrow> bandPermille u = episodeBandPermille t"
proof -
  have "select_pressure_band f > episodeBandPermille t \<Longrightarrow> 250 \<le> f"
    using band_zero [of f] by linarith
  then show "select_pressure_band f > episodeBandPermille t \<Longrightarrow>
      event u = Raised \<and> bandPermille u = select_pressure_band f"
    "select_pressure_band f \<le> episodeBandPermille t \<Longrightarrow>
      event u = (if episodeBandPermille t \<noteq> 0 \<and> f < 125 then Recovered else NoEvent)"
    "episodeBandPermille t \<noteq> 0 \<Longrightarrow> f < 125 \<Longrightarrow> bandPermille u = episodeBandPermille t"
    unfolding u_def f_def
    by (auto simp: pressure_observe_def Let_def pressure_recover_permille_def simp del: band_zero)
qed

lemma band_in_bands: "0 < select_pressure_band f \<Longrightarrow> select_pressure_band f \<in> set pressure_bands_permille"
  by (simp add: band_cases pressure_bands_permille_def split: if_splits)

lemma observe_event_cases:
  assumes "pressure_observe q l n t = (t', u)"
  shows "event u = NoEvent \<and> episodeBandPermille t' = episodeBandPermille t \<or>
    event u = Raised \<and> bandPermille u = episodeBandPermille t' \<and>
      episodeBandPermille t < episodeBandPermille t' \<and>
      episodeBandPermille t' \<in> set pressure_bands_permille \<or>
    event u = Recovered \<and> bandPermille u = episodeBandPermille t \<and> episodeBandPermille t > 0 \<and>
      episodeBandPermille t' = 0"
proof -
  let ?f = "compute_mux_queue_fill_permille q l"
  have band: "episodeBandPermille t' = (if ?f < 125 then 0 else max (episodeBandPermille t) (select_pressure_band ?f))"
    using observe_band [of q l n t] assms by (simp add: Let_def)
  note c = observe_cases [where q = q and l = l and t = t and n = n, unfolded assms snd_conv]
  consider (raise) "select_pressure_band ?f > episodeBandPermille t"
    | (recover) "select_pressure_band ?f \<le> episodeBandPermille t" "episodeBandPermille t \<noteq> 0" "?f < 125"
    | (stay) "select_pressure_band ?f \<le> episodeBandPermille t" "\<not> (episodeBandPermille t \<noteq> 0 \<and> ?f < 125)"
    by linarith
  then show ?thesis
  proof cases
    case raise
    then have "0 < select_pressure_band ?f" by linarith
    then have "\<not> ?f < 125" by (simp add: band_cases split: if_splits)
    then have "episodeBandPermille t' = select_pressure_band ?f" using raise band by simp
    then show ?thesis using c(1) raise band_in_bands [of ?f] \<open>0 < select_pressure_band ?f\<close> by simp
  next
    case recover
    then show ?thesis using c(2,3) band by simp
  next
    case stay
    then have "episodeBandPermille t' = episodeBandPermille t" using band by auto
    then show ?thesis using stay c(2) by simp
  qed
qed

lemma observe_pressure_inv:
  "tracks_episode (fst (observe_pressure obs)) (episode obs) \<and>
   well_reported 0 (reports (snd (observe_pressure obs))) =
     Some (episodeBandPermille (fst (observe_pressure obs)))"
proof (induction obs rule: rev_induct)
  case Nil
  then show ?case by (simp add: observe_pressure_def tracks_episode_def pressure_reset_def reports_def)
next
  case (snoc x obs)
  obtain q l n where x: "x = (q, l, n)" by (cases x) auto
  obtain t us where o: "observe_pressure obs = (t, us)" by force
  obtain t' u where s: "pressure_observe q l n t = (t', u)" by force
  have next_state: "observe_pressure (obs @ [x]) = (t', us @ [u])"
    by (simp add: x observe_pressure_snoc o s)
  have "tracks_episode t' (episode (obs @ [x]))"
    using tracks_episode_step [of t obs q l n] snoc.IH by (simp add: x o s)
  moreover have "well_reported 0 (reports (us @ [u])) = Some (episodeBandPermille t')"
    using snoc.IH observe_event_cases [OF s] by (auto simp: o reports_def well_reported_append)
  ultimately show ?case by (simp add: next_state)
qed

text \<open>Between two recoveries at most one report per band.\<close>

lemma raised_run_bound:
  assumes "well_reported b (map (Pair Raised) cs @ ys) \<noteq> None"
  shows "sorted_wrt (<) (b # cs) \<and> set cs \<subseteq> set pressure_bands_permille"
  using assms
proof (induction cs arbitrary: b)
  case (Cons c cs)
  then have c: "b < c" "c \<in> set pressure_bands_permille"
    and "well_reported c (map (Pair Raised) cs @ ys) \<noteq> None"
    by (auto split: if_splits)
  then show ?case using Cons.IH [of c] by auto
qed simp

lemma raised_run_length:
  assumes "well_reported 0 (xs @ map (Pair Raised) cs @ ys) \<noteq> None"
  shows "length cs \<le> 3"
proof -
  obtain b where "well_reported b (map (Pair Raised) cs @ ys) \<noteq> None"
    using assms by (auto simp: well_reported_append split: option.splits)
  then have "sorted_wrt (<) cs" "set cs \<subseteq> set pressure_bands_permille"
    using raised_run_bound by fastforce+
  then have "distinct cs" "card (set cs) \<le> card (set pressure_bands_permille)"
    by (auto intro: card_mono simp: strict_sorted_iff)
  then show ?thesis by (simp add: distinct_card pressure_bands_permille_def)
qed

lemma episode_nonempty_iff:
  "episode obs \<noteq> [] \<longleftrightarrow> (\<exists>pre x post. obs = pre @ x # post \<and> 250 \<le> obs_fill x \<and>
     (\<forall>y\<in>set post. 125 \<le> obs_fill y))"
proof (induction obs rule: rev_induct)
  case (snoc y obs)
  note IH = snoc.IH
  show ?case
  proof
    assume "episode (obs @ [y]) \<noteq> []"
    then have y: "125 \<le> obs_fill y" "250 \<le> obs_fill y \<or> episode obs \<noteq> []"
      by (auto simp: episode_snoc split: if_splits)
    show "\<exists>pre x post. obs @ [y] = pre @ x # post \<and> 250 \<le> obs_fill x \<and> (\<forall>y\<in>set post. 125 \<le> obs_fill y)"
    proof (cases "250 \<le> obs_fill y")
      case False
      then obtain pre x post where "obs = pre @ x # post" "250 \<le> obs_fill x" "\<forall>y\<in>set post. 125 \<le> obs_fill y"
        using y snoc.IH by blast
      then have "obs @ [y] = pre @ x # (post @ [y])" "\<forall>z\<in>set (post @ [y]). 125 \<le> obs_fill z"
        using y by auto
      then show ?thesis using \<open>250 \<le> obs_fill x\<close> by blast
    next
      case True
      then show ?thesis by (intro exI [of _ obs] exI [of _ y] exI [of _ "[]"]) simp
    qed
  next
    assume "\<exists>pre x post. obs @ [y] = pre @ x # post \<and> 250 \<le> obs_fill x \<and> (\<forall>y\<in>set post. 125 \<le> obs_fill y)"
    then obtain pre x post where d: "obs @ [y] = pre @ x # post" "250 \<le> obs_fill x"
      "\<forall>y\<in>set post. 125 \<le> obs_fill y" by blast
    show "episode (obs @ [y]) \<noteq> []"
    proof (cases post rule: rev_cases)
      case Nil
      then show ?thesis using d by (auto simp: episode_snoc)
    next
      case (snoc post' z)
      then have "obs = pre @ x # post'" "z = y" using d(1) by auto
      moreover have "\<forall>y\<in>set post'. 125 \<le> obs_fill y" "125 \<le> obs_fill y"
          using d(3) snoc \<open>z = y\<close> by simp_all
        ultimately have "episode obs \<noteq> []" "125 \<le> obs_fill y" using IH d(2) by blast+
      then show ?thesis by (simp add: episode_snoc)
    qed
  qed
qed simp

text \<open>After any observations the tracker holds exactly the running episode: no band when the
  queue has not reached the lowest band since it was last below the recovery threshold, else the
  highest band, the start and the peak of the observations since then; its reports rise strictly
  within an episode and a recovery names the band raised last, so between two recoveries there
  are at most three of them.\<close>

theorem pressure_reports_episodes:
  "(let (t, us) = observe_pressure obs in
     tracks_episode t (episode obs) \<and>
     (episode_active t \<longleftrightarrow> (\<exists>pre x post. obs = pre @ x # post \<and> 250 \<le> obs_fill x \<and>
        (\<forall>y\<in>set post. 125 \<le> obs_fill y))) \<and>
     well_reported 0 (reports us) = Some (episodeBandPermille t) \<and>
     (\<forall>xs cs ys. reports us = xs @ map (Pair Raised) cs @ ys \<longrightarrow> length cs \<le> 3))"
proof -
  obtain t us where o: "observe_pressure obs = (t, us)" by force
  have inv: "tracks_episode t (episode obs)" "well_reported 0 (reports us) = Some (episodeBandPermille t)"
    using observe_pressure_inv [of obs] by (simp_all add: o)
  have "episode_active t \<longleftrightarrow> episode obs \<noteq> []"
    using inv(1) by (auto simp: episode_active_def tracks_episode_def)
  then have active: "episode_active t \<longleftrightarrow> (\<exists>pre x post. obs = pre @ x # post \<and> 250 \<le> obs_fill x \<and>
        (\<forall>y\<in>set post. 125 \<le> obs_fill y))"
    unfolding episode_nonempty_iff .
  have "length cs \<le> 3" if r: "reports us = xs @ map (Pair Raised) cs @ ys" for xs cs ys
    using inv(2) unfolding r by (intro raised_run_length [of xs cs ys]) simp
  then show ?thesis unfolding o Let_def prod.case using inv active by blast
qed

theorem pressure_reports_episodes_witness:
  "observe_pressure [(30, 100, 5), (80, 100, 7), (20, 100, 9), (10, 100, 12)] =
     (\<lparr>episodeBandPermille = 0, episodeStartMs = 5, episodePeakBytes = 80\<rparr>,
      [\<lparr>event = Raised, fillPermille = 300, bandPermille = 250, episodeDurationMs = 0, updatePeakBytes = 30\<rparr>,
       \<lparr>event = Raised, fillPermille = 800, bandPermille = 750, episodeDurationMs = 2, updatePeakBytes = 80\<rparr>,
       \<lparr>event = NoEvent, fillPermille = 200, bandPermille = 750, episodeDurationMs = 4, updatePeakBytes = 80\<rparr>,
       \<lparr>event = Recovered, fillPermille = 100, bandPermille = 750, episodeDurationMs = 7, updatePeakBytes = 80\<rparr>]) \<and>
   length [250, 750 :: nat] \<le> 3"
proof -
  have run: "observe_pressure [(30, 100, 5), (80, 100, 7), (20, 100, 9), (10, 100, 12)] =
     (\<lparr>episodeBandPermille = 0, episodeStartMs = 5, episodePeakBytes = 80\<rparr>,
      [\<lparr>event = Raised, fillPermille = 300, bandPermille = 250, episodeDurationMs = 0, updatePeakBytes = 30\<rparr>,
       \<lparr>event = Raised, fillPermille = 800, bandPermille = 750, episodeDurationMs = 2, updatePeakBytes = 80\<rparr>,
       \<lparr>event = NoEvent, fillPermille = 200, bandPermille = 750, episodeDurationMs = 4, updatePeakBytes = 80\<rparr>,
       \<lparr>event = Recovered, fillPermille = 100, bandPermille = 750, episodeDurationMs = 7, updatePeakBytes = 80\<rparr>])"
    by (simp add: observe_pressure_def pressure_observe_def pressure_reset_def band_cases
        compute_mux_queue_fill_permille_def pressure_recover_permille_def)
  have "reports (snd (observe_pressure [(30, 100, 5), (80, 100, 7), (20, 100, 9), (10, 100, 12)])) =
      [] @ map (Pair Raised) [250, 750] @ [(Recovered, 750)]"
    by (simp add: run reports_def)
  then have "length [250, 750 :: nat] \<le> 3"
    using pressure_reports_episodes [of "[(30, 100, 5), (80, 100, 7), (20, 100, 9), (10, 100, 12)]"]
    unfolding run Let_def prod.case snd_conv by blast
  then show ?thesis using run by blast
qed

end
