(* ===== verification/WriterActivity.thy ===== *)
theory WriterActivity
  imports Prelude
begin

text \<open>
  The lock-free tracker of completed and in-flight mux writes, \<open>MuxWriterActivityTracker\<close> of
  \<open>src/mediaengine/mux/mux_queue_pressure.h\<close>: the writer thread brackets every mux write with
  \<open>BeginWrite\<close> and \<open>EndWrite\<close>, and any number of threads take window snapshots meanwhile.  Every
  atomic access is one step of \<open>activity_step\<close>, under sequential consistency.  \<open>ops\<close> is a ghost:
  the calls whose critical section is complete, in order.
\<close>

section \<open>State\<close>

datatype write_op = BeginWrite nat | EndWrite nat nat

text \<open>The writer thread: outside, inside the critical section of a call before its \<open>i\<close>-th store, or
  raising the slowest-write maximum.\<close>

datatype activity_writer =
    Outside
  | Inside write_op nat
  | LoadMax nat
  | RaiseMax nat nat

record activity_snapshot =
  snapWrittenBytes :: nat
  snapCompletedBusyUs :: nat
  effectiveBusyUs :: nat
  inFlightWriteUs :: nat
  maxWriteUs :: nat

text \<open>A thread in \<open>TakeWindowSnapshot\<close>, before the access its constructor names.  The first argument
  is \<open>nowUs\<close>; then the sequence number loaded first, the number of calls completed at that load,
  and the values loaded so far.\<close>

datatype activity_reader =
    Resting
  | LoadSeq nat
  | LoadWritten nat u64 nat
  | LoadBusy nat u64 nat nat
  | LoadInFlight nat u64 nat nat nat
  | CheckSeq nat u64 nat nat nat nat
  | ExchangeMax nat nat nat nat nat nat
  | Taken nat nat nat activity_snapshot

record activity =
  seq :: u64
  inFlightStartUs :: nat
  writtenBytes :: nat
  completedBusyUs :: nat
  maxCompletedWriteUs :: nat
  writer_at :: activity_writer
  reader_at :: "nat \<Rightarrow> activity_reader"
  ops :: "write_op list"

definition activity_reset :: activity where
  "activity_reset = \<lparr>seq = 0, inFlightStartUs = 0, writtenBytes = 0, completedBusyUs = 0,
     maxCompletedWriteUs = 0, writer_at = Outside, reader_at = (\<lambda>_. Resting), ops = []\<rparr>"

section \<open>The writer\<close>

fun op_stores :: "write_op \<Rightarrow> nat" where
  "op_stores (BeginWrite startUs) = 1"
| "op_stores (EndWrite packetBytes writeUs) = 3"

definition enter_op :: "write_op \<Rightarrow> activity \<Rightarrow> activity" where
  "enter_op call s = s\<lparr>seq := seq s + 1, writer_at := Inside call 0\<rparr>"

fun store_field :: "write_op \<Rightarrow> nat \<Rightarrow> activity \<Rightarrow> activity" where
  "store_field (BeginWrite startUs) i s = s\<lparr>inFlightStartUs := (if startUs > 0 then startUs else 1)\<rparr>"
| "store_field (EndWrite packetBytes writeUs) i s =
     (if i = 0 then s\<lparr>inFlightStartUs := 0\<rparr>
      else if i = 1 then s\<lparr>writtenBytes := wrap64 (writtenBytes s + packetBytes)\<rparr>
      else s\<lparr>completedBusyUs := wrap64 (completedBusyUs s + writeUs)\<rparr>)"

definition store_op :: "write_op \<Rightarrow> nat \<Rightarrow> activity \<Rightarrow> activity" where
  "store_op call i s = (store_field call i s)\<lparr>writer_at := Inside call (Suc i)\<rparr>"

definition uint32_max :: nat where
  "uint32_max = 2 ^ 32 - 1"

definition leave_op :: "write_op \<Rightarrow> activity \<Rightarrow> activity" where
  "leave_op call s =
     s\<lparr>seq := seq s + 1, ops := ops s @ [call],
       writer_at := (case call of BeginWrite startUs \<Rightarrow> Outside
                     | EndWrite packetBytes writeUs \<Rightarrow> LoadMax (min writeUs uint32_max))\<rparr>"

definition load_max :: "nat \<Rightarrow> activity \<Rightarrow> activity" where
  "load_max clamped s = s\<lparr>writer_at := RaiseMax clamped (maxCompletedWriteUs s)\<rparr>"

definition raise_max :: "bool \<Rightarrow> nat \<Rightarrow> nat \<Rightarrow> activity \<Rightarrow> activity" where
  "raise_max spurious clamped current s =
     (if clamped > current then
        (if \<not> spurious \<and> maxCompletedWriteUs s = current
         then s\<lparr>maxCompletedWriteUs := clamped, writer_at := Outside\<rparr>
         else s\<lparr>writer_at := RaiseMax clamped (maxCompletedWriteUs s)\<rparr>)
      else s\<lparr>writer_at := Outside\<rparr>)"

section \<open>The snapshot\<close>

definition in_flight_us :: "nat \<Rightarrow> nat \<Rightarrow> nat" where
  "in_flight_us nowUs inFlightStart =
     (if inFlightStart > 0 \<and> nowUs > inFlightStart then nowUs - inFlightStart else 0)"

definition make_snapshot :: "nat \<Rightarrow> nat \<Rightarrow> nat \<Rightarrow> nat \<Rightarrow> nat \<Rightarrow> activity_snapshot" where
  "make_snapshot nowUs written completedBusy inFlightStart completedMax =
     (let inFlightUs = in_flight_us nowUs inFlightStart;
          inFlightMax = min inFlightUs uint32_max
      in \<lparr>snapWrittenBytes = written, snapCompletedBusyUs = completedBusy,
          effectiveBusyUs = wrap64 (completedBusy + inFlightUs), inFlightWriteUs = inFlightUs,
          maxWriteUs = max completedMax inFlightMax\<rparr>)"

definition snapshot_start :: "nat \<Rightarrow> activity_reader" where
  "snapshot_start nowUs = LoadSeq nowUs"

text \<open>One access of the reader: what it stores and where the thread is afterwards.\<close>

fun snapshot_access :: "activity \<Rightarrow> activity_reader \<Rightarrow> activity_reader" where
  "snapshot_access s Resting = Resting"
| "snapshot_access s (LoadSeq nowUs) =
     (if seq s AND 1 \<noteq> 0 then LoadSeq nowUs else LoadWritten nowUs (seq s) (length (ops s)))"
| "snapshot_access s (LoadWritten nowUs seq1 g) = LoadBusy nowUs seq1 g (writtenBytes s)"
| "snapshot_access s (LoadBusy nowUs seq1 g written) =
     LoadInFlight nowUs seq1 g written (completedBusyUs s)"
| "snapshot_access s (LoadInFlight nowUs seq1 g written completedBusy) =
     CheckSeq nowUs seq1 g written completedBusy (inFlightStartUs s)"
| "snapshot_access s (CheckSeq nowUs seq1 g written completedBusy inFlightStart) =
     (if seq1 = seq s then ExchangeMax nowUs g (length (ops s)) written completedBusy inFlightStart
      else LoadSeq nowUs)"
| "snapshot_access s (ExchangeMax nowUs g k written completedBusy inFlightStart) =
     Taken nowUs g k (make_snapshot nowUs written completedBusy inFlightStart (maxCompletedWriteUs s))"
| "snapshot_access s (Taken nowUs g k snap) = Taken nowUs g k snap"

definition snapshot_step :: "nat \<Rightarrow> activity \<Rightarrow> activity" where
  "snapshot_step r s =
     s\<lparr>reader_at := (reader_at s)(r := snapshot_access s (reader_at s r)),
       maxCompletedWriteUs := (case reader_at s r of ExchangeMax _ _ _ _ _ _ \<Rightarrow> 0
                               | _ \<Rightarrow> maxCompletedWriteUs s)\<rparr>"

section \<open>Interleavings\<close>

inductive activity_step :: "activity \<Rightarrow> activity \<Rightarrow> bool" where
  enter: "writer_at s = Outside \<Longrightarrow> activity_step s (enter_op call s)"
| store: "writer_at s = Inside call i \<Longrightarrow> i < op_stores call \<Longrightarrow> activity_step s (store_op call i s)"
| leave: "writer_at s = Inside call (op_stores call) \<Longrightarrow> activity_step s (leave_op call s)"
| load: "writer_at s = LoadMax clamped \<Longrightarrow> activity_step s (load_max clamped s)"
| raise: "writer_at s = RaiseMax clamped current \<Longrightarrow>
    activity_step s (raise_max spurious clamped current s)"
| start: "reader_at s r = Resting \<or> (\<exists>now g k snap. reader_at s r = Taken now g k snap) \<Longrightarrow>
    activity_step s (s\<lparr>reader_at := (reader_at s)(r := snapshot_start nowUs)\<rparr>)"
| snapshot: "activity_step s (snapshot_step r s)"

section \<open>Consistency\<close>

text \<open>The fields after a sequence of complete calls.\<close>

definition fields :: "activity \<Rightarrow> nat \<times> nat \<times> nat" where
  "fields s = (writtenBytes s, completedBusyUs s, inFlightStartUs s)"

fun commit :: "nat \<times> nat \<times> nat \<Rightarrow> write_op \<Rightarrow> nat \<times> nat \<times> nat" where
  "commit (w, b, f) (BeginWrite startUs) = (w, b, if startUs > 0 then startUs else 1)"
| "commit (w, b, f) (EndWrite packetBytes writeUs) = (wrap64 (w + packetBytes), wrap64 (b + writeUs), 0)"

definition committed_fields :: "write_op list \<Rightarrow> nat \<times> nat \<times> nat" where
  "committed_fields cs = foldl commit (0, 0, 0) cs"

fun written_by :: "write_op \<Rightarrow> nat" where
  "written_by (BeginWrite startUs) = 0"
| "written_by (EndWrite packetBytes writeUs) = packetBytes"

fun busy_by :: "write_op \<Rightarrow> nat" where
  "busy_by (BeginWrite startUs) = 0"
| "busy_by (EndWrite packetBytes writeUs) = writeUs"

fun open_start :: "write_op list \<Rightarrow> nat" where
  "open_start [] = 0"
| "open_start [BeginWrite startUs] = max 1 startUs"
| "open_start [EndWrite packetBytes writeUs] = 0"
| "open_start (c # c' # cs) = open_start (c' # cs)"

lemma open_start_snoc [simp]:
  "open_start (cs @ [BeginWrite t]) = max 1 t" "open_start (cs @ [EndWrite b t]) = 0"
  by (induction cs rule: open_start.induct) auto

lemma wrap64_add [simp]: "wrap64 (wrap64 a + b) = wrap64 (a + b)"
  by (simp add: wrap64_def mod_simps)

lemma committed_fields_eq:
  "committed_fields cs =
     (wrap64 (sum_list (map written_by cs)), wrap64 (sum_list (map busy_by cs)), open_start cs)"
proof (induction cs rule: rev_induct)
  case Nil
  then show ?case by (simp add: committed_fields_def)
next
  case (snoc c cs)
  have "committed_fields (cs @ [c]) = commit (committed_fields cs) c" by (simp add: committed_fields_def)
  then show ?case using snoc.IH by (cases c) auto
qed

text \<open>The fields inside a critical section, before its \<open>i\<close>-th store.\<close>

fun partial :: "write_op \<Rightarrow> nat \<Rightarrow> nat \<times> nat \<times> nat \<Rightarrow> nat \<times> nat \<times> nat" where
  "partial (BeginWrite startUs) i (w, b, f) =
     (w, b, if i = 0 then f else if startUs > 0 then startUs else 1)"
| "partial (EndWrite packetBytes writeUs) i (w, b, f) =
     (if i \<le> 1 then w else wrap64 (w + packetBytes), if i \<le> 2 then b else wrap64 (b + writeUs),
      if i = 0 then f else 0)"

lemma partial_0 [simp]: "partial c 0 v = v"
  by (cases c; cases v) auto

lemma partial_all: "partial c (op_stores c) v = commit v c"
  by (cases c; cases v) auto

definition inside :: "activity \<Rightarrow> bool" where
  "inside s \<longleftrightarrow> (\<exists>call i. writer_at s = Inside call i)"

definition activity_writer_inv :: "activity \<Rightarrow> bool" where
  "activity_writer_inv s \<longleftrightarrow>
     (case writer_at s of
        Inside call i \<Rightarrow> seq s = of_nat (2 * length (ops s) + 1) \<and> i \<le> op_stores call \<and>
          fields s = partial call i (committed_fields (ops s))
      | _ \<Rightarrow> seq s = of_nat (2 * length (ops s)) \<and> fields s = committed_fields (ops s))"

text \<open>What a thread has loaded is right unless a call has completed or begun since.\<close>

definition fresh :: "activity \<Rightarrow> nat \<Rightarrow> bool" where
  "fresh s g \<longleftrightarrow> length (ops s) = g \<and> \<not> inside s"

definition activity_reader_ok :: "activity \<Rightarrow> activity_reader \<Rightarrow> bool" where
  "activity_reader_ok s rd \<longleftrightarrow>
     (case rd of
        LoadWritten now sq g \<Rightarrow> g \<le> length (ops s) \<and> sq = of_nat (2 * g)
      | LoadBusy now sq g w \<Rightarrow> g \<le> length (ops s) \<and> sq = of_nat (2 * g) \<and>
          (fresh s g \<longrightarrow> w = fst (committed_fields (ops s)))
      | LoadInFlight now sq g w b \<Rightarrow> g \<le> length (ops s) \<and> sq = of_nat (2 * g) \<and>
          (fresh s g \<longrightarrow> w = fst (committed_fields (ops s)) \<and> b = fst (snd (committed_fields (ops s))))
      | CheckSeq now sq g w b f \<Rightarrow> g \<le> length (ops s) \<and> sq = of_nat (2 * g) \<and>
          (fresh s g \<longrightarrow> (w, b, f) = committed_fields (ops s))
      | ExchangeMax now g k w b f \<Rightarrow> g \<le> k \<and> k \<le> length (ops s) \<and>
          (k < g + 2 ^ 63 \<longrightarrow> (w, b, f) = committed_fields (take g (ops s)))
      | Taken now g k snap \<Rightarrow> g \<le> k \<and> k \<le> length (ops s) \<and>
          (k < g + 2 ^ 63 \<longrightarrow> (\<exists>w b f m. (w, b, f) = committed_fields (take g (ops s)) \<and>
             snap = make_snapshot now w b f m))
      | _ \<Rightarrow> True)"

definition activity_inv :: "activity \<Rightarrow> bool" where
  "activity_inv s \<longleftrightarrow> activity_writer_inv s \<and> (\<forall>r. activity_reader_ok s (reader_at s r))"

lemma even_u64_of_nat: "(of_nat n :: u64) AND 1 = 0 \<longleftrightarrow> even n"
  by (simp add: and_one_eq even_iff_mod_2_eq_zero [symmetric])

lemma same_u64_sequence:
  assumes "(of_nat (2 * k) :: u64) = of_nat (2 * g)" and "g \<le> k" and "k < g + 2 ^ 63"
  shows "k = g"
proof -
  have "2 * k mod 2 ^ 64 = 2 * g mod (2 ^ 64 :: nat)"
    using assms(1) unfolding word_of_nat_eq_iff take_bit_eq_mod by simp
  then have "2 ^ 64 dvd 2 * k - 2 * g" using mod_eq_dvd_iff_nat [of "2 * g" "2 * k" "2 ^ 64"] assms(2) by simp
  then show ?thesis using assms(2,3) by (auto dest!: dvd_imp_le)
qed

lemma not_inside_facts:
  assumes "activity_writer_inv s" "\<not> inside s"
  shows "seq s = of_nat (2 * length (ops s))" "fields s = committed_fields (ops s)"
  using assms by (auto simp: activity_writer_inv_def inside_def split: activity_writer.splits)

lemma even_not_inside:
  assumes "activity_writer_inv s" "seq s AND 1 = 0"
  shows "\<not> inside s"
proof
  assume "inside s"
  then have "seq s = of_nat (2 * length (ops s) + 1)"
    using assms(1) by (auto simp: activity_writer_inv_def inside_def)
  then show False using assms(2) even_u64_of_nat [of "2 * length (ops s) + 1"] by simp
qed

text \<open>A step of the writer keeps what the readers know: it completes calls or is inside one.\<close>

lemma reader_ok_writer_step:
  assumes "activity_reader_ok s rd"
    and "ops t = ops s \<and> (\<not> inside t \<longrightarrow> \<not> inside s) \<or> (\<exists>call. ops t = ops s @ [call])"
  shows "activity_reader_ok t rd"
proof -
  have len: "length (ops s) \<le> length (ops t)" using assms(2) by auto
  have fresh: "fresh t g \<Longrightarrow> g \<le> length (ops s) \<Longrightarrow> fresh s g \<and> ops t = ops s" for g
    using assms(2) by (auto simp: fresh_def)
  have take: "g \<le> length (ops s) \<Longrightarrow> take g (ops t) = take g (ops s)" for g
    using assms(2) by auto
  show ?thesis
    using assms(1) len fresh take by (cases rd) (auto simp: activity_reader_ok_def)
qed

lemma inside_simps [simp]:
  "writer_at s = Outside \<Longrightarrow> \<not> inside s"
  "writer_at s = LoadMax c \<Longrightarrow> \<not> inside s"
  "writer_at s = RaiseMax c m \<Longrightarrow> \<not> inside s"
  "writer_at s = Inside call i \<Longrightarrow> inside s"
  by (auto simp: inside_def)

lemma writer_keeps_inv:
  assumes "activity_inv s" "reader_at t = reader_at s" "activity_writer_inv t"
    and "ops t = ops s \<and> (\<not> inside t \<longrightarrow> \<not> inside s) \<or> (\<exists>call. ops t = ops s @ [call])"
  shows "activity_inv t"
  using assms reader_ok_writer_step [OF _ assms(4)] by (auto simp: activity_inv_def)

lemma enter_inv:
  assumes "activity_inv s" "writer_at s = Outside"
  shows "activity_inv (enter_op call s)"
proof (rule writer_keeps_inv [OF assms(1)])
  have "activity_writer_inv s" using assms(1) by (simp add: activity_inv_def)
  then show "activity_writer_inv (enter_op call s)"
    using assms(2) by (simp add: activity_writer_inv_def enter_op_def fields_def add.commute)
qed (use assms in \<open>simp_all add: enter_op_def\<close>)

lemma store_field_other:
  "seq (store_field c i s) = seq s" "reader_at (store_field c i s) = reader_at s"
  "ops (store_field c i s) = ops s"
  by (cases c; simp)+

lemma fields_store:
  assumes "fields s = partial c i v" "i < op_stores c"
  shows "fields (store_op c i s) = partial c (Suc i) v"
  using assms by (cases c; cases v) (auto simp: store_op_def fields_def split: if_splits)

lemma store_inv:
  assumes "activity_inv s" "writer_at s = Inside call i" "i < op_stores call"
  shows "activity_inv (store_op call i s)"
proof (rule writer_keeps_inv [OF assms(1)])
  have "activity_writer_inv s" using assms(1) by (simp add: activity_inv_def)
  then have seq: "seq s = of_nat (2 * length (ops s) + 1)"
    and f: "fields s = partial call i (committed_fields (ops s))"
    using assms(2) by (simp_all add: activity_writer_inv_def)
  have sel: "writer_at (store_op call i s) = Inside call (Suc i)" "seq (store_op call i s) = seq s"
    "ops (store_op call i s) = ops s"
    by (simp_all add: store_op_def store_field_other)
  show "activity_writer_inv (store_op call i s)"
    unfolding activity_writer_inv_def sel activity_writer.case fields_store [OF f assms(3)]
    using seq assms(3) by simp
  show "reader_at (store_op call i s) = reader_at s" by (simp add: store_op_def store_field_other)
  show "ops (store_op call i s) = ops s \<and> (\<not> inside (store_op call i s) \<longrightarrow> \<not> inside s) \<or>
      (\<exists>c. ops (store_op call i s) = ops s @ [c])"
    using sel by simp
qed

lemma leave_inv:
  assumes "activity_inv s" "writer_at s = Inside call (op_stores call)"
  shows "activity_inv (leave_op call s)"
proof (rule writer_keeps_inv [OF assms(1)])
  have "activity_writer_inv s" using assms(1) by (simp add: activity_inv_def)
  then have seq: "seq s = of_nat (2 * length (ops s) + 1)"
    and f: "fields s = commit (committed_fields (ops s)) call"
    using assms(2) by (simp_all add: activity_writer_inv_def partial_all)
  have "seq s + 1 = of_nat (2 * length (ops s @ [call]))" unfolding seq by simp
  moreover have "commit (committed_fields (ops s)) call = committed_fields (ops s @ [call])"
    by (simp add: committed_fields_def)
  ultimately show "activity_writer_inv (leave_op call s)"
    using f by (cases call) (simp_all add: activity_writer_inv_def leave_op_def fields_def)
qed (simp_all add: leave_op_def)

lemma max_inv:
  assumes "activity_inv s" "\<not> inside s" "\<not> inside t" "seq t = seq s" "fields t = fields s"
    "ops t = ops s" "reader_at t = reader_at s"
  shows "activity_inv t"
proof (rule writer_keeps_inv [OF assms(1,7)])
  have "activity_writer_inv s" using assms(1) by (simp add: activity_inv_def)
  note w = not_inside_facts [OF this assms(2)]
  show "activity_writer_inv t"
    using assms(3-6) w by (auto simp: activity_writer_inv_def inside_def split: activity_writer.splits)
qed (use assms in simp)

lemma access_ok:
  assumes "activity_writer_inv s" "activity_reader_ok s rd"
  shows "activity_reader_ok s (snapshot_access s rd)"
proof (cases rd)
  case (LoadSeq now)
  have "seq s = of_nat (2 * length (ops s))" if "seq s AND 1 = 0"
    using not_inside_facts(1) [OF assms(1) even_not_inside [OF assms(1) that]] .
  then show ?thesis by (simp add: LoadSeq activity_reader_ok_def)
next
  case (CheckSeq now sq g w b f)
  then have r: "g \<le> length (ops s)" "sq = of_nat (2 * g)" "fresh s g \<Longrightarrow> (w, b, f) = committed_fields (ops s)"
    using assms(2) by (simp_all add: activity_reader_ok_def)
  show ?thesis
  proof (cases "sq = seq s")
    case True
    then have "seq s AND 1 = 0" using r(2) even_u64_of_nat [of "2 * g"] by simp
    then have idle: "\<not> inside s" by (rule even_not_inside [OF assms(1)])
    have "(w, b, f) = committed_fields (take g (ops s))" if "length (ops s) < g + 2 ^ 63"
    proof -
      have "(of_nat (2 * length (ops s)) :: u64) = of_nat (2 * g)"
        using not_inside_facts(1) [OF assms(1) idle] True r(2) by (simp only:)
      then have "length (ops s) = g" using r(1) that by (rule same_u64_sequence)
      then show ?thesis using r(3) idle by (simp add: fresh_def)
    qed
    then show ?thesis using True r(1) by (simp add: CheckSeq activity_reader_ok_def)
  qed (simp add: CheckSeq activity_reader_ok_def)
next
  case (ExchangeMax now g k w b f)
  then show ?thesis using assms(2) by (auto simp: activity_reader_ok_def)
next
  case (LoadWritten now sq g)
  then show ?thesis
    using assms not_inside_facts(2) [OF assms(1)]
    by (cases "committed_fields (ops s)") (auto simp: activity_reader_ok_def fresh_def fields_def)
next
  case (LoadBusy now sq g w)
  then show ?thesis
    using assms not_inside_facts(2) [OF assms(1)]
    by (cases "committed_fields (ops s)") (auto simp: activity_reader_ok_def fresh_def fields_def)
next
  case (LoadInFlight now sq g w b)
  then show ?thesis
    using assms not_inside_facts(2) [OF assms(1)]
    by (cases "committed_fields (ops s)") (auto simp: activity_reader_ok_def fresh_def fields_def)
qed (use assms in \<open>simp_all add: activity_reader_ok_def\<close>)

lemma activity_reader_ok_cong:
  assumes "ops t = ops s" "writer_at t = writer_at s"
  shows "activity_reader_ok t rd = activity_reader_ok s rd"
  by (simp add: activity_reader_ok_def fresh_def inside_def assms split: activity_reader.split)

lemma reader_keeps_inv:
  assumes inv: "activity_inv s"
    and same: "ops t = ops s" "writer_at t = writer_at s" "seq t = seq s" "fields t = fields s"
    and readers: "reader_at t = (reader_at s)(r := rd)" and ok: "activity_reader_ok s rd"
  shows "activity_inv t"
proof -
  have "activity_writer_inv t = activity_writer_inv s" unfolding activity_writer_inv_def same ..
  then show ?thesis
    using inv ok activity_reader_ok_cong [OF same(1,2)] by (auto simp: activity_inv_def readers)
qed

lemma activity_inv_step:
  assumes "activity_step s t" and inv: "activity_inv s"
  shows "activity_inv t"
  using assms(1)
proof cases
  case (load clamped)
  then show ?thesis by (intro max_inv [OF inv]) (simp_all add: load_max_def fields_def)
next
  case (raise clamped current spurious)
  then show ?thesis by (intro max_inv [OF inv]) (simp_all add: raise_max_def fields_def)
next
  case (start r nowUs)
  then show ?thesis
    by (intro reader_keeps_inv [OF inv, where r = r and rd = "LoadSeq nowUs"])
      (simp_all add: fields_def activity_reader_ok_def snapshot_start_def)
next
  case (snapshot r)
  have "activity_reader_ok s (snapshot_access s (reader_at s r))"
    using inv by (intro access_ok) (simp_all add: activity_inv_def)
  then show ?thesis
    unfolding snapshot
    by (intro reader_keeps_inv [OF inv, where r = r and rd = "snapshot_access s (reader_at s r)"]) (simp_all add: snapshot_step_def fields_def)
qed (use inv in \<open>simp_all add: enter_inv store_inv leave_inv\<close>)

lemma activity_inv_reset: "activity_inv activity_reset"
  by (simp add: activity_reset_def activity_inv_def activity_writer_inv_def activity_reader_ok_def
      fields_def committed_fields_def)

interpretation activity_system: invariant_system "(=) activity_reset" activity_step activity_inv
  by unfold_locales (use activity_inv_reset activity_inv_step in auto)

text \<open>C17: In every interleaving of the writer with any number of threads taking snapshots, a snapshot
  is the account of the calls completed at one moment of it (unless 2 ^ 63 calls complete while it
  is taken): the written bytes and busy time are the sums over the ended writes, and the write in
  flight, if the last call began one, adds the time since its start exactly once.\<close>

theorem window_snapshot_consistent:
  assumes "reachable_from ((=) activity_reset) activity_step s"
    and "reader_at s r = Taken nowUs g k snap" and "k < g + 2 ^ 63"
  shows "g \<le> k \<and> k \<le> length (ops s) \<and>
    (let calls = take g (ops s); inFlight = in_flight_us nowUs (open_start calls) in
       snapWrittenBytes snap = wrap64 (sum_list (map written_by calls)) \<and>
       snapCompletedBusyUs snap = wrap64 (sum_list (map busy_by calls)) \<and>
       inFlightWriteUs snap = inFlight \<and>
       effectiveBusyUs snap = wrap64 (sum_list (map busy_by calls) + inFlight) \<and>
       maxWriteUs snap \<ge> min inFlight uint32_max)"
proof -
  have "activity_inv s" using assms(1) by (rule activity_system.reachable_inv)
  then have "activity_reader_ok s (Taken nowUs g k snap)"
    unfolding activity_inv_def assms(2) [symmetric] by blast
  then show ?thesis
    using assms(3) by (auto simp: activity_reader_ok_def committed_fields_eq make_snapshot_def Let_def)
qed

text \<open>A schedule as a list: the next access of the writer (which enters the named call when it is
  outside one), the start of a snapshot, or the next access of a snapshot.\<close>

datatype turn = WriterTurn write_op | StartTurn nat nat | ReaderTurn nat

fun take_turn :: "turn \<Rightarrow> activity \<Rightarrow> activity" where
  "take_turn (WriterTurn call) s =
     (case writer_at s of
        Outside \<Rightarrow> enter_op call s
      | Inside c i \<Rightarrow> (if i < op_stores c then store_op c i s else leave_op c s)
      | LoadMax clamped \<Rightarrow> load_max clamped s
      | RaiseMax clamped current \<Rightarrow> raise_max False clamped current s)"
| "take_turn (StartTurn r nowUs) s =
     (case reader_at s r of
        Resting \<Rightarrow> s\<lparr>reader_at := (reader_at s)(r := snapshot_start nowUs)\<rparr>
      | _ \<Rightarrow> snapshot_step r s)"
| "take_turn (ReaderTurn r) s = snapshot_step r s"

lemma turn_is_step:
  assumes "activity_inv s"
  shows "activity_step s (take_turn t s)"
proof (cases t)
  case (WriterTurn call)
  have "i = op_stores c" if "writer_at s = Inside c i" "\<not> i < op_stores c" for c i
    using assms that by (simp add: activity_inv_def activity_writer_inv_def)
  then show ?thesis
    by (cases "writer_at s") (auto simp: WriterTurn intro: activity_step.intros)
next
  case (StartTurn r nowUs)
  then show ?thesis by (cases "reader_at s r") (auto intro: activity_step.intros)
next
  case (ReaderTurn r)
  then show ?thesis by (auto intro: activity_step.intros)
qed

lemma turns_reachable:
  "reachable_from ((=) activity_reset) activity_step (fold take_turn ts activity_reset)"
proof (induction ts rule: rev_induct)
  case Nil
  then show ?case by (auto intro: reachable_from.start)
next
  case (snoc t ts)
  then show ?case
    using turn_is_step [OF activity_system.reachable_inv [OF snoc.IH], of t]
    by (auto intro: reachable_from.more)
qed

definition sample_turns :: "turn list" where
  "sample_turns =
    [WriterTurn (BeginWrite 100), WriterTurn (BeginWrite 100), WriterTurn (BeginWrite 100),
     StartTurn 5 170, ReaderTurn 5, ReaderTurn 5, WriterTurn (EndWrite 4096 60), WriterTurn
     (EndWrite 4096 60), WriterTurn (EndWrite 4096 60), WriterTurn (EndWrite 4096 60),
     WriterTurn (EndWrite 4096 60), WriterTurn (EndWrite 4096 60), WriterTurn (EndWrite 4096
     60), ReaderTurn 5, ReaderTurn 5, ReaderTurn 5, WriterTurn (BeginWrite 165), WriterTurn
     (BeginWrite 165), WriterTurn (BeginWrite 165), ReaderTurn 5, ReaderTurn 5, ReaderTurn 5,
     ReaderTurn 5, ReaderTurn 5, ReaderTurn 5]"

lemmas turn_defs = activity_reset_def enter_op_def store_op_def leave_op_def load_max_def raise_max_def
  snapshot_step_def snapshot_start_def make_snapshot_def in_flight_us_def uint32_max_def

theorem window_snapshot_consistent_witness:
  "reader_at (fold take_turn sample_turns activity_reset) 5 = Taken 170 3 3
     \<lparr>snapWrittenBytes = 4096, snapCompletedBusyUs = 60, effectiveBusyUs = 65, inFlightWriteUs = 5,
      maxWriteUs = 60\<rparr> \<and>
   wrap64 (sum_list (map busy_by (take 3 (ops (fold take_turn sample_turns activity_reset)))) + 5) = 65"
proof -
  let ?s = "fold take_turn sample_turns activity_reset"
  have run: "reader_at ?s 5 = Taken 170 3 3
     \<lparr>snapWrittenBytes = 4096, snapCompletedBusyUs = 60, effectiveBusyUs = 65, inFlightWriteUs = 5,
      maxWriteUs = 60\<rparr>"
    and ops: "ops ?s = [BeginWrite 100, EndWrite 4096 60, BeginWrite 165]"
    by (simp_all add: sample_turns_def turn_defs)
  show ?thesis
    using window_snapshot_consistent [OF turns_reachable [of sample_turns] run] run
    by (simp add: Let_def ops in_flight_us_def)
qed

end
