(* ===== verification/FrameQueue.thy ===== *)
theory FrameQueue
  imports Prelude "HOL-Library.Multiset" "HOL-Library.Sublist"
begin

text \<open>
  The queue between capture and encoding, \<open>src/common/capture/frame_queue.h\<close>: the frame with its
  move semantics, and every operation of \<open>FrameQueue\<close>.  Each operation holds the queue's mutex for
  its whole effect on the buffer, so an operation is one step; the textures it drops are released
  after the lock is given up and are a result of the operation.  Handles, COM pointers, leases and
  the cursor state are tokens, zero being null or default-constructed.  The clock is an argument.
\<close>

section \<open>Frames\<close>

record queued_frame =
  sharedHandle :: nat
  fenceHandle :: nat
  fenceValue :: nat
  luidLow :: int
  luidHigh :: int
  sourcePid :: u32
  ringIndex :: u32
  frameIndex :: u32
  textureIndex :: int
  displayTimingSequence :: nat
  displayTimingGeneration :: nat
  transportGeneration :: u32
  captureFlags :: u32
  injectRingLease :: nat
  wgcPoolSlot :: u32
  wgcPoolGeneration :: nat
  wgcSourceEpoch :: nat
  wgcPoolLease :: nat
  enqueueQpc :: int
  deferCount :: u32
  format :: u32
  texture :: nat
  timestamp :: int
  rawTimestamp :: int
  selectionTimestamp :: int
  frameWidth :: u32
  frameHeight :: u32
  isInjectMode :: bool
  isHDR :: bool
  duplicateSourceTimestamp :: bool
  sourceFrameSpan :: u32
  wgcCursorEmbedded :: bool
  captureLeft :: int
  captureTop :: int
  cursorState :: nat
  isShmem :: bool
  shmemSlot :: u32

definition default_frame :: queued_frame where
  "default_frame = \<lparr>sharedHandle = 0, fenceHandle = 0, fenceValue = 0, luidLow = 0, luidHigh = 0,
     sourcePid = 0, ringIndex = 0, frameIndex = 0, textureIndex = - 1, displayTimingSequence = 0,
     displayTimingGeneration = 0, transportGeneration = 0, captureFlags = 0, injectRingLease = 0,
     wgcPoolSlot = - 1, wgcPoolGeneration = 0, wgcSourceEpoch = 0, wgcPoolLease = 0, enqueueQpc = 0,
     deferCount = 0, format = 0, texture = 0, timestamp = 0, rawTimestamp = 0, selectionTimestamp = 0,
     frameWidth = 0, frameHeight = 0, isInjectMode = False, isHDR = False,
     duplicateSourceTimestamp = False, sourceFrameSpan = 1, wgcCursorEmbedded = False,
     captureLeft = 0, captureTop = 0, cursorState = 0, isShmem = False, shmemSlot = 0\<rparr>"

text \<open>Move assignment from another frame: the target, and the source left behind.\<close>

definition move_frame :: "queued_frame \<Rightarrow> queued_frame \<times> queued_frame" where
  "move_frame other = (other, default_frame)"

text \<open>The texture reference a frame owns, if any.\<close>

definition owned_textures :: "queued_frame \<Rightarrow> nat list" where
  "owned_textures frame = (if \<not> isInjectMode frame \<and> texture frame \<noteq> 0 then [texture frame] else [])"

section \<open>The queue\<close>

record frame_queue =
  buffer :: "queued_frame list"
  maxCapacity :: nat
  running :: bool
  droppedFrames :: nat
  recordingStartTime :: int

definition new_queue :: "nat \<Rightarrow> frame_queue" where
  "new_queue capacity = \<lparr>buffer = [], maxCapacity = capacity, running = True, droppedFrames = 0,
     recordingStartTime = 0\<rparr>"

definition grace_period :: int where
  "grace_period = 2 * 1000000000"

definition start_recording :: "int \<Rightarrow> frame_queue \<Rightarrow> frame_queue" where
  "start_recording now q = q\<lparr>recordingStartTime := now, droppedFrames := 0\<rparr>"

text \<open>\<open>Push\<close>: \<^const>\<open>None\<close> is \<open>front()\<close> of an empty deque, reached only with capacity zero.  The
  results are the queue, the textures released and the caller's frame afterwards.\<close>

definition push_frame ::
    "queued_frame \<Rightarrow> bool \<Rightarrow> int \<Rightarrow> frame_queue \<Rightarrow> (frame_queue \<times> nat list \<times> queued_frame) option" where
  "push_frame frame countAsDrop now q =
     (let (moved, left) = move_frame frame
      in if length (buffer q) \<ge> maxCapacity q then
           (case buffer q of
              [] \<Rightarrow> None
            | oldest # rest \<Rightarrow>
                Some (q\<lparr>buffer := rest @ [moved],
                       droppedFrames := (if countAsDrop \<and> now - recordingStartTime q > grace_period
                                         then wrap64 (droppedFrames q + 1) else droppedFrames q)\<rparr>,
                      owned_textures oldest, left))
         else Some (q\<lparr>buffer := buffer q @ [moved]\<rparr>, [], left))"

text \<open>\<open>Pop\<close>, at the moment it holds the lock for the last time: at once when a frame is queued, else
  when the wait ends by a push, the shutdown or the timeout.\<close>

definition pop_frame :: "frame_queue \<Rightarrow> frame_queue \<times> queued_frame option" where
  "pop_frame q =
     (case buffer q of
        [] \<Rightarrow> (q, None)
      | front # rest \<Rightarrow> (q\<lparr>buffer := rest\<rparr>, Some (fst (move_frame front))))"

text \<open>Whether a \<open>Pop\<close> that found the queue empty may stop waiting before its timeout.\<close>

definition pop_wakes :: "frame_queue \<Rightarrow> bool" where
  "pop_wakes q \<longleftrightarrow> buffer q \<noteq> [] \<or> \<not> running q"

definition peek_timestamp :: "frame_queue \<Rightarrow> int option" where
  "peek_timestamp q = (case buffer q of [] \<Rightarrow> None | front # rest \<Rightarrow> Some (timestamp front))"

definition queue_size :: "frame_queue \<Rightarrow> nat" where
  "queue_size q = length (buffer q)"

definition queue_is_full :: "frame_queue \<Rightarrow> bool" where
  "queue_is_full q \<longleftrightarrow> length (buffer q) \<ge> maxCapacity q"

definition queue_is_empty :: "frame_queue \<Rightarrow> bool" where
  "queue_is_empty q \<longleftrightarrow> buffer q = []"

definition reset_dropped_count :: "frame_queue \<Rightarrow> frame_queue" where
  "reset_dropped_count q = q\<lparr>droppedFrames := 0\<rparr>"

definition clear_queue :: "frame_queue \<Rightarrow> frame_queue \<times> nat list" where
  "clear_queue q = (q\<lparr>buffer := [], droppedFrames := 0\<rparr>, concat (map owned_textures (buffer q)))"

text \<open>The loop over the buffer: the frames kept, the textures to release, the number discarded.\<close>

fun discard_wgc_loop :: "nat \<Rightarrow> queued_frame list \<Rightarrow> queued_frame list \<times> nat list \<times> nat" where
  "discard_wgc_loop activeEpoch [] = ([], [], 0)"
| "discard_wgc_loop activeEpoch (frame # frames) =
     (let (kept, texturesToRelease, discarded) = discard_wgc_loop activeEpoch frames
      in if \<not> isInjectMode frame \<and> wgcSourceEpoch frame \<noteq> activeEpoch
         then (kept, (if texture frame \<noteq> 0 then [texture frame] else []) @ texturesToRelease, Suc discarded)
         else (frame # kept, texturesToRelease, discarded))"

definition discard_wgc_epoch_not_equal :: "nat \<Rightarrow> frame_queue \<Rightarrow> frame_queue \<times> nat list \<times> nat" where
  "discard_wgc_epoch_not_equal activeEpoch q =
     (let (kept, texturesToRelease, discarded) = discard_wgc_loop activeEpoch (buffer q)
      in (q\<lparr>buffer := kept\<rparr>, texturesToRelease, discarded))"

definition shutdown_queue :: "frame_queue \<Rightarrow> frame_queue" where
  "shutdown_queue q = q\<lparr>running := False\<rparr>"

definition destroy_queue :: "frame_queue \<Rightarrow> frame_queue \<times> nat list" where
  "destroy_queue q = (q\<lparr>buffer := []\<rparr>, concat (map owned_textures (buffer q)))"

section \<open>Schedules\<close>

datatype frame_call =
    CallPush queued_frame bool int
  | CallPop
  | CallClear
  | CallDiscard nat
  | CallStart int
  | CallShutdown
  | CallResetDropped

text \<open>What the threads around the queue see: frames pushed, frames popped, textures released by the
  queue, and the frames the producers still hold after their pushes.\<close>

record frame_trace =
  pushed :: "queued_frame list"
  popped :: "queued_frame list"
  released :: "nat list"
  left_behind :: "queued_frame list"

fun frame_call_step :: "frame_call \<Rightarrow> frame_queue \<times> frame_trace \<Rightarrow> (frame_queue \<times> frame_trace) option" where
  "frame_call_step (CallPush frame countAsDrop now) (q, tr) =
     (case push_frame frame countAsDrop now q of
        None \<Rightarrow> None
      | Some (q', texturesToRelease, left) \<Rightarrow>
          Some (q', tr\<lparr>pushed := pushed tr @ [frame], released := released tr @ texturesToRelease,
                      left_behind := left_behind tr @ [left]\<rparr>))"
| "frame_call_step CallPop (q, tr) =
     (case pop_frame q of
        (q', None) \<Rightarrow> Some (q', tr)
      | (q', Some frame) \<Rightarrow> Some (q', tr\<lparr>popped := popped tr @ [frame]\<rparr>))"
| "frame_call_step CallClear (q, tr) =
     (let (q', ts) = clear_queue q in Some (q', tr\<lparr>released := released tr @ ts\<rparr>))"
| "frame_call_step (CallDiscard epoch) (q, tr) =
     (let (q', ts, discarded) = discard_wgc_epoch_not_equal epoch q
      in Some (q', tr\<lparr>released := released tr @ ts\<rparr>))"
| "frame_call_step (CallStart now) (q, tr) = Some (start_recording now q, tr)"
| "frame_call_step CallShutdown (q, tr) = Some (shutdown_queue q, tr)"
| "frame_call_step CallResetDropped (q, tr) = Some (reset_dropped_count q, tr)"

fun run_frame_calls :: "frame_call list \<Rightarrow> frame_queue \<times> frame_trace \<Rightarrow> (frame_queue \<times> frame_trace) option" where
  "run_frame_calls [] s = Some s"
| "run_frame_calls (c # cs) s =
     (case frame_call_step c s of None \<Rightarrow> None | Some s' \<Rightarrow> run_frame_calls cs s')"

definition empty_trace :: frame_trace where
  "empty_trace = \<lparr>pushed = [], popped = [], released = [], left_behind = []\<rparr>"

section \<open>Conservation\<close>

definition textures_of :: "queued_frame list \<Rightarrow> nat multiset" where
  "textures_of frames = mset (concat (map owned_textures frames))"

lemma textures_of_simps [simp]:
  "textures_of [] = {#}"
  "textures_of (f # fs) = mset (owned_textures f) + textures_of fs"
  "textures_of (fs @ gs) = textures_of fs + textures_of gs"
  by (simp_all add: textures_of_def)

lemma discard_wgc_loop_eq:
  "discard_wgc_loop e fs =
     (filter (\<lambda>f. isInjectMode f \<or> wgcSourceEpoch f = e) fs,
      concat (map owned_textures (filter (\<lambda>f. \<not> isInjectMode f \<and> wgcSourceEpoch f \<noteq> e) fs)),
      length (filter (\<lambda>f. \<not> isInjectMode f \<and> wgcSourceEpoch f \<noteq> e) fs))"
  by (induction fs) (auto simp: owned_textures_def)

lemma textures_filter:
  "textures_of (filter P fs) + textures_of (filter (\<lambda>x. \<not> P x) fs) = textures_of fs"
  by (induction fs) (auto simp: ac_simps)

definition queue_conserves :: "frame_queue \<times> frame_trace \<Rightarrow> bool" where
  "queue_conserves s \<longleftrightarrow>
     (case s of (q, tr) \<Rightarrow>
        0 < maxCapacity q \<and> length (buffer q) \<le> maxCapacity q \<and>
        subseq (popped tr @ buffer q) (pushed tr) \<and>
        textures_of (pushed tr) = textures_of (popped tr) + textures_of (buffer q) + mset (released tr) \<and>
        set (left_behind tr) \<subseteq> {default_frame})"

lemma subseq_drop_middle: "subseq (xs @ y # ys) zs \<Longrightarrow> subseq (xs @ ys) zs"
  by (rule subseq_order.trans [rotated]) (auto intro: list_emb_append_mono)

lemma conservesI:
  assumes "0 < maxCapacity q" "length (buffer q) \<le> maxCapacity q" "subseq (popped tr @ buffer q) (pushed tr)"
    "textures_of (pushed tr) = textures_of (popped tr) + textures_of (buffer q) + mset (released tr)"
    "set (left_behind tr) \<subseteq> {default_frame}"
  shows "queue_conserves (q, tr)"
  using assms unfolding queue_conserves_def prod.case by blast

lemma conservesD:
  assumes "queue_conserves (q, tr)"
  shows "0 < maxCapacity q" "length (buffer q) \<le> maxCapacity q" "subseq (popped tr @ buffer q) (pushed tr)"
    "textures_of (pushed tr) = textures_of (popped tr) + textures_of (buffer q) + mset (released tr)"
    "set (left_behind tr) \<subseteq> {default_frame}"
  using assms unfolding queue_conserves_def prod.case by blast+

lemma subseq_snoc_both: "subseq xs ys \<Longrightarrow> subseq (xs @ [z]) (ys @ [z])"
  by (rule list_emb_append_mono) simp_all

lemma push_conserves:
  assumes "queue_conserves (q, tr)"
  shows "\<exists>s. frame_call_step (CallPush frame countAsDrop now) (q, tr) = Some s \<and> queue_conserves s \<and>
    maxCapacity (fst s) = maxCapacity q"
proof (cases "length (buffer q) \<ge> maxCapacity q")
  case True
  note old = conservesD [OF assms]
  obtain oldest rest where b: "buffer q = oldest # rest"
    using old(1) True by (cases "buffer q") auto
  have sub: "subseq (popped tr @ rest) (pushed tr)"
    using old(3) unfolding b by (rule subseq_drop_middle)
  have "queue_conserves (q\<lparr>buffer := rest @ [frame], droppedFrames := d\<rparr>,
      tr\<lparr>pushed := pushed tr @ [frame], released := released tr @ owned_textures oldest,
         left_behind := left_behind tr @ [default_frame]\<rparr>)" for d
    by (rule conservesI) (use old(1,2,4,5) subseq_snoc_both [OF sub, of frame] in \<open>simp_all add: b\<close>)
  then show ?thesis
    using True by (simp add: push_frame_def move_frame_def b)
next
  case False
  note old = conservesD [OF assms]
  have "queue_conserves (q\<lparr>buffer := buffer q @ [frame]\<rparr>,
      tr\<lparr>pushed := pushed tr @ [frame], left_behind := left_behind tr @ [default_frame]\<rparr>)"
    by (rule conservesI) (use False old(1,4,5) subseq_snoc_both [OF old(3), of frame] in simp_all)
  then show ?thesis
    using False by (simp add: push_frame_def move_frame_def)
qed

lemma pop_conserves:
  assumes "queue_conserves (q, tr)"
  shows "\<exists>s. frame_call_step CallPop (q, tr) = Some s \<and> queue_conserves s \<and> maxCapacity (fst s) = maxCapacity q"
proof (cases "buffer q")
  case Nil
  then show ?thesis using assms by (simp add: pop_frame_def)
next
  case (Cons front rest)
  note old = conservesD [OF assms, unfolded Cons]
  have "queue_conserves (q\<lparr>buffer := rest\<rparr>, tr\<lparr>popped := popped tr @ [front]\<rparr>)"
    by (rule conservesI) (use old in simp_all)
  then show ?thesis by (simp add: pop_frame_def move_frame_def Cons)
qed

text \<open>Removing frames from the buffer and releasing their textures.\<close>

lemma remove_conserves:
  assumes "queue_conserves (q, tr)" "mset rs = textures_of (filter (\<lambda>f. \<not> keep f) (buffer q))"
  shows "queue_conserves (q\<lparr>buffer := filter keep (buffer q), droppedFrames := d\<rparr>, tr\<lparr>released := released tr @ rs\<rparr>)"
proof (rule conservesI)
  note old = conservesD [OF assms(1)]
  have "subseq (popped tr @ filter keep (buffer q)) (popped tr @ buffer q)"
    by (rule list_emb_append_mono) simp_all
  then have "subseq (popped tr @ filter keep (buffer q)) (pushed tr)"
    using old(3) by (rule subseq_order.trans)
  then show "subseq (popped (tr\<lparr>released := released tr @ rs\<rparr>) @
        buffer (q\<lparr>buffer := filter keep (buffer q), droppedFrames := d\<rparr>)) (pushed (tr\<lparr>released := released tr @ rs\<rparr>))"
    by simp
  show "length (buffer (q\<lparr>buffer := filter keep (buffer q), droppedFrames := d\<rparr>))
      \<le> maxCapacity (q\<lparr>buffer := filter keep (buffer q), droppedFrames := d\<rparr>)"
    using order.trans [OF length_filter_le old(2), of keep] by simp
  show "textures_of (pushed (tr\<lparr>released := released tr @ rs\<rparr>)) =
      textures_of (popped (tr\<lparr>released := released tr @ rs\<rparr>)) +
      textures_of (buffer (q\<lparr>buffer := filter keep (buffer q), droppedFrames := d\<rparr>)) +
      mset (released (tr\<lparr>released := released tr @ rs\<rparr>))"
    using old(4) textures_filter [of keep "buffer q"] assms(2) by simp
qed (use conservesD [OF assms(1)] in simp_all)

lemma frame_step_conserves:
  assumes "queue_conserves (q, tr)"
  shows "\<exists>s. frame_call_step c (q, tr) = Some s \<and> queue_conserves s \<and> maxCapacity (fst s) = maxCapacity q"
proof (cases c)
  case CallPush
  then show ?thesis using push_conserves [OF assms] by simp
next
  case CallPop
  then show ?thesis using pop_conserves [OF assms] by simp
next
  case CallClear
  have "queue_conserves (q\<lparr>buffer := filter (\<lambda>_. False) (buffer q), droppedFrames := 0\<rparr>,
      tr\<lparr>released := released tr @ concat (map owned_textures (buffer q))\<rparr>)"
    by (rule remove_conserves [OF assms]) (simp add: textures_of_def)
  then show ?thesis by (simp add: CallClear clear_queue_def)
next
  case (CallDiscard e)
  let ?keep = "\<lambda>f. isInjectMode f \<or> wgcSourceEpoch f = e"
  have "queue_conserves (q\<lparr>buffer := filter ?keep (buffer q), droppedFrames := droppedFrames q\<rparr>,
      tr\<lparr>released := released tr @
        concat (map owned_textures (filter (\<lambda>f. \<not> isInjectMode f \<and> wgcSourceEpoch f \<noteq> e) (buffer q)))\<rparr>)"
    by (rule remove_conserves [OF assms]) (simp add: textures_of_def)
  then show ?thesis
    by (simp add: CallDiscard discard_wgc_epoch_not_equal_def discard_wgc_loop_eq)
qed (use conservesD [OF assms] in
    \<open>auto simp: start_recording_def shutdown_queue_def reset_dropped_count_def intro!: conservesI\<close>)

lemma run_conserves:
  "queue_conserves s \<Longrightarrow>
   \<exists>t. run_frame_calls cs s = Some t \<and> queue_conserves t \<and> maxCapacity (fst t) = maxCapacity (fst s)"
proof (induction cs arbitrary: s)
  case Nil
  then show ?case by simp
next
  case (Cons c cs)
  obtain q tr where s: "s = (q, tr)" by (cases s)
  obtain s' where "frame_call_step c s = Some s'" "queue_conserves s'" "maxCapacity (fst s') = maxCapacity q"
    using frame_step_conserves Cons.prems unfolding s by blast
  then show ?case using Cons.IH [of s'] by (simp add: s)
qed

text \<open>C18: With a positive capacity every sequence of calls by the producers and the consumer runs to
  its end; the queue never exceeds its capacity, delivers frames in the order they were pushed
  and none twice, and when it is destroyed every texture reference pushed into it has been handed
  to the consumer or released by the queue exactly once; a producer is left with an empty frame.\<close>

theorem frame_queue_owns_textures:
  assumes "0 < capacity"
  shows "case run_frame_calls calls (new_queue capacity, empty_trace) of
      None \<Rightarrow> False
    | Some (q, tr) \<Rightarrow>
        length (buffer q) \<le> capacity \<and> subseq (popped tr @ buffer q) (pushed tr) \<and>
        set (left_behind tr) \<subseteq> {default_frame} \<and>
        textures_of (pushed tr) = textures_of (popped tr) + mset (released tr @ snd (destroy_queue q))"
proof -
  have "queue_conserves (new_queue capacity, empty_trace)"
    using assms by (simp add: queue_conserves_def new_queue_def empty_trace_def)
  from run_conserves [OF this, of calls]
  show ?thesis
    by (auto simp: queue_conserves_def destroy_queue_def new_queue_def textures_of_def ac_simps)
qed

theorem frame_queue_owns_textures_witness:
  "case run_frame_calls
      [CallPush (default_frame\<lparr>texture := 7\<rparr>) True 0, CallPush (default_frame\<lparr>texture := 8, wgcSourceEpoch := 1\<rparr>) True 0,
       CallPush (default_frame\<lparr>texture := 9\<rparr>) True 3000000000, CallPop, CallDiscard 1]
      (new_queue 2, empty_trace) of
      None \<Rightarrow> False
    | Some (q, tr) \<Rightarrow> map texture (popped tr) = [8] \<and> released tr = [7, 9] \<and> droppedFrames q = 1 \<and>
        textures_of (pushed tr) = textures_of (popped tr) + mset (released tr @ snd (destroy_queue q))"
  using frame_queue_owns_textures [of 2 "[CallPush (default_frame\<lparr>texture := 7\<rparr>) True 0,
     CallPush (default_frame\<lparr>texture := 8, wgcSourceEpoch := 1\<rparr>) True 0,
       CallPush (default_frame\<lparr>texture := 9\<rparr>) True 3000000000, CallPop, CallDiscard 1]"]
  by (simp add: push_frame_def pop_frame_def discard_wgc_epoch_not_equal_def move_frame_def new_queue_def
      empty_trace_def owned_textures_def default_frame_def grace_period_def)

end
