(* ===== verification/NearestPlayout.thy ===== *)
theory NearestPlayout
  imports Prelude
begin

text \<open>
  Nearest-target CFR playout and the cadence phase lock,
  \<open>src/common/capture/capture_policy/cfr_nearest_playout.h\<close>, with the uniform screen-grab tick of the
  encoder that drives it (\<open>src/captureengine/media/media_main_encoder_05b_loop_wgc_select_uniform.cpp\<close>):
  its two drop loops, its decision and the repeat rescue.  Signed 64-bit
  values are \<^typ>\<open>int\<close>; the sums and products of the source that would overflow \<open>int64_t\<close> are exact
  here, except the checked addition of the locked phase.  The three helpers that compare a
  floating-point rate with a threshold are left out.
\<close>

section \<open>Constants and distances\<close>

definition inject_selection_lead_tolerance_permille :: int where
  "inject_selection_lead_tolerance_permille = 500"

definition phase_cadence_tolerance_permille :: nat where
  "phase_cadence_tolerance_permille = 180"

definition phase_tolerance_permille :: int where
  "phase_tolerance_permille = 200"

definition rephase_tolerance_permille :: int where
  "rephase_tolerance_permille = 100"

definition phase_min_stable_intervals :: nat where
  "phase_min_stable_intervals = 12"

definition phase_lock_confirmations :: nat where
  "phase_lock_confirmations = 8"

definition phase_release_intervals :: nat where
  "phase_release_intervals = 4"

definition rephase_confirmations :: nat where
  "rephase_confirmations = 8"

definition incoherent_release_intervals :: nat where
  "incoherent_release_intervals = 3"

definition nearest_playout_lead_tolerance_qpc :: "int \<Rightarrow> int \<Rightarrow> int" where
  "nearest_playout_lead_tolerance_qpc targetIntervalTicks tolerancePermille =
     (if targetIntervalTicks \<le> 0 \<or> tolerancePermille = 0 then 0
      else targetIntervalTicks * tolerancePermille sdiv 1000)"

definition inject_selection_lead_tolerance_qpc :: "int \<Rightarrow> int" where
  "inject_selection_lead_tolerance_qpc targetIntervalTicks =
     nearest_playout_lead_tolerance_qpc targetIntervalTicks inject_selection_lead_tolerance_permille"

definition timestamp_distance_qpc :: "int \<Rightarrow> int \<Rightarrow> int" where
  "timestamp_distance_qpc lhs rhs = (if lhs \<ge> rhs then lhs - rhs else rhs - lhs)"

definition capture_sync_source_interval_qpc :: "int \<Rightarrow> int \<Rightarrow> int" where
  "capture_sync_source_interval_qpc outputIntervalQpc captureSyncMultiplier =
     (if outputIntervalQpc \<le> 0 \<or> captureSyncMultiplier = 0 then 0
      else max 1 (outputIntervalQpc sdiv captureSyncMultiplier))"

definition normalize_phase :: "int \<Rightarrow> int \<Rightarrow> int" where
  "normalize_phase phaseQpc sourceIntervalQpc =
     (if sourceIntervalQpc \<le> 0 then 0
      else let phaseQpc = phaseQpc smod sourceIntervalQpc;
               halfInterval = sourceIntervalQpc sdiv 2
           in if phaseQpc > halfInterval then phaseQpc - sourceIntervalQpc
              else if phaseQpc < - halfInterval then phaseQpc + sourceIntervalQpc
              else phaseQpc)"

section \<open>The cadence phase lock\<close>

record phase_lock =
  lastSourceTimestampQpc :: int
  lastPhaseReferenceQpc :: int
  candidatePhaseQpc :: int
  lockedPhaseQpc :: int
  stableSourceIntervals :: nat
  unstableSourceIntervals :: nat
  phaseConfirmations :: nat
  phaseMismatchConfirmations :: nat
  phaseIncoherentConfirmations :: nat
  locked :: bool
  acquisitions :: nat
  releases :: nat
  rephases :: nat

definition phase_lock_reset :: phase_lock where
  "phase_lock_reset = \<lparr>lastSourceTimestampQpc = 0, lastPhaseReferenceQpc = 0, candidatePhaseQpc = 0,
     lockedPhaseQpc = 0, stableSourceIntervals = 0, unstableSourceIntervals = 0, phaseConfirmations = 0,
     phaseMismatchConfirmations = 0, phaseIncoherentConfirmations = 0, locked = False,
     acquisitions = 0, releases = 0, rephases = 0\<rparr>"

text \<open>Whether the step from the last source timestamp is close to a whole number of intervals.\<close>

definition cadence_stable :: "int \<Rightarrow> int \<Rightarrow> int \<Rightarrow> bool" where
  "cadence_stable lastTimestamp sourceTimestampQpc sourceIntervalQpc =
     (if sourceTimestampQpc > lastTimestamp then
        let delta = nat (sourceTimestampQpc - lastTimestamp);
            interval = nat sourceIntervalQpc;
            nearestSteps = max 1 ((delta + interval div 2) div interval)
        in if nearestSteps \<le> 64 \<and> nearestSteps \<le> nat (int64_max sdiv sourceIntervalQpc) then
             let expected = nearestSteps * interval;
                 deviation = (if delta \<ge> expected then delta - expected else expected - delta);
                 tolerance = wrap64 (interval * phase_cadence_tolerance_permille) div 1000
             in deviation \<le> tolerance
           else False
      else False)"

definition observe_source_timestamp :: "phase_lock \<Rightarrow> int \<Rightarrow> int \<Rightarrow> phase_lock" where
  "observe_source_timestamp s sourceTimestampQpc sourceIntervalQpc =
     (if sourceTimestampQpc \<le> 0 \<or> sourceIntervalQpc \<le> 0 then s
      else if lastSourceTimestampQpc s \<le> 0 then s\<lparr>lastSourceTimestampQpc := sourceTimestampQpc\<rparr>
      else if sourceTimestampQpc = lastSourceTimestampQpc s then s
      else let stable = cadence_stable (lastSourceTimestampQpc s) sourceTimestampQpc sourceIntervalQpc;
               s = s\<lparr>lastSourceTimestampQpc := sourceTimestampQpc\<rparr>
           in if stable then
                s\<lparr>stableSourceIntervals := min (stableSourceIntervals s + 1) 1000000,
                  unstableSourceIntervals := 0\<rparr>
              else
                let s = s\<lparr>unstableSourceIntervals := min (unstableSourceIntervals s + 1) 1000000,
                          stableSourceIntervals :=
                            (if stableSourceIntervals s > 2 then stableSourceIntervals s - 2 else 0)\<rparr>
                in if unstableSourceIntervals s \<ge> phase_release_intervals then
                     s\<lparr>releases := (if locked s then releases s + 1 else releases s),
                       locked := False, phaseConfirmations := 0, phaseMismatchConfirmations := 0,
                       phaseIncoherentConfirmations := 0, lastPhaseReferenceQpc := 0\<rparr>
                   else s)"

definition phase_window :: "int \<Rightarrow> int \<Rightarrow> int" where
  "phase_window sourceIntervalQpc permille = max 1 (sourceIntervalQpc * permille sdiv 1000)"

text \<open>The branch of an unlocked state: a candidate phase is confirmed or replaced, and locked after
  enough confirmations.\<close>

definition confirm_candidate :: "phase_lock \<Rightarrow> int \<Rightarrow> int \<Rightarrow> phase_lock" where
  "confirm_candidate s observedPhase sourceIntervalQpc =
     (let s = (if phaseConfirmations s = 0 then s\<lparr>candidatePhaseQpc := observedPhase, phaseConfirmations := 1\<rparr>
               else let deviation = normalize_phase (observedPhase - candidatePhaseQpc s) sourceIntervalQpc
                    in if timestamp_distance_qpc deviation 0 \<le> phase_window sourceIntervalQpc phase_tolerance_permille
                       then s\<lparr>candidatePhaseQpc :=
                                normalize_phase (candidatePhaseQpc s + deviation sdiv 4) sourceIntervalQpc,
                              phaseConfirmations := phaseConfirmations s + 1\<rparr>
                       else s\<lparr>candidatePhaseQpc := observedPhase, phaseConfirmations := 1\<rparr>)
      in if phaseConfirmations s \<ge> phase_lock_confirmations
         then s\<lparr>lockedPhaseQpc := candidatePhaseQpc s, locked := True, phaseMismatchConfirmations := 0,
                phaseIncoherentConfirmations := 0, acquisitions := acquisitions s + 1\<rparr>
         else s)"

text \<open>The branch of a locked state: a small deviation is tracked, a coherent new phase is adopted after
  enough confirmations, a wandering one releases the lock.\<close>

definition track_locked :: "phase_lock \<Rightarrow> int \<Rightarrow> int \<Rightarrow> phase_lock" where
  "track_locked s observedPhase sourceIntervalQpc =
     (let deviation = normalize_phase (observedPhase - lockedPhaseQpc s) sourceIntervalQpc
      in if timestamp_distance_qpc deviation 0 \<le> phase_window sourceIntervalQpc phase_tolerance_permille
         then s\<lparr>lockedPhaseQpc := normalize_phase (lockedPhaseQpc s + deviation sdiv 16) sourceIntervalQpc,
                phaseMismatchConfirmations := 0, phaseIncoherentConfirmations := 0\<rparr>
         else if phaseMismatchConfirmations s = 0
         then s\<lparr>candidatePhaseQpc := observedPhase, phaseMismatchConfirmations := 1\<rparr>
         else let candidateError = normalize_phase (observedPhase - candidatePhaseQpc s) sourceIntervalQpc
              in if timestamp_distance_qpc candidateError 0
                      \<le> phase_window sourceIntervalQpc rephase_tolerance_permille
                 then let s = s\<lparr>candidatePhaseQpc :=
                                 normalize_phase (candidatePhaseQpc s + candidateError sdiv 4) sourceIntervalQpc,
                               phaseIncoherentConfirmations := 0,
                               phaseMismatchConfirmations := phaseMismatchConfirmations s + 1\<rparr>
                      in if phaseMismatchConfirmations s \<ge> rephase_confirmations
                         then s\<lparr>lockedPhaseQpc := candidatePhaseQpc s, phaseMismatchConfirmations := 0,
                                rephases := rephases s + 1\<rparr>
                         else s
                 else let s = s\<lparr>candidatePhaseQpc := observedPhase, phaseMismatchConfirmations := 1,
                               phaseIncoherentConfirmations := phaseIncoherentConfirmations s + 1\<rparr>
                      in if phaseIncoherentConfirmations s \<ge> incoherent_release_intervals
                         then s\<lparr>locked := False, phaseConfirmations := 0, phaseMismatchConfirmations := 0,
                                phaseIncoherentConfirmations := 0, lastPhaseReferenceQpc := 0,
                                releases := releases s + 1\<rparr>
                         else s)"

definition apply_phase_lock :: "phase_lock \<Rightarrow> int \<Rightarrow> int \<Rightarrow> int \<Rightarrow> bool \<Rightarrow> phase_lock \<times> int" where
  "apply_phase_lock s baseTargetQpc sourceReferenceQpc sourceIntervalQpc enabled =
     (if \<not> enabled \<or> baseTargetQpc \<le> 0 \<or> sourceIntervalQpc \<le> 0 then
        (s\<lparr>releases := (if locked s then releases s + 1 else releases s), locked := False,
           phaseConfirmations := 0, phaseMismatchConfirmations := 0, phaseIncoherentConfirmations := 0\<rparr>,
         baseTargetQpc)
      else
        let s = (if sourceReferenceQpc > 0 \<and> sourceReferenceQpc \<noteq> lastPhaseReferenceQpc s \<and>
                   stableSourceIntervals s \<ge> phase_min_stable_intervals
                 then let s = s\<lparr>lastPhaseReferenceQpc := sourceReferenceQpc\<rparr>;
                          observedPhase = normalize_phase (sourceReferenceQpc - baseTargetQpc) sourceIntervalQpc
                      in if \<not> locked s then confirm_candidate s observedPhase sourceIntervalQpc
                         else track_locked s observedPhase sourceIntervalQpc
                 else s)
        in if \<not> locked s \<or> lockedPhaseQpc s = 0 then (s, baseTargetQpc)
           else if (lockedPhaseQpc s > 0 \<and> baseTargetQpc > int64_max - lockedPhaseQpc s) \<or>
                   (lockedPhaseQpc s < 0 \<and> baseTargetQpc < (- int64_max - 1) - lockedPhaseQpc s)
           then (s, baseTargetQpc)
           else (s, baseTargetQpc + lockedPhaseQpc s))"

section \<open>Nearest-target playout\<close>

definition should_drop_front_for_nearer :: "int \<Rightarrow> int \<Rightarrow> int \<Rightarrow> int \<Rightarrow> bool" where
  "should_drop_front_for_nearer frontTimestampQpc nextTimestampQpc playoutTargetQpc leadToleranceQpc =
     (if frontTimestampQpc \<le> 0 \<or> nextTimestampQpc \<le> 0 \<or> playoutTargetQpc \<le> 0 then False
      else if nextTimestampQpc \<le> frontTimestampQpc then False
      else if nextTimestampQpc > playoutTargetQpc + leadToleranceQpc then False
      else timestamp_distance_qpc nextTimestampQpc playoutTargetQpc
             \<le> timestamp_distance_qpc frontTimestampQpc playoutTargetQpc)"

record playout_decision =
  emit :: bool
  hold :: bool

definition decide_nearest_playout :: "int \<Rightarrow> int \<Rightarrow> int \<Rightarrow> int \<Rightarrow> playout_decision" where
  "decide_nearest_playout frontTimestampQpc playoutTargetQpc leadToleranceQpc lastEmittedTimestampQpc =
     (if frontTimestampQpc \<le> 0 \<or> playoutTargetQpc \<le> 0 then \<lparr>emit = False, hold = False\<rparr>
      else if frontTimestampQpc \<le> lastEmittedTimestampQpc then \<lparr>emit = False, hold = True\<rparr>
      else if frontTimestampQpc \<le> playoutTargetQpc + leadToleranceQpc then \<lparr>emit = True, hold = False\<rparr>
      else \<lparr>emit = False, hold = True\<rparr>)"

definition should_skip_delivered_duplicate :: "bool \<Rightarrow> int \<Rightarrow> int \<Rightarrow> bool \<Rightarrow> bool" where
  "should_skip_delivered_duplicate duplicateSourceTimestamp rawSourceFrameQpc lastDeliveredRawSourceQpc
       cfrCaptureActive =
     (if \<not> cfrCaptureActive \<or> \<not> duplicateSourceTimestamp \<or> rawSourceFrameQpc \<le> 0 \<or>
         lastDeliveredRawSourceQpc \<le> 0 then False
      else rawSourceFrameQpc = lastDeliveredRawSourceQpc)"

definition has_recording_encoder_or_mux_pressure :: "nat \<Rightarrow> nat \<Rightarrow> nat \<Rightarrow> bool" where
  "has_recording_encoder_or_mux_pressure encoderOverloadFlags muxBackpressureCount encoderLimitedDropCount
     \<longleftrightarrow> encoderOverloadFlags \<noteq> 0 \<or> muxBackpressureCount > 0 \<or> encoderLimitedDropCount > 0"

section \<open>The repeat rescue\<close>

text \<open>
  What \<open>src/common/capture/capture_policy/ingress_and_active_delay.h\<close> says of a frame later than the
  tolerance: it may still be shown instead of a repeat when it stays within a hard limit and harms the
  slot no more than the repeat. Of the score only the decision is kept. The residuals, the class of the window and the length of the run of
  repeats are telemetry, arguments here.
\<close>

definition residual_tolerance_permille :: int where "residual_tolerance_permille = 900"
definition residual_hard_limit_us :: nat where "residual_hard_limit_us = 10000"
definition residual_mean_target_us :: nat where "residual_mean_target_us = 5000"
definition residual_p95_target_us :: nat where "residual_p95_target_us = 10000"
definition soft_late_target_min_us :: nat where "soft_late_target_min_us = 5000"
definition soft_late_target_max_us :: nat where "soft_late_target_max_us = 7000"
definition cluster_penalty_permille :: nat where "cluster_penalty_permille = 250"
definition cluster_penalty_max_permille :: nat where "cluster_penalty_max_permille = 1000"
definition us32_max :: nat where "us32_max = 2 ^ 32 - 1"

definition residual_tolerance_qpc :: "int \<Rightarrow> int" where
  "residual_tolerance_qpc targetIntervalTicks =
     (if targetIntervalTicks \<le> 0 then 0
      else max 1 (targetIntervalTicks * residual_tolerance_permille sdiv 1000))"

definition residual_hard_limit_qpc :: "int \<Rightarrow> int \<Rightarrow> int" where
  "residual_hard_limit_qpc targetIntervalTicks qpcTicksPerSecond =
     (let strictToleranceQpc = residual_tolerance_qpc targetIntervalTicks
      in if qpcTicksPerSecond \<le> 0 then strictToleranceQpc
         else max strictToleranceQpc (qpcTicksPerSecond * int residual_hard_limit_us sdiv 1000000))"

definition soft_late_target_us :: "int \<Rightarrow> int \<Rightarrow> nat" where
  "soft_late_target_us targetIntervalTicks qpcTicksPerSecond =
     (if targetIntervalTicks \<le> 0 \<or> qpcTicksPerSecond \<le> 0 then soft_late_target_min_us
      else let frameUs = wrap64 (nat targetIntervalTicks * 1000000) div nat qpcTicksPerSecond;
               softTargetUs = (wrap64 (frameUs * 3) div 4) mod 2 ^ 32
           in max soft_late_target_min_us (min soft_late_target_max_us softTargetUs))"

definition too_new_for_hard_limit :: "int \<Rightarrow> int \<Rightarrow> int \<Rightarrow> int \<Rightarrow> bool" where
  "too_new_for_hard_limit frameSelectionQpc selectionTargetQpc targetIntervalTicks qpcTicksPerSecond =
     (if frameSelectionQpc \<le> 0 \<or> selectionTargetQpc \<le> 0 \<or> targetIntervalTicks \<le> 0 then False
      else frameSelectionQpc >
             selectionTargetQpc + residual_hard_limit_qpc targetIntervalTicks qpcTicksPerSecond)"

definition within_hard_limit :: "int \<Rightarrow> int \<Rightarrow> int \<Rightarrow> int \<Rightarrow> int \<Rightarrow> bool" where
  "within_hard_limit predictedSelectionQpc rawSelectionQpc selectionTargetQpc targetIntervalTicks
       qpcTicksPerSecond =
     (if selectionTargetQpc \<le> 0 \<or> targetIntervalTicks \<le> 0 then True
      else if too_new_for_hard_limit predictedSelectionQpc selectionTargetQpc targetIntervalTicks
                qpcTicksPerSecond then False
      else if rawSelectionQpc > 0 \<and> too_new_for_hard_limit rawSelectionQpc selectionTargetQpc
                targetIntervalTicks qpcTicksPerSecond then False
      else True)"

definition repeat_cluster_penalty_qpc :: "nat \<Rightarrow> int \<Rightarrow> int" where
  "repeat_cluster_penalty_qpc repeatClusterTicks targetIntervalTicks =
     (if repeatClusterTicks = 0 \<or> targetIntervalTicks \<le> 0 then 0
      else let penaltyPermille =
                 min ((repeatClusterTicks * cluster_penalty_permille) mod 2 ^ 32) cluster_penalty_max_permille
           in max 1 (targetIntervalTicks * int penaltyPermille sdiv 1000))"

datatype window_class = WindowHealthy | RecoverableUnderfill | SourceLimited | HardSourceStall | PostStallRecovery

definition is_source_limited_class :: "window_class \<Rightarrow> bool" where
  "is_source_limited_class state \<longleftrightarrow> state = SourceLimited \<or> state = HardSourceStall"

definition has_residual_headroom :: "nat \<Rightarrow> nat \<Rightarrow> nat \<Rightarrow> nat \<Rightarrow> window_class \<Rightarrow> nat \<Rightarrow> bool" where
  "has_residual_headroom candidateLateUs avgAbsUs p95Us lateMaxUs windowClass softTargetUs =
     (if candidateLateUs > residual_hard_limit_us then False
      else if windowClass = PostStallRecovery \<and> candidateLateUs \<le> softTargetUs then True
      else if \<not> is_source_limited_class windowClass \<and> candidateLateUs > softTargetUs then False
      else if avgAbsUs > residual_mean_target_us then False
      else if p95Us > residual_p95_target_us then False
      else lateMaxUs \<le> residual_hard_limit_us)"

datatype rescue_decision =
    RejectInvalid | RejectNotRelaxed | RejectSyncRisk | RejectResidualHeadroom | RejectRepeatCost
  | AcceptBetterTarget | AcceptRepeatCluster | AcceptSoftRepeatAvoidance

definition rescue_accepted :: "rescue_decision \<Rightarrow> bool" where
  "rescue_accepted d \<longleftrightarrow> d = AcceptBetterTarget \<or> d = AcceptRepeatCluster \<or> d = AcceptSoftRepeatAvoidance"

text \<open>The telemetry a tick reads, and the last frame shown, when it came from the same source.\<close>

record tick_context =
  targetIntervalTicks :: int
  qpcTicksPerSecond :: int
  repeatClusterTicks :: nat
  residualAvgAbsUs :: nat
  residualP95Us :: nat
  residualLateMaxUs :: nat
  windowClass :: window_class
  lastShownQpc :: "int option"

definition score_repeat_rescue :: "tick_context \<Rightarrow> int \<Rightarrow> int \<Rightarrow> int \<Rightarrow> int \<Rightarrow> rescue_decision" where
  "score_repeat_rescue c candidateSelectionQpc candidateRawQpc repeatSelectionQpc selectionTargetQpc =
     (let softTargetUs = soft_late_target_us (targetIntervalTicks c) (qpcTicksPerSecond c) in
      if candidateSelectionQpc \<le> 0 \<or> repeatSelectionQpc \<le> 0 \<or> selectionTargetQpc \<le> 0 \<or>
         targetIntervalTicks c \<le> 0 then RejectInvalid
      else if \<not> within_hard_limit candidateSelectionQpc candidateRawQpc selectionTargetQpc
                  (targetIntervalTicks c) (qpcTicksPerSecond c) then RejectSyncRisk
      else
        let predictedLateQpc =
              (if candidateSelectionQpc > selectionTargetQpc then candidateSelectionQpc - selectionTargetQpc else 0);
            rawLateQpc = (if candidateRawQpc > selectionTargetQpc then candidateRawQpc - selectionTargetQpc else 0);
            lateQpc = max predictedLateQpc rawLateQpc;
            lateUs = (if lateQpc > 0 \<and> qpcTicksPerSecond c > 0
                      then min us32_max (wrap64 (nat lateQpc * 1000000) div nat (qpcTicksPerSecond c)) else 0)
        in if \<not> has_residual_headroom lateUs (residualAvgAbsUs c) (residualP95Us c) (residualLateMaxUs c)
                    (windowClass c) softTargetUs then RejectResidualHeadroom
           else
             let repeatDamageQpc = timestamp_distance_qpc repeatSelectionQpc selectionTargetQpc;
                 candidateDamageQpc = timestamp_distance_qpc candidateSelectionQpc selectionTargetQpc;
                 penaltyQpc = repeat_cluster_penalty_qpc (repeatClusterTicks c) (targetIntervalTicks c);
                 budgetQpc = (if int64_max - repeatDamageQpc < penaltyQpc then int64_max
                              else repeatDamageQpc + penaltyQpc);
                 softBudgetQpc = to_int64 (wrap64 (softTargetUs * nat (qpcTicksPerSecond c)) div 1000000);
                 softRepeatBudgetQpc = (if int64_max - repeatDamageQpc < softBudgetQpc then int64_max
                                        else repeatDamageQpc + softBudgetQpc)
             in if candidateDamageQpc < repeatDamageQpc then AcceptBetterTarget
                else if \<not> is_source_limited_class (windowClass c) \<and> lateUs \<le> softTargetUs \<and>
                     qpcTicksPerSecond c > 0 \<and> candidateDamageQpc \<le> softRepeatBudgetQpc
                then AcceptSoftRepeatAvoidance
                else if penaltyQpc > 0 \<and> candidateDamageQpc \<le> budgetQpc then AcceptRepeatCluster
                else RejectRepeatCost)"

section \<open>One output tick\<close>

text \<open>A buffered frame: the time it is selected by, and the time the source stamped.\<close>

record buffered_frame =
  selectionQpc :: int
  rawSelectionQpc :: int

text \<open>The loop that drops frames at or before the last one emitted: the frames dropped and kept.\<close>

fun drop_obsolete :: "int \<Rightarrow> buffered_frame list \<Rightarrow> buffered_frame list \<times> buffered_frame list" where
  "drop_obsolete lastEmitted (front # rest) =
     (if lastEmitted > 0 \<and> selectionQpc front > 0 \<and> selectionQpc front \<le> lastEmitted
      then let (dropped, kept) = drop_obsolete lastEmitted rest in (front # dropped, kept)
      else ([], front # rest))"
| "drop_obsolete lastEmitted [] = ([], [])"

text \<open>The stale-drop loop, oldest frame first.\<close>

fun drop_stale :: "int \<Rightarrow> int \<Rightarrow> buffered_frame list \<Rightarrow> buffered_frame list \<times> buffered_frame list" where
  "drop_stale playoutTargetQpc leadToleranceQpc (front # second # rest) =
     (if playoutTargetQpc > 0 \<and> should_drop_front_for_nearer (selectionQpc front) (selectionQpc second)
           playoutTargetQpc leadToleranceQpc
      then let (dropped, kept) = drop_stale playoutTargetQpc leadToleranceQpc (second # rest)
           in (front # dropped, kept)
      else ([], front # second # rest))"
| "drop_stale playoutTargetQpc leadToleranceQpc frames = ([], frames)"

text \<open>Whether a tick that would hold shows its front frame after all.\<close>

definition repeat_rescued :: "tick_context \<Rightarrow> int \<Rightarrow> buffered_frame \<Rightarrow> bool" where
  "repeat_rescued c playoutTargetQpc front =
     (playoutTargetQpc > 0 \<and>
      (case lastShownQpc c of
         None \<Rightarrow> False
       | Some shown \<Rightarrow> rescue_accepted (score_repeat_rescue c (selectionQpc front) (rawSelectionQpc front)
                           shown playoutTargetQpc)))"

text \<open>One output tick of the uniform path, from its phase-locked target on: the frame emitted, the frames
  dropped and the frames kept for later ticks.\<close>

definition playout_tick ::
  "tick_context \<Rightarrow> int \<Rightarrow> int \<Rightarrow> buffered_frame list
     \<Rightarrow> buffered_frame option \<times> buffered_frame list \<times> buffered_frame list" where
  "playout_tick c playoutTargetQpc lastEmitted frames =
     (let leadToleranceQpc = residual_tolerance_qpc (targetIntervalTicks c);
          (obsolete, frames) = drop_obsolete lastEmitted frames
      in case drop_stale playoutTargetQpc leadToleranceQpc frames of
           (stale, []) \<Rightarrow> (None, obsolete @ stale, [])
         | (stale, front # rest) \<Rightarrow>
             let playout = (if playoutTargetQpc > 0
                            then decide_nearest_playout (selectionQpc front) playoutTargetQpc leadToleranceQpc
                                   lastEmitted
                            else \<lparr>emit = True, hold = False\<rparr>)
             in if emit playout \<or> hold playout \<and> repeat_rescued c playoutTargetQpc front
                then (Some front, obsolete @ stale, rest)
                else (None, obsolete @ stale, front # rest))"

section \<open>The frame a slot shows\<close>

lemma drop_stale_split: "drop_stale T L fs = (d, k) \<Longrightarrow> fs = d @ k \<and> (fs \<noteq> [] \<longrightarrow> k \<noteq> [])"
  by (induction T L fs arbitrary: d rule: drop_stale.induct) (auto split: if_splits prod.splits)

text \<open>Nearest to the target, the newer of two as near.\<close>

definition nearer :: "int \<Rightarrow> int \<Rightarrow> int \<Rightarrow> bool" where
  "nearer T x y \<longleftrightarrow> \<bar>x - T\<bar> < \<bar>y - T\<bar> \<or> \<bar>x - T\<bar> = \<bar>y - T\<bar> \<and> y \<le> x"

lemma nearer_refl [simp]: "nearer T x x"
  by (simp add: nearer_def)

lemma nearest_distance_abs: "timestamp_distance_qpc a b = \<bar>a - b\<bar>"
  by (simp add: timestamp_distance_qpc_def)

text \<open>Buffered in source order: strictly increasing and positive.\<close>

definition in_source_order :: "buffered_frame list \<Rightarrow> bool" where
  "in_source_order fs \<longleftrightarrow> sorted_wrt (\<lambda>x y. selectionQpc x < selectionQpc y) fs \<and> (\<forall>x\<in>set fs. 0 < selectionQpc x)"

lemma in_source_order_Cons [simp]: "in_source_order (x # fs) \<longleftrightarrow>
    0 < selectionQpc x \<and> (\<forall>y\<in>set fs. selectionQpc x < selectionQpc y) \<and> in_source_order fs"
  by (auto simp: in_source_order_def)

lemma in_source_order_Nil [simp]: "in_source_order []"
  by (simp add: in_source_order_def)

lemma drop_stale_nearest:
  assumes "in_source_order fs" "0 < T" "0 \<le> L" "drop_stale T L fs = (d, f # k)" "x \<in> set fs" "selectionQpc x \<le> T + L"
  shows "nearer T (selectionQpc f) (selectionQpc x) \<and> selectionQpc f \<le> T + L"
  using assms
proof (induction T L fs arbitrary: d x rule: drop_stale.induct)
  case (1 T L front second rest)
  let ?q = selectionQpc
  show ?case
  proof (cases "should_drop_front_for_nearer (?q front) (?q second) T L")
    case True
    then have s: "?q front < ?q second" "?q second \<le> T + L" "\<bar>?q second - T\<bar> \<le> \<bar>?q front - T\<bar>"
      by (auto simp: should_drop_front_for_nearer_def nearest_distance_abs split: if_splits)
    obtain d' where d': "drop_stale T L (second # rest) = (d', f # k)"
      using "1.prems" True by (auto split: prod.splits)
    have IH: "nearer T (?q f) (?q y) \<and> ?q f \<le> T + L" if "y \<in> set (second # rest)" "?q y \<le> T + L" for y
      using "1.IH" [OF _ _ _ _ d' that] "1.prems"(1-3) True by simp
    have "nearer T (?q f) (?q second)" "?q f \<le> T + L" using IH [of second] s(2) by simp_all
    moreover have "nearer T (?q second) (?q front)" using s by (auto simp: nearer_def)
    ultimately have "nearer T (?q f) (?q front) \<and> ?q f \<le> T + L" by (auto simp: nearer_def)
    then show ?thesis using IH "1.prems"(5,6) by auto
  next
    case False
    then have f: "f = front" using "1.prems"(4) by auto
    have later: "?q second \<le> ?q y" if "y \<in> set (second # rest)" for y using "1.prems"(1) that by force
    have gt: "?q front < ?q second" using "1.prems"(1) by simp
    have far: "?q second > T + L \<or> \<bar>?q front - T\<bar> < \<bar>?q second - T\<bar>"
      using False "1.prems"(1,2) gt
      by (auto simp: should_drop_front_for_nearer_def nearest_distance_abs split: if_splits)
    show ?thesis
    proof (cases "x = front")
      case True
      then show ?thesis using f "1.prems"(6) by simp
    next
      case other: False
      then have "?q second \<le> ?q x" using later "1.prems"(5) by auto
      then show ?thesis using far gt "1.prems"(6) f by (auto simp: nearer_def)
    qed
  qed
qed auto

lemma drop_obsolete_filter:
  assumes "in_source_order fs"
  shows "drop_obsolete e fs = (filter (\<lambda>x. selectionQpc x \<le> e) fs, filter (\<lambda>x. e < selectionQpc x) fs)"
  using assms
proof (induction fs)
  case (Cons x fs)
  show ?case
  proof (cases "selectionQpc x \<le> e")
    case False
    then have "\<forall>y\<in>set fs. e < selectionQpc y" using Cons.prems by fastforce
    moreover from this have "filter (\<lambda>x. selectionQpc x \<le> e) fs = []" by (force simp: filter_empty_conv)
    ultimately show ?thesis using False by (simp add: filter_id_conv)
  next
    case True
    then have "0 < e" using Cons.prems by auto
    then show ?thesis using True Cons by simp
  qed
qed simp

lemma in_source_order_filter: "in_source_order fs \<Longrightarrow> in_source_order (filter P fs)"
  by (auto simp: in_source_order_def sorted_wrt_filter)

text \<open>Sorted frames are those dropped first, then the rest.\<close>

lemma obsolete_then_newer:
  assumes "in_source_order fs"
  shows "fs = filter (\<lambda>x. selectionQpc x \<le> e) fs @ filter (\<lambda>x. e < selectionQpc x) fs"
  using assms
proof (induction fs)
  case (Cons x fs)
  show ?case
  proof (cases "selectionQpc x \<le> e")
    case False
    then have "\<forall>y\<in>set fs. e < selectionQpc y" using Cons.prems by fastforce
    moreover from this have "filter (\<lambda>x. selectionQpc x \<le> e) fs = []" by (force simp: filter_empty_conv)
    ultimately show ?thesis using False by (simp add: filter_id_conv)
  qed (use Cons in simp)
qed simp

text \<open>A rescued frame keeps to the hard limit, by both of its times.\<close>

lemma rescued_within_hard_limit:
  assumes "repeat_rescued c T f" "0 < selectionQpc f"
  shows "lastShownQpc c \<noteq> None \<and> selectionQpc f \<le> T + residual_hard_limit_qpc (targetIntervalTicks c) (qpcTicksPerSecond c) \<and>
    (0 < rawSelectionQpc f \<longrightarrow> rawSelectionQpc f \<le> T + residual_hard_limit_qpc (targetIntervalTicks c) (qpcTicksPerSecond c))"
proof -
  obtain r where r: "0 < T" "lastShownQpc c = Some r"
    "rescue_accepted (score_repeat_rescue c (selectionQpc f) (rawSelectionQpc f) r T)"
    using assms(1) by (auto simp: repeat_rescued_def split: option.splits)
  have "0 < targetIntervalTicks c"
    "within_hard_limit (selectionQpc f) (rawSelectionQpc f) T (targetIntervalTicks c) (qpcTicksPerSecond c)"
    using r(3) by (auto simp: score_repeat_rescue_def rescue_accepted_def Let_def split: if_splits)
  then show ?thesis using r(1,2) assms(2)
    by (auto simp: within_hard_limit_def too_new_for_hard_limit_def split: if_splits)
qed

text \<open>C19: For frames buffered in source order, an output tick drops what is at or before the last frame emitted. If
  a newer frame is at or before the lead tolerance of the playout target, it shows the one nearest to the target among
  these (the newer of two as near) and drops only older ones. Otherwise every newer frame is too early to show: the
  tick holds them all, except that it shows the oldest when the repeat rescue accepts it, which is then within the
  hard limit of the target by its predicted and its raw time.\<close>

theorem playout_shows_nearest:
  assumes "in_source_order frames" and "0 < T" and "playout_tick c T lastEmitted frames = (shown, dropped, kept)"
  defines "L \<equiv> residual_tolerance_qpc (targetIntervalTicks c)"
    and "H \<equiv> residual_hard_limit_qpc (targetIntervalTicks c) (qpcTicksPerSecond c)"
    and "newer \<equiv> filter (\<lambda>x. lastEmitted < selectionQpc x) frames"
  shows "frames = dropped @ (case shown of None \<Rightarrow> [] | Some f \<Rightarrow> [f]) @ kept \<and>
    (if \<exists>x\<in>set newer. selectionQpc x \<le> T + L
     then \<exists>f\<in>set newer. shown = Some f \<and> selectionQpc f \<le> T + L \<and>
       (\<forall>x\<in>set newer. selectionQpc x \<le> T + L \<longrightarrow> nearer T (selectionQpc f) (selectionQpc x))
     else dropped = filter (\<lambda>x. selectionQpc x \<le> lastEmitted) frames \<and>
       (case newer of [] \<Rightarrow> shown = None
        | f # rest \<Rightarrow> shown = (if repeat_rescued c T f then Some f else None) \<and>
            (shown \<noteq> None \<longrightarrow> selectionQpc f \<le> T + H \<and> (0 < rawSelectionQpc f \<longrightarrow> rawSelectionQpc f \<le> T + H))))"
proof -
  have L: "0 \<le> L" by (simp add: L_def residual_tolerance_qpc_def le_max_iff_disj)
  have sorted: "in_source_order newer" unfolding newer_def by (rule in_source_order_filter [OF assms(1)])
  let ?obs = "filter (\<lambda>x. selectionQpc x \<le> lastEmitted) frames"
  have parts: "frames = ?obs @ newer" unfolding newer_def by (rule obsolete_then_newer [OF assms(1)])
  obtain d k where dk: "drop_stale T L newer = (d, k)" by force
  note split = drop_stale_split [OF dk]
  have tick: "playout_tick c T lastEmitted frames = (case k of [] \<Rightarrow> (None, ?obs @ d, [])
      | f # rest \<Rightarrow> if emit (decide_nearest_playout (selectionQpc f) T L lastEmitted) \<or>
            hold (decide_nearest_playout (selectionQpc f) T L lastEmitted) \<and> repeat_rescued c T f
          then (Some f, ?obs @ d, rest) else (None, ?obs @ d, f # rest))"
    using assms(2) dk
    by (auto simp: playout_tick_def Let_def L_def [symmetric] newer_def [symmetric]
        drop_obsolete_filter [OF assms(1)] split: list.splits)
  show ?thesis
  proof (cases k)
    case Nil
    then have "newer = []" using split by auto
    then show ?thesis using tick Nil assms(3) parts split by auto
  next
    case (Cons f rest)
    note near = drop_stale_nearest [OF sorted assms(2) L dk [unfolded Cons]]
    have f: "f \<in> set newer" using split Cons by auto
    then have f: "f \<in> set newer" "0 < selectionQpc f" "lastEmitted < selectionQpc f"
      using sorted by (auto simp: in_source_order_def newer_def)
    have dec: "decide_nearest_playout (selectionQpc f) T L lastEmitted =
        (if selectionQpc f \<le> T + L then \<lparr>emit = True, hold = False\<rparr> else \<lparr>emit = False, hold = True\<rparr>)"
      using f(2,3) assms(2) by (simp add: decide_nearest_playout_def)
    show ?thesis
    proof (cases "selectionQpc f \<le> T + L")
      case True
      then have "shown = Some f" "dropped = ?obs @ d" "kept = rest" using tick assms(3) Cons dec by simp_all
      then show ?thesis using True f near parts split Cons by auto
    next
      case False
      then have none: "\<not> (\<exists>x\<in>set newer. selectionQpc x \<le> T + L)" using near by blast
      have "d = []"
      proof (rule ccontr)
        assume "d \<noteq> []"
        obtain a as where a: "newer = a # as" using f(1) by (cases newer) auto
        with \<open>d \<noteq> []\<close> dk obtain b bs where "as = b # bs" by (cases as) auto
        then show False using \<open>d \<noteq> []\<close> a dk none
          by (auto simp: should_drop_front_for_nearer_def split: if_splits prod.splits)
      qed
      then have res: "shown = (if repeat_rescued c T f then Some f else None)" "dropped = ?obs"
        "kept = (if repeat_rescued c T f then rest else f # rest)" "newer = f # rest"
        using tick assms(3) Cons dec False split by (auto split: if_splits)
      have "frames = dropped @ (case shown of None \<Rightarrow> [] | Some f \<Rightarrow> [f]) @ kept"
        using parts res by simp
      then show ?thesis
        using none res rescued_within_hard_limit [of c T f] f(2) by (auto simp: H_def)
    qed
  qed
qed

text \<open>A tick at 100 after 95 was shown, which drops 90 and shows 112; and one at 100000 whose only newer frame is
  too early, and is shown because the last frame shown is further away.\<close>

definition plain_frame :: "int \<Rightarrow> buffered_frame" where
  "plain_frame t = \<lparr>selectionQpc = t, rawSelectionQpc = t\<rparr>"

definition example_context :: "int \<Rightarrow> window_class \<Rightarrow> int option \<Rightarrow> tick_context" where
  "example_context interval wc shown = \<lparr>targetIntervalTicks = interval, qpcTicksPerSecond = 1000000,
     repeatClusterTicks = 0, residualAvgAbsUs = 0, residualP95Us = 0, residualLateMaxUs = 0, windowClass = wc,
     lastShownQpc = shown\<rparr>"

lemmas playout_evaluation = playout_tick_def example_context_def plain_frame_def residual_tolerance_qpc_def
  residual_tolerance_permille_def should_drop_front_for_nearer_def timestamp_distance_qpc_def
  decide_nearest_playout_def repeat_rescued_def score_repeat_rescue_def within_hard_limit_def
  too_new_for_hard_limit_def residual_hard_limit_qpc_def residual_hard_limit_us_def soft_late_target_us_def
  soft_late_target_min_us_def soft_late_target_max_us_def has_residual_headroom_def residual_mean_target_us_def
  residual_p95_target_us_def is_source_limited_class_def rescue_accepted_def us32_max_def wrap64_def

theorem playout_shows_nearest_witness:
  "playout_tick (example_context 20 WindowHealthy (Some 95)) 100 95 [plain_frame 90, plain_frame 112]
     = (Some (plain_frame 112), [plain_frame 90], []) \<and>
   playout_tick (example_context 8333 SourceLimited (Some 90000)) 100000 90000 [plain_frame 90000, plain_frame 109000]
     = (Some (plain_frame 109000), [plain_frame 90000], []) \<and>
   selectionQpc (plain_frame 109000) \<le> 100000 + residual_hard_limit_qpc 8333 1000000"
proof -
  have near: "playout_tick (example_context 20 WindowHealthy (Some 95)) 100 95 [plain_frame 90, plain_frame 112]
      = (Some (plain_frame 112), [plain_frame 90], [])"
    by (simp add: playout_evaluation)
  have rescue: "playout_tick (example_context 8333 SourceLimited (Some 90000)) 100000 90000
      [plain_frame 90000, plain_frame 109000] = (Some (plain_frame 109000), [plain_frame 90000], [])"
    by (simp add: playout_evaluation)
  have late: "\<not> (selectionQpc (plain_frame 109000) \<le> 100000 + residual_tolerance_qpc 8333)"
    by (simp add: playout_evaluation)
  have "in_source_order [plain_frame 90000, plain_frame 109000]" by (simp add: plain_frame_def)
  from playout_shows_nearest [OF this _ rescue] late show ?thesis
    using near rescue by (simp add: plain_frame_def example_context_def split: if_splits)
qed

section \<open>The phase lock over a recording\<close>

datatype phase_call = ObserveSource int | ApplyLock int int bool

fun phase_call_step :: "int \<Rightarrow> phase_call \<Rightarrow> phase_lock \<Rightarrow> phase_lock" where
  "phase_call_step W (ObserveSource sourceTimestampQpc) s = observe_source_timestamp s sourceTimestampQpc W"
| "phase_call_step W (ApplyLock baseTargetQpc sourceReferenceQpc enabled) s =
     fst (apply_phase_lock s baseTargetQpc sourceReferenceQpc W enabled)"

definition run_phase_calls :: "int \<Rightarrow> phase_call list \<Rightarrow> phase_lock" where
  "run_phase_calls W calls = fold (phase_call_step W) calls phase_lock_reset"

definition is_observe :: "phase_call \<Rightarrow> bool" where
  "is_observe c = (case c of ObserveSource _ \<Rightarrow> True | _ \<Rightarrow> False)"

lemma normalize_phase_bound: "0 < W \<Longrightarrow> \<bar>normalize_phase p W\<bar> \<le> W div 2"
proof -
  assume W: "0 < W"
  have "\<bar>p smod W\<bar> < W"
    using W smod_int_range [of W p] by auto
  then show ?thesis using W by (auto simp: normalize_phase_def Let_def)
qed

text \<open>The invariant, with the numbers of observe and apply calls so far.\<close>

definition phase_inv :: "int \<Rightarrow> nat \<Rightarrow> nat \<Rightarrow> phase_lock \<Rightarrow> bool" where
  "phase_inv W observes applies s \<longleftrightarrow>
     \<bar>lockedPhaseQpc s\<bar> \<le> W div 2 \<and> \<bar>candidatePhaseQpc s\<bar> \<le> W div 2 \<and>
     acquisitions s = (if locked s then releases s + 1 else releases s) \<and>
     phaseConfirmations s \<le> applies \<and>
     stableSourceIntervals s + (if lastSourceTimestampQpc s > 0 then 1 else 0) \<le> observes \<and>
     (locked s \<longrightarrow> 8 \<le> applies \<and> 13 \<le> observes) \<and>
     (\<not> locked s \<longrightarrow> phaseConfirmations s < 8) \<and>
     (stableSourceIntervals s > 0 \<longrightarrow> lastSourceTimestampQpc s > 0) \<and>
     phaseMismatchConfirmations s < 8 \<and> phaseIncoherentConfirmations s < 3"

lemmas phase_constants = phase_min_stable_intervals_def phase_lock_confirmations_def
  phase_release_intervals_def rephase_confirmations_def incoherent_release_intervals_def

lemma phase_inv_observe:
  assumes "phase_inv W n m s" "0 < W"
  shows "phase_inv W (Suc n) m (observe_source_timestamp s t W)"
proof -
  let ?last = "lastSourceTimestampQpc s"
  have same: "phase_inv W (Suc n) m s" using assms(1) by (auto simp: phase_inv_def)
  consider (ignored) "t \<le> 0 \<or> 0 < ?last \<and> t = ?last" | (first) "0 < t" "?last \<le> 0"
    | (stable) "0 < t" "0 < ?last" "t \<noteq> ?last" "cadence_stable ?last t W"
    | (unstable) "0 < t" "0 < ?last" "t \<noteq> ?last" "\<not> cadence_stable ?last t W"
    by linarith
  then show ?thesis
  proof cases
    case ignored
    then have "observe_source_timestamp s t W = s" using assms(2) by (auto simp: observe_source_timestamp_def)
    then show ?thesis using same by simp
  next
    case first
    then have "observe_source_timestamp s t W = s\<lparr>lastSourceTimestampQpc := t\<rparr>"
      using assms(2) by (simp add: observe_source_timestamp_def)
    then show ?thesis using assms(1) first by (auto simp: phase_inv_def)
  next
    case stable
    then have "observe_source_timestamp s t W = s\<lparr>lastSourceTimestampQpc := t,
        stableSourceIntervals := min (stableSourceIntervals s + 1) 1000000, unstableSourceIntervals := 0\<rparr>"
      using assms(2) by (simp add: observe_source_timestamp_def)
    then show ?thesis using assms(1) stable by (auto simp: phase_inv_def)
  next
    case unstable
    define u where "u = s\<lparr>lastSourceTimestampQpc := t,
      unstableSourceIntervals := min (unstableSourceIntervals s + 1) 1000000,
      stableSourceIntervals := (if stableSourceIntervals s > 2 then stableSourceIntervals s - 2 else 0)\<rparr>"
    have obs: "observe_source_timestamp s t W = (if unstableSourceIntervals u \<ge> phase_release_intervals
       then u\<lparr>releases := (if locked u then releases u + 1 else releases u), locked := False,
              phaseConfirmations := 0, phaseMismatchConfirmations := 0, phaseIncoherentConfirmations := 0,
              lastPhaseReferenceQpc := 0\<rparr> else u)"
      using unstable assms(2) by (simp add: observe_source_timestamp_def u_def)
    have u: "phase_inv W (Suc n) m u" using assms(1) unstable by (auto simp: phase_inv_def u_def)
    then show ?thesis unfolding obs by (simp add: phase_inv_def)
  qed
qed

lemma phase_inv_confirm:
  assumes "phase_inv W n m s" "0 < W" "\<not> locked s" "\<bar>x\<bar> \<le> W div 2" "12 \<le> stableSourceIntervals s"
  shows "phase_inv W n (Suc m) (confirm_candidate s x W)"
  using assms normalize_phase_bound [OF assms(2)]
  by (auto simp: phase_inv_def confirm_candidate_def Let_def phase_constants split: if_splits)

lemma phase_inv_track:
  assumes "phase_inv W n m s" "0 < W" "locked s" "\<bar>x\<bar> \<le> W div 2"
  shows "phase_inv W n (Suc m) (track_locked s x W)"
  using assms normalize_phase_bound [OF assms(2)]
  by (auto simp: phase_inv_def track_locked_def Let_def phase_constants split: if_splits)

lemma phase_inv_more: "phase_inv W n m s \<Longrightarrow> phase_inv W n (Suc m) s"
  by (auto simp: phase_inv_def)

lemma phase_inv_reference: "phase_inv W n m (s\<lparr>lastPhaseReferenceQpc := x\<rparr>) \<longleftrightarrow> phase_inv W n m s"
  by (simp add: phase_inv_def)

definition lock_updated :: "phase_lock \<Rightarrow> int \<Rightarrow> int \<Rightarrow> int \<Rightarrow> phase_lock" where
  "lock_updated s base ref W =
     (if ref > 0 \<and> ref \<noteq> lastPhaseReferenceQpc s \<and> stableSourceIntervals s \<ge> phase_min_stable_intervals
      then let s = s\<lparr>lastPhaseReferenceQpc := ref\<rparr>; x = normalize_phase (ref - base) W
           in if \<not> locked s then confirm_candidate s x W else track_locked s x W
      else s)"

lemma phase_inv_updated:
  assumes "phase_inv W n m s" "0 < W"
  shows "phase_inv W n (Suc m) (lock_updated s base ref W)"
proof -
  let ?s = "s\<lparr>lastPhaseReferenceQpc := ref\<rparr>" and ?x = "normalize_phase (ref - base) W"
  have s: "phase_inv W n m ?s" using assms(1) by (simp only: phase_inv_reference)
  have x: "\<bar>?x\<bar> \<le> W div 2" by (rule normalize_phase_bound [OF assms(2)])
  show ?thesis
  proof (cases "ref > 0 \<and> ref \<noteq> lastPhaseReferenceQpc s \<and> stableSourceIntervals s \<ge> phase_min_stable_intervals")
    case True
    then have stable: "12 \<le> stableSourceIntervals ?s" by (simp add: phase_min_stable_intervals_def)
    show ?thesis
      using True phase_inv_confirm [OF s assms(2) _ x stable] phase_inv_track [OF s assms(2) _ x]
      by (simp add: lock_updated_def Let_def)
  next
    case False
    then have "lock_updated s base ref W = s" unfolding lock_updated_def by (rule if_not_P)
    then show ?thesis using phase_inv_more [OF assms(1)] by simp
  qed
qed

lemma apply_unfold:
  assumes "enabled" "0 < base" "0 < W"
  shows "apply_phase_lock s base ref W enabled =
    (let s = lock_updated s base ref W in
     if \<not> locked s \<or> lockedPhaseQpc s = 0 then (s, base)
     else if (lockedPhaseQpc s > 0 \<and> base > int64_max - lockedPhaseQpc s) \<or>
             (lockedPhaseQpc s < 0 \<and> base < (- int64_max - 1) - lockedPhaseQpc s) then (s, base)
     else (s, base + lockedPhaseQpc s))"
  using assms unfolding apply_phase_lock_def lock_updated_def by simp

lemma phase_inv_released:
  assumes "phase_inv W n m s"
  shows "phase_inv W n (Suc m) (s\<lparr>releases := (if locked s then releases s + 1 else releases s),
    locked := False, phaseConfirmations := 0, phaseMismatchConfirmations := 0,
    phaseIncoherentConfirmations := 0\<rparr>)"
  using assms by (simp add: phase_inv_def)

lemma apply_target:
  assumes "phase_inv W n m s" "0 < W" "apply_phase_lock s base ref W enabled = (s', target)"
  shows "phase_inv W n (Suc m) s' \<and> \<bar>target - base\<bar> \<le> W div 2 \<and>
    (target \<noteq> base \<longrightarrow> locked s' \<and> target = base + lockedPhaseQpc s')"
proof (cases "enabled \<and> 0 < base")
  case True
  let ?s = "lock_updated s base ref W"
  have inv: "phase_inv W n (Suc m) ?s" by (rule phase_inv_updated [OF assms(1,2)])
  then have "\<bar>lockedPhaseQpc ?s\<bar> \<le> W div 2" unfolding phase_inv_def by blast
  moreover have "s' = ?s" "target = base \<or> target = base + lockedPhaseQpc ?s \<and> locked ?s"
    using assms(3) unfolding apply_unfold [OF True [THEN conjunct1] True [THEN conjunct2] assms(2)]
    by (auto simp: Let_def split: if_splits)
  ultimately show ?thesis using inv assms(2) by auto
next
  case False
  then have "apply_phase_lock s base ref W enabled =
      (s\<lparr>releases := (if locked s then releases s + 1 else releases s), locked := False,
         phaseConfirmations := 0, phaseMismatchConfirmations := 0, phaseIncoherentConfirmations := 0\<rparr>, base)"
    unfolding apply_phase_lock_def by (intro if_P) auto
  then show ?thesis using assms(2,3) phase_inv_released [OF assms(1)] by simp
qed

lemma run_phase_inv:
  "0 < W \<Longrightarrow> phase_inv W (length (filter is_observe calls)) (length (filter (Not \<circ> is_observe) calls))
     (run_phase_calls W calls)"
proof (induction calls rule: rev_induct)
  case Nil
  then show ?case by (simp add: run_phase_calls_def phase_inv_def phase_lock_reset_def)
next
  case (snoc c calls)
  show ?case
  proof (cases c)
    case (ObserveSource t)
    then show ?thesis
      using phase_inv_observe [OF snoc.IH [OF snoc.prems] snoc.prems]
      by (simp add: run_phase_calls_def is_observe_def)
  next
    case (ApplyLock base ref enabled)
    then show ?thesis
      using apply_target [OF snoc.IH [OF snoc.prems] snoc.prems, of base ref enabled]
      by (cases "apply_phase_lock (run_phase_calls W calls) base ref W enabled")
        (simp add: run_phase_calls_def is_observe_def)
  qed
qed

text \<open>However the source timestamps and references behave, the phase lock moves a playout target by
  at most half a source interval, and moves it only while locked, by the locked phase; it is
  locked only after eight applications and thirteen observations, and every acquisition is
  matched by a release except that of the lock still held.\<close>

theorem phase_lock_moves_at_most_half:
  assumes "0 < W"
    and "apply_phase_lock (run_phase_calls W calls) base ref W enabled = (s, target)"
  shows "\<bar>target - base\<bar> \<le> W div 2 \<and> (target \<noteq> base \<longrightarrow> locked s \<and> target = base + lockedPhaseQpc s) \<and>
    acquisitions s = releases s + (if locked s then 1 else 0) \<and>
    (locked s \<longrightarrow> 13 \<le> length (filter is_observe calls) \<and>
       8 \<le> Suc (length (filter (Not \<circ> is_observe) calls)))"
proof -
  note r = apply_target [OF run_phase_inv [OF assms(1), of calls] assms]
  then show ?thesis by (auto simp: phase_inv_def)
qed

definition steady_calls :: "phase_call list" where
  "steady_calls =
    [ObserveSource 1000, ObserveSource 1100, ObserveSource 1200, ObserveSource 1300,
     ObserveSource 1400, ObserveSource 1500, ObserveSource 1600, ObserveSource 1700,
     ObserveSource 1800, ObserveSource 1900, ObserveSource 2000, ObserveSource 2100,
     ObserveSource 2200, ApplyLock 5000 5030 True, ApplyLock 5100 5130 True, ApplyLock 5200
     5230 True, ApplyLock 5300 5330 True, ApplyLock 5400 5430 True, ApplyLock 5500 5530
     True, ApplyLock 5600 5630 True]"

lemma observe_steady:
  assumes "0 < lastSourceTimestampQpc s" "t = lastSourceTimestampQpc s + 100"
  shows "observe_source_timestamp s t 100 =
    s\<lparr>lastSourceTimestampQpc := t, stableSourceIntervals := min (stableSourceIntervals s + 1) 1000000,
      unstableSourceIntervals := 0\<rparr>"
  using assms by (simp add: observe_source_timestamp_def cadence_stable_def int64_max_def nat_add_distrib)

theorem phase_lock_moves_at_most_half_witness:
  "snd (apply_phase_lock (run_phase_calls 100 steady_calls) 5700 5730 100 True) = 5730 \<and>
   \<bar>snd (apply_phase_lock (run_phase_calls 100 steady_calls) 5700 5730 100 True) - 5700\<bar> \<le> 100 div 2"
proof -
  have "snd (apply_phase_lock (run_phase_calls 100 steady_calls) 5700 5730 100 True) = 5730"
    by (simp add: run_phase_calls_def steady_calls_def phase_lock_reset_def observe_steady
        observe_source_timestamp_def [of _ 1000] apply_unfold lock_updated_def confirm_candidate_def
        normalize_phase_def timestamp_distance_qpc_def phase_window_def phase_tolerance_permille_def
        phase_constants int64_max_def)
  then show ?thesis
    using phase_lock_moves_at_most_half [of 100 steady_calls 5700 5730 True]
    by (cases "apply_phase_lock (run_phase_calls 100 steady_calls) 5700 5730 100 True") simp
qed

end
