(* ===== verification/MediaResult.thy ===== *)
theory MediaResult
  imports Prelude
begin

text \<open>
  How a media child process tells its spawner what became of a recording,
  \<open>src/common/ipc/media_finalization.h\<close>: the exit code, the result slot in shared memory and the
  resolution of the two.  Strings are byte lists.  \<open>PublishResult\<close> and \<open>ReadResult\<close> run in
  different processes; a read is a function of the two sequence numbers it loads and of the slot
  contents it copies between them, which may be any bytes at all.
\<close>

type_synonym octets = "u8 list"

section \<open>Status and exit code\<close>

datatype finalization_status = StatusNone | Saved | Failed | Canceled | Lost

fun status_code :: "finalization_status \<Rightarrow> u32" where
  "status_code StatusNone = 0"
| "status_code Saved = 1"
| "status_code Failed = 2"
| "status_code Canceled = 3"
| "status_code Lost = 4"

text \<open>\<open>static_cast<Status>\<close> of a value that has passed the range checks of its callers.\<close>

definition status_of_code :: "u32 \<Rightarrow> finalization_status" where
  "status_of_code c = (if c = 0 then StatusNone else if c = 1 then Saved else if c = 2 then Failed
     else if c = 3 then Canceled else Lost)"

fun status_name :: "finalization_status \<Rightarrow> string" where
  "status_name StatusNone = ''none''"
| "status_name Saved = ''saved''"
| "status_name Failed = ''failed''"
| "status_name Canceled = ''canceled''"
| "status_name Lost = ''lost''"

definition flag_video_degraded :: u32 where "flag_video_degraded = push_bit 0 1"
definition flag_audio_degraded :: u32 where "flag_audio_degraded = push_bit 1 1"
definition flag_live_stream :: u32 where "flag_live_stream = push_bit 2 1"
definition flag_path_omitted :: u32 where "flag_path_omitted = push_bit 3 1"

record finalization_result =
  result_status :: finalization_status
  result_flags :: u32
  finalizationCount :: u32
  result_paths :: "octets list"

definition empty_result :: finalization_result where
  "empty_result = \<lparr>result_status = StatusNone, result_flags = 0, finalizationCount = 0, result_paths = []\<rparr>"

definition exit_code_init_failed :: u32 where "exit_code_init_failed = 1"
definition exit_code_magic :: u32 where "exit_code_magic = 0x43450000"
definition exit_code_magic_mask :: u32 where "exit_code_magic_mask = 0xFFFF0000"
definition exit_code_flags_shift :: nat where "exit_code_flags_shift = 8"

datatype exit_kind = CleanExit | ResultExit | AbnormalExit

record decoded_exit =
  exit_kind_of :: exit_kind
  exit_status :: finalization_status
  exit_flags :: u32

fun encode_exit_code :: "finalization_status \<Rightarrow> u32 \<Rightarrow> u32" where
  "encode_exit_code StatusNone flags = 0"
| "encode_exit_code Lost flags = exit_code_init_failed"
| "encode_exit_code st flags =
     exit_code_magic OR push_bit exit_code_flags_shift (flags AND 0xFF) OR status_code st"

definition decode_exit_code :: "u32 \<Rightarrow> decoded_exit" where
  "decode_exit_code exitCode =
     (if exitCode = 0 then \<lparr>exit_kind_of = CleanExit, exit_status = StatusNone, exit_flags = 0\<rparr>
      else let st = exitCode AND 0xFF
           in if exitCode AND exit_code_magic_mask = exit_code_magic \<and>
                 status_code Saved \<le> st \<and> st \<le> status_code Canceled
              then \<lparr>exit_kind_of = ResultExit, exit_status = status_of_code st,
                    exit_flags = drop_bit exit_code_flags_shift exitCode AND 0xFF\<rparr>
              else \<lparr>exit_kind_of = AbnormalExit, exit_status = Lost, exit_flags = 0\<rparr>)"

text \<open>\<open>CopyOutputPath\<close>: the returned length and the caller's buffer afterwards; \<^const>\<open>None\<close> is a null
  buffer, and the capacity is the buffer's length.\<close>

definition copy_output_path :: "octets \<Rightarrow> octets option \<Rightarrow> nat \<times> octets option" where
  "copy_output_path path buffer =
     (let n = (if length path < 0xFFFFFFFF then length path else 0xFFFFFFFE)
      in (n, case buffer of
               None \<Rightarrow> None
             | Some b \<Rightarrow> Some (if length b > n then take n path @ [0] @ drop (n + 1) b else b)))"

section \<open>What a finalization means\<close>

record finalization_inputs =
  canceled :: bool
  outputSaved :: bool
  liveStream :: bool
  videoDegraded :: bool
  audioDegraded :: bool
  outputPath :: octets

definition build_result :: "finalization_inputs \<Rightarrow> u32 \<Rightarrow> finalization_result" where
  "build_result i previousCount =
     (let flags = 0;
          flags = (if videoDegraded i \<and> outputSaved i then flags OR flag_video_degraded else flags);
          flags = (if audioDegraded i \<and> outputSaved i then flags OR flag_audio_degraded else flags);
          flags = (if liveStream i then flags OR flag_live_stream else flags);
          (flags, paths) = (if outputSaved i \<and> \<not> liveStream i then
                              (if outputPath i = [] then (flags OR flag_path_omitted, [])
                               else (flags, [outputPath i]))
                            else (flags, []))
      in \<lparr>result_status = (if outputSaved i then Saved else if canceled i then Canceled else Failed),
          result_flags = flags, finalizationCount = previousCount + 1, result_paths = paths\<rparr>)"

section \<open>The result slot\<close>

definition slot_magic :: u32 where "slot_magic = 0x52464543"
definition slot_version :: u32 where "slot_version = 1"
definition max_paths :: nat where "max_paths = 8"
definition path_capacity :: nat where "path_capacity = 4000"

record result_slot =
  magic :: u32
  version :: u32
  structSize :: u32
  slot_sequence :: u64
  slot_count :: u32
  slot_status :: u32
  slot_flags :: u32
  pathCount :: u32
  pathBytes :: u32
  slot_paths :: octets

text \<open>\<open>sizeof(Slot)\<close>: four words, the sequence number, six words and the path bytes, in multiples of
  eight.\<close>

definition slot_size :: u32 where "slot_size = 4048"

definition init_slot :: result_slot where
  "init_slot = \<lparr>magic = slot_magic, version = slot_version, structSize = slot_size, slot_sequence = 0,
     slot_count = 0, slot_status = status_code StatusNone, slot_flags = 0, pathCount = 0, pathBytes = 0,
     slot_paths = replicate path_capacity 0\<rparr>"

definition is_slot_compatible :: "result_slot \<Rightarrow> bool" where
  "is_slot_compatible s \<longleftrightarrow> magic s = slot_magic \<and> version s = slot_version \<and> structSize s = slot_size"

text \<open>The check of the path list, with its early exit, and the bytes counted.\<close>

fun measure_path_list :: "octets list \<Rightarrow> nat \<Rightarrow> bool \<times> nat" where
  "measure_path_list [] bytes = (True, bytes)"
| "measure_path_list (p # ps) bytes =
     (if p = [] \<or> 0 \<in> set p then (False, bytes) else measure_path_list ps (bytes + length p + 1))"

definition put_bytes :: "octets \<Rightarrow> nat \<Rightarrow> octets \<Rightarrow> octets" where
  "put_bytes buf offset data = take offset buf @ data @ drop (offset + length data) buf"

fun store_paths :: "octets list \<Rightarrow> octets \<Rightarrow> nat \<Rightarrow> octets \<times> nat" where
  "store_paths [] buf offset = (buf, offset)"
| "store_paths (p # ps) buf offset = store_paths ps (put_bytes buf offset p) (offset + length p + 1)"

definition publish_result :: "result_slot \<Rightarrow> finalization_result \<Rightarrow> result_slot \<times> bool" where
  "publish_result s r =
     (if \<not> is_slot_compatible s then (s, False)
      else let (fine, bytes) = measure_path_list (result_paths r) 0;
               intact = length (result_paths r) \<le> max_paths \<and> fine \<and> bytes \<le> path_capacity;
               flags = (if intact then result_flags r else result_flags r OR flag_path_omitted);
               s = s\<lparr>slot_sequence := slot_sequence s + 1\<rparr>;
               zeroed = replicate path_capacity 0;
               (stored, offset) = (if intact then store_paths (result_paths r) zeroed 0 else (zeroed, 0));
               s = s\<lparr>slot_paths := stored, slot_status := status_code (result_status r),
                     slot_flags := flags,
                     pathCount := (if intact then of_nat (length (result_paths r)) else 0),
                     pathBytes := (if intact then of_nat offset else 0),
                     slot_count := finalizationCount r\<rparr>
           in (s\<lparr>slot_sequence := slot_sequence s + 1\<rparr>, intact))"

text \<open>\<open>std::memchr\<close> for the terminating NUL.\<close>

fun find_nul :: "octets \<Rightarrow> nat option" where
  "find_nul [] = None"
| "find_nul (b # bs) = (if b = 0 then Some 0 else map_option Suc (find_nul bs))"

text \<open>The parse loop: the paths and the final offset.\<close>

fun parse_paths :: "octets \<Rightarrow> nat \<Rightarrow> nat \<Rightarrow> nat \<Rightarrow> (octets list \<times> nat) option" where
  "parse_paths buf bytes 0 offset = Some ([], offset)"
| "parse_paths buf bytes (Suc n) offset =
     (if offset \<ge> bytes then None
      else case find_nul (take (bytes - offset) (drop offset buf)) of
             None \<Rightarrow> None
           | Some len \<Rightarrow>
               if len = 0 then None
               else (case parse_paths buf bytes n (offset + len + 1) of
                       None \<Rightarrow> None
                     | Some (ps, final) \<Rightarrow> Some (take len (drop offset buf) # ps, final)))"

text \<open>\<open>ReadResult\<close>: the slot as it was copied, and the sequence number loaded after the copy.\<close>

definition read_result :: "result_slot \<Rightarrow> u64 \<Rightarrow> finalization_result option" where
  "read_result s after =
     (if slot_sequence s AND 1 \<noteq> 0 \<or> \<not> is_slot_compatible s then None
      else if after \<noteq> slot_sequence s then None
      else if slot_count s = 0 then None
      else if slot_status s < status_code StatusNone \<or> slot_status s > status_code Canceled then None
      else if unat (pathCount s) > max_paths \<or> unat (pathBytes s) > path_capacity then None
      else case parse_paths (slot_paths s) (unat (pathBytes s)) (unat (pathCount s)) 0 of
             None \<Rightarrow> None
           | Some (ps, offset) \<Rightarrow>
               if offset \<noteq> unat (pathBytes s) then None
               else Some \<lparr>result_status = status_of_code (slot_status s), result_flags = slot_flags s,
                          finalizationCount = slot_count s, result_paths = ps\<rparr>)"

section \<open>Resolution\<close>

record resolution =
  resolved :: finalization_result
  fromSlot :: bool
  abnormalExit :: bool
  statusDisagreed :: bool

definition resolve :: "u32 \<Rightarrow> finalization_result option \<Rightarrow> resolution" where
  "resolve exitCode slotResult =
     (let exit = decode_exit_code exitCode;
          abnormal = (exit_kind_of exit = AbnormalExit);
          fallback = \<lparr>resolved = empty_result\<lparr>result_status := exit_status exit,
              result_flags := (if exit_kind_of exit = ResultExit \<and> exit_status exit = Saved \<and>
                                 exit_flags exit AND flag_live_stream = 0
                               then exit_flags exit OR flag_path_omitted else exit_flags exit)\<rparr>,
              fromSlot = False, abnormalExit = abnormal, statusDisagreed = False\<rparr>
      in case slotResult of
           None \<Rightarrow> fallback
         | Some r \<Rightarrow>
             if finalizationCount r > 0
             then \<lparr>resolved = r, fromSlot = True, abnormalExit = abnormal,
                   statusDisagreed = (exit_kind_of exit = ResultExit \<and> exit_status exit \<noteq> result_status r)\<rparr>
             else fallback)"

section \<open>The exit code round trip\<close>

lemma exit_magic_bits: "exit_code_magic = push_bit 16 0x4345" "exit_code_magic_mask = push_bit 16 (mask 16)"
  by (simp_all add: exit_code_magic_def exit_code_magic_mask_def mask_eq_exp_minus_1)

lemma status_code_bits: "status_code st AND mask 8 = status_code st" "\<not> bit (status_code st) (8 + n)"
proof -
  show a: "status_code st AND mask 8 = status_code st" by (cases st) (simp_all add: mask_eq_exp_minus_1)
  have "bit (status_code st) (8 + n) \<longleftrightarrow> bit (status_code st AND mask 8) (8 + n)" using a by simp
  then show "\<not> bit (status_code st) (8 + n)" by (simp add: bit_and_iff bit_mask_iff)
qed

definition result_code :: "finalization_status \<Rightarrow> u32 \<Rightarrow> u32" where
  "result_code st flags = exit_code_magic OR push_bit 8 (flags AND 0xFF) OR status_code st"

lemma ff_mask: "(0xFF :: u32) = mask 8"
  by (simp add: mask_eq_exp_minus_1)

lemma code_field_parts:
  fixes m f c :: u32
  assumes low: "\<And>n. bit c n \<Longrightarrow> n < 8"
  defines "x \<equiv> push_bit 16 m OR push_bit 8 (f AND mask 8) OR c"
  shows "x AND push_bit 16 (mask 16) = push_bit 16 m"
    "x AND mask 8 = c AND mask 8"
    "drop_bit 8 x AND mask 8 = f AND mask 8"
  unfolding x_def by (rule bit_word_eqI; auto simp: bit_simps dest: low)+

lemma result_code_parts:
  "result_code st flags AND exit_code_magic_mask = exit_code_magic"
  "result_code st flags AND 0xFF = status_code st"
  "drop_bit 8 (result_code st flags) AND 0xFF = flags AND 0xFF"
proof -
  have low: "n < 8" if "bit (status_code st) n" for n
    using status_code_bits(2) [of st "n - 8"] that by (cases "n < 8") simp_all
  show "result_code st flags AND exit_code_magic_mask = exit_code_magic"
    unfolding result_code_def exit_magic_bits ff_mask by (rule code_field_parts(1) [OF low])
  show "drop_bit 8 (result_code st flags) AND 0xFF = flags AND 0xFF"
    unfolding result_code_def exit_magic_bits ff_mask by (rule code_field_parts(3) [OF low])
  have "result_code st flags AND mask 8 = status_code st AND mask 8"
    unfolding result_code_def exit_magic_bits ff_mask by (rule code_field_parts(2) [OF low])
  then show "result_code st flags AND 0xFF = status_code st"
    unfolding ff_mask status_code_bits(1) .
qed

lemma decode_encode:
  assumes "st \<in> {Saved, Failed, Canceled}"
  shows "decode_exit_code (encode_exit_code st flags) =
    \<lparr>exit_kind_of = ResultExit, exit_status = st, exit_flags = flags AND 0xFF\<rparr>"
proof -
  have e: "encode_exit_code st flags = result_code st flags"
    using assms by (auto simp: result_code_def exit_code_flags_shift_def)
  have "result_code st flags \<noteq> 0"
    using result_code_parts(1) [of st flags] by (auto simp: exit_code_magic_def)
  then show ?thesis
    using assms unfolding e decode_exit_code_def result_code_parts Let_def exit_code_flags_shift_def
    by (auto simp: status_of_code_def)
qed

lemma decode_other: "decode_exit_code (encode_exit_code StatusNone f) =
    \<lparr>exit_kind_of = CleanExit, exit_status = StatusNone, exit_flags = 0\<rparr>"
  "decode_exit_code (encode_exit_code Lost f) =
    \<lparr>exit_kind_of = AbnormalExit, exit_status = Lost, exit_flags = 0\<rparr>"
  by (simp_all add: decode_exit_code_def exit_code_init_failed_def exit_code_magic_def exit_code_magic_mask_def)

section \<open>The slot round trip\<close>

definition packed :: "octets list \<Rightarrow> octets" where
  "packed ps = concat (map (\<lambda>p. p @ [0]) ps)"

lemma packed_simps [simp]: "packed [] = []" "packed (p # ps) = p @ 0 # packed ps"
  by (simp_all add: packed_def)

definition clean_path :: "octets \<Rightarrow> bool" where
  "clean_path p \<longleftrightarrow> p \<noteq> [] \<and> 0 \<notin> set p"

lemma measure_clean: "fst (measure_path_list ps n) \<longleftrightarrow> list_all clean_path ps"
  by (induction ps arbitrary: n) (auto simp: clean_path_def)

lemma measure_bytes: "list_all clean_path ps \<Longrightarrow> snd (measure_path_list ps n) = n + length (packed ps)"
  by (induction ps arbitrary: n) (auto simp: clean_path_def)

lemma store_packed:
  "length (packed ps) \<le> k \<Longrightarrow> store_paths ps (pre @ replicate k 0) (length pre) =
     (pre @ packed ps @ replicate (k - length (packed ps)) 0, length pre + length (packed ps))"
proof (induction ps arbitrary: pre k)
  case (Cons p ps)
  let ?k = "k - length p - 1"
  have k: "k = length p + (1 + ?k)" using Cons.prems by simp
  have "replicate k (0::u8) = replicate (length p) 0 @ [0] @ replicate ?k 0"
    by (subst k) (simp only: replicate_add, simp)
  then have "put_bytes (pre @ replicate k 0) (length pre) p = (pre @ p @ [0]) @ replicate ?k 0"
    by (simp add: put_bytes_def)
  then show ?case using Cons.IH [of ?k "pre @ p @ [0]"] Cons.prems by simp
qed simp

lemma find_nul_clean: "0 \<notin> set p \<Longrightarrow> length p < n \<Longrightarrow> find_nul (take n (p @ 0 # rest)) = Some (length p)"
proof (induction p arbitrary: n)
  case Nil
  then show ?case by (cases n) simp_all
next
  case (Cons b p)
  then show ?case by (cases n) auto
qed

lemma parse_packed:
  "list_all clean_path ps \<Longrightarrow> bytes = length pre + length (packed ps) \<Longrightarrow>
   parse_paths (pre @ packed ps @ post) bytes (length ps) (length pre) = Some (ps, bytes)"
proof (induction ps arbitrary: pre)
  case (Cons p ps)
  have p: "p \<noteq> []" "0 \<notin> set p" using Cons.prems by (auto simp: clean_path_def)
  have nul: "find_nul (take (bytes - length pre) (p @ 0 # packed ps @ post)) = Some (length p)"
    using p(2) Cons.prems by (intro find_nul_clean) auto
  have "parse_paths ((pre @ p @ [0]) @ packed ps @ post) bytes (length ps) (length (pre @ p @ [0])) =
      Some (ps, bytes)"
    using Cons.prems by (intro Cons.IH) auto
  then show ?case using nul p(1) Cons.prems by simp
qed simp

text \<open>What a result must be for the slot to hold it whole.\<close>

definition storable_paths :: "octets list \<Rightarrow> bool" where
  "storable_paths ps \<longleftrightarrow> length ps \<le> max_paths \<and> list_all clean_path ps \<and> length (packed ps) \<le> path_capacity"

lemma intact_iff:
  "(let (fine, bytes) = measure_path_list ps 0
    in length ps \<le> max_paths \<and> fine \<and> bytes \<le> path_capacity) \<longleftrightarrow> storable_paths ps"
  using measure_clean [of ps 0] measure_bytes [of ps 0]
  by (cases "measure_path_list ps 0") (auto simp: storable_paths_def)

definition arrived :: "finalization_result \<Rightarrow> finalization_result" where
  "arrived r = (if storable_paths (result_paths r) then r
     else r\<lparr>result_flags := result_flags r OR flag_path_omitted, result_paths := []\<rparr>)"

lemma publish_unfold:
  assumes "is_slot_compatible s"
  shows "publish_result s r = (let ps = result_paths (arrived r) in
    (s\<lparr>slot_sequence := slot_sequence s + 2, slot_paths := packed ps @ replicate (path_capacity - length (packed ps)) 0,
       slot_status := status_code (result_status r), slot_flags := result_flags (arrived r),
       pathCount := of_nat (length ps), pathBytes := of_nat (length (packed ps)),
       slot_count := finalizationCount r\<rparr>, storable_paths (result_paths r)))"
proof -
  obtain fine bytes where m: "measure_path_list (result_paths r) 0 = (fine, bytes)" by force
  have i: "(length (result_paths r) \<le> max_paths \<and> fine \<and> bytes \<le> path_capacity) \<longleftrightarrow>
      storable_paths (result_paths r)"
    using intact_iff [of "result_paths r"] by (simp add: m)
  have two: "slot_sequence s + 1 + 1 = slot_sequence s + 2" by simp
  show ?thesis
  proof (cases "storable_paths (result_paths r)")
    case True
    then have "store_paths (result_paths r) (replicate path_capacity 0) 0 =
        (packed (result_paths r) @ replicate (path_capacity - length (packed (result_paths r))) 0,
         length (packed (result_paths r)))"
      using store_packed [of "result_paths r" path_capacity "[]"] by (simp add: storable_paths_def)
    then show ?thesis
      using assms True unfolding publish_result_def m Let_def prod.case i by (simp add: arrived_def)
  next
    case False
    then show ?thesis
      using assms unfolding publish_result_def m Let_def prod.case i by (simp add: arrived_def)
  qed
qed

lemma read_published:
  assumes "is_slot_compatible s" "slot_sequence s AND 1 = 0" "finalizationCount r \<noteq> 0" "result_status r \<noteq> Lost"
  shows "read_result (fst (publish_result s r)) (slot_sequence (fst (publish_result s r))) = Some (arrived r)"
proof -
  let ?ps = "result_paths (arrived r)"
  have ok: "storable_paths ?ps" by (simp add: arrived_def storable_paths_def)
  have ps: "length ?ps \<le> 8" "list_all clean_path ?ps" "length (packed ?ps) \<le> 4000"
    using ok by (simp_all add: storable_paths_def max_paths_def path_capacity_def)
  have num: "unat (of_nat (length ?ps) :: u32) = length ?ps"
    "unat (of_nat (length (packed ?ps)) :: u32) = length (packed ?ps)"
    using ps(1,3) by (simp_all add: unat_of_nat)
  have even: "(slot_sequence s + 2) AND 1 = 0"
    using assms(2) by (simp add: and_one_eq mod_2_eq_odd)
  have st: "\<not> status_code (result_status r) > status_code Canceled"
    "status_of_code (status_code (result_status r)) = result_status r"
    using assms(4) by (cases "result_status r"; simp add: status_of_code_def)+
  have parse: "parse_paths (packed ?ps @ replicate (path_capacity - length (packed ?ps)) 0)
      (length (packed ?ps)) (length ?ps) 0 = Some (?ps, length (packed ?ps))"
    using parse_packed [OF ps(2), of _ "[]"] by simp
  have "finalizationCount (arrived r) = finalizationCount r" "result_status (arrived r) = result_status r"
    by (simp_all add: arrived_def)
  then show ?thesis
    using assms(1,3) even ps st parse
    unfolding publish_unfold [OF assms(1)] read_result_def Let_def fst_conv
    by (simp add: is_slot_compatible_def num max_paths_def path_capacity_def)
qed

section \<open>Any slot contents\<close>

lemma find_nul_Some: "find_nul xs = Some k \<Longrightarrow> k < length xs \<and> 0 \<notin> set (take k xs)"
  by (induction xs arbitrary: k) (auto split: if_splits)

lemma parse_clean:
  "parse_paths buf bytes n offset = Some (ps, final) \<Longrightarrow>
   length ps = n \<and> list_all clean_path ps \<and> final = offset + length (packed ps)"
proof (induction n arbitrary: offset ps final)
  case (Suc n)
  then obtain len qs where
    nul: "find_nul (take (bytes - offset) (drop offset buf)) = Some len" "len \<noteq> 0"
    and rest: "parse_paths buf bytes n (offset + len + 1) = Some (qs, final)"
    and ps: "ps = take len (drop offset buf) # qs"
    by (auto split: if_splits option.splits prod.splits)
  have len: "len < length (take (bytes - offset) (drop offset buf))"
    and clean: "0 \<notin> set (take len (take (bytes - offset) (drop offset buf)))"
    using find_nul_Some [OF nul(1)] by auto
  have "min len (bytes - offset) = len" using len by simp
  then have "0 \<notin> set (take len (drop offset buf))" using clean by simp
  moreover have "length (take len (drop offset buf)) = len" using len by simp
  ultimately show ?case using Suc.IH [OF rest] nul(2) unfolding ps by (auto simp: clean_path_def)
qed simp

text \<open>C21: Whatever bytes the shared slot holds and however the read races with a writer, a result the
  reader accepts is well formed: a status a child can report, a published count, at most eight
  paths, none empty or containing a NUL, that fit the slot; and publishing that result again
  stores it whole and reads it back unchanged.\<close>

theorem accepted_result_wellformed:
  assumes "read_result s after = Some r"
  shows "result_status r \<in> {StatusNone, Saved, Failed, Canceled} \<and> finalizationCount r \<noteq> 0 \<and>
    length (result_paths r) \<le> 8 \<and> list_all clean_path (result_paths r) \<and>
    length (packed (result_paths r)) \<le> 4000 \<and>
    (is_slot_compatible t \<and> slot_sequence t AND 1 = 0 \<longrightarrow>
       snd (publish_result t r) \<and>
       read_result (fst (publish_result t r)) (slot_sequence (fst (publish_result t r))) = Some r)"
proof -
  obtain ps offset where parse: "parse_paths (slot_paths s) (unat (pathBytes s)) (unat (pathCount s)) 0 = Some (ps, offset)"
    and sizes: "unat (pathCount s) \<le> 8" "unat (pathBytes s) \<le> 4000" "offset = unat (pathBytes s)"
    and st: "slot_status s \<le> 3" and count: "slot_count s \<noteq> 0"
    and r: "r = \<lparr>result_status = status_of_code (slot_status s), result_flags = slot_flags s,
        finalizationCount = slot_count s, result_paths = ps\<rparr>"
    using assms unfolding read_result_def
    by (auto simp: max_paths_def path_capacity_def split: if_splits option.splits prod.splits)
  note clean = parse_clean [OF parse]
  have storable: "storable_paths (result_paths r)"
    using clean sizes by (simp add: r storable_paths_def max_paths_def path_capacity_def)
  have status: "result_status r \<in> {StatusNone, Saved, Failed, Canceled}"
  proof -
    obtain n where n: "n \<le> 3" "slot_status s = of_nat n"
      using that [of "unat (slot_status s)"] st by (simp add: word_le_nat_alt)
    from n(1) have "n = 0 \<or> n = 1 \<or> n = 2 \<or> n = 3" by arith
    then have "slot_status s = 0 \<or> slot_status s = 1 \<or> slot_status s = 2 \<or> slot_status s = 3"
      using n(2) by auto
    then show ?thesis by (auto simp: r status_of_code_def)
  qed
  have "arrived r = r" using storable by (simp add: arrived_def)
  then have "snd (publish_result t r) \<and>
      read_result (fst (publish_result t r)) (slot_sequence (fst (publish_result t r))) = Some r"
    if "is_slot_compatible t" "slot_sequence t AND 1 = 0"
    using read_published [of t r] publish_unfold [of t r] that storable status count by (auto simp: r Let_def)
  then show ?thesis using status count clean sizes by (auto simp: r)
qed

section \<open>From the child to its spawner\<close>

lemma build_flags:
  "result_flags (build_result i n) AND 0xFF = result_flags (build_result i n)"
  "result_flags (build_result i n) AND flag_live_stream = 0 \<longleftrightarrow> \<not> liveStream i"
  by (simp_all add: build_result_def Let_def flag_video_degraded_def flag_audio_degraded_def
      flag_live_stream_def flag_path_omitted_def)

lemma build_status:
  "result_status (build_result i n) = (if outputSaved i then Saved else if canceled i then Canceled else Failed)"
  "finalizationCount (build_result i n) = n + 1"
  by (simp_all add: build_result_def Let_def split: prod.split)

text \<open>C20: What a finalization did reaches the spawner: through the slot it arrives with status, flags
  and path, the path being left out (and flagged) exactly when it cannot be stored whole, and the
  exit code agrees with it; without a slot the exit code alone gives the status and the flags, and
  marks the path of a saved file as omitted.\<close>

theorem finalization_outcome_arrives:
  fixes i :: finalization_inputs and previous :: u32 and s :: result_slot
  assumes "is_slot_compatible s" and "slot_sequence s AND 1 = 0" and "previous \<noteq> - 1"
  defines "r \<equiv> build_result i previous"
  defines "code \<equiv> encode_exit_code (result_status r) (result_flags r)"
  defines "s' \<equiv> fst (publish_result s r)"
  shows "(\<exists>r'. read_result s' (slot_sequence s') = Some r' \<and>
      resolve code (Some r') = \<lparr>resolved = r', fromSlot = True, abnormalExit = False, statusDisagreed = False\<rparr> \<and>
      result_status r' = result_status r \<and>
      (if storable_paths (result_paths r) then r' = r
       else result_paths r' = [] \<and> result_flags r' = result_flags r OR flag_path_omitted)) \<and>
    (let alone = resolve code None in
      result_status (resolved alone) = result_status r \<and> \<not> abnormalExit alone \<and>
      result_flags (resolved alone) =
        (if outputSaved i \<and> \<not> liveStream i then result_flags r OR flag_path_omitted else result_flags r))"
proof -
  have st: "result_status r \<in> {Saved, Failed, Canceled}" by (simp add: r_def build_status)
  have count: "finalizationCount r \<noteq> 0"
    using assms(3) eq_neg_iff_add_eq_0 [of previous 1] unfolding r_def build_status by simp
  have flags: "result_flags r AND 0xFF = result_flags r" unfolding r_def by (rule build_flags(1))
  have code: "decode_exit_code code =
      \<lparr>exit_kind_of = ResultExit, exit_status = result_status r, exit_flags = result_flags r\<rparr>"
    unfolding code_def decode_encode [OF st] flags ..
  have read: "read_result s' (slot_sequence s') = Some (arrived r)"
    unfolding s'_def using assms(1,2) count st by (intro read_published) auto
  have "finalizationCount (arrived r) \<noteq> 0" "result_status (arrived r) = result_status r"
    using count by (simp_all add: arrived_def)
  then have slot: "resolve code (Some (arrived r)) =
      \<lparr>resolved = arrived r, fromSlot = True, abnormalExit = False, statusDisagreed = False\<rparr>"
    by (simp add: resolve_def code word_greater_zero_iff)
  have live: "result_flags r AND flag_live_stream = 0 \<longleftrightarrow> \<not> liveStream i"
    unfolding r_def by (rule build_flags(2))
  have saved: "result_status r = Saved \<longleftrightarrow> outputSaved i" by (simp add: r_def build_status)
  show ?thesis
    using read slot live saved by (auto simp: resolve_def code arrived_def empty_result_def Let_def)
qed

theorem finalization_outcome_arrives_witness:
  "result_paths (the (read_result (fst (publish_result init_slot (build_result
      \<lparr>canceled = False, outputSaved = True, liveStream = False, videoDegraded = True, audioDegraded = False,
       outputPath = [67, 58, 97]\<rparr> 0))) 2)) = [[67, 58, 97]]"
proof -
  let ?i = "\<lparr>canceled = False, outputSaved = True, liveStream = False, videoDegraded = True,
    audioDegraded = False, outputPath = [67, 58, 97 :: u8]\<rparr>"
  have paths: "result_paths (build_result ?i 0) = [[67, 58, 97]]" by (simp add: build_result_def)
  have ok: "is_slot_compatible init_slot" "slot_sequence init_slot AND 1 = 0"
    by (simp_all add: is_slot_compatible_def init_slot_def)
  have storable: "storable_paths [[67, 58, 97]]"
    by (simp add: storable_paths_def clean_path_def max_paths_def path_capacity_def)
  have seq: "slot_sequence (fst (publish_result init_slot (build_result ?i 0))) = 2"
    unfolding publish_unfold [OF ok(1)] by (simp add: init_slot_def Let_def)
  have "(0 :: u32) \<noteq> - 1" by simp
  from finalization_outcome_arrives [OF ok this, of ?i] storable
  have "read_result (fst (publish_result init_slot (build_result ?i 0))) 2 = Some (build_result ?i 0)"
    unfolding seq paths by auto
  then show ?thesis using paths by simp
qed

theorem accepted_result_wellformed_witness:
  "length (packed (result_paths (arrived (build_result
      \<lparr>canceled = True, outputSaved = False, liveStream = False, videoDegraded = False, audioDegraded = False,
       outputPath = []\<rparr> 0)))) \<le> 4000"
proof -
  let ?i = "\<lparr>canceled = True, outputSaved = False, liveStream = False, videoDegraded = False,
    audioDegraded = False, outputPath = [] :: octets\<rparr>"
  have "read_result (fst (publish_result init_slot (build_result ?i 0)))
      (slot_sequence (fst (publish_result init_slot (build_result ?i 0)))) = Some (arrived (build_result ?i 0))"
    by (intro read_published) (simp_all add: is_slot_compatible_def init_slot_def build_status)
  from accepted_result_wellformed [OF this, of init_slot] show ?thesis by blast
qed

end
