(* ===== verification/ProcessSelector.thy ===== *)
theory ProcessSelector
  imports Prelude
begin

text \<open>
  How a configured selector picks processes: \<open>src/common/config/process_selector.h\<close> for wide
  strings, the adapters and the profile search of \<open>src/common/config/application_profile.h\<close> and the
  conversions of \<open>src/common/platform/utf8.h\<close>.  A \<open>std::string\<close> is a list of bytes
  (\<^typ>\<open>string\<close>), a \<open>std::wstring\<close> a list of UTF-16 units.  The three functions of the operating
  system that are called are fields of \<open>text_services\<close>, a parameter of everything that uses them.
\<close>

section \<open>Strings\<close>

type_synonym wide = "u16 list"

record text_services =
  multi_byte_to_wide :: "string \<Rightarrow> wide option"
  compare_string_ordinal :: "wide \<Rightarrow> wide \<Rightarrow> bool"
  find_string_ordinal :: "wide \<Rightarrow> wide \<Rightarrow> bool"

text \<open>The conversion gives \<^const>\<open>None\<close> for bytes that are not valid UTF-8; the comparison and the
  search ignore case, the search saying whether the needle occurs.\<close>

definition to_wide :: "text_services \<Rightarrow> string \<Rightarrow> wide" where
  "to_wide svc s = (if s = [] then [] else case multi_byte_to_wide svc s of None \<Rightarrow> [] | Some w \<Rightarrow> w)"

definition equals_ordinal_ignore_case :: "text_services \<Rightarrow> wide \<Rightarrow> wide \<Rightarrow> bool" where
  "equals_ordinal_ignore_case svc lhs rhs \<longleftrightarrow>
     length lhs = length rhs \<and> (lhs = [] \<or> compare_string_ordinal svc lhs rhs)"

definition contains_ordinal_ignore_case :: "text_services \<Rightarrow> wide \<Rightarrow> wide \<Rightarrow> bool" where
  "contains_ordinal_ignore_case svc text needle \<longleftrightarrow>
     (if needle = [] then True else if length needle > length text then False
      else find_string_ordinal svc text needle)"

section \<open>Selectors\<close>

definition process_selector_is_path :: "wide \<Rightarrow> bool" where
  "process_selector_is_path selector \<longleftrightarrow> 0x5C \<in> set selector \<or> 0x2F \<in> set selector"

definition selector_path_separator :: "u16 \<Rightarrow> bool" where
  "selector_path_separator c \<longleftrightarrow> c = 0x5C \<or> c = 0x2F"

definition selector_ascii_lower :: "u16 \<Rightarrow> u16" where
  "selector_ascii_lower c = (if 0x41 \<le> c \<and> c \<le> 0x5A then c - 0x41 + 0x61 else c)"

text \<open>\<open>std::isalpha\<close> of a unit truncated to a byte, in the C locale.\<close>

definition is_alpha_byte :: "u16 \<Rightarrow> bool" where
  "is_alpha_byte c \<longleftrightarrow> (let b = ucast c :: u8 in (0x41 \<le> b \<and> b \<le> 0x5A) \<or> (0x61 \<le> b \<and> b \<le> 0x7A))"

definition normalize_unit :: "u16 \<Rightarrow> u16" where
  "normalize_unit c = (let c = (if c = 0x2F then 0x5C else c) in if c \<le> 0x7F then selector_ascii_lower c else c)"

definition strip_nt_prefix :: "wide \<Rightarrow> wide" where
  "strip_nt_prefix s = (if length s \<ge> 4 \<and> s ! 0 = 0x5C \<and> s ! 1 = 0x3F \<and> s ! 2 = 0x3F \<and> s ! 3 = 0x5C
     then drop 4 s else s)"

definition strip_device_prefix :: "wide \<Rightarrow> wide" where
  "strip_device_prefix s =
     (if length s \<ge> 4 \<and> s ! 0 = 0x5C \<and> s ! 1 = 0x5C \<and> s ! 2 = 0x3F \<and> s ! 3 = 0x5C then
        (if length s \<ge> 8 \<and> s ! 4 = 0x75 \<and> s ! 5 = 0x6E \<and> s ! 6 = 0x63 \<and> s ! 7 = 0x5C
         then [0x5C, 0x5C] @ drop 8 s
         else if length s \<ge> 7 \<and> is_alpha_byte (s ! 4) \<and> s ! 5 = 0x3A \<and> s ! 6 = 0x5C then drop 4 s
         else s)
      else s)"

definition normalize_selector_path :: "wide \<Rightarrow> wide" where
  "normalize_selector_path path = strip_device_prefix (strip_nt_prefix (map normalize_unit path))"

definition process_path_selector_matches :: "text_services \<Rightarrow> wide \<Rightarrow> wide \<Rightarrow> bool" where
  "process_path_selector_matches svc selector processPath \<longleftrightarrow>
     (if \<not> process_selector_is_path selector \<or> processPath = [] then False
      else let normalizedSelector = normalize_selector_path selector;
               normalizedPath = normalize_selector_path processPath
           in if length normalizedSelector > length normalizedPath then False
              else let offset = length normalizedPath - length normalizedSelector
                   in if \<not> equals_ordinal_ignore_case svc normalizedSelector (drop offset normalizedPath) then False
                      else offset = 0 \<or> selector_path_separator (normalizedPath ! (offset - 1)) \<or>
                           selector_path_separator (hd normalizedSelector))"

definition process_selector_matches :: "text_services \<Rightarrow> wide \<Rightarrow> wide \<Rightarrow> wide \<Rightarrow> bool \<Rightarrow> bool" where
  "process_selector_matches svc selector processName processPath requireExactName \<longleftrightarrow>
     (if process_selector_is_path selector then process_path_selector_matches svc selector processPath
      else if equals_ordinal_ignore_case svc selector processName then True
      else \<not> requireExactName \<and> contains_ordinal_ignore_case svc processName selector)"

text \<open>The cast of the size to \<open>int\<close> is exact for selectors below 2 GiB.\<close>

definition process_selector_specificity :: "wide \<Rightarrow> int" where
  "process_selector_specificity selector =
     (if \<not> process_selector_is_path selector then 0
      else 1000000 + int (length (normalize_selector_path selector)))"

definition selector_deny_prefix :: u16 where "selector_deny_prefix = 0x1F"

definition encode_process_selector :: "string \<Rightarrow> bool \<Rightarrow> string" where
  "encode_process_selector selector allow = (if \<not> allow then CHR 0x1F # selector else selector)"

definition decode_process_selector_decision :: "wide \<Rightarrow> bool \<times> wide" where
  "decode_process_selector_decision selector =
     (if selector \<noteq> [] \<and> hd selector = selector_deny_prefix then (False, tl selector) else (True, selector))"

datatype selector_verdict = NoMatch | Deny | Allow

record selector_evaluation =
  verdict :: selector_verdict
  specificity :: int

definition evaluate_process_selector :: "text_services \<Rightarrow> wide \<Rightarrow> wide \<Rightarrow> wide \<Rightarrow> selector_evaluation" where
  "evaluate_process_selector svc encodedSelector processName processPath =
     (let (allow, selector) = decode_process_selector_decision encodedSelector
      in if \<not> process_selector_matches svc selector processName processPath True
         then \<lparr>verdict = NoMatch, specificity = - 1\<rparr>
         else \<lparr>verdict = (if allow then Allow else Deny), specificity = process_selector_specificity selector\<rparr>)"

definition evaluate_process_selector_utf8 :: "text_services \<Rightarrow> string \<Rightarrow> string \<Rightarrow> string \<Rightarrow> selector_evaluation" where
  "evaluate_process_selector_utf8 svc encodedSelector processName processPath =
     (let wideSelector = to_wide svc encodedSelector
      in if wideSelector = [] then \<lparr>verdict = NoMatch, specificity = - 1\<rparr>
         else evaluate_process_selector svc wideSelector (to_wide svc processName) (to_wide svc processPath))"

section \<open>Profiles\<close>

datatype match_mode = MatchExact | MatchTitleExecutable | MatchTitleType

fun match_mode_to_string :: "match_mode \<Rightarrow> string" where
  "match_mode_to_string MatchExact = ''exact''"
| "match_mode_to_string MatchTitleExecutable = ''title_executable''"
| "match_mode_to_string MatchTitleType = ''title_type''"

definition parse_match_mode :: "string \<Rightarrow> match_mode" where
  "parse_match_mode val =
     (if val = ''contains'' \<or> val = ''title_executable'' \<or> val = ''title_exec'' then MatchTitleExecutable
      else if val = ''contains_or_class'' \<or> val = ''title_type'' \<or> val = ''title_class'' then MatchTitleType
      else MatchExact)"

lemma parse_match_mode_to_string: "parse_match_mode (match_mode_to_string m) = m"
  by (cases m) (simp_all add: parse_match_mode_def)

record whitelist_entry =
  pattern :: string
  windowName :: string
  mode :: match_mode

definition has_process :: "whitelist_entry \<Rightarrow> bool" where "has_process e \<longleftrightarrow> pattern e \<noteq> []"
definition has_window :: "whitelist_entry \<Rightarrow> bool" where "has_window e \<longleftrightarrow> windowName e \<noteq> []"

record target_identity =
  imageName :: string
  imagePath :: string

definition matches_process_name :: "text_services \<Rightarrow> whitelist_entry \<Rightarrow> string \<Rightarrow> bool \<Rightarrow> bool" where
  "matches_process_name svc e processName requireExactName \<longleftrightarrow>
     (if \<not> has_process e \<or> processName = [] then False
      else let wideSelector = to_wide svc (pattern e)
           in if wideSelector = [] then False
              else if process_selector_is_path wideSelector then False
              else process_selector_matches svc wideSelector (to_wide svc processName) []
                     (requireExactName \<or> mode e = MatchExact))"

definition matches_process_target :: "text_services \<Rightarrow> whitelist_entry \<Rightarrow> target_identity \<Rightarrow> bool \<Rightarrow> bool" where
  "matches_process_target svc e identity requireExactName \<longleftrightarrow>
     (if \<not> has_process e \<or> imageName identity = [] then False
      else process_selector_matches svc (to_wide svc (pattern e)) (to_wide svc (imageName identity))
             (to_wide svc (imagePath identity)) (requireExactName \<or> mode e = MatchExact))"

definition is_process_path_selector :: "text_services \<Rightarrow> whitelist_entry \<Rightarrow> bool" where
  "is_process_path_selector svc e \<longleftrightarrow> has_process e \<and> process_selector_is_path (to_wide svc (pattern e))"

datatype application_video_capture = VideoInherit | VideoInject | VideoWgc | VideoDxgiDup | VideoNone
datatype application_dll_injection = InjectWhenNeeded | InjectAlways | InjectNever
datatype application_injection_mode = InjectionCapture | InjectionOverlay | InjectionNone

text \<open>The settings of the desktop overlay are only stored, as a value of any type.\<close>

record 'overlay application_profile =
  profile_section :: string
  profile_target :: whitelist_entry
  captureMonitor :: string
  videoCapture :: application_video_capture
  resolvedVideoCapture :: application_video_capture
  dllInjection :: application_dll_injection
  injectionMode :: application_injection_mode
  videoCaptureExplicit :: bool
  captureMonitorExplicit :: bool
  legacyInjectionSyntax :: bool
  legacy :: bool
  windowHeartbeatEnabled :: bool
  desktopOverlay :: 'overlay

definition profile_specificity :: "text_services \<Rightarrow> 'o application_profile \<Rightarrow> int" where
  "profile_specificity svc profile = process_selector_specificity (to_wide svc (pattern (profile_target profile)))"

definition profile_matches :: "text_services \<Rightarrow> target_identity \<Rightarrow> bool \<Rightarrow> 'o application_profile \<Rightarrow> bool" where
  "profile_matches svc identity requireExactName profile \<longleftrightarrow>
     matches_process_target svc (profile_target profile) identity (requireExactName \<or> \<not> legacy profile)"

fun find_profile_loop ::
  "text_services \<Rightarrow> target_identity \<Rightarrow> bool \<Rightarrow> 'o application_profile option \<Rightarrow> int \<Rightarrow>
   'o application_profile list \<Rightarrow> 'o application_profile option" where
  "find_profile_loop svc identity exact selected selectedSpecificity [] = selected"
| "find_profile_loop svc identity exact selected selectedSpecificity (profile # rest) =
     (if \<not> profile_matches svc identity exact profile
      then find_profile_loop svc identity exact selected selectedSpecificity rest
      else let specificity = profile_specificity svc profile
           in if selected = None \<or> specificity \<ge> selectedSpecificity
              then find_profile_loop svc identity exact (Some profile) specificity rest
              else find_profile_loop svc identity exact selected selectedSpecificity rest)"

definition find_application_profile ::
  "text_services \<Rightarrow> 'o application_profile list \<Rightarrow> target_identity \<Rightarrow> bool \<Rightarrow> 'o application_profile option" where
  "find_application_profile svc profiles identity exact = find_profile_loop svc identity exact None (- 1) profiles"

section \<open>Denied selectors\<close>

text \<open>A denied selector keeps its text, given a conversion that works unit by unit on the prefix.\<close>

lemma decode_encode_selector:
  assumes "to_wide svc (encode_process_selector s False) = selector_deny_prefix # to_wide svc s"
  shows "decode_process_selector_decision (to_wide svc (encode_process_selector s False)) = (False, to_wide svc s)"
  using assms by (simp add: decode_process_selector_decision_def)

text \<open>Unlike the two other adapters, \<open>MatchesProcessTarget\<close> does not refuse a selector that cannot be
  converted: outside the exact mode the empty selector then matches every process.\<close>

lemma unconvertible_selector_matches:
  assumes "multi_byte_to_wide svc (pattern e) = None" "has_process e" "imageName i \<noteq> []" "mode e \<noteq> MatchExact"
  shows "matches_process_target svc e i False" "\<not> matches_process_name svc e (imageName i) x"
  using assms by (simp_all add: matches_process_target_def matches_process_name_def process_selector_matches_def
      to_wide_def process_selector_is_path_def contains_ordinal_ignore_case_def)

lemma specificity_path_iff: "1000000 \<le> process_selector_specificity w \<longleftrightarrow> process_selector_is_path w"
  by (simp add: process_selector_specificity_def)

lemma specificity_nonneg: "0 \<le> process_selector_specificity w"
  by (simp add: process_selector_specificity_def)

section \<open>The most specific profile wins\<close>

definition most_specific ::
  "text_services \<Rightarrow> target_identity \<Rightarrow> bool \<Rightarrow> 'o application_profile list \<Rightarrow>
   'o application_profile list \<Rightarrow> 'o application_profile \<Rightarrow> 'o application_profile list \<Rightarrow> bool" where
  "most_specific svc i x profiles before p after \<longleftrightarrow>
     profiles = before @ p # after \<and> profile_matches svc i x p \<and>
     list_all (\<lambda>q. profile_specificity svc q \<le> profile_specificity svc p) (filter (profile_matches svc i x) before) \<and>
     list_all (\<lambda>q. profile_specificity svc q < profile_specificity svc p) (filter (profile_matches svc i x) after)"

lemma most_specific_Cons:
  "most_specific svc i x ps before q after \<Longrightarrow>
   profile_matches svc i x a \<longrightarrow> profile_specificity svc a \<le> profile_specificity svc q \<Longrightarrow>
   most_specific svc i x (a # ps) (a # before) q after"
  by (auto simp: most_specific_def)

lemma find_loop_Some:
  "\<exists>q. find_profile_loop svc i x (Some p) (profile_specificity svc p) ps = Some q \<and>
     profile_specificity svc p \<le> profile_specificity svc q \<and>
     (q = p \<and> list_all (\<lambda>r. profile_specificity svc r < profile_specificity svc p) (filter (profile_matches svc i x) ps) \<or>
      (\<exists>before after. most_specific svc i x ps before q after))"
proof (induction ps arbitrary: p)
  case (Cons a ps)
  show ?case
  proof (cases "profile_matches svc i x a \<and> profile_specificity svc p \<le> profile_specificity svc a")
    case True
    then have step: "find_profile_loop svc i x (Some p) (profile_specificity svc p) (a # ps) =
        find_profile_loop svc i x (Some a) (profile_specificity svc a) ps" by simp
    obtain q where q: "find_profile_loop svc i x (Some a) (profile_specificity svc a) ps = Some q"
      "profile_specificity svc a \<le> profile_specificity svc q"
      and c: "q = a \<and> list_all (\<lambda>r. profile_specificity svc r < profile_specificity svc a)
            (filter (profile_matches svc i x) ps) \<or> (\<exists>before after. most_specific svc i x ps before q after)"
      using Cons.IH [of a] by blast
    have "\<exists>before after. most_specific svc i x (a # ps) before q after"
      using c
    proof
      assume "q = a \<and> list_all (\<lambda>r. profile_specificity svc r < profile_specificity svc a)
            (filter (profile_matches svc i x) ps)"
      then have "most_specific svc i x (a # ps) [] q ps" using True by (simp add: most_specific_def)
      then show ?thesis by blast
    next
      assume "\<exists>before after. most_specific svc i x ps before q after"
      then show ?thesis using most_specific_Cons q(2) by blast
    qed
    then show ?thesis using q True unfolding step by fastforce
  next
    case False
    then have step: "find_profile_loop svc i x (Some p) (profile_specificity svc p) (a # ps) =
        find_profile_loop svc i x (Some p) (profile_specificity svc p) ps" by auto
    obtain q where q: "find_profile_loop svc i x (Some p) (profile_specificity svc p) ps = Some q"
      "profile_specificity svc p \<le> profile_specificity svc q"
      and c: "q = p \<and> list_all (\<lambda>r. profile_specificity svc r < profile_specificity svc p)
            (filter (profile_matches svc i x) ps) \<or> (\<exists>before after. most_specific svc i x ps before q after)"
      using Cons.IH [of p] by blast
    have "profile_matches svc i x a \<longrightarrow> profile_specificity svc a \<le> profile_specificity svc q"
      using False q(2) by force
    then have "q = p \<and> list_all (\<lambda>r. profile_specificity svc r < profile_specificity svc p)
            (filter (profile_matches svc i x) (a # ps)) \<or> (\<exists>before after. most_specific svc i x (a # ps) before q after)"
      using c False most_specific_Cons by fastforce
    then show ?thesis using q unfolding step by blast
  qed
qed simp

lemma find_profile_cases:
  "find_application_profile svc profiles i x = None \<and> filter (profile_matches svc i x) profiles = [] \<or>
   (\<exists>p before after. find_application_profile svc profiles i x = Some p \<and>
      most_specific svc i x profiles before p after)"
proof (induction profiles)
  case Nil
  show ?case by (simp add: find_application_profile_def)
next
  case (Cons a ps)
  show ?case
  proof (cases "profile_matches svc i x a")
    case False
    then have "find_application_profile svc (a # ps) i x = find_application_profile svc ps i x"
      by (simp add: find_application_profile_def)
    then show ?thesis using Cons.IH False most_specific_Cons by fastforce
  next
    case True
    then have step: "find_application_profile svc (a # ps) i x =
        find_profile_loop svc i x (Some a) (profile_specificity svc a) ps"
      by (simp add: find_application_profile_def)
    obtain q where q: "find_profile_loop svc i x (Some a) (profile_specificity svc a) ps = Some q"
      "profile_specificity svc a \<le> profile_specificity svc q"
      and c: "q = a \<and> list_all (\<lambda>r. profile_specificity svc r < profile_specificity svc a)
            (filter (profile_matches svc i x) ps) \<or> (\<exists>before after. most_specific svc i x ps before q after)"
      using find_loop_Some [of svc i x a ps] by blast
    have "\<exists>before after. most_specific svc i x (a # ps) before q after"
      using c
    proof
      assume "q = a \<and> list_all (\<lambda>r. profile_specificity svc r < profile_specificity svc a)
            (filter (profile_matches svc i x) ps)"
      then have "most_specific svc i x (a # ps) [] q ps" using True by (simp add: most_specific_def)
      then show ?thesis by blast
    next
      assume "\<exists>before after. most_specific svc i x ps before q after"
      then show ?thesis using most_specific_Cons q(2) by blast
    qed
    then show ?thesis using q(1) unfolding step by blast
  qed
qed

lemma path_specificity:
  "process_selector_is_path (to_wide svc (pattern (profile_target p))) \<longleftrightarrow> 1000000 \<le> profile_specificity svc p"
  by (simp add: profile_specificity_def specificity_path_iff)

text \<open>Among the profiles whose selector matches a process the search returns the last one of the
  greatest specificity, and nothing only if none matches; in particular it returns a profile with a
  path selector whenever any such profile matches, wherever it stands in the list.\<close>

theorem most_specific_profile_wins:
  "case find_application_profile svc profiles i x of
     None \<Rightarrow> filter (profile_matches svc i x) profiles = []
   | Some p \<Rightarrow>
       profile_matches svc i x p \<and>
       (process_selector_is_path (to_wide svc (pattern (profile_target p))) \<longleftrightarrow>
        list_ex (\<lambda>q. process_selector_is_path (to_wide svc (pattern (profile_target q))))
          (filter (profile_matches svc i x) profiles)) \<and>
       (\<exists>before after. profiles = before @ p # after \<and>
          list_all (\<lambda>q. profile_specificity svc q \<le> profile_specificity svc p)
            (filter (profile_matches svc i x) before) \<and>
          list_all (\<lambda>q. profile_specificity svc q < profile_specificity svc p)
            (filter (profile_matches svc i x) after))"
proof (cases "find_application_profile svc profiles i x")
  case None
  then show ?thesis using find_profile_cases [of svc profiles i x] by auto
next
  case (Some p)
  obtain before after where m: "most_specific svc i x profiles before p after"
    using find_profile_cases [of svc profiles i x] Some by auto
  then have "1000000 \<le> profile_specificity svc p \<longleftrightarrow>
      list_ex (\<lambda>q. 1000000 \<le> profile_specificity svc q) (filter (profile_matches svc i x) profiles)"
    by (fastforce simp: most_specific_def list_all_iff list_ex_iff)
  then show ?thesis using m Some unfolding path_specificity most_specific_def by auto
qed

end
