(* ===== verification/ProcessTree.thy ===== *)
theory ProcessTree
  imports ProcessSelector
begin

text \<open>
  Which process tree an application's audio is captured from:
  \<open>src/mediaengine/audio/process_tree_selection.h\<close> and the decision about new sessions in
  \<open>src/mediaengine/audio/process_loopback_session_policy.h\<close>.  The parent identifiers of a process
  snapshot may be stale, dangling or cyclic, so every walk up the tree remembers what it has
  visited.  Hash sets are lists used as sets; the iteration order of the hash map whose order the
  code could observe is an argument.
\<close>

record process_tree_entry =
  processId :: u32
  parentProcessId :: u32
  executableName :: string
  executablePath :: string

record process_name_selection =
  selectedProcessId :: u32
  selectedParentProcessId :: u32
  firstMatchProcessId :: u32
  matchingProcessCount :: nat
  rootCandidateCount :: nat
  selectedTreeSize :: nat
  selectedProcessTreeSize :: nat
  excludedProcessCount :: nat
  excludedTreeOverlapCount :: nat
  unresolvedPathProcessCount :: nat
  firstUnresolvedPathProcessId :: u32

definition no_selection :: process_name_selection where
  "no_selection = \<lparr>selectedProcessId = 0, selectedParentProcessId = 0, firstMatchProcessId = 0,
     matchingProcessCount = 0, rootCandidateCount = 0, selectedTreeSize = 0, selectedProcessTreeSize = 0,
     excludedProcessCount = 0, excludedTreeOverlapCount = 0, unresolvedPathProcessCount = 0,
     firstUnresolvedPathProcessId = 0\<rparr>"

definition lower_byte :: "char \<Rightarrow> char" where
  "lower_byte c = (let n = of_char c :: nat in if 65 \<le> n \<and> n \<le> 90 then char_of (n + 32) else c)"

definition process_executable_names_equal :: "string \<Rightarrow> string \<Rightarrow> bool" where
  "process_executable_names_equal lhs rhs \<longleftrightarrow>
     length lhs = length rhs \<and> map lower_byte lhs = map lower_byte rhs"

section \<open>The steps of the selection\<close>

definition basename_selector :: "whitelist_entry \<Rightarrow> whitelist_entry" where
  "basename_selector e =
     e\<lparr>pattern := rev (takeWhile (\<lambda>c. c \<noteq> CHR 0x5C \<and> c \<noteq> CHR ''/'') (rev (pattern e)))\<rparr>"

definition name_target :: "string \<Rightarrow> whitelist_entry" where
  "name_target executable = \<lparr>pattern = executable, windowName = [], mode = MatchExact\<rparr>"

definition identity_of :: "process_tree_entry \<Rightarrow> target_identity" where
  "identity_of p = \<lparr>imageName = executableName p, imagePath = executablePath p\<rparr>"

definition matches_target :: "text_services \<Rightarrow> whitelist_entry \<Rightarrow> process_tree_entry \<Rightarrow> bool" where
  "matches_target svc target p = matches_process_target svc target (identity_of p) True"

text \<open>\<open>byProcessId\<close>: the last entry of an identifier is kept, and identifier 0 is not stored.\<close>

definition by_process_id :: "process_tree_entry list \<Rightarrow> u32 \<Rightarrow> process_tree_entry option" where
  "by_process_id ps pid = find (\<lambda>p. processId p \<noteq> 0 \<and> processId p = pid) (rev ps)"

text \<open>The loop over the exclusions for one process: whether it is excluded, and whether its path is
  unresolved.\<close>

fun scan_exclusions ::
  "text_services \<Rightarrow> whitelist_entry \<Rightarrow> process_tree_entry \<Rightarrow> bool \<Rightarrow> whitelist_entry list \<Rightarrow> bool \<times> bool" where
  "scan_exclusions svc target p unresolvedPath [] = (False, unresolvedPath)"
| "scan_exclusions svc target p unresolvedPath (exclusion # rest) =
     (if matches_process_target svc exclusion (identity_of p) False then (True, unresolvedPath)
      else if executablePath p = [] \<and> is_process_path_selector svc exclusion \<and>
              matches_process_target svc (basename_selector exclusion) (identity_of p) True
      then (True, if matches_target svc target p \<or>
                     matches_process_target svc (basename_selector target) (identity_of p) True
                  then True else unresolvedPath)
      else scan_exclusions svc target p unresolvedPath rest)"

text \<open>The first loop: the directly excluded identifiers and the counts of the result.\<close>

definition classify_process ::
  "text_services \<Rightarrow> whitelist_entry \<Rightarrow> whitelist_entry list \<Rightarrow> process_tree_entry \<Rightarrow>
   u32 list \<times> process_name_selection \<Rightarrow> u32 list \<times> process_name_selection" where
  "classify_process svc target exclusions p s =
     (let (directlyExcluded, result) = s
      in if processId p = 0 then s
         else let unresolved0 = executablePath p = [] \<and> is_process_path_selector svc target \<and>
                    matches_process_target svc (basename_selector target) (identity_of p) True;
                  (excluded, unresolvedPath) = scan_exclusions svc target p unresolved0 exclusions;
                  result = (if unresolvedPath
                    then result\<lparr>unresolvedPathProcessCount := unresolvedPathProcessCount result + 1,
                           firstUnresolvedPathProcessId :=
                             (if firstUnresolvedPathProcessId result = 0 then processId p
                              else firstUnresolvedPathProcessId result)\<rparr>
                    else result)
              in if excluded
                 then (List.insert (processId p) directlyExcluded,
                       if matches_target svc target p \<and> \<not> unresolvedPath
                       then result\<lparr>excludedProcessCount := excludedProcessCount result + 1\<rparr> else result)
                 else (directlyExcluded, result))"

section \<open>The walks up the tree\<close>

definition unvisited :: "process_tree_entry list \<Rightarrow> u32 list \<Rightarrow> nat" where
  "unvisited ps visited = card (processId ` set ps - set visited)"

lemma by_process_id_Some: "by_process_id ps pid = Some e \<Longrightarrow> e \<in> set ps \<and> processId e = pid \<and> pid \<noteq> 0"
  by (auto simp: by_process_id_def find_Some_iff) (metis nth_mem set_rev length_rev)

lemma unvisited_less:
  assumes "by_process_id ps pid = Some e" "pid \<notin> set visited"
  shows "unvisited ps (pid # visited) < unvisited ps visited"
proof -
  have "pid \<in> processId ` set ps" using by_process_id_Some [OF assms(1)] by force
  then have "processId ` set ps - set (pid # visited) \<subset> processId ` set ps - set visited"
    using assms(2) by auto
  then show ?thesis unfolding unvisited_def by (intro psubset_card_mono) auto
qed

text \<open>Marking an excluded process and everything above it.\<close>

function mark_ancestors :: "process_tree_entry list \<Rightarrow> u32 list \<Rightarrow> u32 \<Rightarrow> u32 list \<Rightarrow> u32 list" where
  "mark_ancestors ps visited currentPid marked =
     (if currentPid = 0 \<or> currentPid \<in> set visited then marked
      else case by_process_id ps currentPid of
             None \<Rightarrow> List.insert currentPid marked
           | Some e \<Rightarrow> mark_ancestors ps (currentPid # visited) (parentProcessId e)
                        (List.insert currentPid marked))"
  by pat_completeness auto
termination
  by (relation "measure (\<lambda>(ps, visited, _, _). unvisited ps visited)") (auto intro: unvisited_less)

text \<open>Whether a process above is excluded, or is a target with an excluded process below it.\<close>

function overlaps_above ::
  "text_services \<Rightarrow> whitelist_entry \<Rightarrow> process_tree_entry list \<Rightarrow> u32 list \<Rightarrow> u32 list \<Rightarrow> u32 list \<Rightarrow> u32 \<Rightarrow> bool" where
  "overlaps_above svc target ps directlyExcluded hasExcludedDescendant visited parentPid =
     (if parentPid = 0 \<or> parentPid \<in> set visited then False
      else case by_process_id ps parentPid of
             None \<Rightarrow> False
           | Some e \<Rightarrow>
               if parentPid \<in> set directlyExcluded \<or>
                  (parentPid \<in> set hasExcludedDescendant \<and> matches_target svc target e) then True
               else overlaps_above svc target ps directlyExcluded hasExcludedDescendant
                      (parentPid # visited) (parentProcessId e))"
  by pat_completeness auto
termination
  by (relation "measure (\<lambda>(_, _, ps, _, _, visited, _). unvisited ps visited)") (auto intro: unvisited_less)

text \<open>The root of an eligible process: the walk stays on eligible processes.\<close>

function climb_to_root :: "process_tree_entry list \<Rightarrow> u32 list \<Rightarrow> u32 list \<Rightarrow> u32 \<Rightarrow> u32 \<Rightarrow> u32" where
  "climb_to_root ps eligible visited rootProcessId parent =
     (if parent = 0 then rootProcessId
      else case by_process_id ps parent of
             None \<Rightarrow> rootProcessId
           | Some e \<Rightarrow>
               if processId e \<notin> set eligible \<or> parent \<in> set visited then rootProcessId
               else climb_to_root ps eligible (parent # visited) parent (parentProcessId e))"
  by pat_completeness auto
termination
  by (relation "measure (\<lambda>(ps, _, visited, _, _). unvisited ps visited)") (auto intro: unvisited_less)

text \<open>Whether a walk reaches the selected process.\<close>

function reaches_selected :: "process_tree_entry list \<Rightarrow> u32 \<Rightarrow> u32 list \<Rightarrow> u32 \<Rightarrow> bool" where
  "reaches_selected ps selectedPid visited pid =
     (if pid = 0 \<or> pid \<in> set visited then False
      else if pid = selectedPid then True
      else case by_process_id ps pid of
             None \<Rightarrow> False
           | Some e \<Rightarrow> reaches_selected ps selectedPid (pid # visited) (parentProcessId e))"
  by pat_completeness auto
termination
  by (relation "measure (\<lambda>(ps, _, visited, _). unvisited ps visited)") (auto intro: unvisited_less)

declare mark_ancestors.simps [simp del] overlaps_above.simps [simp del]
  climb_to_root.simps [simp del] reaches_selected.simps [simp del]

section \<open>The selection\<close>

text \<open>One process of the eligibility loop.\<close>

definition check_eligible ::
  "text_services \<Rightarrow> whitelist_entry \<Rightarrow> process_tree_entry list \<Rightarrow> u32 list \<Rightarrow> u32 list \<Rightarrow> process_tree_entry \<Rightarrow>
   u32 list \<times> process_name_selection \<Rightarrow> u32 list \<times> process_name_selection" where
  "check_eligible svc target ps directlyExcluded hasExcludedDescendant p s =
     (let (eligible, result) = s
      in if processId p = 0 \<or> \<not> matches_target svc target p then s
         else if processId p \<in> set directlyExcluded then s
         else if processId p \<in> set hasExcludedDescendant \<or>
                 overlaps_above svc target ps directlyExcluded hasExcludedDescendant
                   [processId p] (parentProcessId p)
         then (eligible, result\<lparr>excludedTreeOverlapCount := excludedTreeOverlapCount result + 1\<rparr>)
         else (List.insert (processId p) eligible, result))"

definition root_of :: "process_tree_entry list \<Rightarrow> u32 list \<Rightarrow> process_tree_entry \<Rightarrow> u32" where
  "root_of ps eligible p = climb_to_root ps eligible [processId p] (processId p) (parentProcessId p)"

fun increment :: "u32 \<Rightarrow> (u32 \<times> nat) list \<Rightarrow> (u32 \<times> nat) list" where
  "increment r [] = [(r, 1)]"
| "increment r ((q, n) # rest) = (if q = r then (q, n + 1) # rest else (q, n) # increment r rest)"

text \<open>One process of the loop that groups the eligible processes by root.\<close>

definition count_member ::
  "process_tree_entry list \<Rightarrow> u32 list \<Rightarrow> process_tree_entry \<Rightarrow>
   (u32 \<times> nat) list \<times> process_name_selection \<Rightarrow> (u32 \<times> nat) list \<times> process_name_selection" where
  "count_member ps eligible p s =
     (let (membersByRoot, result) = s
      in if processId p = 0 \<or> processId p \<notin> set eligible then s
         else (increment (root_of ps eligible p) membersByRoot,
               result\<lparr>firstMatchProcessId := (if firstMatchProcessId result = 0 then processId p
                                             else firstMatchProcessId result),
                      matchingProcessCount := matchingProcessCount result + 1\<rparr>))"

definition better_root :: "u32 \<times> nat \<Rightarrow> u32 \<times> nat \<Rightarrow> u32 \<times> nat" where
  "better_root best entry =
     (let (selectedPid, largestTreeSize) = best; (rootPid, treeSize) = entry
      in if treeSize > largestTreeSize \<or> (treeSize = largestTreeSize \<and> rootPid < selectedPid)
         then (rootPid, treeSize) else best)"

definition choose_root :: "(u32 \<times> nat) list \<Rightarrow> (u32 \<times> nat) list \<Rightarrow> u32 \<Rightarrow> u32 \<times> nat" where
  "choose_root iteration membersByRoot activeRoot =
     (let best = foldl better_root (0, 0) iteration
      in case map_of membersByRoot activeRoot of None \<Rightarrow> best | Some n \<Rightarrow> (activeRoot, n))"

definition select_process_tree_root ::
  "text_services \<Rightarrow> ((u32 \<times> nat) list \<Rightarrow> (u32 \<times> nat) list) \<Rightarrow> process_tree_entry list \<Rightarrow> string \<Rightarrow>
   whitelist_entry list \<Rightarrow> u32 \<Rightarrow> process_name_selection" where
  "select_process_tree_root svc order ps executable exclusions activeRoot =
     (if executable = [] then no_selection
      else let target = name_target executable;
               (directlyExcluded, result) = fold (classify_process svc target exclusions) ps ([], no_selection);
               hasExcludedDescendant = fold (mark_ancestors ps []) directlyExcluded [];
               (eligible, result) =
                 fold (check_eligible svc target ps directlyExcluded hasExcludedDescendant) ps ([], result);
               (membersByRoot, result) = fold (count_member ps eligible) ps ([], result);
               (selectedPid, largestTreeSize) = choose_root (order membersByRoot) membersByRoot activeRoot
           in result\<lparr>rootCandidateCount := length membersByRoot,
                selectedProcessId := selectedPid, selectedTreeSize := largestTreeSize,
                selectedParentProcessId := (case by_process_id ps selectedPid of
                    None \<Rightarrow> selectedParentProcessId result | Some e \<Rightarrow> parentProcessId e),
                selectedProcessTreeSize :=
                  length (filter (\<lambda>p. reaches_selected ps selectedPid [] (processId p)) ps)\<rparr>)"

section \<open>Sessions\<close>

text \<open>\<open>ProcessBelongsToTree\<close>: at most one step per process and one more.\<close>

fun belongs_loop :: "process_tree_entry list \<Rightarrow> u32 \<Rightarrow> nat \<Rightarrow> u32 \<Rightarrow> bool" where
  "belongs_loop ps root 0 current = False"
| "belongs_loop ps root (Suc n) current =
     (if current = 0 then False
      else if current = root then True
      else case find (\<lambda>p. processId p = current) ps of
             None \<Rightarrow> False
           | Some p \<Rightarrow> belongs_loop ps root n (parentProcessId p))"

definition process_belongs_to_tree :: "process_tree_entry list \<Rightarrow> u32 \<Rightarrow> u32 \<Rightarrow> bool" where
  "process_belongs_to_tree ps pid root \<longleftrightarrow>
     (if pid = 0 \<or> root = 0 then False else belongs_loop ps root (length ps + 1) pid)"

definition should_recycle_capture ::
  "process_tree_entry list \<Rightarrow> bool \<Rightarrow> bool \<Rightarrow> u32 \<Rightarrow> u32 \<Rightarrow> u64 \<Rightarrow> u64 \<Rightarrow> bool" where
  "should_recycle_capture ps activationQualified hadObservedTargetSession activeRoot sessionPid
     activationGeneration notificationGeneration \<longleftrightarrow>
     notificationGeneration > activationGeneration \<and> process_belongs_to_tree ps sessionPid activeRoot \<and>
     (\<not> activationQualified \<or> \<not> hadObservedTargetSession)"

record session_creation =
  creation_processId :: u32
  creation_generation :: u64

record capture_session_binding =
  binding_processId :: u32
  binding_generation :: u64
  binding_qualified :: bool
  observedTargetSession :: bool

datatype session_activity_action = Continue | RebindSession | ReselectProcess

record session_activity_decision =
  action :: session_activity_action
  sessionProcessId :: u32
  selection :: process_name_selection

definition resolve_session_activity ::
  "text_services \<Rightarrow> ((u32 \<times> nat) list \<Rightarrow> (u32 \<times> nat) list) \<Rightarrow> process_tree_entry list \<Rightarrow> session_creation list \<Rightarrow>
   string \<Rightarrow> whitelist_entry list \<Rightarrow> capture_session_binding \<Rightarrow> session_activity_decision" where
  "resolve_session_activity svc order ps creations selector exclusions binding =
     (let default = \<lparr>action = Continue, sessionProcessId = 0, selection = no_selection\<rparr>
      in if creations = [] then default
         else let rootObserved = list_ex (\<lambda>p. processId p = binding_processId binding) ps;
                  sel = select_process_tree_root svc order ps selector exclusions (binding_processId binding)
              in if selector \<noteq> [] \<and> exclusions \<noteq> [] \<and> binding_processId binding \<noteq> 0 \<and> rootObserved \<and>
                    selectedProcessId sel \<noteq> binding_processId binding
                 then \<lparr>action = ReselectProcess, sessionProcessId = 0, selection = sel\<rparr>
                 else case find (\<lambda>c. should_recycle_capture ps (binding_qualified binding) (observedTargetSession binding)
                          (binding_processId binding) (creation_processId c) (binding_generation binding)
                          (creation_generation c)) creations of
                        None \<Rightarrow> default
                      | Some c \<Rightarrow> \<lparr>action = RebindSession, sessionProcessId = creation_processId c,
                                   selection = no_selection\<rparr>)"

section \<open>The tree above a process\<close>

text \<open>Climbing from a process to another without meeting \<open>V\<close>.\<close>

inductive climbs :: "process_tree_entry list \<Rightarrow> u32 set \<Rightarrow> u32 \<Rightarrow> u32 \<Rightarrow> bool" for ps V where
  here: "p \<noteq> 0 \<Longrightarrow> p \<notin> V \<Longrightarrow> climbs ps V p p"
| up: "p \<noteq> 0 \<Longrightarrow> p \<notin> V \<Longrightarrow> by_process_id ps p = Some e \<Longrightarrow> climbs ps V (parentProcessId e) q \<Longrightarrow> climbs ps V p q"

inductive_cases climbsE: "climbs ps V p q"

lemma climbs_start: "climbs ps V p q \<Longrightarrow> p \<noteq> 0 \<and> p \<notin> V"
  by (erule climbsE) auto

lemma climbs_end: "climbs ps V p q \<Longrightarrow> q \<noteq> 0 \<and> q \<notin> V"
  by (induction rule: climbs.induct) auto

lemma climbs_None: "p \<noteq> 0 \<Longrightarrow> p \<notin> V \<Longrightarrow> by_process_id ps p = None \<Longrightarrow> climbs ps V p q \<longleftrightarrow> q = p"
  by (subst climbs.simps) auto

lemma climbs_mono: "climbs ps W p q \<Longrightarrow> V \<subseteq> W \<Longrightarrow> climbs ps V p q"
  by (induction rule: climbs.induct) (auto intro: climbs.intros)

text \<open>A walk that comes back to a process can be cut short there.\<close>

lemma climbs_avoid:
  assumes "climbs ps V r q" "by_process_id ps p = Some e"
  shows "climbs ps (insert p V) r q \<or> q = p \<or> climbs ps (insert p V) (parentProcessId e) q"
  using assms
proof (induction rule: climbs.induct)
  case (here r)
  then show ?case by (cases "r = p") (auto intro: climbs.here)
next
  case (up r e' q)
  then show ?case by (cases "r = p") (auto intro: climbs.up)
qed

lemma climbs_Some:
  assumes "p \<noteq> 0" "p \<notin> V" "by_process_id ps p = Some e"
  shows "climbs ps V p q \<longleftrightarrow> q = p \<or> climbs ps (insert p V) (parentProcessId e) q"
proof
  assume "climbs ps V p q"
  then show "q = p \<or> climbs ps (insert p V) (parentProcessId e) q"
    using climbs_avoid [OF _ assms(3)] climbs_start by blast
next
  assume "q = p \<or> climbs ps (insert p V) (parentProcessId e) q"
  then show "climbs ps V p q"
    using assms climbs_mono [of ps "insert p V" _ q V] by (auto intro: climbs.intros)
qed

lemma climbs_blocked: "p = 0 \<or> p \<in> V \<Longrightarrow> \<not> climbs ps V p q"
  using climbs_start by blast

lemma mark_ancestors_set:
  "set (mark_ancestors ps visited pid marked) = set marked \<union> {q. climbs ps (set visited) pid q}"
proof (induction ps visited pid marked rule: mark_ancestors.induct)
  case (1 ps visited pid marked)
  show ?case
  proof (cases "pid = 0 \<or> pid \<in> set visited")
    case True
    then show ?thesis by (simp add: mark_ancestors.simps [of ps visited pid] climbs_blocked)
  next
    case False
    show ?thesis
    proof (cases "by_process_id ps pid")
      case None
      then show ?thesis using False by (auto simp: mark_ancestors.simps [of ps visited pid] climbs_None)
    next
      case (Some e)
      then show ?thesis using False 1 [OF False Some]
        by (auto simp: mark_ancestors.simps [of ps visited pid] climbs_Some)
    qed
  qed
qed

lemma overlaps_above_iff:
  "overlaps_above svc target ps excl marks visited pid \<longleftrightarrow>
   (\<exists>q e. climbs ps (set visited) pid q \<and> by_process_id ps q = Some e \<and>
      (q \<in> set excl \<or> q \<in> set marks \<and> matches_target svc target e))"
proof (induction svc target ps excl marks visited pid rule: overlaps_above.induct)
  case (1 svc target ps excl marks visited pid)
  note unfold = overlaps_above.simps [of svc target ps excl marks visited pid]
  show ?case
  proof (cases "pid = 0 \<or> pid \<in> set visited")
    case True
    then show ?thesis by (auto simp: unfold climbs_blocked)
  next
    case False
    show ?thesis
    proof (cases "by_process_id ps pid")
      case None
      then show ?thesis using False by (auto simp: unfold climbs_None)
    next
      case (Some e)
      show ?thesis
      proof (cases "pid \<in> set excl \<or> (pid \<in> set marks \<and> matches_target svc target e)")
        case True
        then show ?thesis using False Some by (auto simp: unfold climbs_Some)
      next
        case no: False
        show ?thesis using False Some no 1 [OF False Some no]
          by (auto simp: unfold climbs_Some)
      qed
    qed
  qed
qed

lemma reaches_selected_iff:
  "reaches_selected ps root visited pid \<longleftrightarrow> climbs ps (set visited) pid root"
proof (induction ps root visited pid rule: reaches_selected.induct)
  case (1 ps root visited pid)
  note unfold = reaches_selected.simps [of ps root visited pid]
  show ?case
  proof (cases "pid = 0 \<or> pid \<in> set visited")
    case True
    then show ?thesis by (auto simp: unfold climbs_blocked)
  next
    case False
    then show ?thesis
    proof (cases "pid = root")
      case True
      then show ?thesis using False by (subst reaches_selected.simps) (auto intro: climbs.here)
    next
      case other: False
      show ?thesis
      proof (cases "by_process_id ps pid")
        case None
        then show ?thesis using False other by (auto simp: unfold climbs_None)
      next
        case (Some e)
        show ?thesis using False other Some 1 [OF False other Some] by (auto simp: unfold climbs_Some)
      qed
    qed
  qed
qed

lemma climb_to_root_eligible:
  "root \<in> set eligible \<Longrightarrow> climb_to_root ps eligible visited root parent \<in> set eligible"
proof (induction ps eligible visited root parent rule: climb_to_root.induct)
  case (1 ps eligible visited root parent)
  show ?case
  proof (cases "by_process_id ps parent")
    case None
    then show ?thesis using "1.prems" by (simp add: climb_to_root.simps [of ps eligible visited root parent])
  next
    case (Some e)
    show ?thesis
      using "1.prems" "1.IH" [OF _ Some] by_process_id_Some [OF Some]
      by (simp add: Some climb_to_root.simps [of ps eligible visited root parent])
  qed
qed

lemma climbs_step:
  assumes "climbs ps {} p r" "by_process_id ps r = Some e" "parentProcessId e \<noteq> 0"
  shows "climbs ps {} p (parentProcessId e)"
  using assms by (induction rule: climbs.induct) (auto intro: climbs.intros)

lemma climb_to_root_climbs:
  "climbs ps {} p root \<Longrightarrow> by_process_id ps root = Some e0 \<Longrightarrow> parent = parentProcessId e0 \<Longrightarrow>
   climbs ps {} p (climb_to_root ps eligible visited root parent)"
proof (induction ps eligible visited root parent arbitrary: e0 rule: climb_to_root.induct)
  case (1 ps eligible visited root parent)
  show ?case
  proof (cases "parent \<noteq> 0 \<and> by_process_id ps parent \<noteq> None")
    case False
    then show ?thesis using "1.prems"(1) by (subst climb_to_root.simps) auto
  next
    case True
    then obtain e where e: "by_process_id ps parent = Some e" and "parent \<noteq> 0" by blast
    moreover have "climbs ps {} p parent" using climbs_step [OF "1.prems"(1,2)] "1.prems"(3) True by simp
    ultimately show ?thesis
      using "1.prems"(1) "1.IH" [OF _ e _ _ e refl] by (subst climb_to_root.simps) simp
  qed
qed

text \<open>With distinct identifiers the first and the last entry of an identifier are the same.\<close>

definition distinct_ids :: "process_tree_entry list \<Rightarrow> bool" where
  "distinct_ids ps \<longleftrightarrow> distinct (filter (\<lambda>i. i \<noteq> 0) (map processId ps))"

lemma distinct_ids_inj:
  "distinct_ids ps \<Longrightarrow> p \<in> set ps \<Longrightarrow> q \<in> set ps \<Longrightarrow> processId p = processId q \<Longrightarrow> processId p \<noteq> 0 \<Longrightarrow> p = q"
  by (induction ps) (auto simp: distinct_ids_def image_def split: if_splits)

lemma by_process_id_entry:
  assumes "distinct_ids ps" "p \<in> set ps" "processId p \<noteq> 0"
  shows "by_process_id ps (processId p) = Some p"
proof (cases "by_process_id ps (processId p)")
  case None
  then show ?thesis using assms(2,3) by (auto simp: by_process_id_def find_None_iff)
next
  case (Some e)
  then show ?thesis using by_process_id_Some [OF Some] distinct_ids_inj [OF assms(1)] assms(2,3) by metis
qed

lemma find_by_process_id:
  assumes "distinct_ids ps" "pid \<noteq> 0"
  shows "find (\<lambda>p. processId p = pid) ps = by_process_id ps pid"
proof (cases "find (\<lambda>p. processId p = pid) ps")
  case None
  then have "by_process_id ps pid = None" by (auto simp: by_process_id_def find_None_iff)
  then show ?thesis using None by simp
next
  case (Some p)
  then have "p \<in> set ps" "processId p = pid" by (auto simp: find_Some_iff)
  then show ?thesis using by_process_id_entry [OF assms(1)] assms(2) Some by metis
qed

section \<open>The bounded walk\<close>

lemma belongs_loop_mono: "belongs_loop ps root n c \<Longrightarrow> n \<le> m \<Longrightarrow> belongs_loop ps root m c"
proof (induction ps root n c arbitrary: m rule: belongs_loop.induct)
  case (2 ps root n c)
  then obtain k where "m = Suc k" "n \<le> k" by (cases m) auto
  then show ?case using 2 by (auto split: option.splits if_splits)
qed simp

lemma belongs_loop_climbs:
  assumes "distinct_ids ps"
  shows "belongs_loop ps root n c \<Longrightarrow> climbs ps {} c root"
proof (induction n arbitrary: c)
  case (Suc n)
  then have "c \<noteq> 0" by (simp split: if_splits)
  with Suc show ?case
    by (auto simp: find_by_process_id [OF assms] split: if_splits option.splits intro: climbs.intros)
qed simp

lemma reaches_belongs_loop:
  assumes "distinct_ids ps"
  shows "reaches_selected ps root visited c \<Longrightarrow> belongs_loop ps root (Suc (unvisited ps visited)) c"
  using assms
proof (induction ps root visited c rule: reaches_selected.induct)
  case (1 ps root visited c)
  have c: "c \<noteq> 0" "c \<notin> set visited"
    using "1.prems"(1) by (simp_all add: reaches_selected.simps [of ps root visited c] split: if_splits)
  show ?case
  proof (cases "c = root")
    case False
    then obtain e where e: "by_process_id ps c = Some e"
      and r: "reaches_selected ps root (c # visited) (parentProcessId e)"
      using "1.prems"(1) c by (auto simp: reaches_selected.simps [of ps root visited c] split: option.splits)
    have "belongs_loop ps root (Suc (unvisited ps (c # visited))) (parentProcessId e)"
      using "1.IH" [OF _ False e r "1.prems"(2)] c by simp
    then have "belongs_loop ps root (unvisited ps visited) (parentProcessId e)"
      by (rule belongs_loop_mono) (use unvisited_less [OF e c(2)] in simp)
    then show ?thesis using c False e by (simp add: find_by_process_id [OF "1.prems"(2)])
  qed (use c in simp)
qed

lemma belongs_iff_climbs:
  assumes "distinct_ids ps"
  shows "process_belongs_to_tree ps p root \<longleftrightarrow> climbs ps {} p root"
proof
  assume "process_belongs_to_tree ps p root"
  then have "belongs_loop ps root (length ps + 1) p"
    unfolding process_belongs_to_tree_def by (simp only: split: if_splits)
  then show "climbs ps {} p root" by (rule belongs_loop_climbs [OF assms])
next
  assume c: "climbs ps {} p root"
  then have "belongs_loop ps root (Suc (unvisited ps [])) p"
    by (intro reaches_belongs_loop [OF assms]) (simp add: reaches_selected_iff)
  moreover have "Suc (unvisited ps []) \<le> Suc (length ps)"
    using card_length [of "map processId ps"] by (simp add: unvisited_def)
  ultimately have "belongs_loop ps root (Suc (length ps)) p" by (rule belongs_loop_mono)
  then show "process_belongs_to_tree ps p root"
    using climbs_start [OF c] climbs_end [OF c] by (simp add: process_belongs_to_tree_def)
qed

definition parent_link :: "process_tree_entry list \<Rightarrow> u32 \<Rightarrow> u32 \<Rightarrow> bool" where
  "parent_link ps p q \<longleftrightarrow> q \<noteq> 0 \<and> (\<exists>e\<in>set ps. processId e = p \<and> p \<noteq> 0 \<and> parentProcessId e = q)"

lemma climbs_rtranclp:
  assumes "distinct_ids ps"
  shows "climbs ps {} p q \<longleftrightarrow> p \<noteq> 0 \<and> (parent_link ps)\<^sup>*\<^sup>* p q"
proof
  assume "climbs ps {} p q"
  then show "p \<noteq> 0 \<and> (parent_link ps)\<^sup>*\<^sup>* p q"
  proof (induction rule: climbs.induct)
    case (up p e q)
    then have "parent_link ps p (parentProcessId e)"
      using by_process_id_Some [OF up(3)] climbs_start [OF up(4)] by (auto simp: parent_link_def)
    then show ?case using up by (auto intro: converse_rtranclp_into_rtranclp)
  qed simp
next
  assume a: "p \<noteq> 0 \<and> (parent_link ps)\<^sup>*\<^sup>* p q"
  then have "(parent_link ps)\<^sup>*\<^sup>* p q" ..
  then show "climbs ps {} p q"
    using a
  proof (induction rule: converse_rtranclp_induct)
    case base
    then show ?case by (auto intro: climbs.here)
  next
    case (step y z)
    from step.hyps(1) obtain e where e: "e \<in> set ps" "processId e = y" "y \<noteq> 0" "parentProcessId e = z" "z \<noteq> 0"
      by (auto simp: parent_link_def)
    have "by_process_id ps y = Some e" using by_process_id_entry [OF assms e(1)] e by simp
    then show ?case using step e by (auto intro: climbs.up)
  qed
qed

text \<open>In a snapshot with distinct process identifiers, whatever its parent links (cycles and
  dangling parents included), the allocation-free bounded walk and the walk with a visited set both
  decide exactly whether one process descends from another; and the size of the selected tree is the
  number of processes the bounded walk accepts.\<close>

theorem bounded_walk_decides_descent:
  assumes "distinct_ids ps"
  shows "(process_belongs_to_tree ps p root \<longleftrightarrow> p \<noteq> 0 \<and> root \<noteq> 0 \<and> (parent_link ps)\<^sup>*\<^sup>* p root) \<and>
    (reaches_selected ps root [] p \<longleftrightarrow> process_belongs_to_tree ps p root) \<and>
    (let r = select_process_tree_root svc order ps executable exclusions active
     in selectedProcessTreeSize r =
        length (filter (\<lambda>q. process_belongs_to_tree ps (processId q) (selectedProcessId r)) ps))"
proof -
  have eq: "reaches_selected ps root [] p \<longleftrightarrow> process_belongs_to_tree ps p root" for p root
    by (simp add: reaches_selected_iff belongs_iff_climbs [OF assms])
  moreover have "climbs ps {} p root \<longleftrightarrow> p \<noteq> 0 \<and> root \<noteq> 0 \<and> (parent_link ps)\<^sup>*\<^sup>* p root"
    using climbs_rtranclp [OF assms, of p root] climbs_end [of ps "{}" p root] by auto
  moreover have "selectedProcessTreeSize (select_process_tree_root svc order ps executable exclusions active) =
      length (filter (\<lambda>q. process_belongs_to_tree ps (processId q)
        (selectedProcessId (select_process_tree_root svc order ps executable exclusions active))) ps)"
    by (cases "executable = []")
      (simp_all add: select_process_tree_root_def no_selection_def process_belongs_to_tree_def [of ps _ 0]
        Let_def eq split: prod.split)
  ultimately show ?thesis by (simp add: belongs_iff_climbs [OF assms] Let_def)
qed

section \<open>What the loops compute\<close>

text \<open>An exclusion owns a process: it matches it, or it could, the path of the process being unknown.\<close>

definition owns :: "text_services \<Rightarrow> process_tree_entry \<Rightarrow> whitelist_entry \<Rightarrow> bool" where
  "owns svc p e \<longleftrightarrow> matches_process_target svc e (identity_of p) False \<or>
     executablePath p = [] \<and> is_process_path_selector svc e \<and>
     matches_process_target svc (basename_selector e) (identity_of p) True"

definition excluded_process :: "text_services \<Rightarrow> whitelist_entry list \<Rightarrow> process_tree_entry \<Rightarrow> bool" where
  "excluded_process svc exclusions p \<longleftrightarrow> processId p \<noteq> 0 \<and> list_ex (owns svc p) exclusions"

lemma scan_exclusions_fst: "fst (scan_exclusions svc target p u es) \<longleftrightarrow> list_ex (owns svc p) es"
  by (induction svc target p u es rule: scan_exclusions.induct) (auto simp: owns_def)

lemma classify_excluded:
  "set (fst (fold (classify_process svc target es) qs s)) =
   set (fst s) \<union> {processId p | p. p \<in> set qs \<and> excluded_process svc es p}"
proof (induction qs arbitrary: s)
  case (Cons q qs)
  let ?scan = "scan_exclusions svc target q (executablePath q = [] \<and> is_process_path_selector svc target \<and>
    matches_process_target svc (basename_selector target) (identity_of q) True) es"
  obtain d r where s: "s = (d, r)" by force
  obtain x u where scan: "?scan = (x, u)" by force
  then have x: "x \<longleftrightarrow> list_ex (owns svc q) es" using scan_exclusions_fst by (metis fst_conv)
  have "set (fst (classify_process svc target es q s)) =
      set (fst s) \<union> (if excluded_process svc es q then {processId q} else {})"
    unfolding classify_process_def s prod.case Let_def scan excluded_process_def x [symmetric]
    by simp
  then show ?case using Cons.IH [of "classify_process svc target es q s"] by auto
qed simp

lemma mark_all_set:
  "set (fold (mark_ancestors ps []) pids marks) = set marks \<union> {q. \<exists>p\<in>set pids. climbs ps {} p q}"
  by (induction pids arbitrary: marks) (auto simp: mark_ancestors_set)

lemma eligible_set:
  "set (fst (fold (check_eligible svc target ps excl marks) qs s)) =
   set (fst s) \<union> {processId p | p. p \<in> set qs \<and> processId p \<noteq> 0 \<and> matches_target svc target p \<and>
      processId p \<notin> set excl \<and> processId p \<notin> set marks \<and>
      \<not> overlaps_above svc target ps excl marks [processId p] (parentProcessId p)}"
proof (induction qs arbitrary: s)
  case (Cons q qs)
  show ?case
    unfolding fold_Cons comp_apply Cons.IH
    by (cases s) (auto simp: check_eligible_def)
qed simp

text \<open>The identifiers the eligibility loop accepts.\<close>

definition eligible_ids ::
  "text_services \<Rightarrow> process_tree_entry list \<Rightarrow> string \<Rightarrow> whitelist_entry list \<Rightarrow> u32 list" where
  "eligible_ids svc ps executable exclusions =
     (let target = name_target executable;
          (directlyExcluded, result) = fold (classify_process svc target exclusions) ps ([], no_selection);
          marks = fold (mark_ancestors ps []) directlyExcluded []
      in fst (fold (check_eligible svc target ps directlyExcluded marks) ps ([], result)))"

definition member_roots ::
  "text_services \<Rightarrow> process_tree_entry list \<Rightarrow> string \<Rightarrow> whitelist_entry list \<Rightarrow> u32 list" where
  "member_roots svc ps executable exclusions =
     (let eligible = eligible_ids svc ps executable exclusions
      in map (root_of ps eligible) (filter (\<lambda>p. processId p \<in> set eligible) ps))"

lemma eligible_nonzero: "0 \<notin> set (eligible_ids svc ps executable exclusions)"
  by (auto simp: eligible_ids_def eligible_set Let_def split: prod.split)

lemma eligible_disjoint:
  assumes "distinct_ids ps" "s \<in> set (eligible_ids svc ps executable exclusions)"
    "e \<in> set ps" "excluded_process svc exclusions e"
  shows "\<not> climbs ps {} (processId e) s" "\<not> climbs ps {} s (processId e)"
proof -
  obtain excl r where cl: "fold (classify_process svc (name_target executable) exclusions) ps ([], no_selection) = (excl, r)"
    by force
  let ?marks = "fold (mark_ancestors ps []) excl []"
  have excl: "set excl = {processId p | p. p \<in> set ps \<and> excluded_process svc exclusions p}"
    using classify_excluded [of svc "name_target executable" exclusions ps "([], no_selection)"] by (simp add: cl)
  obtain p where p: "p \<in> set ps" "s = processId p" "processId p \<noteq> 0" "s \<notin> set excl" "s \<notin> set ?marks"
    and above: "\<not> overlaps_above svc (name_target executable) ps excl ?marks [s] (parentProcessId p)"
    using assms(2) by (auto simp: eligible_ids_def cl Let_def eligible_set)
  have e: "processId e \<in> set excl" using assms(3,4) by (auto simp: excl)
  then show "\<not> climbs ps {} (processId e) s" using p(5) by (auto simp: mark_all_set)
  have be: "by_process_id ps (processId e) = Some e"
    using assms(1,3,4) by (intro by_process_id_entry) (auto simp: excluded_process_def)
  have bp: "by_process_id ps s = Some p" unfolding p(2) using assms(1) p by (intro by_process_id_entry) auto
  show "\<not> climbs ps {} s (processId e)"
  proof
    assume "climbs ps {} s (processId e)"
    then have "processId e = s \<or> climbs ps {s} (parentProcessId p) (processId e)"
      using climbs_Some [OF _ _ bp, of "{}"] p by simp
    then have "climbs ps (set [s]) (parentProcessId p) (processId e)" using e p(4) by auto
    then show False using above e be unfolding overlaps_above_iff by blast
  qed
qed

lemma root_of_eligible:
  assumes "processId p \<in> set eligible"
  shows "root_of ps eligible p \<in> set eligible"
  unfolding root_of_def using assms by (rule climb_to_root_eligible)

lemma root_of_climbs:
  assumes "distinct_ids ps" "p \<in> set ps" "processId p \<noteq> 0"
  shows "climbs ps {} (processId p) (root_of ps eligible p)"
  unfolding root_of_def using by_process_id_entry [OF assms] assms(3)
  by (intro climb_to_root_climbs) (auto intro: climbs.here)

section \<open>Grouping and choosing\<close>

lemma increment_map: "map_of (increment r xs) = (map_of xs)(r \<mapsto> (case map_of xs r of None \<Rightarrow> 1 | Some n \<Rightarrow> n + 1))"
  by (induction r xs rule: increment.induct) (auto split: option.split)

lemma increment_keys: "map fst (increment r xs) = (if r \<in> fst ` set xs then map fst xs else map fst xs @ [r])"
  by (induction r xs rule: increment.induct) auto

lemma increment_distinct: "distinct (map fst xs) \<Longrightarrow> distinct (map fst (increment r xs))"
  by (auto simp: increment_keys)

lemma fold_increment_distinct: "distinct (map fst xs) \<Longrightarrow> distinct (map fst (fold increment rs xs))"
  by (induction rs arbitrary: xs) (simp_all add: increment_distinct)

lemma fold_increment_map:
  "map_of (fold increment rs xs) r = (case map_of xs r of
     None \<Rightarrow> if count_list rs r = 0 then None else Some (count_list rs r)
   | Some n \<Rightarrow> Some (n + count_list rs r))"
  by (induction rs arbitrary: xs) (auto simp: increment_map split: option.splits)

definition grouped :: "u32 list \<Rightarrow> (u32 \<times> nat) list" where
  "grouped rs = fold increment rs []"

lemma grouped_map: "map_of (grouped rs) r = (if r \<in> set rs then Some (count_list rs r) else None)"
  by (auto simp: grouped_def fold_increment_map count_list_0_iff)

lemma grouped_set: "set (grouped rs) = (\<lambda>r. (r, count_list rs r)) ` set rs"
proof -
  have d: "distinct (map fst (grouped rs))" by (simp add: grouped_def fold_increment_distinct)
  have "(r, n) \<in> set (grouped rs) \<longleftrightarrow> r \<in> set rs \<and> n = count_list rs r" for r n
    using map_of_eq_Some_iff [OF d, of r n] by (auto simp: grouped_map split: if_splits)
  then show ?thesis by auto
qed

lemma grouped_length: "length (grouped rs) = card (set rs)"
proof -
  have "distinct (grouped rs)"
    using fold_increment_distinct [of "[]" rs] distinct_map by (auto simp: grouped_def)
  then have "length (grouped rs) = card (set (grouped rs))" by (simp add: distinct_card)
  also have "... = card (set rs)" unfolding grouped_set by (intro card_image inj_onI) auto
  finally show ?thesis .
qed

text \<open>The order in which roots are preferred: more members first, then the smaller identifier.\<close>

definition no_worse :: "u32 \<times> nat \<Rightarrow> u32 \<times> nat \<Rightarrow> bool" where
  "no_worse a b \<longleftrightarrow> snd b < snd a \<or> snd b = snd a \<and> fst a \<le> fst b"

lemma no_worse_order: "no_worse a a" "no_worse a b \<Longrightarrow> no_worse b c \<Longrightarrow> no_worse a c"
  "no_worse a b \<Longrightarrow> no_worse b a \<Longrightarrow> a = b"
  by (auto simp: no_worse_def prod_eq_iff)

lemma better_root_no_worse: "no_worse (better_root b e) b" "no_worse (better_root b e) e"
    "better_root b e \<in> {b, e}"
  by (auto simp: better_root_def no_worse_def split: prod.splits)

lemma best_root:
  "foldl better_root b es \<in> insert b (set es) \<and> list_all (no_worse (foldl better_root b es)) (b # es)"
proof (induction es arbitrary: b)
  case (Cons e es)
  let ?c = "better_root b e"
  have IH: "foldl better_root ?c es \<in> insert ?c (set es)" "list_all (no_worse (foldl better_root ?c es)) (?c # es)"
    using Cons.IH [of ?c] by auto
  have c: "no_worse (foldl better_root ?c es) ?c" using IH(2) by simp
  have "no_worse (foldl better_root ?c es) b" "no_worse (foldl better_root ?c es) e"
    by (rule no_worse_order(2) [OF c], rule better_root_no_worse)+
  then show ?case using IH better_root_no_worse(3) [of b e] by auto
qed (simp add: no_worse_order)

lemma best_root_member:
  assumes "set es = (\<lambda>r. (r, count_list rs r)) ` set rs" "rs \<noteq> []"
  shows "\<exists>r\<in>set rs. foldl better_root (0, 0) es = (r, count_list rs r) \<and>
    list_all (\<lambda>q. no_worse (r, count_list rs r) (q, count_list rs q)) rs"
proof -
  let ?best = "foldl better_root (0, 0) es"
  have pos: "0 < count_list rs r" if "r \<in> set rs" for r
    using that count_list_0_iff [of rs r] by (cases "count_list rs r") simp_all
  have all: "no_worse ?best (q, count_list rs q)" if "q \<in> set rs" for q
    using best_root [of "(0, 0)" es] that assms(1) by (auto simp: list_all_iff)
  have "?best \<noteq> (0, 0)" using all [of "hd rs"] pos [of "hd rs"] assms(2) by (auto simp: no_worse_def)
  then have "?best \<in> set es" using best_root [of "(0, 0)" es] by auto
  then obtain r where "r \<in> set rs" "?best = (r, count_list rs r)" using assms(1) by auto
  then show ?thesis using all by (auto simp: list_all_iff)
qed

section \<open>The result of the selection\<close>

lemma fst_fold_count_member:
  "0 \<notin> set eligible \<Longrightarrow> fst (fold (count_member ps eligible) qs s) =
     fold increment (map (root_of ps eligible) (filter (\<lambda>p. processId p \<in> set eligible) qs)) (fst s)"
  by (induction qs arbitrary: s) (auto simp: count_member_def Let_def split: prod.splits)

lemma snd_fold_count_member:
  "0 \<notin> set eligible \<Longrightarrow> matchingProcessCount (snd (fold (count_member ps eligible) qs s)) =
     matchingProcessCount (snd s) + length (filter (\<lambda>p. processId p \<in> set eligible) qs)"
  by (induction qs arbitrary: s) (auto simp: count_member_def Let_def split: prod.splits)

lemma classify_matching: "matchingProcessCount (snd (fold (classify_process svc target es) qs s)) = matchingProcessCount (snd s)"
  by (induction qs arbitrary: s) (auto simp: classify_process_def Let_def split: prod.splits if_splits)

lemma check_matching: "matchingProcessCount (snd (fold (check_eligible svc target ps excl marks) qs s)) = matchingProcessCount (snd s)"
  by (induction qs arbitrary: s) (auto simp: check_eligible_def Let_def split: prod.splits if_splits)

lemma selection_unfold:
  fixes svc :: text_services and ps :: "process_tree_entry list" and exclusions :: "whitelist_entry list"
  assumes "executable \<noteq> []"
  defines "rs \<equiv> member_roots svc ps executable exclusions"
  shows "let r = select_process_tree_root svc order ps executable exclusions active;
             choice = choose_root (order (grouped rs)) (grouped rs) active
    in selectedProcessId r = fst choice \<and> selectedTreeSize r = snd choice \<and>
       rootCandidateCount r = card (set rs) \<and> matchingProcessCount r = length rs"
proof -
  obtain excl r where cl: "fold (classify_process svc (name_target executable) exclusions) ps ([], no_selection) = (excl, r)"
    by force
  let ?marks = "fold (mark_ancestors ps []) excl []"
  obtain el r' where ce: "fold (check_eligible svc (name_target executable) ps excl ?marks) ps ([], r) = (el, r')"
    by force
  obtain ms r'' where cm: "fold (count_member ps el) ps ([], r') = (ms, r'')" by force
  have el: "eligible_ids svc ps executable exclusions = el" by (simp add: eligible_ids_def cl ce)
  have z: "0 \<notin> set el" using eligible_nonzero [of svc ps executable exclusions] by (simp add: el)
  have ms: "ms = grouped rs"
    using fst_fold_count_member [OF z, of ps ps "([], r')"] by (simp add: cm grouped_def rs_def member_roots_def el)
  have "matchingProcessCount r'' = length rs"
    using snd_fold_count_member [OF z, of ps ps "([], r')"]
      classify_matching [of svc "name_target executable" exclusions ps "([], no_selection)"]
      check_matching [of svc "name_target executable" ps excl ?marks ps "([], r)"]
    by (simp add: cm cl ce rs_def member_roots_def el) (simp add: no_selection_def)
  then show ?thesis
    using assms(1) unfolding select_process_tree_root_def
    by (simp add: cl ce cm ms grouped_length Let_def split: prod.split)
qed

lemma choose_root_eq:
  "choose_root iteration (grouped rs) active =
     (if active \<in> set rs then (active, count_list rs active) else foldl better_root (0, 0) iteration)"
  by (simp add: choose_root_def grouped_map)

lemma choose_root_best:
  assumes "set es = set (grouped rs)"
  shows "rs = [] \<Longrightarrow> foldl better_root (0, 0) es = (0, 0)"
    and "rs \<noteq> [] \<Longrightarrow> \<exists>r\<in>set rs. foldl better_root (0, 0) es = (r, count_list rs r) \<and>
      list_all (\<lambda>q. no_worse (r, count_list rs r) (q, count_list rs q)) rs"
  using best_root_member [of es rs] assms unfolding grouped_set by simp_all

lemma selected_is_eligible:
  assumes "\<And>xs. set (order xs) = set xs"
    and "selectedProcessId (select_process_tree_root svc order ps executable exclusions active) \<noteq> 0" (is "?sel \<noteq> 0")
  shows "?sel \<in> set (eligible_ids svc ps executable exclusions)"
proof -
  let ?rs = "member_roots svc ps executable exclusions"
  have "executable \<noteq> []" using assms(2) by (auto simp: select_process_tree_root_def no_selection_def)
  then have "?sel = fst (choose_root (order (grouped ?rs)) (grouped ?rs) active)"
    using selection_unfold [of executable svc order ps exclusions active] by (simp add: Let_def)
  then have "?sel \<in> set ?rs"
    using choose_root_best [OF assms(1), of ?rs] assms(2) by (cases "?rs = []") (auto simp: choose_root_eq split: if_splits)
  then show ?thesis by (auto simp: member_roots_def Let_def root_of_eligible)
qed

text \<open>C22: The tree that is captured is disjoint from everything another profile owns: when a process is
  selected, no excluded process is in its tree and it is in no excluded process's tree, whatever the
  parent links of the snapshot and the iteration order of the hash map.\<close>

theorem selected_tree_avoids_exclusions:
  assumes "distinct_ids ps" and "\<And>xs. set (order xs) = set xs"
    and "selectedProcessId (select_process_tree_root svc order ps executable exclusions active) = sel" and "sel \<noteq> 0"
    and "e \<in> set ps" and "excluded_process svc exclusions e"
  shows "\<not> process_belongs_to_tree ps (processId e) sel \<and> \<not> process_belongs_to_tree ps sel (processId e)"
proof -
  have "sel \<in> set (eligible_ids svc ps executable exclusions)"
    using selected_is_eligible [of order svc ps executable exclusions active] assms(2-4) by simp
  from eligible_disjoint [OF assms(1) this assms(5,6)] show ?thesis by (simp add: belongs_iff_climbs [OF assms(1)])
qed

text \<open>The selection does not depend on the iteration order: it keeps the active root while that is
  still the root of an eligible process, and otherwise takes the root with the most eligible
  members, the smallest identifier among equals; it is 0 only if there is no eligible process, and
  every eligible process is in the tree of the root it is counted for.\<close>

theorem selection_prefers_active_then_largest:
  assumes "distinct_ids ps" and "\<And>xs. set (order xs) = set xs" and "executable \<noteq> []"
    and "select_process_tree_root svc order ps executable exclusions active = r"
    and "member_roots svc ps executable exclusions = rs"
  shows "(if rs = [] then selectedProcessId r = 0
      else selectedProcessId r \<in> set rs \<and> selectedTreeSize r = count_list rs (selectedProcessId r) \<and>
        (if active \<in> set rs then selectedProcessId r = active
         else list_all (\<lambda>q. no_worse (selectedProcessId r, selectedTreeSize r) (q, count_list rs q)) rs)) \<and>
    rootCandidateCount r = card (set rs) \<and> matchingProcessCount r = length rs \<and>
    list_all (\<lambda>p. process_belongs_to_tree ps (processId p) (root_of ps (eligible_ids svc ps executable exclusions) p))
      (filter (\<lambda>p. processId p \<in> set (eligible_ids svc ps executable exclusions)) ps)"
proof -
  let ?el = "eligible_ids svc ps executable exclusions"
  have "process_belongs_to_tree ps (processId p) (root_of ps ?el p)"
    if "p \<in> set ps" "processId p \<in> set ?el" for p
  proof -
    have "processId p \<noteq> 0" using that(2) eligible_nonzero by metis
    from root_of_climbs [OF assms(1) that(1) this] show ?thesis by (simp add: belongs_iff_climbs [OF assms(1)])
  qed
  then have members: "list_all (\<lambda>p. process_belongs_to_tree ps (processId p) (root_of ps ?el p))
      (filter (\<lambda>p. processId p \<in> set ?el) ps)" by (auto simp: list_all_iff)
  have u: "selectedProcessId r = fst (choose_root (order (grouped rs)) (grouped rs) active)"
    "selectedTreeSize r = snd (choose_root (order (grouped rs)) (grouped rs) active)"
    "rootCandidateCount r = card (set rs)" "matchingProcessCount r = length rs"
    using selection_unfold [OF assms(3), of svc order ps exclusions active] assms(4,5) by (simp_all add: Let_def)
  note c = choose_root_best [OF assms(2), of rs]
  have "if rs = [] then selectedProcessId r = 0
      else selectedProcessId r \<in> set rs \<and> selectedTreeSize r = count_list rs (selectedProcessId r) \<and>
        (if active \<in> set rs then selectedProcessId r = active
         else list_all (\<lambda>q. no_worse (selectedProcessId r, selectedTreeSize r) (q, count_list rs q)) rs)"
    using c unfolding u(1,2) choose_root_eq by (cases "rs = []"; cases "active \<in> set rs") auto
  then show ?thesis using members u(3,4) by simp
qed

text \<open>While a capture stays bound to its observed root, a new audio session makes it rebind only to a
  process of its own tree, and never to one that an exclusion owns.\<close>

theorem sessions_of_excluded_processes_ignored:
  assumes "distinct_ids ps" and "\<And>xs. set (order xs) = set xs" and "selector \<noteq> []"
    and "binding_processId b \<in> processId ` set ps" and "binding_processId b \<noteq> 0"
    and "resolve_session_activity svc order ps creations selector exclusions b = d" and "action d = RebindSession"
    and "e \<in> set ps" and "excluded_process svc exclusions e"
  shows "process_belongs_to_tree ps (sessionProcessId d) (binding_processId b) \<and>
    sessionProcessId d \<in> creation_processId ` set creations \<and> sessionProcessId d \<noteq> processId e"
proof -
  let ?sel = "select_process_tree_root svc order ps selector exclusions (binding_processId b)"
  have ex: "exclusions \<noteq> []" using assms(9) by (auto simp: excluded_process_def)
  have obs: "list_ex (\<lambda>p. processId p = binding_processId b) ps" using assms(4) by (auto simp: list_ex_iff)
  have kept: "selectedProcessId ?sel = binding_processId b"
    using assms(3,5,6,7) ex obs
    by (auto simp: resolve_session_activity_def Let_def split: if_splits)
  have d: "case find (\<lambda>c. should_recycle_capture ps (binding_qualified b) (observedTargetSession b)
                          (binding_processId b) (creation_processId c) (binding_generation b)
                          (creation_generation c)) creations of
             None \<Rightarrow> False | Some c \<Rightarrow> sessionProcessId d = creation_processId c"
    using assms(6,7) kept
    by (auto simp: resolve_session_activity_def Let_def split: if_splits option.splits)
  then obtain c where c: "c \<in> set creations" "sessionProcessId d = creation_processId c"
    "process_belongs_to_tree ps (creation_processId c) (binding_processId b)"
    by (auto simp: find_Some_iff should_recycle_capture_def split: option.splits intro: nth_mem)
  have "binding_processId b \<in> set (eligible_ids svc ps selector exclusions)"
    using selected_is_eligible [of order svc ps selector exclusions "binding_processId b"] kept assms(2,5) by simp
  then have "\<not> process_belongs_to_tree ps (processId e) (binding_processId b)"
    using eligible_disjoint(1) [OF assms(1) _ assms(8,9)] by (simp add: belongs_iff_climbs [OF assms(1)])
  then show ?thesis using c by auto
qed

section \<open>A concrete snapshot\<close>

text \<open>Two game processes whose stale parent links form a cycle, and an excluded one elsewhere.\<close>

definition plain_services :: text_services where
  "plain_services = \<lparr>multi_byte_to_wide = (\<lambda>s. Some (map (\<lambda>c. of_nat (of_char c)) s)),
     compare_string_ordinal = (=), find_string_ordinal = (\<lambda>_ _. False)\<rparr>"

definition example_processes :: "process_tree_entry list" where
  "example_processes =
     [\<lparr>processId = 4, parentProcessId = 8, executableName = ''g'', executablePath = []\<rparr>,
      \<lparr>processId = 8, parentProcessId = 4, executableName = ''g'', executablePath = []\<rparr>,
      \<lparr>processId = 12, parentProcessId = 16, executableName = ''x'', executablePath = []\<rparr>]"

definition example_exclusions :: "whitelist_entry list" where
  "example_exclusions = [\<lparr>pattern = ''x'', windowName = [], mode = MatchExact\<rparr>]"

definition example_excluded :: process_tree_entry where
  "example_excluded = \<lparr>processId = 12, parentProcessId = 16, executableName = ''x'', executablePath = []\<rparr>"

definition example_binding :: capture_session_binding where
  "example_binding = \<lparr>binding_processId = 4, binding_generation = 1, binding_qualified = False,
     observedTargetSession = False\<rparr>"

lemma example_facts:
  "distinct_ids example_processes"
  "example_excluded \<in> set example_processes"
  "excluded_process plain_services example_exclusions example_excluded"
  by (simp_all add: distinct_ids_def example_processes_def example_excluded_def) code_simp

lemma example_selection:
  "selectedProcessId (select_process_tree_root plain_services (\<lambda>x. x) example_processes ''g'' example_exclusions 0) = 4"
  by code_simp

lemma example_roots: "member_roots plain_services example_processes ''g'' example_exclusions = [8, 4]"
  by code_simp

lemma example_rebind:
  "action (resolve_session_activity plain_services (\<lambda>x. x) example_processes
     [\<lparr>creation_processId = 8, creation_generation = 2\<rparr>] ''g'' example_exclusions example_binding) = RebindSession"
  by code_simp

theorem bounded_walk_decides_descent_witness:
  "process_belongs_to_tree example_processes 4 8 = (parent_link example_processes)\<^sup>*\<^sup>* 4 8"
  using bounded_walk_decides_descent [OF example_facts(1), of 4 8 plain_services "\<lambda>x. x" "''g''" "[]" 0] by simp

theorem selected_tree_avoids_exclusions_witness:
  "\<not> process_belongs_to_tree example_processes 12 4 \<and> \<not> process_belongs_to_tree example_processes 4 12"
  using selected_tree_avoids_exclusions [OF example_facts(1) refl example_selection _ example_facts(2,3)]
  by (simp add: example_excluded_def)

theorem selection_prefers_active_then_largest_witness:
  "selectedProcessId (select_process_tree_root plain_services (\<lambda>x. x) example_processes ''g'' example_exclusions 8) = 8"
  using selection_prefers_active_then_largest [OF example_facts(1), of "\<lambda>x. x" "''g''", OF refl _ refl example_roots, of 8]
  by simp

theorem sessions_of_excluded_processes_ignored_witness:
  "sessionProcessId (resolve_session_activity plain_services (\<lambda>x. x) example_processes
     [\<lparr>creation_processId = 8, creation_generation = 2\<rparr>] ''g'' example_exclusions example_binding) \<noteq> 12"
proof -
  have "binding_processId example_binding \<in> processId ` set example_processes"
    "binding_processId example_binding \<noteq> 0" "''g'' \<noteq> []"
    by (simp_all add: example_binding_def example_processes_def)
  from sessions_of_excluded_processes_ignored
    [OF example_facts(1) refl this(3,1,2) refl example_rebind example_facts(2,3)]
  show ?thesis by (simp add: example_excluded_def)
qed

end
