(* ===== verification/CallbackGate.thy ===== *)
theory CallbackGate
  imports Prelude
begin

text \<open>
  The lifetime gate of callbacks that an operating-system queue dispatches,
  \<open>src/common/platform/callback_epoch.h\<close>.  Every operation runs under the mutex of the gate and is one
  step; a drain that has to wait releases the mutex and is a step of its own when it wakes up.  The
  owner makes its calls one after the other, while callbacks enter and leave at any time.
\<close>

section \<open>The gate\<close>

record 'o epoch_gate =
  gate_owner :: "'o option"
  epoch :: u64
  active :: u32
  accepting :: bool

definition create_gate :: "'o epoch_gate" where
  "create_gate = \<lparr>gate_owner = None, epoch = 0, active = 0, accepting = False\<rparr>"

definition advance_epoch :: "u64 \<Rightarrow> u64" where
  "advance_epoch e = (let e = e + 1 in if e = 0 then e + 1 else e)"

text \<open>The calls of the owner; a null owner is \<^const>\<open>None\<close>.\<close>

datatype 'o owner_call = Begin "'o option" | StopAndDrain | DetachAndDrain

text \<open>What all three do first, up to the wait.\<close>

definition start_drain :: "'o epoch_gate \<Rightarrow> 'o epoch_gate" where
  "start_drain g = g\<lparr>accepting := False, epoch := advance_epoch (epoch g)\<rparr>"

text \<open>What follows the wait, with the epoch that \<open>Begin\<close> returns.\<close>

fun finish_call :: "'o owner_call \<Rightarrow> 'o epoch_gate \<Rightarrow> 'o epoch_gate \<times> u64 option" where
  "finish_call (Begin p) g = (g\<lparr>gate_owner := p, accepting := p \<noteq> None\<rparr>, Some (epoch g))"
| "finish_call StopAndDrain g = (g, None)"
| "finish_call DetachAndDrain g = (g\<lparr>gate_owner := None\<rparr>, None)"

definition drained :: "'o epoch_gate \<Rightarrow> bool" where
  "drained g \<longleftrightarrow> active g = 0"

text \<open>A lease holds the gate and the owner, or nothing.\<close>

record 'o lease =
  holds_gate :: bool
  lease_owner :: "'o option"

definition empty_lease :: "'o lease" where
  "empty_lease = \<lparr>holds_gate = False, lease_owner = None\<rparr>"

definition enter :: "u64 \<Rightarrow> 'o epoch_gate \<Rightarrow> 'o epoch_gate \<times> 'o lease" where
  "enter expectedEpoch g =
     (if \<not> accepting g \<or> gate_owner g = None \<or> expectedEpoch \<noteq> epoch g then (g, empty_lease)
      else (g\<lparr>active := active g + 1\<rparr>, \<lparr>holds_gate = True, lease_owner = gate_owner g\<rparr>))"

definition leave :: "'o epoch_gate \<Rightarrow> 'o epoch_gate" where
  "leave g = (if active g > 0 then g\<lparr>active := active g - 1\<rparr> else g)"

definition reset_lease :: "'o lease \<Rightarrow> 'o epoch_gate \<Rightarrow> 'o lease \<times> 'o epoch_gate" where
  "reset_lease l g = (empty_lease, if holds_gate l then leave g else g)"

text \<open>Move assignment from another lease: the target, the source and the gate afterwards.\<close>

definition move_lease :: "'o lease \<Rightarrow> 'o lease \<Rightarrow> 'o epoch_gate \<Rightarrow> 'o lease \<times> 'o lease \<times> 'o epoch_gate" where
  "move_lease target source g = (let (target, g) = reset_lease target g in (source, empty_lease, g))"

definition active_count :: "'o epoch_gate \<Rightarrow> u32" where
  "active_count g = active g"

section \<open>Owner and callbacks\<close>

text \<open>
  The gate with what surrounds it: the live leases with the epochs they were obtained for, the call
  the owner waits in, how many calls it has made, what its \<open>Begin\<close> calls have returned (epoch,
  owner and number of the call) and which owners have been destroyed.
\<close>

record 'o gate_system =
  gate :: "'o epoch_gate"
  live :: "('o lease \<times> u64) list"
  waiting :: "'o owner_call option"
  calls :: nat
  issued :: "(u64 \<times> 'o \<times> nat) list"
  destroyed :: "'o set"

definition gate_init :: "'o gate_system \<Rightarrow> bool" where
  "gate_init s \<longleftrightarrow> s = \<lparr>gate = create_gate, live = [], waiting = None, calls = 0, issued = [], destroyed = {}\<rparr>"

definition complete_call :: "'o owner_call \<Rightarrow> 'o gate_system \<Rightarrow> 'o gate_system" where
  "complete_call c s = (case finish_call c (gate s) of (g, returned) \<Rightarrow>
     s\<lparr>gate := g, waiting := None,
       issued := (case (c, returned) of
           (Begin (Some p), Some e) \<Rightarrow> (e, p, calls s) # issued s | _ \<Rightarrow> issued s)\<rparr>)"

text \<open>
  An owner calls \<open>Begin\<close> only while it exists and is destroyed only when the gate has no owner, that
  is after \<open>DetachAndDrain\<close>; fewer than \<open>2 ^ 32\<close> callbacks are in flight.
\<close>

inductive gate_step :: "'o gate_system \<Rightarrow> 'o gate_system \<Rightarrow> bool" where
  call: "waiting s = None \<Longrightarrow> (\<And>p. c = Begin (Some p) \<Longrightarrow> p \<notin> destroyed s) \<Longrightarrow>
     s' = s\<lparr>gate := start_drain (gate s), calls := calls s + 1\<rparr> \<Longrightarrow>
     t = (if drained (gate s') then complete_call c s' else s'\<lparr>waiting := Some c\<rparr>) \<Longrightarrow> gate_step s t"
| wake: "waiting s = Some c \<Longrightarrow> drained (gate s) \<Longrightarrow> t = complete_call c s \<Longrightarrow> gate_step s t"
| callback_enters: "length (live s) < 2 ^ 32 - 1 \<Longrightarrow> enter e (gate s) = (g, l) \<Longrightarrow>
     t = s\<lparr>gate := g, live := (if holds_gate l then (l, e) # live s else live s)\<rparr> \<Longrightarrow> gate_step s t"
| callback_leaves: "(l, e) \<in> set (live s) \<Longrightarrow>
     t = s\<lparr>gate := snd (reset_lease l (gate s)), live := remove1 (l, e) (live s)\<rparr> \<Longrightarrow> gate_step s t"
| destroy: "waiting s = None \<Longrightarrow> gate_owner (gate s) = None \<Longrightarrow>
     t = s\<lparr>destroyed := insert p (destroyed s)\<rparr> \<Longrightarrow> gate_step s t"

inductive_cases gate_stepE: "gate_step s t"

section \<open>The invariant\<close>

lemma advance_small: "unat (e :: u64) + 1 < 2 ^ 64 \<Longrightarrow> advance_epoch e = e + 1"
proof -
  assume "unat e + 1 < 2 ^ 64"
  then have "unat (e + 1) = unat e + 1" by (simp add: unat_add_lem [THEN iffD1])
  then have "e + 1 \<noteq> 0" by (metis add_is_0 one_neq_zero unat_0)
  then show ?thesis by (simp add: advance_epoch_def)
qed

definition gate_inv :: "'o gate_system \<Rightarrow> bool" where
  "gate_inv s \<longleftrightarrow>
     unat (active (gate s)) = length (live s) \<and>
     (\<forall>(l, e)\<in>set (live s). holds_gate l \<and> lease_owner l = gate_owner (gate s) \<and> lease_owner l \<noteq> None) \<and>
     (accepting (gate s) \<longrightarrow> waiting s = None \<and> gate_owner (gate s) \<noteq> None \<and>
        (\<forall>(l, e)\<in>set (live s). e = epoch (gate s))) \<and>
     (\<not> accepting (gate s) \<and> waiting s = None \<longrightarrow> live s = []) \<and>
     (\<forall>p. gate_owner (gate s) = Some p \<longrightarrow> p \<notin> destroyed s) \<and>
     (\<forall>p. waiting s = Some (Begin (Some p)) \<longrightarrow> p \<notin> destroyed s) \<and>
     (calls s < 2 ^ 64 \<longrightarrow> epoch (gate s) = of_nat (calls s)) \<and>
     (\<forall>(e, p, k)\<in>set (issued s). k \<le> calls s \<and> (waiting s \<noteq> None \<longrightarrow> k < calls s) \<and>
        (calls s < 2 ^ 64 \<longrightarrow> e = of_nat k) \<and>
        (k = calls s \<and> accepting (gate s) \<longrightarrow> gate_owner (gate s) = Some p))"

lemma gate_invD:
  assumes "gate_inv s"
  shows "unat (active (gate s)) = length (live s)"
    and "(l, e) \<in> set (live s) \<Longrightarrow> holds_gate l \<and> lease_owner l = gate_owner (gate s) \<and> lease_owner l \<noteq> None"
    and "accepting (gate s) \<Longrightarrow> waiting s = None \<and> gate_owner (gate s) \<noteq> None"
    and "accepting (gate s) \<Longrightarrow> (l, e) \<in> set (live s) \<Longrightarrow> e = epoch (gate s)"
    and "\<not> accepting (gate s) \<Longrightarrow> waiting s = None \<Longrightarrow> live s = []"
    and "gate_owner (gate s) = Some p \<Longrightarrow> p \<notin> destroyed s"
    and "waiting s = Some (Begin (Some p)) \<Longrightarrow> p \<notin> destroyed s"
    and "calls s < 2 ^ 64 \<Longrightarrow> epoch (gate s) = of_nat (calls s)"
    and "(e, p, k) \<in> set (issued s) \<Longrightarrow> k \<le> calls s"
    and "(e, p, k) \<in> set (issued s) \<Longrightarrow> waiting s \<noteq> None \<Longrightarrow> k < calls s"
    and "(e, p, k) \<in> set (issued s) \<Longrightarrow> calls s < 2 ^ 64 \<Longrightarrow> e = of_nat k"
    and "(e, p, k) \<in> set (issued s) \<Longrightarrow> k = calls s \<Longrightarrow> accepting (gate s) \<Longrightarrow> gate_owner (gate s) = Some p"
  using assms unfolding gate_inv_def by fast+

lemma active_zero_iff: "gate_inv s \<Longrightarrow> drained (gate s) \<longleftrightarrow> live s = []"
  using gate_invD(1) [of s] by (auto simp: drained_def unat_eq_0)

lemma begin_call_inv:
  assumes "gate_inv s" "waiting s = None" "\<And>p. c = Begin (Some p) \<Longrightarrow> p \<notin> destroyed s"
  shows "gate_inv (s\<lparr>gate := start_drain (gate s), calls := calls s + 1, waiting := Some c\<rparr>)"
proof -
  note inv = gate_invD [OF assms(1)]
  have epoch: "advance_epoch (epoch (gate s)) = of_nat (calls s + 1)" if "calls s + 1 < 2 ^ 64"
  proof -
    have "unat (epoch (gate s)) = calls s" using inv(8) that by (simp add: unat_of_nat)
    then show ?thesis using advance_small [of "epoch (gate s)"] inv(8) that by simp
  qed
  show ?thesis
    unfolding gate_inv_def
    using inv(1,2,6) assms(3) epoch inv(9,11) by (auto simp: start_drain_def less_Suc_eq_le intro: le_SucI)
qed

lemma complete_call_inv:
  assumes "gate_inv s" "waiting s = Some c" "drained (gate s)"
  shows "gate_inv (complete_call c s)"
proof -
  note inv = gate_invD [OF assms(1)]
  have empty: "live s = []" using assms(1,3) active_zero_iff by blast
  have off: "\<not> accepting (gate s)" using inv(3) assms(2) by auto
  show ?thesis
  proof (cases c)
    case (Begin q)
    show ?thesis
    proof (cases q)
      case None
      then show ?thesis
        using inv(1,8,9,11) empty off Begin unfolding gate_inv_def by (auto simp: complete_call_def)
    next
      case (Some p)
      have "p \<notin> destroyed s" using inv(7) assms(2) Begin Some by simp
      moreover have "k < calls s" if "(e, p, k) \<in> set (issued s)" for e p k
        using inv(10) [OF that] assms(2) by simp
      ultimately show ?thesis
        using inv(1,8,11) empty off Begin Some unfolding gate_inv_def
        by (auto simp: complete_call_def less_imp_le)
    qed
  next
    case StopAndDrain
    then show ?thesis
      using inv(1,6,8,9,11) empty off unfolding gate_inv_def by (auto simp: complete_call_def)
  next
    case DetachAndDrain
    then show ?thesis
      using inv(1,8,9,11) empty off unfolding gate_inv_def by (auto simp: complete_call_def)
  qed
qed

lemma gate_enter_inv:
  assumes "gate_inv s" "length (live s) < 2 ^ 32 - 1" "enter e (gate s) = (g, l)"
  shows "gate_inv (s\<lparr>gate := g, live := (if holds_gate l then (l, e) # live s else live s)\<rparr>)"
proof (cases "accepting (gate s) \<and> gate_owner (gate s) \<noteq> None \<and> e = epoch (gate s)")
  case True
  note inv = gate_invD [OF assms(1)]
  have gl: "g = (gate s)\<lparr>active := active (gate s) + 1\<rparr>" "l = \<lparr>holds_gate = True, lease_owner = gate_owner (gate s)\<rparr>"
    using True assms(3) by (auto simp: enter_def)
  have "unat (active (gate s) + 1) = length (live s) + 1"
    using inv(1) assms(2) by (simp add: unat_add_lem [THEN iffD1])
  then show ?thesis
    using inv(2-4,6-9,11,12) True unfolding gate_inv_def gl by auto
next
  case False
  then have "g = gate s" "l = empty_lease" using assms(3) by (auto simp: enter_def split: if_splits)
  then show ?thesis using assms(1) by (simp add: empty_lease_def)
qed

lemma gate_leave_inv:
  assumes "gate_inv s" "(l, e) \<in> set (live s)"
  shows "gate_inv (s\<lparr>gate := snd (reset_lease l (gate s)), live := remove1 (l, e) (live s)\<rparr>)"
proof -
  note inv = gate_invD [OF assms(1)]
  have l: "holds_gate l" using inv(2) [OF assms(2)] by simp
  have "0 < length (live s)" using assms(2) by (cases "live s") auto
  then have pos: "0 < unat (active (gate s))" using inv(1) by simp
  then have "snd (reset_lease l (gate s)) = (gate s)\<lparr>active := active (gate s) - 1\<rparr>"
    using l by (simp add: reset_lease_def leave_def word_less_nat_alt)
  moreover have "unat (active (gate s) - 1) = length (live s) - 1"
    using pos inv(1) by (subst unat_minus_one) auto
  moreover have "length (remove1 (l, e) (live s)) = length (live s) - 1" using assms(2) by (simp add: length_remove1)
  moreover have "set (remove1 (l, e) (live s)) \<subseteq> set (live s)" by (rule set_remove1_subset)
  moreover have "live s = [] \<Longrightarrow> remove1 (l, e) (live s) = []" by simp
  ultimately show ?thesis
    using inv(2-12) unfolding gate_inv_def by auto
qed

lemma gate_step_inv: "gate_step s t \<Longrightarrow> gate_inv s \<Longrightarrow> gate_inv t"
proof (induction rule: gate_step.induct)
  case (call s c s' t)
  let ?u = "s'\<lparr>waiting := Some c\<rparr>"
  have "gate_inv (s\<lparr>gate := start_drain (gate s), calls := calls s + 1, waiting := Some c\<rparr>)"
    using begin_call_inv [OF call.prems call.hyps(1)] call.hyps(2) by blast
  then have u: "gate_inv ?u" by (simp add: call.hyps(3))
  have "complete_call c s' = complete_call c ?u" by (cases c) (auto simp: complete_call_def split: option.split)
  then show ?case using complete_call_inv [OF u] u by (auto simp: call.hyps(4))
next
  case (wake s c t)
  then show ?case using complete_call_inv by blast
next
  case (callback_enters s e g l t)
  then show ?case using gate_enter_inv by blast
next
  case (callback_leaves l e s t)
  then show ?case using gate_leave_inv by blast
next
  case (destroy s t p)
  then show ?case by (auto simp: gate_inv_def)
qed

interpretation gate_system: invariant_system gate_init gate_step gate_inv
proof
  show "gate_init s \<Longrightarrow> gate_inv s" for s :: "'o gate_system"
    by (simp add: gate_init_def gate_inv_def create_gate_def)
qed (rule gate_step_inv)

section \<open>Safety\<close>

lemma lease_owner_enter:
  "lease_owner (snd (enter e g)) = (if accepting g \<and> e = epoch g then gate_owner g else None)"
  by (auto simp: enter_def empty_lease_def)

text \<open>C23: However callbacks interleave with the owner's calls, a callback never works on a destroyed
  owner: every live lease, and every lease that entering would give, names an owner that still
  exists; and when the owner is not waiting in a call and the gate does not accept, so after every
  drain, no lease is left.\<close>

theorem callbacks_never_outlive_owner:
  assumes "reachable_from gate_init gate_step s"
  shows "list_all (\<lambda>(l, e). \<exists>p. lease_owner l = Some p \<and> p \<notin> destroyed s) (live s) \<and>
    (case lease_owner (snd (enter e (gate s))) of None \<Rightarrow> True | Some p \<Rightarrow> p \<notin> destroyed s) \<and>
    (waiting s = None \<and> \<not> accepting (gate s) \<longrightarrow> live s = [])"
proof -
  note inv = gate_invD [OF gate_system.reachable_inv [OF assms]]
  have "\<exists>p. lease_owner l = Some p \<and> p \<notin> destroyed s" if "(l, e) \<in> set (live s)" for l e
    using inv(2) [OF that] inv(6) by (metis option.exhaust)
  then show ?thesis using inv(5,6) by (auto simp: list_all_iff lease_owner_enter split: option.split)
qed

text \<open>A queued callback that carries the epoch of some \<open>Begin\<close> gets the owner of that very \<open>Begin\<close>, and
  gets it exactly while the gate accepts and the owner has made no later call: callbacks of older
  epochs are always turned away (for the first \<open>2 ^ 64\<close> calls).\<close>

theorem stale_callbacks_turned_away:
  assumes "reachable_from gate_init gate_step s" and "calls s < 2 ^ 64" and "(e, p, k) \<in> set (issued s)"
  shows "lease_owner (snd (enter e (gate s))) = (if k = calls s \<and> accepting (gate s) then Some p else None)"
proof -
  note inv = gate_invD [OF gate_system.reachable_inv [OF assms(1)]]
  have "k \<le> calls s" using inv(9) [OF assms(3)] .
  then have "unat e = k" "unat (epoch (gate s)) = calls s"
    using assms(2) inv(8) inv(11) [OF assms(3)] by (simp_all add: unat_of_nat)
  then have "e = epoch (gate s) \<longleftrightarrow> k = calls s" using inv(8,11) assms(2,3) by auto
  then show ?thesis using inv(12) [OF assms(3)] by (auto simp: lease_owner_enter)
qed

text \<open>A waiting call always comes back once the callbacks in flight have left.\<close>

lemma leaving_drains:
  "gate_inv s \<Longrightarrow> \<exists>t. gate_step\<^sup>*\<^sup>* s t \<and> gate_inv t \<and> waiting t = waiting s \<and> live t = []"
proof (induction "length (live s)" arbitrary: s)
  case (Suc n)
  then obtain l e rest where l: "live s = (l, e) # rest" by (cases "live s") auto
  let ?u = "s\<lparr>gate := snd (reset_lease l (gate s)), live := remove1 (l, e) (live s)\<rparr>"
  have step: "gate_step s ?u" using l by (intro callback_leaves [of l e]) auto
  have "n = length (live ?u)" using Suc.hyps(2) l by simp
  from Suc.hyps(1) [OF this gate_step_inv [OF step Suc.prems]] obtain t where
    "gate_step\<^sup>*\<^sup>* ?u t" "gate_inv t" "waiting t = waiting ?u" "live t = []" by blast
  then show ?case using step by (auto intro: converse_rtranclp_into_rtranclp)
qed auto

lemma waiting_call_returns:
  assumes "reachable_from gate_init gate_step s"
  shows "\<exists>t. gate_step\<^sup>*\<^sup>* s t \<and> waiting t = None"
proof -
  obtain t where t: "gate_step\<^sup>*\<^sup>* s t" "gate_inv t" "waiting t = waiting s" "live t = []"
    using leaving_drains gate_system.reachable_inv [OF assms] by blast
  show ?thesis
  proof (cases "waiting t")
    case (Some c)
    then have "gate_step t (complete_call c t)" using t active_zero_iff by (intro wake) auto
    moreover have "waiting (complete_call c t) = None" by (simp add: complete_call_def split: prod.split)
    ultimately show ?thesis using t(1) by (meson rtranclp.rtrancl_into_rtrancl)
  qed (use t(1) in blast)
qed

text \<open>Moving a lease gives the target what the source held, and the lease the target held leaves.\<close>

lemma move_lease_cases:
  "move_lease target source g = (source, empty_lease, if holds_gate target then leave g else g)"
  by (simp add: move_lease_def reset_lease_def)

section \<open>A concrete run\<close>

definition one_begin :: "nat gate_system" where
  "one_begin = \<lparr>gate = \<lparr>gate_owner = Some 7, epoch = 1, active = 0, accepting = True\<rparr>, live = [],
     waiting = None, calls = 1, issued = [(1, 7, 1)], destroyed = {}\<rparr>"

lemma one_begin_reachable: "reachable_from gate_init gate_step one_begin"
proof -
  let ?s = "\<lparr>gate = create_gate, live = [], waiting = None, calls = 0, issued = [], destroyed = {}\<rparr> :: nat gate_system"
  have "gate_step ?s one_begin"
    by (rule call [where c = "Begin (Some 7)", OF _ _ refl])
       (simp_all add: one_begin_def start_drain_def create_gate_def drained_def complete_call_def advance_epoch_def)
  moreover have "gate_init ?s" by (simp add: gate_init_def)
  ultimately show ?thesis by (blast intro: more start)
qed

theorem callbacks_never_outlive_owner_witness:
  "case lease_owner (snd (enter 1 (gate one_begin))) of None \<Rightarrow> False | Some p \<Rightarrow> p \<notin> destroyed one_begin"
  using callbacks_never_outlive_owner [OF one_begin_reachable, of 1]
  by (simp add: lease_owner_enter one_begin_def)

theorem stale_callbacks_turned_away_witness:
  "lease_owner (snd (enter 1 (gate one_begin))) = Some 7"
  using stale_callbacks_turned_away [OF one_begin_reachable, of 1 7 1] by (simp add: one_begin_def)

end
