(* ===== verification/RecordingHealth.thy ===== *)
theory RecordingHealth
  imports Prelude
begin

text \<open>
  What a recording reports about itself: the health attribution and the video failure streak of
  \<open>src/common/capture/capture_policy/recording_health.h\<close>, with its flags and limits in
  \<open>constants.h\<close>.  Debts and counts are 32-bit values kept as naturals, since every addition is
  guarded or saturates; flags are words.
\<close>

section \<open>Flags\<close>

definition health_encoder_pressure :: u32 where "health_encoder_pressure = push_bit 0 1"
definition health_mux_pressure :: u32 where "health_mux_pressure = push_bit 1 1"
definition health_timeline_debt :: u32 where "health_timeline_debt = push_bit 2 1"
definition health_recovering :: u32 where "health_recovering = push_bit 3 1"
definition health_video_degraded :: u32 where "health_video_degraded = push_bit 4 1"
definition health_severe :: u32 where "health_severe = push_bit 5 1"
definition health_audio_degraded :: u32 where "health_audio_degraded = push_bit 6 1"
definition health_degraded_mask :: u32 where
  "health_degraded_mask = health_video_degraded OR health_audio_degraded"
definition health_cause_mask :: u32 where "health_cause_mask = health_encoder_pressure OR health_mux_pressure"
definition health_latched_mask :: u32 where
  "health_latched_mask = health_cause_mask OR health_degraded_mask OR health_severe"

lemmas health_flag_defs = health_encoder_pressure_def health_mux_pressure_def health_timeline_debt_def
  health_recovering_def health_video_degraded_def health_severe_def health_audio_degraded_def
  health_degraded_mask_def health_cause_mask_def health_latched_mask_def

definition causal_debt_ms :: nat where "causal_debt_ms = 250"
definition degraded_debt_ms :: nat where "degraded_debt_ms = 500"
definition severe_debt_ms :: nat where "severe_debt_ms = 2000"
definition pressure_confirmation_samples :: nat where "pressure_confirmation_samples = 2"

definition uint32_max :: nat where "uint32_max = 0xFFFFFFFF"

definition has_recording_health_flag :: "u32 \<Rightarrow> u32 \<Rightarrow> bool" where
  "has_recording_health_flag flags flag \<longleftrightarrow> flags AND flag \<noteq> 0"

definition has_recording_capacity_cause :: "u32 \<Rightarrow> bool" where
  "has_recording_capacity_cause flags \<longleftrightarrow> flags AND health_cause_mask \<noteq> 0"

definition saturating_increment :: "nat \<Rightarrow> nat" where
  "saturating_increment v = (if v < uint32_max then v + 1 else v)"

definition compose_output_degraded_flags :: "bool \<Rightarrow> bool \<Rightarrow> u32" where
  "compose_output_degraded_flags videoDegraded audioDegraded =
     (if videoDegraded then health_video_degraded else 0) OR (if audioDegraded then health_audio_degraded else 0)"

definition recording_degraded_scope :: "u32 \<Rightarrow> string" where
  "recording_degraded_scope flags =
     (let video = has_recording_health_flag flags health_video_degraded;
          audio = has_recording_health_flag flags health_audio_degraded
      in if video \<and> audio then ''audio_and_video'' else if video then ''video''
         else if audio then ''audio'' else ''none'')"

definition recording_health_status :: "u32 \<Rightarrow> string" where
  "recording_health_status flags =
     (if flags AND health_degraded_mask \<noteq> 0 then ''degraded''
      else if has_recording_health_flag flags health_recovering then ''recovering''
      else if has_recording_capacity_cause flags then ''capacity_pressure_observed''
      else ''healthy'')"

definition recording_health_cause :: "u32 \<Rightarrow> string" where
  "recording_health_cause flags =
     (let encoder = has_recording_health_flag flags health_encoder_pressure;
          mux = has_recording_health_flag flags health_mux_pressure
      in if encoder \<and> mux then ''encoder_and_mux'' else if encoder then ''encoder''
         else if mux then ''mux'' else ''none'')"

section \<open>The health state\<close>

record health_observation =
  videoLive :: bool
  cfrEnabled :: bool
  encoderPressure :: bool
  muxPressure :: bool
  timelineDebtMs :: nat

record health_state =
  flags :: u32
  currentDebtMs :: nat
  peakDebtMs :: nat
  capacityAttributedDebtMs :: nat
  episodeBaselineDebtMs :: nat
  episodePeakGrowthMs :: nat
  consecutiveEncoderSamples :: nat
  consecutiveMuxSamples :: nat
  episodeActive :: bool

definition fresh_health :: health_state where
  "fresh_health = \<lparr>flags = 0, currentDebtMs = 0, peakDebtMs = 0, capacityAttributedDebtMs = 0,
     episodeBaselineDebtMs = 0, episodePeakGrowthMs = 0, consecutiveEncoderSamples = 0,
     consecutiveMuxSamples = 0, episodeActive = False\<rparr>"

definition is_capacity_debt_dominant :: "health_state \<Rightarrow> bool" where
  "is_capacity_debt_dominant s \<longleftrightarrow> capacityAttributedDebtMs s \<ge> degraded_debt_ms \<and>
     (peakDebtMs s = 0 \<or> capacityAttributedDebtMs s * 4 \<ge> peakDebtMs s * 3)"

text \<open>The attribution of debt to the pressure episode, between the update of the debts and the counts.\<close>

definition attribute_debt :: "nat \<Rightarrow> bool \<Rightarrow> nat \<Rightarrow> health_state \<Rightarrow> health_state" where
  "attribute_debt previousDebtMs pressure debt s =
     (if pressure then
        let s = (if \<not> episodeActive s
              then s\<lparr>episodeActive := True, episodeBaselineDebtMs := previousDebtMs, episodePeakGrowthMs := 0\<rparr>
              else s);
            growth = (if debt > episodeBaselineDebtMs s then debt - episodeBaselineDebtMs s else 0)
        in if growth > episodePeakGrowthMs s
           then s\<lparr>capacityAttributedDebtMs :=
                    min (capacityAttributedDebtMs s + (growth - episodePeakGrowthMs s)) uint32_max,
                  episodePeakGrowthMs := growth\<rparr>
           else s
      else s\<lparr>episodeBaselineDebtMs := debt, episodePeakGrowthMs := 0, episodeActive := False\<rparr>)"

definition raise_flags :: "bool \<Rightarrow> bool \<Rightarrow> nat \<Rightarrow> health_state \<Rightarrow> health_state" where
  "raise_flags encoder mux debt s =
     (let cause = (if encoder then health_encoder_pressure else 0) OR (if mux then health_mux_pressure else 0);
          f = flags s;
          f = (if debt \<ge> causal_debt_ms then f OR cause else f);
          f = (if consecutiveEncoderSamples s \<ge> pressure_confirmation_samples then f OR health_encoder_pressure else f);
          f = (if consecutiveMuxSamples s \<ge> pressure_confirmation_samples then f OR health_mux_pressure else f);
          f = (if debt \<ge> causal_debt_ms then f OR health_timeline_debt else f);
          f = (if has_recording_capacity_cause f \<and> capacityAttributedDebtMs s \<ge> degraded_debt_ms
               then f OR health_video_degraded else f);
          f = (if has_recording_capacity_cause f \<and> capacityAttributedDebtMs s \<ge> severe_debt_ms
               then f OR health_severe else f);
          f = (if has_recording_capacity_cause f \<and> debt \<ge> causal_debt_ms \<and> cause = 0
               then f OR health_recovering else f)
      in s\<lparr>flags := f\<rparr>)"

text \<open>The debts and the counts of consecutive samples under pressure.\<close>

definition count_live_sample :: "nat \<Rightarrow> health_observation \<Rightarrow> health_state \<Rightarrow> health_state" where
  "count_live_sample previousDebtMs ob s =
     (let s = s\<lparr>currentDebtMs := timelineDebtMs ob, peakDebtMs := max (peakDebtMs s) (timelineDebtMs ob)\<rparr>;
          s = attribute_debt previousDebtMs (encoderPressure ob \<or> muxPressure ob) (timelineDebtMs ob) s
      in s\<lparr>consecutiveEncoderSamples :=
              (if encoderPressure ob then saturating_increment (consecutiveEncoderSamples s) else 0),
            consecutiveMuxSamples :=
              (if muxPressure ob then saturating_increment (consecutiveMuxSamples s) else 0)\<rparr>)"

definition update_recording_health :: "health_observation \<Rightarrow> health_state \<Rightarrow> health_state" where
  "update_recording_health ob s =
     (let previousDebtMs = currentDebtMs s;
          s = s\<lparr>flags := flags s AND health_latched_mask, currentDebtMs := 0\<rparr>
      in if \<not> videoLive ob \<or> \<not> cfrEnabled ob
         then s\<lparr>consecutiveEncoderSamples := 0, consecutiveMuxSamples := 0, episodeBaselineDebtMs := 0,
                episodePeakGrowthMs := 0, episodeActive := False\<rparr>
         else raise_flags (encoderPressure ob) (muxPressure ob) (timelineDebtMs ob)
                (count_live_sample previousDebtMs ob s))"

section \<open>The failure streak\<close>

definition failure_stop_ms :: nat where "failure_stop_ms = 5000"
definition failure_stop_min_attempts :: u32 where "failure_stop_min_attempts = 8"

record failure_streak =
  firstFailureMs :: nat
  failures :: u32
  stopRequested :: bool

definition no_failures :: failure_streak where
  "no_failures = \<lparr>firstFailureMs = 0, failures = 0, stopRequested = False\<rparr>"

definition observe_video_output_attempt ::
  "bool \<Rightarrow> bool \<Rightarrow> nat \<Rightarrow> failure_streak \<Rightarrow> failure_streak \<times> bool" where
  "observe_video_output_attempt emitted deferred nowMs s =
     (if emitted then (s\<lparr>firstFailureMs := 0, failures := 0\<rparr>, False)
      else if deferred \<or> stopRequested s then (s, False)
      else let s = (if failures s = 0 then s\<lparr>firstFailureMs := nowMs\<rparr> else s);
               s = s\<lparr>failures := failures s + 1\<rparr>
           in if failures s \<ge> failure_stop_min_attempts \<and> nowMs \<ge> firstFailureMs s \<and>
                 sub64 nowMs (firstFailureMs s) \<ge> failure_stop_ms
              then (s\<lparr>stopRequested := True\<rparr>, True)
              else (s, False))"

section \<open>The attributed debt\<close>

text \<open>
  The reference account: a pressure episode is a maximal run of live samples under pressure; it
  accounts for the largest growth of the debt over what it was just before the run.
\<close>

definition live_sample :: "health_observation \<Rightarrow> bool" where
  "live_sample ob \<longleftrightarrow> videoLive ob \<and> cfrEnabled ob"

definition pressed :: "health_observation \<Rightarrow> bool" where
  "pressed ob \<longleftrightarrow> live_sample ob \<and> (encoderPressure ob \<or> muxPressure ob)"

fun peak_growth :: "nat \<Rightarrow> health_observation list \<Rightarrow> nat" where
  "peak_growth baseline [] = 0"
| "peak_growth baseline (ob # obs) = max (timelineDebtMs ob - baseline) (peak_growth baseline obs)"

function attributed :: "nat \<Rightarrow> health_observation list \<Rightarrow> nat" where
  "attributed previous [] = 0"
| "pressed ob \<Longrightarrow> attributed previous (ob # obs) =
     peak_growth previous (ob # takeWhile pressed obs) +
     attributed (timelineDebtMs (last (ob # takeWhile pressed obs))) (dropWhile pressed obs)"
| "\<not> pressed ob \<Longrightarrow> attributed previous (ob # obs) = attributed (if live_sample ob then timelineDebtMs ob else 0) obs"
  by (atomize_elim, case_tac x, case_tac b) auto
termination
  by (relation "measure (length \<circ> snd)") (auto simp: le_imp_less_Suc length_dropWhile_le)

lemma raise_flags_fields [simp]:
  "currentDebtMs (raise_flags e m d s) = currentDebtMs s"
  "peakDebtMs (raise_flags e m d s) = peakDebtMs s"
  "capacityAttributedDebtMs (raise_flags e m d s) = capacityAttributedDebtMs s"
  "episodeBaselineDebtMs (raise_flags e m d s) = episodeBaselineDebtMs s"
  "episodePeakGrowthMs (raise_flags e m d s) = episodePeakGrowthMs s"
  "episodeActive (raise_flags e m d s) = episodeActive s"
  by (simp_all add: raise_flags_def Let_def)

lemma attribute_debt_fields [simp]:
  "currentDebtMs (attribute_debt p b d s) = currentDebtMs s"
  "peakDebtMs (attribute_debt p b d s) = peakDebtMs s"
  "flags (attribute_debt p b d s) = flags s"
  by (simp_all add: attribute_debt_def Let_def)

lemma update_idle:
  "\<not> live_sample ob \<Longrightarrow> currentDebtMs (update_recording_health ob s) = 0 \<and>
     peakDebtMs (update_recording_health ob s) = peakDebtMs s \<and>
     capacityAttributedDebtMs (update_recording_health ob s) = capacityAttributedDebtMs s \<and>
     \<not> episodeActive (update_recording_health ob s)"
  by (auto simp: update_recording_health_def live_sample_def Let_def)

lemma update_calm:
  "live_sample ob \<Longrightarrow> \<not> pressed ob \<Longrightarrow> currentDebtMs (update_recording_health ob s) = timelineDebtMs ob \<and>
     capacityAttributedDebtMs (update_recording_health ob s) = capacityAttributedDebtMs s \<and>
     \<not> episodeActive (update_recording_health ob s)"
  by (auto simp: update_recording_health_def count_live_sample_def live_sample_def pressed_def attribute_debt_def Let_def)

definition episode_start :: "health_state \<Rightarrow> nat" where
  "episode_start s = (if episodeActive s then episodeBaselineDebtMs s else currentDebtMs s)"

definition episode_peak :: "health_state \<Rightarrow> nat" where
  "episode_peak s = (if episodeActive s then episodePeakGrowthMs s else 0)"

lemma update_pressed:
  assumes "pressed ob" "capacityAttributedDebtMs s \<le> uint32_max"
  defines "t \<equiv> update_recording_health ob s"
  defines "growth \<equiv> timelineDebtMs ob - episode_start s"
  shows "currentDebtMs t = timelineDebtMs ob \<and> episodeActive t \<and> episode_start t = episode_start s \<and>
     episode_peak t = max (episode_peak s) growth \<and>
     capacityAttributedDebtMs t = min uint32_max (capacityAttributedDebtMs s + (growth - episode_peak s))"
proof -
  have l: "videoLive ob" "cfrEnabled ob" "encoderPressure ob \<or> muxPressure ob"
    using assms(1) by (simp_all add: pressed_def live_sample_def)
  show ?thesis
  proof (cases "episodeActive s")
    case True
    then show ?thesis using l assms(2) unfolding t_def growth_def
      by (cases "episodePeakGrowthMs s < timelineDebtMs ob - episodeBaselineDebtMs s")
        (auto simp: update_recording_health_def count_live_sample_def attribute_debt_def episode_start_def episode_peak_def Let_def
          min.commute)
  next
    case False
    then show ?thesis using l assms(2) unfolding t_def growth_def
      by (cases "currentDebtMs s < timelineDebtMs ob")
        (auto simp: update_recording_health_def count_live_sample_def attribute_debt_def episode_start_def episode_peak_def Let_def
          min.commute)
  qed
qed

text \<open>What the samples to come still add to the account of a state.\<close>

definition still_owed :: "health_state \<Rightarrow> health_observation list \<Rightarrow> nat" where
  "still_owed s obs = (peak_growth (episode_start s) (takeWhile pressed obs) - episode_peak s) +
     attributed (if takeWhile pressed obs = [] then currentDebtMs s else timelineDebtMs (last (takeWhile pressed obs)))
       (dropWhile pressed obs)"

lemma still_owed_Nil: "still_owed s [] = 0"
  by (simp add: still_owed_def)

lemma still_owed_inactive: "\<not> episodeActive s \<Longrightarrow> still_owed s obs = attributed (currentDebtMs s) obs"
  by (cases obs) (auto simp: still_owed_def episode_start_def episode_peak_def)

lemma still_owed_calm:
  "\<not> pressed ob \<Longrightarrow> still_owed s (ob # obs) = attributed (if live_sample ob then timelineDebtMs ob else 0) obs"
  by (simp add: still_owed_def)

lemma sat_add: "min (M :: nat) (min M a + b) = min M (a + b)"
  by (simp add: min_def)

lemma account_step:
  assumes "capacityAttributedDebtMs s \<le> uint32_max"
  shows "min uint32_max (capacityAttributedDebtMs s + still_owed s (ob # obs)) =
    min uint32_max (capacityAttributedDebtMs (update_recording_health ob s) +
      still_owed (update_recording_health ob s) obs)"
proof (cases "pressed ob")
  case True
  note u = update_pressed [OF True assms]
  let ?g = "timelineDebtMs ob - episode_start s" and ?PG = "peak_growth (episode_start s) (takeWhile pressed obs)"
  have arith: "max ?g ?PG - episode_peak s = (?g - episode_peak s) + (?PG - max (episode_peak s) ?g)"
    by arith
  have "still_owed s (ob # obs) = (?g - episode_peak s) + still_owed (update_recording_health ob s) obs"
    using True u by (simp add: still_owed_def arith)
  then show ?thesis using u by (simp add: sat_add add.assoc)
next
  case False
  show ?thesis
  proof (cases "live_sample ob")
    case True
    then show ?thesis using update_calm [OF True False, of s] False by (simp add: still_owed_calm still_owed_inactive)
  next
    case idle: False
    then show ?thesis using update_idle [OF idle, of s] False by (simp add: still_owed_calm still_owed_inactive)
  qed
qed

lemma attributed_le_max:
  "capacityAttributedDebtMs s \<le> uint32_max \<Longrightarrow> capacityAttributedDebtMs (update_recording_health ob s) \<le> uint32_max"
  using update_pressed [of ob s] update_calm [of ob s] update_idle [of ob s]
  by (cases "pressed ob"; cases "live_sample ob") auto

lemma account_run:
  "capacityAttributedDebtMs s \<le> uint32_max \<Longrightarrow>
   capacityAttributedDebtMs (fold update_recording_health obs s) =
     min uint32_max (capacityAttributedDebtMs s + still_owed s obs)"
proof (induction obs arbitrary: s)
  case Nil
  then show ?case by (simp add: still_owed_Nil min_def)
next
  case (Cons ob obs)
  show ?case
    unfolding fold_Cons comp_apply Cons.IH [OF attributed_le_max [OF Cons.prems]]
    by (rule account_step [OF Cons.prems, symmetric])
qed

section \<open>The flags\<close>

lemma bit_flag: "bit (push_bit k 1 :: u32) n \<longleftrightarrow> n = k \<and> n < 32"
  by (auto simp: bit_simps)

lemma bit_flags [simp]:
  "bit health_encoder_pressure n \<longleftrightarrow> n = 0" "bit health_mux_pressure n \<longleftrightarrow> n = 1"
  "bit health_timeline_debt n \<longleftrightarrow> n = 2" "bit health_recovering n \<longleftrightarrow> n = 3"
  "bit health_video_degraded n \<longleftrightarrow> n = 4" "bit health_severe n \<longleftrightarrow> n = 5" "bit health_audio_degraded n \<longleftrightarrow> n = 6"
  unfolding health_flag_defs(1-7) bit_flag by auto

lemma bit_masks [simp]:
  "bit health_cause_mask n \<longleftrightarrow> n = 0 \<or> n = 1"
  "bit health_latched_mask n \<longleftrightarrow> n = 0 \<or> n = 1 \<or> n = 4 \<or> n = 5 \<or> n = 6"
  by (auto simp: health_degraded_mask_def health_cause_mask_def health_latched_mask_def bit_or_iff)

lemma has_cause_bits: "has_recording_capacity_cause f \<longleftrightarrow> bit f 0 \<or> bit f 1"
proof -
  have "f AND health_cause_mask = 0 \<longleftrightarrow> \<not> bit f 0 \<and> \<not> bit f 1"
  proof
    assume "f AND health_cause_mask = 0"
    then have "\<not> bit (f AND health_cause_mask) 0" "\<not> bit (f AND health_cause_mask) 1" by simp_all
    then show "\<not> bit f 0 \<and> \<not> bit f 1" by (auto simp: bit_and_iff)
  next
    assume "\<not> bit f 0 \<and> \<not> bit f 1"
    then have "\<not> bit (f AND health_cause_mask) n" for n
      by (cases "n = 0"; cases "n = 1") (auto simp: bit_and_iff)
    then show "f AND health_cause_mask = 0" by (intro bit_word_eqI) simp
  qed
  then show ?thesis by (simp add: has_recording_capacity_cause_def)
qed

lemma cause_nonzero:
  "health_encoder_pressure \<noteq> 0" "health_mux_pressure \<noteq> 0" "health_encoder_pressure OR health_mux_pressure \<noteq> 0"
  by (simp_all add: health_flag_defs(1,2))

lemma raise_flags_bits:
  fixes s :: health_state and e m :: bool and d :: nat
  defines "f \<equiv> flags (raise_flags e m d s)"
  shows "bit f 0 \<longleftrightarrow> bit (flags s) 0 \<or> e \<and> causal_debt_ms \<le> d \<or> 2 \<le> consecutiveEncoderSamples s"
    and "bit f 1 \<longleftrightarrow> bit (flags s) 1 \<or> m \<and> causal_debt_ms \<le> d \<or> 2 \<le> consecutiveMuxSamples s"
    and "bit f 4 \<longleftrightarrow> bit (flags s) 4 \<or> (bit f 0 \<or> bit f 1) \<and> degraded_debt_ms \<le> capacityAttributedDebtMs s"
    and "bit f 5 \<longleftrightarrow> bit (flags s) 5 \<or> (bit f 0 \<or> bit f 1) \<and> severe_debt_ms \<le> capacityAttributedDebtMs s"
    and "bit f 6 \<longleftrightarrow> bit (flags s) 6"
  unfolding f_def raise_flags_def Let_def
  by (auto simp: has_cause_bits bit_or_iff cause_nonzero pressure_confirmation_samples_def)

text \<open>The flags of an update, from those before it.\<close>

lemma update_flags_idle:
  "\<not> live_sample ob \<Longrightarrow> flags (update_recording_health ob s) = flags s AND health_latched_mask"
  by (auto simp: update_recording_health_def live_sample_def Let_def)

lemma update_flags_live:
  "live_sample ob \<Longrightarrow> \<exists>u. flags u = flags s AND health_latched_mask \<and>
     capacityAttributedDebtMs u = capacityAttributedDebtMs (update_recording_health ob s) \<and>
     update_recording_health ob s = raise_flags (encoderPressure ob) (muxPressure ob) (timelineDebtMs ob) u"
  by (auto simp: update_recording_health_def live_sample_def count_live_sample_def Let_def
      intro!: exI [of _ "count_live_sample (currentDebtMs s) ob
          (s\<lparr>flags := flags s AND health_latched_mask, currentDebtMs := 0\<rparr>)"])

definition health_inv :: "health_state \<Rightarrow> bool" where
  "health_inv s \<longleftrightarrow> capacityAttributedDebtMs s \<le> uint32_max \<and>
     (bit (flags s) 4 \<longrightarrow> degraded_debt_ms \<le> capacityAttributedDebtMs s \<and> has_recording_capacity_cause (flags s)) \<and>
     (bit (flags s) 5 \<longrightarrow> severe_debt_ms \<le> capacityAttributedDebtMs s \<and> bit (flags s) 4)"

lemma attributed_grows:
  "capacityAttributedDebtMs s \<le> uint32_max \<Longrightarrow>
   capacityAttributedDebtMs s \<le> capacityAttributedDebtMs (update_recording_health ob s)"
  using update_pressed [of ob s] update_calm [of ob s] update_idle [of ob s]
  by (cases "pressed ob"; cases "live_sample ob") auto

lemma bit_latched: "bit (f AND health_latched_mask) n \<longleftrightarrow> bit f n \<and> (n = 0 \<or> n = 1 \<or> n = 4 \<or> n = 5 \<or> n = 6)"
  by (auto simp: bit_and_iff)

lemma update_health_inv:
  assumes "health_inv s"
  shows "health_inv (update_recording_health ob s)"
proof (cases "live_sample ob")
  case False
  then show ?thesis
    using assms update_idle [OF False, of s]
    by (auto simp: health_inv_def update_flags_idle [OF False] bit_latched has_cause_bits)
next
  case True
  let ?t = "update_recording_health ob s"
  have cap: "capacityAttributedDebtMs s \<le> capacityAttributedDebtMs ?t" "capacityAttributedDebtMs ?t \<le> uint32_max"
    using assms attributed_grows attributed_le_max by (auto simp: health_inv_def)
  have limits: "degraded_debt_ms \<le> severe_debt_ms" by (simp add: degraded_debt_ms_def severe_debt_ms_def)
  obtain u where u: "flags u = flags s AND health_latched_mask"
    "capacityAttributedDebtMs u = capacityAttributedDebtMs ?t"
    "?t = raise_flags (encoderPressure ob) (muxPressure ob) (timelineDebtMs ob) u"
    using update_flags_live [OF True, of s] by blast
  note bits = raise_flags_bits [of "encoderPressure ob" "muxPressure ob" "timelineDebtMs ob" u,
    folded u(3), unfolded u(1,2) bit_latched]
  have four: "bit (flags ?t) 4 \<longleftrightarrow> bit (flags s) 4 \<or>
      has_recording_capacity_cause (flags ?t) \<and> degraded_debt_ms \<le> capacityAttributedDebtMs ?t"
    using bits(3) by (simp add: has_cause_bits)
  have five: "bit (flags ?t) 5 \<longleftrightarrow> bit (flags s) 5 \<or>
      has_recording_capacity_cause (flags ?t) \<and> severe_debt_ms \<le> capacityAttributedDebtMs ?t"
    using bits(4) by (simp add: has_cause_bits)
  have cause: "has_recording_capacity_cause (flags s) \<Longrightarrow> has_recording_capacity_cause (flags ?t)"
    using bits(1,2) by (auto simp: has_cause_bits)
  show ?thesis
    unfolding health_inv_def
  proof (intro conjI impI)
    show "capacityAttributedDebtMs ?t \<le> uint32_max" by (rule cap(2))
    show "degraded_debt_ms \<le> capacityAttributedDebtMs ?t" if "bit (flags ?t) 4"
      using that four assms cap(1) by (meson health_inv_def le_trans)
    show "has_recording_capacity_cause (flags ?t)" if "bit (flags ?t) 4"
      using that four assms cause by (meson health_inv_def)
    show "severe_debt_ms \<le> capacityAttributedDebtMs ?t" if "bit (flags ?t) 5"
      using that five assms cap(1) by (meson health_inv_def le_trans)
    show "bit (flags ?t) 4" if "bit (flags ?t) 5"
      using that five four assms limits by (meson health_inv_def le_trans)
  qed
qed

text \<open>C26: Over any sequence of samples the capacity account is the sum over the pressure episodes of the
  largest growth of the debt within the episode, saturating at 32 bits, and the peak is the largest
  live debt; the recording is reported as degraded only with a confirmed capacity cause and at least
  half a second on that account, as severe only with two seconds, and neither report nor the
  causes are ever withdrawn.\<close>

theorem health_attributes_pressure_episodes:
  fixes obs more :: "health_observation list"
  defines "h \<equiv> fold update_recording_health obs fresh_health"
  shows "capacityAttributedDebtMs h = min uint32_max (attributed 0 obs) \<and>
    peakDebtMs h = fold max (map timelineDebtMs (filter live_sample obs)) 0 \<and>
    (bit (flags h) 4 \<longrightarrow> 500 \<le> attributed 0 obs \<and> has_recording_capacity_cause (flags h)) \<and>
    (bit (flags h) 5 \<longrightarrow> 2000 \<le> attributed 0 obs \<and> bit (flags h) 4) \<and>
    flags h AND health_latched_mask AND flags (fold update_recording_health more h) = flags h AND health_latched_mask"
proof -
  have "health_inv (fold update_recording_health os s)" if "health_inv s" for os s
    using that by (induction os arbitrary: s) (simp_all add: update_health_inv)
  moreover have "health_inv fresh_health" by (simp add: health_inv_def fresh_health_def)
  ultimately have inv: "health_inv h" unfolding h_def by blast
  have account: "capacityAttributedDebtMs h = min uint32_max (attributed 0 obs)"
    unfolding h_def by (subst account_run) (simp_all add: fresh_health_def still_owed_inactive)
  have "peakDebtMs (fold update_recording_health os s) = fold max (map timelineDebtMs (filter live_sample os)) (peakDebtMs s)"
    for os s
  proof (induction os arbitrary: s)
    case (Cons ob os)
    have "peakDebtMs (update_recording_health ob s) =
        (if live_sample ob then max (timelineDebtMs ob) (peakDebtMs s) else peakDebtMs s)"
      by (auto simp: update_recording_health_def count_live_sample_def live_sample_def Let_def max.commute)
    then show ?case using Cons.IH by simp
  qed simp
  then have peak: "peakDebtMs h = fold max (map timelineDebtMs (filter live_sample obs)) 0"
    by (simp add: h_def fresh_health_def)
  have step: "bit (flags (update_recording_health ob s)) n" if "bit (flags s) n" "n \<in> {0, 1, 4, 5, 6}" for ob s n
  proof (cases "live_sample ob")
    case False
    then show ?thesis using that by (auto simp: update_flags_idle bit_latched)
  next
    case True
    then show ?thesis using update_flags_live [OF True, of s] raise_flags_bits that by (auto simp: bit_latched)
  qed
  have kept: "bit (flags (fold update_recording_health os s)) n" if "bit (flags s) n" "n \<in> {0, 1, 4, 5, 6}" for os s n
    using that by (induction os arbitrary: s) (simp_all add: step)
  have latched: "flags h AND health_latched_mask AND flags (fold update_recording_health more h) =
      flags h AND health_latched_mask"
    by (intro bit_word_eqI) (auto simp: bit_and_iff intro: kept)
  show ?thesis
    using inv account peak latched
    by (auto simp: health_inv_def degraded_debt_ms_def severe_debt_ms_def)
qed

theorem health_attributes_pressure_episodes_witness:
  "capacityAttributedDebtMs (fold update_recording_health
     [\<lparr>videoLive = True, cfrEnabled = True, encoderPressure = False, muxPressure = False, timelineDebtMs = 100\<rparr>,
      \<lparr>videoLive = True, cfrEnabled = True, encoderPressure = True, muxPressure = False, timelineDebtMs = 700\<rparr>,
      \<lparr>videoLive = True, cfrEnabled = True, encoderPressure = True, muxPressure = False, timelineDebtMs = 300\<rparr>]
     fresh_health) = 600"
  using health_attributes_pressure_episodes [of
     "[\<lparr>videoLive = True, cfrEnabled = True, encoderPressure = False, muxPressure = False, timelineDebtMs = 100\<rparr>,
      \<lparr>videoLive = True, cfrEnabled = True, encoderPressure = True, muxPressure = False, timelineDebtMs = 700\<rparr>,
      \<lparr>videoLive = True, cfrEnabled = True, encoderPressure = True, muxPressure = False, timelineDebtMs = 300\<rparr>]" "[]"]
  by (simp add: pressed_def live_sample_def uint32_max_def)

section \<open>One stop per failure streak\<close>

record output_attempt =
  emitted :: bool
  deferred :: bool
  attemptMs :: nat

fun run_attempts :: "output_attempt list \<Rightarrow> failure_streak \<Rightarrow> failure_streak \<times> bool list" where
  "run_attempts [] s = (s, [])"
| "run_attempts (a # as) s =
     (let (s, stop) = observe_video_output_attempt (emitted a) (deferred a) (attemptMs a) s;
          (s, stops) = run_attempts as s
      in (s, stop # stops))"

definition failed :: "output_attempt \<Rightarrow> bool" where
  "failed a \<longleftrightarrow> \<not> emitted a \<and> \<not> deferred a"

text \<open>The attempts since the last emitted frame.\<close>

definition since_emitted :: "output_attempt list \<Rightarrow> output_attempt list" where
  "since_emitted as = rev (takeWhile (\<lambda>a. \<not> emitted a) (rev as))"

lemma since_emitted_snoc: "since_emitted (as @ [a]) = (if emitted a then [] else since_emitted as @ [a])"
  by (simp add: since_emitted_def)

lemma run_attempts_append:
  "run_attempts (as @ bs) s =
     (let (t, xs) = run_attempts as s; (u, ys) = run_attempts bs t in (u, xs @ ys))"
  by (induction as arbitrary: s) (auto simp: Let_def split: prod.splits)

lemma length_run_attempts: "length (snd (run_attempts as s)) = length as"
  by (induction as arbitrary: s) (auto simp: Let_def split: prod.splits, metis snd_conv)

lemma stopped_stays: "stopRequested s \<Longrightarrow> stopRequested (fst (run_attempts as s)) \<and> True \<notin> set (snd (run_attempts as s))"
proof (induction as arbitrary: s)
  case (Cons a as)
  obtain t x where step: "observe_video_output_attempt (emitted a) (deferred a) (attemptMs a) s = (t, x)" by force
  then have "stopRequested t" "\<not> x"
    using Cons.prems by (auto simp: observe_video_output_attempt_def split: if_splits)
  then show ?case using Cons.IH [of t] step by (auto simp: Let_def split: prod.splits)
qed simp

lemma sub64_bound: "b \<le> a \<Longrightarrow> sub64 a b \<le> a - b"
proof -
  assume "b \<le> a"
  then have "a + 2 ^ 64 - b = (a - b) + 2 ^ 64" by simp
  then have "sub64 a b = (a - b) mod 2 ^ 64" by (simp only: sub64_def mod_add_self2)
  then show ?thesis by simp
qed

definition streak_ok :: "output_attempt list \<Rightarrow> failure_streak \<Rightarrow> bool" where
  "streak_ok as s \<longleftrightarrow> failures s = 0 \<or>
     unat (failures s) \<le> length (filter failed (since_emitted as)) \<and>
     (\<exists>b\<in>set (since_emitted as). failed b \<and> attemptMs b = firstFailureMs s)"

definition long_streak :: "output_attempt list \<Rightarrow> output_attempt \<Rightarrow> bool" where
  "long_streak as a \<longleftrightarrow> 8 \<le> length (filter failed (since_emitted (as @ [a]))) \<and>
     (\<exists>b\<in>set (since_emitted (as @ [a])). failed b \<and> attemptMs b + 5000 \<le> attemptMs a)"

lemma observe_attempt:
  assumes "streak_ok as s" "observe_video_output_attempt (emitted a) (deferred a) (attemptMs a) s = (t, stop)"
  shows "streak_ok (as @ [a]) t \<and> (stop \<longrightarrow> long_streak as a \<and> stopRequested t) \<and>
    (stopRequested t \<longrightarrow> stop \<or> stopRequested s)"
proof (cases "emitted a \<or> deferred a \<or> stopRequested s")
  case True
  then have "t = (if emitted a then s\<lparr>firstFailureMs := 0, failures := 0\<rparr> else s)" "\<not> stop"
    using assms(2) by (auto simp: observe_video_output_attempt_def split: if_splits)
  then show ?thesis using assms(1) by (auto simp: streak_ok_def since_emitted_snoc)
next
  case False
  define s1 where "s1 = (if failures s = 0 then s\<lparr>firstFailureMs := attemptMs a\<rparr> else s)"
  define u where "u = s1\<lparr>failures := failures s1 + 1\<rparr>"
  have w: "since_emitted (as @ [a]) = since_emitted as @ [a]" "failed a"
    using False by (simp_all add: since_emitted_snoc failed_def)
  have more: "unat (f + 1 :: u32) \<le> unat f + 1" for f
    by (simp add: unat_word_ariths(1))
  have n: "unat (failures u) \<le> length (filter failed (since_emitted (as @ [a])))"
    using assms(1) more [of "failures s"] w by (auto simp: u_def s1_def streak_ok_def)
  have first: "\<exists>b\<in>set (since_emitted (as @ [a])). failed b \<and> attemptMs b = firstFailureMs u"
    using assms(1) w by (auto simp: u_def s1_def streak_ok_def)
  have out: "(t, stop) = (if failures u \<ge> failure_stop_min_attempts \<and> attemptMs a \<ge> firstFailureMs u \<and>
      sub64 (attemptMs a) (firstFailureMs u) \<ge> failure_stop_ms then (u\<lparr>stopRequested := True\<rparr>, True) else (u, False))"
  proof -
    have off: "emitted a = False" "deferred a = False" "stopRequested s = False" using False by auto
    show ?thesis
      unfolding assms(2) [symmetric] observe_video_output_attempt_def Let_def off s1_def [symmetric]
        u_def [symmetric] by simp
  qed
  have "streak_ok (as @ [a]) t" using n first out by (auto simp: streak_ok_def split: if_splits)
  moreover have "long_streak as a \<and> stopRequested t" if stop
  proof -
    have s: "failures u \<ge> 8" "attemptMs a \<ge> firstFailureMs u" "sub64 (attemptMs a) (firstFailureMs u) \<ge> 5000" "stopRequested t"
      using that out by (auto simp: failure_stop_min_attempts_def failure_stop_ms_def split: if_splits)
    have "8 \<le> unat (failures u)" using s(1) by (simp add: word_le_nat_alt)
    moreover have "firstFailureMs u + 5000 \<le> attemptMs a" using sub64_bound [OF s(2)] s(3) by linarith
    ultimately show ?thesis using n first s(4) unfolding long_streak_def by force
  qed
  moreover have "stopRequested t \<longrightarrow> stop \<or> stopRequested s"
    using out by (auto simp: u_def s1_def split: if_splits)
  ultimately show ?thesis by blast
qed

text \<open>The failure streak asks for a stop at most once, whatever the attempts, and only at an attempt
  before which, since the last emitted frame, at least eight attempts failed (deferrals not
  counted), the earliest considered at least five seconds ago.\<close>

theorem failure_streak_stops_once:
  assumes "run_attempts as no_failures = (s, stops)"
  shows "length (filter (\<lambda>x. x) stops) \<le> 1 \<and>
    (\<forall>k<length as. stops ! k \<longrightarrow> long_streak (take k as) (as ! k))"
proof -
  have "streak_ok as (fst (run_attempts as no_failures)) \<and>
      length (filter (\<lambda>x. x) (snd (run_attempts as no_failures))) \<le> 1 \<and>
      (stopRequested (fst (run_attempts as no_failures)) \<longleftrightarrow> True \<in> set (snd (run_attempts as no_failures))) \<and>
      (\<forall>k<length as. snd (run_attempts as no_failures) ! k \<longrightarrow> long_streak (take k as) (as ! k))"
  proof (induction as rule: rev_induct)
    case Nil
    show ?case by (simp add: streak_ok_def no_failures_def)
  next
    case (snoc a as)
    obtain t xs where r: "run_attempts as no_failures = (t, xs)" by force
    obtain u x where o: "observe_video_output_attempt (emitted a) (deferred a) (attemptMs a) t = (u, x)" by force
    have IH: "streak_ok as t" "length (filter (\<lambda>x. x) xs) \<le> 1" "stopRequested t \<longleftrightarrow> True \<in> set xs"
      "\<forall>k<length as. xs ! k \<longrightarrow> long_streak (take k as) (as ! k)"
      using snoc by (simp_all add: r)
    have len: "length xs = length as" using length_run_attempts [of as no_failures] by (simp add: r)
    note step = observe_attempt [OF IH(1) o]
    have quiet: "\<not> x" if "True \<in> set xs"
      using that IH(3) o by (auto simp: observe_video_output_attempt_def split: if_splits)
    have kept: "stopRequested u" if "stopRequested t"
      using stopped_stays [OF that, of "[a]"] o by simp
    have none: "filter (\<lambda>x. x) xs = []" if "True \<notin> set xs" using that by (auto simp: filter_empty_conv)
    have "length (filter (\<lambda>x. x) (xs @ [x])) \<le> 1"
      using IH(2) quiet none by (cases "True \<in> set xs") auto
    moreover have "stopRequested u \<longleftrightarrow> True \<in> set (xs @ [x])" using step kept IH(3) by auto
    moreover have "\<forall>k<length (as @ [a]). (xs @ [x]) ! k \<longrightarrow> long_streak (take k (as @ [a])) ((as @ [a]) ! k)"
      using IH(4) step len by (auto simp: nth_append less_Suc_eq)
    ultimately show ?case using step by (simp add: run_attempts_append r o)
  qed
  then show ?thesis using assms by simp
qed

theorem failure_streak_stops_once_witness:
  "length (filter (\<lambda>x. x) (snd (run_attempts
     (map (\<lambda>k. \<lparr>emitted = False, deferred = False, attemptMs = 1000 * k\<rparr>) [1..<11]) no_failures))) \<le> 1"
  using failure_streak_stops_once [OF prod.collapse [symmetric], of
      "map (\<lambda>k. \<lparr>emitted = False, deferred = False, attemptMs = 1000 * k\<rparr>) [1..<11]"] by blast

end
