(* ===== verification/RecordingControl.thy ===== *)
theory RecordingControl
  imports RecordingHealth
begin

text \<open>
  Control of one recording.  The capture phase that the control thread and the encoder thread change
  without a lock: \<open>src/common/capture/recording_lifecycle.h\<close> with its callers in
  \<open>src/captureengine/media/media_main_recording.cpp\<close>, \<open>media_main_start.cpp\<close> and
  \<open>media_main_encoder_01_loop_start.cpp\<close>; the decisions after the source is lost and the health flags
  that must not forget it: \<open>src/common/capture/capture_retarget_policy.h\<close>; and the hand-over from
  injected to window capture: \<open>src/common/capture/capture_handoff_state.h\<close>.  Every atomic access is
  a step of its own.
\<close>

section \<open>The phase and its transitions\<close>

datatype pipeline_phase = PhaseIdle | PhaseWarmup | PhaseLive | PhaseDrain | PhaseStopping | PhaseCancelling

definition is_terminal_transition :: "pipeline_phase \<Rightarrow> bool" where
  "is_terminal_transition p \<longleftrightarrow> p = PhaseStopping \<or> p = PhaseCancelling"

definition select_stop_transition :: "pipeline_phase \<Rightarrow> u32 \<Rightarrow> pipeline_phase" where
  "select_stop_transition p liveFramesEncoded =
     (if is_terminal_transition p then p
      else if liveFramesEncoded = 0 \<and> (p = PhaseIdle \<or> p = PhaseWarmup) then PhaseCancelling
      else PhaseStopping)"

text \<open>One turn of the loop of \<open>BeginStop\<close>: the expected phase, the phase found by the exchange and
  whether the weak exchange fails without need.  \<^const>\<open>Inr\<close> is the answer with the phase stored,
  \<^const>\<open>Inl\<close> the phase to try again with.\<close>

definition begin_stop_turn ::
  "pipeline_phase \<Rightarrow> u32 \<Rightarrow> pipeline_phase \<Rightarrow> bool \<Rightarrow> pipeline_phase + (pipeline_phase \<times> pipeline_phase)" where
  "begin_stop_turn current frames found spurious =
     (let target = select_stop_transition current frames
      in if target = current then Inr (target, found)
         else if found = current \<and> \<not> spurious then Inr (target, target)
         else Inl found)"

definition try_arm_exchange :: "pipeline_phase \<Rightarrow> pipeline_phase \<times> bool" where
  "try_arm_exchange p = (if p = PhaseIdle then (PhaseWarmup, True) else (p, False))"

definition try_commit_exchange :: "pipeline_phase \<Rightarrow> pipeline_phase \<times> bool" where
  "try_commit_exchange p = (if p = PhaseWarmup then (PhaseLive, True) else (p, False))"

record startup_timing =
  startupMs :: nat
  observedMs :: nat
  exact :: bool

definition resolve_recording_startup_timing :: "nat \<Rightarrow> int \<Rightarrow> nat \<Rightarrow> startup_timing" where
  "resolve_recording_startup_timing requestTick liveStampTick observedTick =
     (if requestTick = 0 \<or> observedTick < requestTick then \<lparr>startupMs = 0, observedMs = 0, exact = False\<rparr>
      else let observed = sub64 observedTick requestTick;
               timing = \<lparr>startupMs = observed, observedMs = observed, exact = False\<rparr>
           in if liveStampTick > 0
              then let liveTick = nat liveStampTick
                   in if liveTick \<ge> requestTick \<and> liveTick \<le> observedTick
                      then timing\<lparr>startupMs := sub64 liveTick requestTick, exact := True\<rparr>
                      else timing
              else timing)"

lemma startup_timing_plausible:
  fixes requestTick observedTick :: nat and liveStampTick :: int
  assumes "observedTick < 2 ^ 64" "0 < requestTick" "requestTick \<le> observedTick"
  defines "t \<equiv> resolve_recording_startup_timing requestTick liveStampTick observedTick"
  shows "startupMs t \<le> observedMs t \<and> observedMs t = observedTick - requestTick \<and>
    (exact t \<longrightarrow> requestTick + startupMs t = nat liveStampTick)"
  using assms by (auto simp: t_def resolve_recording_startup_timing_def Let_def sub64_le)

section \<open>The two threads\<close>

text \<open>
  The encoder thread: before the load and before the exchange of \<open>TryArmWarmup\<close>, in its loop,
  between the load of the phase and the plain stores of \<open>LoopStart\<close>, before the exchange of
  \<open>TryCommitLive\<close>, and ended.  The control thread in \<open>StopRecording\<close>: after clearing the request,
  with the live frames it loaded, in the loop of \<open>BeginStop\<close> with the phase it expects, and with the
  answer.
\<close>

datatype encoder_pc = AtInit | AtArm | AtLoop | AtPhaseLoad | AtDrainStore | AtLiveStore | AtCommit | Exited

datatype control_pc = Recording | Unrequested | FramesLoaded u32 | Trying u32 pipeline_phase
  | Accepted pipeline_phase

record lifecycle =
  phase :: pipeline_phase
  requested :: bool
  frames :: u32
  output_live :: bool
  encoder :: encoder_pc
  control :: control_pc
  left_early :: bool

definition lifecycle_init :: "lifecycle \<Rightarrow> bool" where
  "lifecycle_init s \<longleftrightarrow> s = \<lparr>phase = PhaseIdle, requested = True, frames = 0, output_live = False,
     encoder = AtInit, control = Recording, left_early = False\<rparr>"

fun accepted :: "control_pc \<Rightarrow> bool" where
  "accepted (Accepted answer) = True"
| "accepted _ = False"

definition arm_exchange :: "lifecycle \<Rightarrow> lifecycle" where
  "arm_exchange s = (case try_arm_exchange (phase s) of (p, ok) \<Rightarrow>
     s\<lparr>phase := p, encoder := (if ok then AtLoop else Exited)\<rparr>)"

definition commit_exchange :: "lifecycle \<Rightarrow> lifecycle" where
  "commit_exchange s = (case try_commit_exchange (phase s) of (p, ok) \<Rightarrow>
     s\<lparr>phase := p, output_live := output_live s \<or> ok, encoder := AtLoop\<rparr>)"

definition stop_turn :: "bool \<Rightarrow> u32 \<Rightarrow> pipeline_phase \<Rightarrow> lifecycle \<Rightarrow> lifecycle" where
  "stop_turn spurious n current s = (case begin_stop_turn current n (phase s) spurious of
     Inl found \<Rightarrow> s\<lparr>control := Trying n found\<rparr>
   | Inr (answer, stored) \<Rightarrow> s\<lparr>phase := stored, control := Accepted answer\<rparr>)"

text \<open>The encoder thread leaves its loop, storing the idle phase; a failure makes it leave before a stop.\<close>

definition leave_loop :: "lifecycle \<Rightarrow> lifecycle" where
  "leave_loop s = s\<lparr>phase := PhaseIdle, encoder := Exited, left_early := \<not> accepted (control s)\<rparr>"

inductive lifecycle_step :: "lifecycle \<Rightarrow> lifecycle \<Rightarrow> bool" where
  init_load: "encoder s = AtInit \<Longrightarrow>
     lifecycle_step s (s\<lparr>encoder := (if requested s then AtArm else Exited)\<rparr>)"
| init_arm: "encoder s = AtArm \<Longrightarrow> lifecycle_step s (arm_exchange s)"
| loop_drain_load: "encoder s = AtLoop \<Longrightarrow> \<not> requested s \<Longrightarrow> lifecycle_step s (s\<lparr>encoder := AtPhaseLoad\<rparr>)"
| loop_drain_check: "encoder s = AtPhaseLoad \<Longrightarrow>
     lifecycle_step s (s\<lparr>encoder := (if phase s \<noteq> PhaseCancelling then AtDrainStore else AtLoop)\<rparr>)"
| loop_drain_store: "encoder s = AtDrainStore \<Longrightarrow> lifecycle_step s (s\<lparr>phase := PhaseDrain, encoder := AtLoop\<rparr>)"
| loop_live_load: "encoder s = AtLoop \<Longrightarrow> requested s \<Longrightarrow> output_live s \<Longrightarrow>
     lifecycle_step s (s\<lparr>encoder := AtLiveStore\<rparr>)"
| loop_live_store: "encoder s = AtLiveStore \<Longrightarrow> lifecycle_step s (s\<lparr>phase := PhaseLive, encoder := AtLoop\<rparr>)"
| commit_load: "encoder s = AtLoop \<Longrightarrow> \<not> output_live s \<Longrightarrow> requested s \<Longrightarrow>
     lifecycle_step s (s\<lparr>encoder := AtCommit\<rparr>)"
| commit: "encoder s = AtCommit \<Longrightarrow> lifecycle_step s (commit_exchange s)"
| encode_live: "encoder s = AtLoop \<Longrightarrow> output_live s \<Longrightarrow> lifecycle_step s (s\<lparr>frames := frames s + 1\<rparr>)"
| leave: "encoder s = AtLoop \<Longrightarrow> lifecycle_step s (leave_loop s)"
| clear_request: "control s = Recording \<Longrightarrow> lifecycle_step s (s\<lparr>requested := False, control := Unrequested\<rparr>)"
| load_frames: "control s = Unrequested \<Longrightarrow> lifecycle_step s (s\<lparr>control := FramesLoaded (frames s)\<rparr>)"
| load_phase: "control s = FramesLoaded n \<Longrightarrow> lifecycle_step s (s\<lparr>control := Trying n (phase s)\<rparr>)"
| try_stop: "control s = Trying n current \<Longrightarrow> lifecycle_step s (stop_turn spurious n current s)"

definition lifecycle_inv :: "lifecycle \<Rightarrow> bool" where
  "lifecycle_inv s \<longleftrightarrow>
     (output_live s \<and> encoder s \<noteq> Exited \<longrightarrow> phase s \<in> {PhaseLive, PhaseDrain, PhaseStopping}) \<and>
     (frames s \<noteq> 0 \<longrightarrow> output_live s) \<and>
     (\<not> accepted (control s) \<longrightarrow> phase s \<notin> {PhaseStopping, PhaseCancelling}) \<and>
     (\<forall>n cur. control s = Trying n cur \<longrightarrow> cur \<notin> {PhaseStopping, PhaseCancelling}) \<and>
     (\<forall>p. control s = Accepted p \<longrightarrow> p \<in> {PhaseStopping, PhaseCancelling}) \<and>
     (control s = Accepted PhaseCancelling \<and> \<not> left_early s \<longrightarrow>
        \<not> output_live s \<and> phase s \<noteq> PhaseWarmup \<and> (phase s = PhaseIdle \<longrightarrow> encoder s = Exited)) \<and>
     (encoder s = AtLiveStore \<longrightarrow> output_live s) \<and>
     (encoder s \<in> {AtInit, AtArm, AtCommit} \<longrightarrow> \<not> output_live s) \<and>
     (encoder s = Exited \<and> output_live s \<and> \<not> accepted (control s) \<longrightarrow> left_early s) \<and>
     (left_early s \<longrightarrow> encoder s = Exited)"

lemma stop_turn_cases:
  assumes "cur \<notin> {PhaseStopping, PhaseCancelling}"
  shows "stop_turn spurious n cur s =
    (if phase s = cur \<and> \<not> spurious
     then let target = (if n = 0 \<and> (cur = PhaseIdle \<or> cur = PhaseWarmup) then PhaseCancelling else PhaseStopping)
          in s\<lparr>phase := target, control := Accepted target\<rparr>
     else s\<lparr>control := Trying n (phase s)\<rparr>)"
  using assms by (auto simp: stop_turn_def begin_stop_turn_def select_stop_transition_def
      is_terminal_transition_def Let_def)

lemma lifecycle_invD:
  assumes "lifecycle_inv s"
  shows "output_live s \<Longrightarrow> encoder s \<noteq> Exited \<Longrightarrow> phase s = PhaseLive \<or> phase s = PhaseDrain \<or> phase s = PhaseStopping"
    and "\<not> output_live s \<Longrightarrow> frames s = 0"
    and "\<not> accepted (control s) \<Longrightarrow> phase s \<noteq> PhaseStopping \<and> phase s \<noteq> PhaseCancelling"
    and "control s = Trying n cur \<Longrightarrow> cur \<noteq> PhaseStopping \<and> cur \<noteq> PhaseCancelling"
    and "control s = Accepted answer \<Longrightarrow> answer = PhaseStopping \<or> answer = PhaseCancelling"
    and "control s = Accepted PhaseCancelling \<Longrightarrow> \<not> left_early s \<Longrightarrow> \<not> output_live s \<and> phase s \<noteq> PhaseWarmup"
    and "control s = Accepted PhaseCancelling \<Longrightarrow> \<not> left_early s \<Longrightarrow> phase s = PhaseIdle \<Longrightarrow> encoder s = Exited"
    and "encoder s = AtLiveStore \<Longrightarrow> output_live s"
    and "encoder s = AtInit \<or> encoder s = AtArm \<or> encoder s = AtCommit \<Longrightarrow> \<not> output_live s"
    and "encoder s = Exited \<Longrightarrow> output_live s \<Longrightarrow> \<not> accepted (control s) \<Longrightarrow> left_early s"
    and "left_early s \<Longrightarrow> encoder s = Exited"
  using assms unfolding lifecycle_inv_def by blast+

lemma lifecycle_invI:
  assumes "output_live s \<Longrightarrow> encoder s \<noteq> Exited \<Longrightarrow> phase s = PhaseLive \<or> phase s = PhaseDrain \<or> phase s = PhaseStopping"
    and "\<not> output_live s \<Longrightarrow> frames s = 0"
    and "\<not> accepted (control s) \<Longrightarrow> phase s \<noteq> PhaseStopping \<and> phase s \<noteq> PhaseCancelling"
    and "\<And>n cur. control s = Trying n cur \<Longrightarrow> cur \<noteq> PhaseStopping \<and> cur \<noteq> PhaseCancelling"
    and "\<And>answer. control s = Accepted answer \<Longrightarrow> answer = PhaseStopping \<or> answer = PhaseCancelling"
    and "control s = Accepted PhaseCancelling \<Longrightarrow> \<not> left_early s \<Longrightarrow> \<not> output_live s \<and> phase s \<noteq> PhaseWarmup"
    and "control s = Accepted PhaseCancelling \<Longrightarrow> \<not> left_early s \<Longrightarrow> phase s = PhaseIdle \<Longrightarrow> encoder s = Exited"
    and "encoder s = AtLiveStore \<Longrightarrow> output_live s"
    and "encoder s = AtInit \<or> encoder s = AtArm \<or> encoder s = AtCommit \<Longrightarrow> \<not> output_live s"
    and "encoder s = Exited \<Longrightarrow> output_live s \<Longrightarrow> \<not> accepted (control s) \<Longrightarrow> left_early s"
    and "left_early s \<Longrightarrow> encoder s = Exited"
  shows "lifecycle_inv s"
  unfolding lifecycle_inv_def
  by (intro conjI impI allI) (use assms in \<open>blast+\<close>)

lemma stop_turn_inv:
  assumes inv: "lifecycle_inv s" and c: "control s = Trying n cur"
  shows "lifecycle_inv (stop_turn spurious n cur s)"
proof -
  note D = lifecycle_invD [OF inv]
  have cur: "cur \<noteq> PhaseStopping" "cur \<noteq> PhaseCancelling" using D(4) [OF c] by auto
  have na: "\<not> accepted (control s)" using c by simp
  note turn = stop_turn_cases [of cur spurious n s]
  show ?thesis
  proof (cases "phase s = cur \<and> \<not> spurious")
    case False
    then have eq: "stop_turn spurious n cur s = s\<lparr>control := Trying n (phase s)\<rparr>" using turn cur by auto
    show ?thesis unfolding eq
      by (rule lifecycle_invI; simp; use D(1-3,8-11) na in blast)
  next
    case True
    show ?thesis
    proof (cases "n = 0 \<and> (cur = PhaseIdle \<or> cur = PhaseWarmup)")
      case cancel: True
      then have eq: "stop_turn spurious n cur s = s\<lparr>phase := PhaseCancelling, control := Accepted PhaseCancelling\<rparr>"
        using turn cur True by auto
      have "encoder s = Exited \<and> left_early s" if "output_live s"
      proof -
        have "encoder s = Exited" using D(1) [OF that] cancel True by (cases "encoder s = Exited") auto
        then show ?thesis using D(10) that na by blast
      qed
      then show ?thesis unfolding eq by (intro lifecycle_invI; simp; use D(2,8,9,11) in blast)
    next
      case stop: False
      then have eq: "stop_turn spurious n cur s = s\<lparr>phase := PhaseStopping, control := Accepted PhaseStopping\<rparr>"
        using turn cur True by auto
      show ?thesis unfolding eq using D(2,8,9,11) by (intro lifecycle_invI) auto
    qed
  qed
qed

lemma arm_exchange_inv: "lifecycle_inv s \<Longrightarrow> encoder s = AtArm \<Longrightarrow> lifecycle_inv (arm_exchange s)"
proof -
  assume inv: "lifecycle_inv s" and e: "encoder s = AtArm"
  note D = lifecycle_invD [OF inv]
  have off: "\<not> output_live s" "\<not> left_early s" using D(9,11) e by auto
  show ?thesis
  proof (cases "phase s = PhaseIdle")
    case True
    then have eq: "arm_exchange s = s\<lparr>phase := PhaseWarmup, encoder := AtLoop\<rparr>"
      by (simp add: arm_exchange_def try_arm_exchange_def)
    have "control s \<noteq> Accepted PhaseCancelling" using D(7) off True e by auto
    then show ?thesis unfolding eq using off D(2,4,5) by (intro lifecycle_invI) auto
  next
    case False
    then have eq: "arm_exchange s = s\<lparr>encoder := Exited\<rparr>"
      by (simp add: arm_exchange_def try_arm_exchange_def)
    show ?thesis unfolding eq using off D(2-6) False by (intro lifecycle_invI) auto
  qed
qed

lemma commit_exchange_inv: "lifecycle_inv s \<Longrightarrow> encoder s = AtCommit \<Longrightarrow> lifecycle_inv (commit_exchange s)"
proof -
  assume inv: "lifecycle_inv s" and e: "encoder s = AtCommit"
  note D = lifecycle_invD [OF inv]
  have off: "\<not> output_live s" "\<not> left_early s" using D(9,11) e by auto
  show ?thesis
  proof (cases "phase s = PhaseWarmup")
    case True
    then have eq: "commit_exchange s = s\<lparr>phase := PhaseLive, output_live := True, encoder := AtLoop\<rparr>"
      by (simp add: commit_exchange_def try_commit_exchange_def)
    have "control s \<noteq> Accepted PhaseCancelling" using D(6) off True by auto
    then show ?thesis unfolding eq using off D(4,5) by (intro lifecycle_invI) auto
  next
    case False
    then have eq: "commit_exchange s = s\<lparr>encoder := AtLoop\<rparr>"
      by (simp add: commit_exchange_def try_commit_exchange_def)
    show ?thesis unfolding eq using off D(2-7) e by (intro lifecycle_invI) auto
  qed
qed

lemma leave_loop_inv: "lifecycle_inv s \<Longrightarrow> encoder s = AtLoop \<Longrightarrow> lifecycle_inv (leave_loop s)"
proof -
  assume inv: "lifecycle_inv s" and e: "encoder s = AtLoop"
  note D = lifecycle_invD [OF inv]
  have "\<not> left_early s" using D(11) e by auto
  then show ?thesis unfolding leave_loop_def using D(2,4-6) by (intro lifecycle_invI) auto
qed

lemma lifecycle_step_inv: "lifecycle_step s t \<Longrightarrow> lifecycle_inv s \<Longrightarrow> lifecycle_inv t"
proof (induction rule: lifecycle_step.induct)
  case (init_load s)
  note D = lifecycle_invD [OF init_load.prems]
  show ?case using D init_load.hyps by (intro lifecycle_invI) (auto split: if_splits)
next
  case (init_arm s)
  then show ?case by (blast intro: arm_exchange_inv)
next
  case (loop_drain_load s)
  note D = lifecycle_invD [OF loop_drain_load.prems]
  show ?case using D loop_drain_load.hyps by (intro lifecycle_invI) auto
next
  case (loop_drain_check s)
  note D = lifecycle_invD [OF loop_drain_check.prems]
  show ?case using D loop_drain_check.hyps by (intro lifecycle_invI) (auto split: if_splits)
next
  case (loop_drain_store s)
  note D = lifecycle_invD [OF loop_drain_store.prems]
  show ?case using D loop_drain_store.hyps by (intro lifecycle_invI) auto
next
  case (loop_live_load s)
  note D = lifecycle_invD [OF loop_live_load.prems]
  show ?case using D loop_live_load.hyps by (intro lifecycle_invI) auto
next
  case (loop_live_store s)
  note D = lifecycle_invD [OF loop_live_store.prems]
  show ?case using D loop_live_store.hyps by (intro lifecycle_invI) auto
next
  case (commit_load s)
  note D = lifecycle_invD [OF commit_load.prems]
  show ?case using D commit_load.hyps by (intro lifecycle_invI) auto
next
  case (commit s)
  then show ?case by (blast intro: commit_exchange_inv)
next
  case (encode_live s)
  note D = lifecycle_invD [OF encode_live.prems]
  show ?case using D encode_live.hyps by (intro lifecycle_invI) auto
next
  case (leave s)
  then show ?case by (blast intro: leave_loop_inv)
next
  case (clear_request s)
  note D = lifecycle_invD [OF clear_request.prems]
  have "\<not> accepted (control s)" using clear_request.hyps by simp
  then show ?case by (intro lifecycle_invI; simp; use D(1-3,8-11) in blast)
next
  case (load_frames s)
  note D = lifecycle_invD [OF load_frames.prems]
  have "\<not> accepted (control s)" using load_frames.hyps by simp
  then show ?case by (intro lifecycle_invI; simp; use D(1-3,8-11) in blast)
next
  case (load_phase s n)
  note D = lifecycle_invD [OF load_phase.prems]
  have "\<not> accepted (control s)" using load_phase.hyps by simp
  then show ?case by (intro lifecycle_invI; simp; use D(1-3,8-11) in blast)
next
  case (try_stop s n current spurious)
  then show ?case by (blast intro: stop_turn_inv)
qed

interpretation lifecycle: invariant_system lifecycle_init lifecycle_step lifecycle_inv
proof
  show "lifecycle_init s \<Longrightarrow> lifecycle_inv s" for s by (simp add: lifecycle_init_def lifecycle_inv_def)
qed (rule lifecycle_step_inv)

text \<open>Once a stop is answered with cancelling, the encoder can neither go live nor encode.\<close>

lemma cancelled_is_final:
  assumes "lifecycle_inv s" and "control s = Accepted PhaseCancelling" and "lifecycle_step s t"
  shows "output_live t = output_live s \<and> frames t = frames s"
proof (cases "left_early s")
  case True
  then have "encoder s = Exited" using assms(1) by (simp add: lifecycle_inv_def)
  with assms(3) show ?thesis by cases (auto simp: stop_turn_def split: sum.splits)
next
  case False
  then have "\<not> output_live s" "phase s \<noteq> PhaseWarmup" using assms(1,2) by (simp_all add: lifecycle_inv_def)
  with assms(3) show ?thesis
    by cases (auto simp: stop_turn_def arm_exchange_def commit_exchange_def try_arm_exchange_def
      try_commit_exchange_def leave_loop_def split: sum.splits if_splits)
qed

text \<open>C24: Whatever the interleaving of the control thread and the encoder thread, and however often the
  weak exchange fails, a stop is answered with stopping or cancelling. From an answer of cancelling on no step
  makes the output live or encodes a live frame. Unless the encoder had left its loop before the stop was
  answered (the one case in which the idle phase of a recording that was live is taken for one that never
  started), nothing was live or encoded before either.\<close>

theorem cancel_and_live_exclude_each_other:
  assumes "reachable_from lifecycle_init lifecycle_step s" and "control s = Accepted answer"
  shows "answer \<in> {PhaseStopping, PhaseCancelling} \<and>
    (answer = PhaseCancelling \<longrightarrow>
       (\<forall>t. lifecycle_step s t \<longrightarrow> output_live t = output_live s \<and> frames t = frames s) \<and>
       (\<not> left_early s \<longrightarrow> \<not> output_live s \<and> frames s = 0) \<and> (left_early s \<longrightarrow> encoder s = Exited))"
proof -
  have inv: "lifecycle_inv s" by (rule lifecycle.reachable_inv [OF assms(1)])
  moreover have "output_live t = output_live s \<and> frames t = frames s"
    if "answer = PhaseCancelling" "lifecycle_step s t" for t
    using cancelled_is_final [OF inv _ that(2)] assms(2) that(1) by simp
  ultimately show ?thesis using assms(2) by (auto simp: lifecycle_inv_def)
qed

text \<open>C25: The converse fails: after the request is cleared and before \<open>BeginStop\<close> reads the phase, the
  encoder loop can overwrite the warmup phase with the drain phase, and a stop that arrives before
  anything went live is then answered with stopping, not with cancelling.\<close>

theorem stop_before_live_can_miss_cancellation:
  "\<exists>s. reachable_from lifecycle_init lifecycle_step s \<and> control s = Accepted PhaseStopping \<and>
     \<not> output_live s \<and> frames s = 0 \<and> \<not> left_early s"
proof -
  let ?s = "\<lambda>p r e c. \<lparr>phase = p, requested = r, frames = 0, output_live = False, encoder = e, control = c,
    left_early = False\<rparr>"
  let ?R = "reachable_from lifecycle_init lifecycle_step"
  have "?R (?s PhaseIdle True AtInit Recording)" by (rule start) (simp add: lifecycle_init_def)
  from more [OF this init_load] have "?R (?s PhaseIdle True AtArm Recording)" by simp
  from more [OF this init_arm] have "?R (?s PhaseWarmup True AtLoop Recording)"
    by (simp add: arm_exchange_def try_arm_exchange_def)
  from more [OF this clear_request] have "?R (?s PhaseWarmup False AtLoop Unrequested)" by simp
  from more [OF this loop_drain_load] have "?R (?s PhaseWarmup False AtPhaseLoad Unrequested)" by simp
  from more [OF this loop_drain_check] have "?R (?s PhaseWarmup False AtDrainStore Unrequested)" by simp
  from more [OF this loop_drain_store] have "?R (?s PhaseDrain False AtLoop Unrequested)" by simp
  from more [OF this load_frames] have "?R (?s PhaseDrain False AtLoop (FramesLoaded 0))" by simp
  from more [OF this load_phase] have "?R (?s PhaseDrain False AtLoop (Trying 0 PhaseDrain))" by simp
  from more [OF this try_stop [where spurious = False]] have "?R (?s PhaseStopping False AtLoop (Accepted PhaseStopping))"
    by (simp add: stop_turn_def begin_stop_turn_def select_stop_transition_def is_terminal_transition_def)
  then show ?thesis by force
qed

text \<open>A recording that is cancelled while it warms up.\<close>

definition cancelled_in_warmup :: lifecycle where
  "cancelled_in_warmup = \<lparr>phase = PhaseCancelling, requested = False, frames = 0, output_live = False,
     encoder = AtLoop, control = Accepted PhaseCancelling, left_early = False\<rparr>"

lemma cancelled_in_warmup_reachable: "reachable_from lifecycle_init lifecycle_step cancelled_in_warmup"
proof -
  let ?s = "\<lambda>p r e c. \<lparr>phase = p, requested = r, frames = 0, output_live = False, encoder = e, control = c,
    left_early = False\<rparr>"
  let ?R = "reachable_from lifecycle_init lifecycle_step"
  have "?R (?s PhaseIdle True AtInit Recording)" by (rule start) (simp add: lifecycle_init_def)
  from more [OF this init_load] have "?R (?s PhaseIdle True AtArm Recording)" by simp
  from more [OF this init_arm] have "?R (?s PhaseWarmup True AtLoop Recording)"
    by (simp add: arm_exchange_def try_arm_exchange_def)
  from more [OF this clear_request] have "?R (?s PhaseWarmup False AtLoop Unrequested)" by simp
  from more [OF this load_frames] have "?R (?s PhaseWarmup False AtLoop (FramesLoaded 0))" by simp
  from more [OF this load_phase] have "?R (?s PhaseWarmup False AtLoop (Trying 0 PhaseWarmup))" by simp
  from more [OF this try_stop [where spurious = False]] show ?thesis
    by (simp add: stop_turn_def begin_stop_turn_def select_stop_transition_def is_terminal_transition_def
        cancelled_in_warmup_def)
qed

theorem cancel_and_live_exclude_each_other_witness:
  "\<not> output_live cancelled_in_warmup \<and> frames cancelled_in_warmup = 0"
  using cancel_and_live_exclude_each_other [OF cancelled_in_warmup_reachable, of PhaseCancelling]
  by (simp add: cancelled_in_warmup_def)

section \<open>Losing the capture source\<close>

datatype target_origin = AutoMonitorOrigin | WindowTargetOrigin | ExplicitMonitorOrigin

fun target_origin_name :: "target_origin \<Rightarrow> string" where
  "target_origin_name WindowTargetOrigin = ''window-target''"
| "target_origin_name ExplicitMonitorOrigin = ''explicit-monitor''"
| "target_origin_name AutoMonitorOrigin = ''auto-monitor''"

datatype retarget_selector = StopRecordingSelector | PinnedMonitorIdSelector | AutoMonitorSelector

definition select_source_loss_retarget :: "target_origin \<Rightarrow> bool \<Rightarrow> retarget_selector" where
  "select_source_loss_retarget origin pinnedMonitorIdAvailable =
     (if pinnedMonitorIdAvailable then PinnedMonitorIdSelector
      else if origin = AutoMonitorOrigin then AutoMonitorSelector else StopRecordingSelector)"

definition should_roll_back_failed_retarget :: "bool \<Rightarrow> bool \<Rightarrow> bool" where
  "should_roll_back_failed_retarget recordingLive requestedSourceLost \<longleftrightarrow> \<not> (recordingLive \<and> requestedSourceLost)"

datatype source_loss_recovery = NoRecovery | ContinueRecording | StopDegraded

definition select_source_loss_recovery :: "bool \<Rightarrow> bool \<Rightarrow> bool \<Rightarrow> source_loss_recovery" where
  "select_source_loss_recovery recordingLive requestedSourceLost rollbackRestored =
     (if \<not> recordingLive then NoRecovery
      else if requestedSourceLost \<or> \<not> rollbackRestored then StopDegraded
      else ContinueRecording)"

text \<open>A window or explicitly chosen source never falls through to the automatic choice, and a recording
  that may not roll back stops.\<close>

lemma source_loss_decisions:
  "select_source_loss_retarget origin pinned = AutoMonitorSelector \<longleftrightarrow> origin = AutoMonitorOrigin \<and> \<not> pinned"
  "live \<Longrightarrow> \<not> should_roll_back_failed_retarget live lost \<Longrightarrow> select_source_loss_recovery live lost restored = StopDegraded"
  by (simp_all add: select_source_loss_retarget_def should_roll_back_failed_retarget_def
      select_source_loss_recovery_def)

datatype source_format_family = OtherFormat | EightBitFormat | TenBitFormat | Float16Format

definition format_contradicts_hdr_contract :: "source_format_family \<Rightarrow> source_format_family \<Rightarrow> bool \<Rightarrow> bool" where
  "format_contradicts_hdr_contract delivered expected captureIsHdr \<longleftrightarrow>
     (if delivered = OtherFormat \<or> expected = OtherFormat then False
      else if captureIsHdr then delivered \<noteq> Float16Format
      else delivered = Float16Format \<and> expected \<noteq> Float16Format)"

section \<open>Health words\<close>

definition source_loss_health_flags :: u32 where "source_loss_health_flags = health_video_degraded"

text \<open>The latch, the health word of the session and the one in shared memory, which may be missing.\<close>

record health_words =
  latch :: u32
  session_health :: u32
  shared_health :: "u32 option"

definition reset_source_loss_health :: "health_words \<Rightarrow> health_words" where
  "reset_source_loss_health h = h\<lparr>latch := 0\<rparr>"

definition with_latched_source_loss_health :: "health_words \<Rightarrow> u32 \<Rightarrow> u32" where
  "with_latched_source_loss_health h word = word OR (latch h AND health_latched_mask)"

definition or_session :: "u32 \<Rightarrow> health_words \<Rightarrow> health_words" where
  "or_session f h = h\<lparr>session_health := session_health h OR f\<rparr>"

definition or_shared :: "u32 \<Rightarrow> health_words \<Rightarrow> health_words" where
  "or_shared f h = h\<lparr>shared_health := map_option (\<lambda>w. w OR f) (shared_health h)\<rparr>"

text \<open>The three stores of \<open>RecordSourceLossHealth\<close>, one after the other.\<close>

definition record_source_loss_health :: "nat \<Rightarrow> health_words \<Rightarrow> health_words" where
  "record_source_loss_health k h =
     (if k = 0 then h\<lparr>latch := latch h OR source_loss_health_flags\<rparr>
      else if k = 1 then or_session source_loss_health_flags h
      else or_shared source_loss_health_flags h)"

definition publish_latched_source_loss_health :: "health_words \<Rightarrow> health_words" where
  "publish_latched_source_loss_health h =
     (let latched = latch h AND health_latched_mask
      in if latched = 0 then h else or_shared latched (or_session latched h))"

text \<open>The two stores of \<open>PublishRecordingHealth\<close>: whole words, of any value.\<close>

definition publish_recording_health :: "nat \<Rightarrow> u32 \<Rightarrow> health_words \<Rightarrow> health_words" where
  "publish_recording_health k word h =
     (if k = 0 then h\<lparr>session_health := word\<rparr>
      else h\<lparr>shared_health := map_option (\<lambda>_. word) (shared_health h)\<rparr>)"

datatype health_store = RecordLoss nat | PublishWord nat u32

fun health_store_step :: "health_store \<Rightarrow> health_words \<Rightarrow> health_words" where
  "health_store_step (RecordLoss k) h = record_source_loss_health k h"
| "health_store_step (PublishWord k word) h = publish_recording_health k word h"

definition has_flag :: "u32 \<Rightarrow> u32 \<Rightarrow> bool" where
  "has_flag f w \<longleftrightarrow> w AND f = f"

lemma has_flag_or: "has_flag f w \<Longrightarrow> has_flag f (w OR v)" "has_flag f w \<Longrightarrow> has_flag f (v OR w)" "has_flag f (v OR f)"
    "has_flag f w \<Longrightarrow> has_flag f v \<Longrightarrow> has_flag f (w AND v)"
  by (auto simp: has_flag_def bit_eq_iff bit_simps)

lemma degraded_is_latched: "has_flag health_video_degraded health_latched_mask"
  by (simp add: has_flag_def health_flag_defs)

lemma latch_kept: "has_flag source_loss_health_flags (latch h) \<Longrightarrow>
    has_flag source_loss_health_flags (latch (fold health_store_step ss h))"
proof (induction ss arbitrary: h)
  case (Cons x ss)
  have "has_flag source_loss_health_flags (latch (health_store_step x h))"
    using Cons.prems by (cases x) (auto simp: record_source_loss_health_def publish_recording_health_def
        or_session_def or_shared_def intro: has_flag_or)
  then show ?case using Cons.IH by simp
qed simp

text \<open>Once the loss of the capture source is latched, any interleaving of later health publications
  (which store whole words that may lack it) and of further reports of the loss, in any order of
  their single stores, is followed by a final publication that shows the video as degraded in the
  session and in shared memory; and so does every word the encoder folds the latch into.\<close>

theorem source_loss_survives_publications:
  fixes before after :: "health_store list" and h :: health_words and word :: u32
  defines "h' \<equiv> fold health_store_step (before @ RecordLoss 0 # after) h"
  shows "has_flag health_video_degraded (session_health (publish_latched_source_loss_health h')) \<and>
    pred_option (has_flag health_video_degraded) (shared_health (publish_latched_source_loss_health h')) \<and>
    has_flag health_video_degraded (with_latched_source_loss_health h' word)"
proof -
  have "has_flag source_loss_health_flags (latch h')"
    unfolding h'_def by (simp add: latch_kept record_source_loss_health_def has_flag_or)
  then have "has_flag health_video_degraded (latch h' AND health_latched_mask)"
    by (intro has_flag_or(4) degraded_is_latched) (simp add: source_loss_health_flags_def)
  moreover from this have "latch h' AND health_latched_mask \<noteq> 0"
    by (auto simp: has_flag_def health_video_degraded_def)
  ultimately show ?thesis
    by (auto simp: publish_latched_source_loss_health_def with_latched_source_loss_health_def Let_def
        or_session_def or_shared_def has_flag_or option.pred_map option.pred_True comp_def split: option.split
        cong: option.pred_cong)
qed

section \<open>From injected to window capture\<close>

datatype handoff_phase = HandoffIdle | HandoffStarting | HandoffCommitted | HandoffFailed | HandoffInjectWon
  | HandoffTimedOut

datatype handoff_action = NoAction | StartWgcKeepInject | CommitWgcStopInject | StopWgcKeepInject

record handoff_transition =
  to_phase :: handoff_phase
  to_action :: handoff_action
  changed :: bool

definition is_terminal_handoff :: "handoff_phase \<Rightarrow> bool" where
  "is_terminal_handoff p \<longleftrightarrow> p = HandoffCommitted \<or> p = HandoffFailed \<or> p = HandoffInjectWon \<or> p = HandoffTimedOut"

definition must_keep_inject_active :: "handoff_phase \<Rightarrow> bool" where
  "must_keep_inject_active p \<longleftrightarrow> p \<noteq> HandoffCommitted"

definition current_transition :: "handoff_phase \<Rightarrow> handoff_transition" where
  "current_transition p = \<lparr>to_phase = p, to_action = NoAction, changed = False\<rparr>"

definition move_to :: "handoff_phase \<Rightarrow> handoff_action \<Rightarrow> handoff_transition" where
  "move_to p a = \<lparr>to_phase = p, to_action = a, changed = True\<rparr>"

definition begin_handoff :: "handoff_phase \<Rightarrow> handoff_transition" where
  "begin_handoff p = (if p \<noteq> HandoffIdle then current_transition p else move_to HandoffStarting StartWgcKeepInject)"

definition on_wgc_first_frame :: "handoff_phase \<Rightarrow> handoff_transition" where
  "on_wgc_first_frame p =
     (if p \<noteq> HandoffStarting then current_transition p else move_to HandoffCommitted CommitWgcStopInject)"

definition on_wgc_failure :: "handoff_phase \<Rightarrow> handoff_transition" where
  "on_wgc_failure p =
     (if p \<noteq> HandoffStarting then current_transition p else move_to HandoffFailed StopWgcKeepInject)"

definition on_inject_frame :: "handoff_phase \<Rightarrow> handoff_transition" where
  "on_inject_frame p =
     (if p = HandoffIdle then move_to HandoffInjectWon NoAction
      else if p = HandoffStarting then move_to HandoffInjectWon StopWgcKeepInject
      else current_transition p)"

definition on_wgc_readiness_timeout :: "handoff_phase \<Rightarrow> handoff_transition" where
  "on_wgc_readiness_timeout p =
     (if p \<noteq> HandoffStarting then current_transition p else move_to HandoffTimedOut StopWgcKeepInject)"

definition reset_handoff :: "handoff_phase \<Rightarrow> handoff_transition" where
  "reset_handoff p = (if p = HandoffIdle then current_transition p else move_to HandoffIdle NoAction)"

datatype handoff_event = BeginHandoff | WgcFirstFrame | WgcFailure | InjectFrame | WgcReadinessTimeout

fun handoff_step :: "handoff_event \<Rightarrow> handoff_phase \<Rightarrow> handoff_transition" where
  "handoff_step BeginHandoff = begin_handoff"
| "handoff_step WgcFirstFrame = on_wgc_first_frame"
| "handoff_step WgcFailure = on_wgc_failure"
| "handoff_step InjectFrame = on_inject_frame"
| "handoff_step WgcReadinessTimeout = on_wgc_readiness_timeout"

text \<open>The phase after a transaction and the actions its caller executes.\<close>

fun run_handoff :: "handoff_event list \<Rightarrow> handoff_phase \<Rightarrow> handoff_phase \<times> handoff_action list" where
  "run_handoff [] p = (p, [])"
| "run_handoff (e # es) p =
     (let t = handoff_step e p; (q, as) = run_handoff es (to_phase t)
      in (q, (if to_action t = NoAction then [] else [to_action t]) @ as))"

lemmas handoff_defs = begin_handoff_def on_wgc_first_frame_def on_wgc_failure_def on_inject_frame_def
  on_wgc_readiness_timeout_def current_transition_def move_to_def

lemma terminal_handoff_stays: "is_terminal_handoff p \<Longrightarrow> run_handoff es p = (p, [])"
proof (induction es)
  case (Cons e es)
  then have "handoff_step e p = current_transition p"
    by (cases e) (auto simp: handoff_defs is_terminal_handoff_def)
  then show ?case using Cons by (simp add: current_transition_def)
qed simp

lemma run_handoff_starting:
  "run_handoff es HandoffStarting \<in> {(HandoffStarting, []), (HandoffCommitted, [CommitWgcStopInject]),
     (HandoffFailed, [StopWgcKeepInject]), (HandoffInjectWon, [StopWgcKeepInject]),
     (HandoffTimedOut, [StopWgcKeepInject])}"
proof (induction es)
  case (Cons e es)
  then show ?case
    by (cases e) (auto simp: handoff_defs terminal_handoff_stays is_terminal_handoff_def Let_def split: prod.split)
qed simp

text \<open>Whatever reports a transaction sees, injected capture is stopped exactly when window capture was
  committed, which is the last thing that happens; a standby window capture that was started and
  not committed is stopped exactly once when the transaction ends, and nothing is stopped that was
  not started.\<close>

theorem handoff_keeps_one_source:
  assumes "run_handoff es HandoffIdle = (p, as)"
  shows "(p, as) \<in> {(HandoffIdle, []), (HandoffInjectWon, []), (HandoffStarting, [StartWgcKeepInject]),
      (HandoffCommitted, [StartWgcKeepInject, CommitWgcStopInject]),
      (HandoffFailed, [StartWgcKeepInject, StopWgcKeepInject]),
      (HandoffInjectWon, [StartWgcKeepInject, StopWgcKeepInject]),
      (HandoffTimedOut, [StartWgcKeepInject, StopWgcKeepInject])} \<and>
    (must_keep_inject_active p \<longleftrightarrow> CommitWgcStopInject \<notin> set as)"
  using assms
proof (induction es arbitrary: p as)
  case Nil
  then show ?case by (simp add: must_keep_inject_active_def)
next
  case (Cons e es)
  consider "e = BeginHandoff" | "e = InjectFrame" | "handoff_step e HandoffIdle = current_transition HandoffIdle"
    by (cases e) (auto simp: handoff_defs)
  then show ?case
  proof cases
    case 1
    then show ?thesis using Cons.prems run_handoff_starting [of es]
      by (auto simp: handoff_defs must_keep_inject_active_def Let_def split: prod.splits)
  next
    case 2
    then show ?thesis using Cons.prems
      by (auto simp: handoff_defs terminal_handoff_stays is_terminal_handoff_def must_keep_inject_active_def)
  next
    case 3
    then have "run_handoff es HandoffIdle = (p, as)"
      using Cons.prems by (auto simp: current_transition_def split: prod.splits)
    then show ?thesis by (rule Cons.IH)
  qed
qed

theorem handoff_keeps_one_source_witness:
  "snd (run_handoff [BeginHandoff, InjectFrame, WgcFirstFrame] HandoffIdle) = [StartWgcKeepInject, StopWgcKeepInject]"
  using handoff_keeps_one_source [of "[BeginHandoff, InjectFrame, WgcFirstFrame]" HandoffInjectWon
      "[StartWgcKeepInject, StopWgcKeepInject]"]
  by (simp add: handoff_defs)

end
