(* ===== verification/InjectLineage.thy ===== *)
theory InjectLineage
  imports Prelude
begin

text \<open>
  The lineage checks of encoded inject frames,
  \<open>src/common/capture/capture_policy/inject_lineage.h\<close>: within one transport generation the frame
  counter must only grow and a texture slot must only carry newer frames.  The number of texture
  slots, a template parameter, is the length of the table.
\<close>

record lineage_observation =
  generationReset :: bool
  previousGeneration :: u32
  previousGenerationLastFrame :: u32
  resetCount :: u32
  lineageRegression :: bool
  previousFrameIndex :: u32
  textureReuse :: bool
  previousTextureFrame :: u32

definition no_observation :: lineage_observation where
  "no_observation = \<lparr>generationReset = False, previousGeneration = 0, previousGenerationLastFrame = 0,
     resetCount = 0, lineageRegression = False, previousFrameIndex = 0, textureReuse = False,
     previousTextureFrame = 0\<rparr>"

definition should_log_generation_reset :: "u32 \<Rightarrow> bool" where
  "should_log_generation_reset count \<longleftrightarrow> count \<noteq> 0 \<and> (count \<le> 16 \<or> count mod 256 = 0)"

record lineage_tracker =
  hasGeneration :: bool
  generation :: u32
  lastFrameIndex :: u32
  generationResetCount :: u32
  lastFrameByTexture :: "u32 list"

definition new_tracker :: "nat \<Rightarrow> lineage_tracker" where
  "new_tracker slots = \<lparr>hasGeneration = False, generation = 0, lastFrameIndex = 0, generationResetCount = 0,
     lastFrameByTexture = replicate slots 0\<rparr>"

definition reset_tracker :: "lineage_tracker \<Rightarrow> lineage_tracker" where
  "reset_tracker t = new_tracker (length (lastFrameByTexture t))"

definition valid_texture :: "nat \<Rightarrow> int \<Rightarrow> bool" where
  "valid_texture slots textureIndex \<longleftrightarrow> textureIndex \<ge> 0 \<and> nat textureIndex < slots"

text \<open>A new transport generation discards the lineage of the old one.\<close>

definition open_generation :: "u32 \<Rightarrow> lineage_tracker \<Rightarrow> lineage_tracker \<times> lineage_observation" where
  "open_generation transportGeneration t =
     (if hasGeneration t \<and> transportGeneration \<noteq> generation t
      then (t\<lparr>generationResetCount := generationResetCount t + 1, lastFrameIndex := 0,
              lastFrameByTexture := replicate (length (lastFrameByTexture t)) 0,
              hasGeneration := True, generation := transportGeneration\<rparr>,
            no_observation\<lparr>generationReset := True, previousGeneration := generation t,
              previousGenerationLastFrame := lastFrameIndex t, resetCount := generationResetCount t + 1\<rparr>)
      else (t\<lparr>hasGeneration := True, generation := transportGeneration\<rparr>, no_observation))"

definition check_frame_index :: "u32 \<Rightarrow> lineage_tracker \<times> lineage_observation \<Rightarrow> lineage_tracker \<times> lineage_observation" where
  "check_frame_index frameIndex s =
     (let (t, ob) = s
      in if frameIndex \<noteq> 0
         then (t\<lparr>lastFrameIndex := frameIndex\<rparr>,
               if lastFrameIndex t \<noteq> 0 \<and> frameIndex < lastFrameIndex t
               then ob\<lparr>lineageRegression := True, previousFrameIndex := lastFrameIndex t\<rparr> else ob)
         else s)"

definition check_texture :: "u32 \<Rightarrow> int \<Rightarrow> lineage_tracker \<times> lineage_observation \<Rightarrow> lineage_tracker \<times> lineage_observation" where
  "check_texture frameIndex textureIndex s =
     (let (t, ob) = s
      in if valid_texture (length (lastFrameByTexture t)) textureIndex
         then let lastTextureFrame = lastFrameByTexture t ! nat textureIndex
              in (t\<lparr>lastFrameByTexture := (lastFrameByTexture t)[nat textureIndex := frameIndex]\<rparr>,
                  if lastTextureFrame \<noteq> 0 \<and> frameIndex \<noteq> 0 \<and> frameIndex \<le> lastTextureFrame
                  then ob\<lparr>textureReuse := True, previousTextureFrame := lastTextureFrame\<rparr> else ob)
         else s)"

definition observe_lineage :: "u32 \<Rightarrow> u32 \<Rightarrow> int \<Rightarrow> lineage_tracker \<Rightarrow> lineage_tracker \<times> lineage_observation" where
  "observe_lineage transportGeneration frameIndex textureIndex t =
     (if frameIndex = 0 \<and> \<not> valid_texture (length (lastFrameByTexture t)) textureIndex
      then (t, no_observation)
      else check_texture frameIndex textureIndex
             (check_frame_index frameIndex (open_generation transportGeneration t)))"

section \<open>The reference\<close>

text \<open>
  The checks stated over the whole history, newest frame first: the relevant frames of the current
  generation are those before the first change of generation.
\<close>

record lineage_frame =
  frame_generation :: u32
  frame_index :: u32
  texture_index :: int

definition relevant :: "nat \<Rightarrow> lineage_frame \<Rightarrow> bool" where
  "relevant slots f \<longleftrightarrow> frame_index f \<noteq> 0 \<or> valid_texture slots (texture_index f)"

definition current_run :: "u32 \<Rightarrow> lineage_frame list \<Rightarrow> lineage_frame list" where
  "current_run g h = takeWhile (\<lambda>f. frame_generation f = g) h"

definition last_index :: "lineage_frame list \<Rightarrow> u32" where
  "last_index run = (case filter (\<lambda>f. frame_index f \<noteq> 0) run of [] \<Rightarrow> 0 | f # _ \<Rightarrow> frame_index f)"

definition last_in_texture :: "nat \<Rightarrow> int \<Rightarrow> lineage_frame list \<Rightarrow> u32" where
  "last_in_texture slots i run =
     (case filter (\<lambda>f. valid_texture slots (texture_index f) \<and> texture_index f = i) run of
        [] \<Rightarrow> 0 | f # _ \<Rightarrow> frame_index f)"

fun generation_changes :: "lineage_frame list \<Rightarrow> nat" where
  "generation_changes (a # b # h) = (if frame_generation a \<noteq> frame_generation b then 1 else 0) + generation_changes (b # h)"
| "generation_changes _ = 0"

definition tracks :: "nat \<Rightarrow> lineage_frame list \<Rightarrow> lineage_tracker \<Rightarrow> bool" where
  "tracks slots h t \<longleftrightarrow> length (lastFrameByTexture t) = slots \<and>
     (hasGeneration t \<longleftrightarrow> h \<noteq> []) \<and> (h \<noteq> [] \<longrightarrow> generation t = frame_generation (hd h)) \<and>
     generationResetCount t = of_nat (generation_changes h) \<and>
     lastFrameIndex t = (if h = [] then 0 else last_index (current_run (generation t) h)) \<and>
     (\<forall>i < slots. lastFrameByTexture t ! i =
        (if h = [] then 0 else last_in_texture slots (int i) (current_run (generation t) h)))"

definition run_lineage :: "nat \<Rightarrow> lineage_frame list \<Rightarrow> lineage_tracker" where
  "run_lineage slots fs = fold (\<lambda>f t. fst (observe_lineage (frame_generation f) (frame_index f) (texture_index f) t)) fs
     (new_tracker slots)"

lemma current_run_Cons: "current_run g (f # h) = (if frame_generation f = g then f # current_run g h else [])"
  by (simp add: current_run_def)

lemma last_index_Cons: "last_index (f # run) = (if frame_index f \<noteq> 0 then frame_index f else last_index run)"
  by (simp add: last_index_def)

lemma last_in_texture_Cons: "last_in_texture slots i (f # run) =
    (if valid_texture slots (texture_index f) \<and> texture_index f = i then frame_index f else last_in_texture slots i run)"
  by (auto simp: last_in_texture_def)

lemma last_empty [simp]: "last_index [] = 0" "last_in_texture slots i [] = 0"
  by (simp_all add: last_index_def last_in_texture_def)

text \<open>The observation the reference makes of a frame after a history.\<close>

definition reference_observation :: "nat \<Rightarrow> lineage_frame list \<Rightarrow> lineage_frame \<Rightarrow> lineage_observation" where
  "reference_observation slots h f =
     (let changed = h \<noteq> [] \<and> frame_generation (hd h) \<noteq> frame_generation f;
          run = current_run (frame_generation f) h;
          texture = last_in_texture slots (texture_index f) run;
          ob = (if changed
            then no_observation\<lparr>generationReset := True, previousGeneration := frame_generation (hd h),
                   previousGenerationLastFrame := last_index (current_run (frame_generation (hd h)) h),
                   resetCount := of_nat (generation_changes h) + 1\<rparr>
            else no_observation);
          ob = (if frame_index f \<noteq> 0 \<and> last_index run \<noteq> 0 \<and> frame_index f < last_index run
            then ob\<lparr>lineageRegression := True, previousFrameIndex := last_index run\<rparr> else ob)
      in if valid_texture slots (texture_index f) \<and> texture \<noteq> 0 \<and> frame_index f \<noteq> 0 \<and> frame_index f \<le> texture
         then ob\<lparr>textureReuse := True, previousTextureFrame := texture\<rparr> else ob)"

lemma open_generation_tracks:
  assumes "tracks slots h t" "open_generation g t = (u, ob)"
  shows "length (lastFrameByTexture u) = slots \<and> hasGeneration u \<and> generation u = g \<and>
    generationResetCount u = of_nat (generation_changes (f\<lparr>frame_generation := g\<rparr> # h)) \<and>
    lastFrameIndex u = last_index (current_run g h) \<and>
    (\<forall>i < slots. lastFrameByTexture u ! i = last_in_texture slots (int i) (current_run g h)) \<and>
    ob = (if h \<noteq> [] \<and> frame_generation (hd h) \<noteq> g
          then no_observation\<lparr>generationReset := True, previousGeneration := frame_generation (hd h),
                 previousGenerationLastFrame := last_index (current_run (frame_generation (hd h)) h),
                 resetCount := of_nat (generation_changes h) + 1\<rparr>
          else no_observation)"
proof (cases h)
  case Nil
  then show ?thesis using assms by (auto simp: tracks_def open_generation_def current_run_def)
next
  case (Cons a k)
  have run: "current_run g h = []" if "frame_generation a \<noteq> g" using that Cons by (simp add: current_run_Cons)
  show ?thesis
    using assms Cons run by (auto simp: tracks_def open_generation_def split: if_splits)
qed

lemma observe_tracks:
  assumes t: "tracks slots h t" and r: "relevant slots f"
    and o: "observe_lineage (frame_generation f) (frame_index f) (texture_index f) t = (t', ob)"
  shows "tracks slots (f # h) t' \<and> ob = reference_observation slots h f"
proof -
  obtain u ob1 where u: "open_generation (frame_generation f) t = (u, ob1)" by force
  note og = open_generation_tracks [OF t u, of f]
  have same: "f\<lparr>frame_generation := frame_generation f\<rparr> = f" by simp
  have len: "length (lastFrameByTexture t) = slots" using t by (simp add: tracks_def)
  obtain v ob2 where v: "check_frame_index (frame_index f) (u, ob1) = (v, ob2)" by force
  have o': "check_texture (frame_index f) (texture_index f) (v, ob2) = (t', ob)"
    using o r len by (simp add: observe_lineage_def relevant_def u v split: if_splits)
  have vf: "lastFrameByTexture v = lastFrameByTexture u" "hasGeneration v = hasGeneration u" "generation v = generation u"
    "generationResetCount v = generationResetCount u"
    "lastFrameIndex v = last_index (f # current_run (frame_generation f) h)"
    using v og by (auto simp: check_frame_index_def last_index_Cons split: if_splits)
  have run: "current_run (frame_generation f) (f # h) = f # current_run (frame_generation f) h"
    by (simp add: current_run_Cons)
  have tf: "hasGeneration t' = hasGeneration v" "generation t' = generation v"
    "generationResetCount t' = generationResetCount v" "lastFrameIndex t' = lastFrameIndex v"
    "lastFrameByTexture t' = (if valid_texture slots (texture_index f)
       then (lastFrameByTexture u)[nat (texture_index f) := frame_index f] else lastFrameByTexture u)"
    using o' og vf by (auto simp: check_texture_def Let_def split: if_splits)
  have "tracks slots (f # h) t'"
    unfolding tracks_def tf vf using og run
    by (auto simp: last_in_texture_Cons nth_list_update valid_texture_def same)
  moreover have "ob = reference_observation slots h f"
    using o' v og vf
    by (auto simp: check_texture_def check_frame_index_def reference_observation_def Let_def valid_texture_def
        split: if_splits)
  ultimately show ?thesis ..
qed

lemma run_lineage_tracks: "tracks slots (rev (filter (relevant slots) fs)) (run_lineage slots fs)"
proof (induction fs rule: rev_induct)
  case Nil
  show ?case by (simp add: run_lineage_def tracks_def new_tracker_def)
next
  case (snoc f fs)
  have step: "run_lineage slots (fs @ [f]) =
      fst (observe_lineage (frame_generation f) (frame_index f) (texture_index f) (run_lineage slots fs))"
    by (simp add: run_lineage_def)
  show ?case
  proof (cases "relevant slots f")
    case True
    then show ?thesis using observe_tracks [OF snoc True prod.collapse [symmetric]] by (simp add: step)
  next
    case False
    have "length (lastFrameByTexture (run_lineage slots fs)) = slots" using snoc by (simp add: tracks_def)
    then show ?thesis using False snoc by (simp add: step observe_lineage_def relevant_def)
  qed
qed

text \<open>C27: The tracker's constant-size state loses nothing: after any frames, its observation of the next
  frame is the one computed from the whole history of relevant frames; a regression is reported
  exactly for an index below the last non-zero one of the same uninterrupted generation, a reuse
  exactly for an index not above the one last seen in that texture slot in it.\<close>

theorem lineage_matches_history:
  "snd (observe_lineage (frame_generation f) (frame_index f) (texture_index f) (run_lineage slots fs)) =
    (if relevant slots f then reference_observation slots (rev (filter (relevant slots) fs)) f else no_observation)"
proof (cases "relevant slots f")
  case True
  then show ?thesis using observe_tracks [OF run_lineage_tracks True prod.collapse [symmetric]] by simp
next
  case False
  have "length (lastFrameByTexture (run_lineage slots fs)) = slots"
    using run_lineage_tracks [of slots fs] by (simp add: tracks_def)
  then show ?thesis using False by (simp add: observe_lineage_def relevant_def)
qed

end
