(* ===== verification/PoolLease.thy ===== *)
theory PoolLease
  imports Prelude "HOL-Library.Multiset"
begin

text \<open>
  Leases of the texture slots of a capture pool, \<open>src/common/capture/wgc_pool_lease.h\<close>.  The
  producer acquires slots and any thread releases them, without a lock: every atomic access is a
  step, and the operations in flight interleave.
\<close>

section \<open>The lease state\<close>

record pool_leases =
  slotLeases :: "u32 list"
  slotCount :: u32
  generation :: u64
  leasedCurrent :: u32
  leasedMax :: u32
  freeMin :: u32
  releaseMismatchCount :: u32

text \<open>A state without slots has no array; the empty list stands for it.\<close>

definition init_pool :: "u32 \<Rightarrow> u64 \<Rightarrow> pool_leases" where
  "init_pool n gen = \<lparr>slotLeases = replicate (unat n) 0, slotCount = n, generation = gen,
     leasedCurrent = 0, leasedMax = 0, freeMin = n, releaseMismatchCount = 0\<rparr>"

definition known_slot :: "pool_leases \<Rightarrow> u32 \<Rightarrow> bool" where
  "known_slot p slot \<longleftrightarrow> slotLeases p \<noteq> [] \<and> slot < slotCount p"

definition slot_lease :: "pool_leases \<Rightarrow> u32 \<Rightarrow> u32" where
  "slot_lease p slot = slotLeases p ! unat slot"

definition set_slot_lease :: "u32 \<Rightarrow> u32 \<Rightarrow> pool_leases \<Rightarrow> pool_leases" where
  "set_slot_lease slot v p = p\<lparr>slotLeases := (slotLeases p)[unat slot := v]\<rparr>"

section \<open>Operations in flight\<close>

text \<open>
  Where an operation is: an acquisition before its \<open>fetch_add\<close>, in \<open>UpdateMax\<close> and in \<open>UpdateMin\<close>
  (before the load, then with the value it loaded), a release that found the slot free, before the
  repairing store and before the count, and a release before its \<open>fetch_sub\<close>.
\<close>

datatype pool_op = AcquireAdd u32
  | MaxLoad u32 u32 | MaxExchange u32 u32 u32
  | MinLoad u32 u32 | MinExchange u32 u32 u32
  | ReleaseRepair u32 | ReleaseCount | ReleaseSub

text \<open>The first access of \<open>TryAcquire\<close>: the exchange on the slot.\<close>

definition try_acquire_exchange :: "u32 \<Rightarrow> pool_leases \<Rightarrow> pool_leases \<times> pool_op option" where
  "try_acquire_exchange slot p =
     (if \<not> known_slot p slot then (p, None)
      else if slot_lease p slot = 0 then (set_slot_lease slot 1 p, Some (AcquireAdd slot))
      else (p, None))"

text \<open>The first access of \<open>Release\<close>.\<close>

definition release_sub :: "u32 \<Rightarrow> u64 \<Rightarrow> pool_leases \<Rightarrow> pool_leases \<times> pool_op option" where
  "release_sub slot gen p =
     (if gen \<noteq> generation p \<or> \<not> known_slot p slot
      then (p\<lparr>releaseMismatchCount := releaseMismatchCount p + 1\<rparr>, None)
      else let prev = slot_lease p slot; p = set_slot_lease slot (prev - 1) p
           in (p, Some (if prev = 0 then ReleaseRepair slot else ReleaseSub)))"

text \<open>
  One further access; the last component is the slot that the operation has now acquired.  The weak
  exchanges may fail without need.
\<close>

fun pool_turn :: "bool \<Rightarrow> pool_op \<Rightarrow> pool_leases \<Rightarrow> pool_leases \<times> pool_op option \<times> u32 option" where
  "pool_turn spurious (AcquireAdd slot) p =
     (let active = leasedCurrent p + 1 in (p\<lparr>leasedCurrent := active\<rparr>, Some (MaxLoad slot active), None))"
| "pool_turn spurious (MaxLoad slot active) p =
     (if active > leasedMax p then (p, Some (MaxExchange slot active (leasedMax p)), None)
      else (p, Some (MinLoad slot (if active \<ge> slotCount p then 0 else slotCount p - active)), None))"
| "pool_turn spurious (MaxExchange slot active current) p =
     (if leasedMax p = current \<and> \<not> spurious
      then (p\<lparr>leasedMax := active\<rparr>,
            Some (MinLoad slot (if active \<ge> slotCount p then 0 else slotCount p - active)), None)
      else if active > leasedMax p then (p, Some (MaxExchange slot active (leasedMax p)), None)
      else (p, Some (MinLoad slot (if active \<ge> slotCount p then 0 else slotCount p - active)), None))"
| "pool_turn spurious (MinLoad slot free) p =
     (if free < freeMin p then (p, Some (MinExchange slot free (freeMin p)), None) else (p, None, Some slot))"
| "pool_turn spurious (MinExchange slot free current) p =
     (if freeMin p = current \<and> \<not> spurious then (p\<lparr>freeMin := free\<rparr>, None, Some slot)
      else if free < freeMin p then (p, Some (MinExchange slot free (freeMin p)), None)
      else (p, None, Some slot))"
| "pool_turn spurious (ReleaseRepair slot) p = (set_slot_lease slot 0 p, Some ReleaseCount, None)"
| "pool_turn spurious ReleaseCount p =
     (p\<lparr>releaseMismatchCount := releaseMismatchCount p + 1\<rparr>, None, None)"
| "pool_turn spurious ReleaseSub p = (p\<lparr>leasedCurrent := leasedCurrent p - 1\<rparr>, None, None)"

section \<open>Lease objects\<close>

text \<open>\<open>WgcPoolSlotLease\<close>: whether it holds a state, the slot and the generation.\<close>

record slot_lease_object =
  holds_state :: bool
  lease_slot :: u32
  lease_generation :: u64

definition empty_slot_lease :: slot_lease_object where
  "empty_slot_lease = \<lparr>holds_state = False, lease_slot = - 1, lease_generation = 0\<rparr>"

definition is_valid_lease :: "slot_lease_object \<Rightarrow> bool" where
  "is_valid_lease l \<longleftrightarrow> holds_state l \<and> lease_slot l \<noteq> - 1 \<and> lease_generation l \<noteq> 0"

text \<open>\<open>Reset\<close>: the emptied object and the release it makes.\<close>

definition reset_slot_lease :: "slot_lease_object \<Rightarrow> slot_lease_object \<times> (u32 \<times> u64) option" where
  "reset_slot_lease l =
     (empty_slot_lease, if holds_state l then Some (lease_slot l, lease_generation l) else None)"

text \<open>Move assignment from another object: target, source and the release the target makes.\<close>

definition move_slot_lease ::
  "slot_lease_object \<Rightarrow> slot_lease_object \<Rightarrow> slot_lease_object \<times> slot_lease_object \<times> (u32 \<times> u64) option" where
  "move_slot_lease target source = (source, empty_slot_lease, snd (reset_slot_lease target))"

section \<open>The interleavings\<close>

text \<open>
  The state, the operations in flight and the slots whose lease objects are live.  An object is
  released once, with the generation of the state it came from.
\<close>

record pool_system =
  pool :: pool_leases
  flight :: "pool_op list"
  held :: "u32 list"

definition pool_start :: "pool_system \<Rightarrow> bool" where
  "pool_start s \<longleftrightarrow> (\<exists>n gen. s = \<lparr>pool = init_pool n gen, flight = [], held = []\<rparr>)"

definition settle :: "pool_op list \<Rightarrow> pool_leases \<Rightarrow> pool_op option \<Rightarrow> u32 option \<Rightarrow> pool_system \<Rightarrow> pool_system" where
  "settle rest p next got s =
     s\<lparr>pool := p, flight := (case next of None \<Rightarrow> rest | Some q \<Rightarrow> q # rest),
       held := (case got of None \<Rightarrow> held s | Some slot \<Rightarrow> slot # held s)\<rparr>"

inductive pool_step :: "pool_system \<Rightarrow> pool_system \<Rightarrow> bool" where
  acquire: "try_acquire_exchange slot (pool s) = (p, next) \<Longrightarrow> pool_step s (settle (flight s) p next None s)"
| turn: "flight s = before @ op # after \<Longrightarrow> pool_turn spurious op (pool s) = (p, next, got) \<Longrightarrow>
     pool_step s (settle (before @ after) p next got s)"
| release: "slot \<in> set (held s) \<Longrightarrow> release_sub slot (generation (pool s)) (pool s) = (p, next) \<Longrightarrow>
     pool_step s (settle (flight s) p next None (s\<lparr>held := remove1 slot (held s)\<rparr>))"

text \<open>The slot an acquisition in flight will hold, and whether it is already counted.\<close>

fun op_slot :: "pool_op \<Rightarrow> u32 list" where
  "op_slot (AcquireAdd slot) = [slot]"
| "op_slot (MaxLoad slot a) = [slot]"
| "op_slot (MaxExchange slot a c) = [slot]"
| "op_slot (MinLoad slot f) = [slot]"
| "op_slot (MinExchange slot f c) = [slot]"
| "op_slot _ = []"

fun op_counted :: "pool_op \<Rightarrow> nat" where
  "op_counted (AcquireAdd slot) = 0"
| "op_counted (ReleaseRepair slot) = 0"
| "op_counted ReleaseCount = 0"
| "op_counted _ = 1"

fun op_mismatch :: "pool_op \<Rightarrow> bool" where
  "op_mismatch (ReleaseRepair slot) = True"
| "op_mismatch ReleaseCount = True"
| "op_mismatch _ = False"

definition in_use :: "pool_system \<Rightarrow> u32 list" where
  "in_use s = held s @ concat (map op_slot (flight s))"

definition pool_inv :: "pool_system \<Rightarrow> bool" where
  "pool_inv s \<longleftrightarrow> length (slotLeases (pool s)) = unat (slotCount (pool s)) \<and>
     distinct (in_use s) \<and> (\<forall>x\<in>set (in_use s). x < slotCount (pool s)) \<and>
     (\<forall>x. x < slotCount (pool s) \<longrightarrow> slot_lease (pool s) x = (if x \<in> set (in_use s) then 1 else 0)) \<and>
     leasedCurrent (pool s) = of_nat (length (held s) + sum_list (map op_counted (flight s))) \<and>
     list_all (\<lambda>op. \<not> op_mismatch op) (flight s) \<and> releaseMismatchCount (pool s) = 0"

lemma slot_lease_set:
  assumes "length (slotLeases p) = unat (slotCount p)" "x < slotCount p"
  shows "slot_lease (set_slot_lease slot v p) x = (if x = slot then v else slot_lease p x)"
  using assms by (auto simp: slot_lease_def set_slot_lease_def nth_list_update word_less_nat_alt unat_eq_iff)

lemma set_slot_lease_fields [simp]:
  "slotCount (set_slot_lease slot v p) = slotCount p" "length (slotLeases (set_slot_lease slot v p)) = length (slotLeases p)"
  "leasedCurrent (set_slot_lease slot v p) = leasedCurrent p"
  "releaseMismatchCount (set_slot_lease slot v p) = releaseMismatchCount p"
  "generation (set_slot_lease slot v p) = generation p"
  by (simp_all add: set_slot_lease_def)

lemma turn_facts:
  assumes "pool_turn spurious op p = (p', next, got)" "\<not> op_mismatch op"
  shows "slotLeases p' = slotLeases p \<and> slotCount p' = slotCount p \<and>
    releaseMismatchCount p' = releaseMismatchCount p \<and> generation p' = generation p \<and>
    (case next of None \<Rightarrow> True | Some q \<Rightarrow> \<not> op_mismatch q) \<and>
    op_slot op = (case got of None \<Rightarrow> [] | Some x \<Rightarrow> [x]) @ (case next of None \<Rightarrow> [] | Some q \<Rightarrow> op_slot q) \<and>
    leasedCurrent p' - of_nat ((case got of None \<Rightarrow> 0 | Some x \<Rightarrow> 1) + (case next of None \<Rightarrow> 0 | Some q \<Rightarrow> op_counted q)) =
      leasedCurrent p - of_nat (op_counted op)"
  using assms by (cases op) (auto simp: Let_def split: if_splits)

lemma settle_in_use:
  "in_use (settle rest p next got s) = (case got of None \<Rightarrow> [] | Some x \<Rightarrow> [x]) @ held s @
     (case next of None \<Rightarrow> [] | Some q \<Rightarrow> op_slot q) @ concat (map op_slot rest)"
  by (simp add: in_use_def settle_def split: option.split)

lemma settle_fields [simp]:
  "pool (settle rest p next got s) = p"
  "flight (settle rest p next got s) = (case next of None \<Rightarrow> rest | Some q \<Rightarrow> q # rest)"
  "held (settle rest p next got s) = (case got of None \<Rightarrow> held s | Some x \<Rightarrow> x # held s)"
  by (simp_all add: settle_def)


text \<open>What a step may do to the leases, told by its difference in slots in use and in counted leases.\<close>

lemma pool_inv_settle:
  assumes inv: "pool_inv s" and len: "length (slotLeases p) = unat (slotCount p)" and count: "slotCount p = slotCount (pool s)"
    and mismatch: "releaseMismatchCount p = 0" "list_all (\<lambda>op. \<not> op_mismatch op) (flight (settle rest p next got s'))"
    and used: "distinct (in_use (settle rest p next got s'))"
    and known: "\<forall>x\<in>set (in_use (settle rest p next got s')). x < slotCount (pool s)"
    and leases: "\<And>x. x < slotCount (pool s) \<Longrightarrow>
      slot_lease p x = (if x \<in> set (in_use (settle rest p next got s')) then 1 else 0)"
    and current: "leasedCurrent p = of_nat (length (held (settle rest p next got s')) +
      sum_list (map op_counted (flight (settle rest p next got s'))))"
  shows "pool_inv (settle rest p next got s')"
  using assms unfolding pool_inv_def by simp

lemma in_use_flight: "in_use s = held s @ concat (map op_slot (flight s))"
  by (rule in_use_def)

lemma acquire_keeps_inv:
  assumes "pool_inv s" "try_acquire_exchange slot (pool s) = (p, next)"
  shows "pool_inv (settle (flight s) p next None s)"
proof (cases "known_slot (pool s) slot \<and> slot_lease (pool s) slot = 0")
  case False
  then have "p = pool s \<and> next = None" using assms(2) by (auto simp: try_acquire_exchange_def split: if_splits)
  then show ?thesis using assms(1) by (simp add: settle_def)
next
  case True
  then have step: "p = set_slot_lease slot 1 (pool s)" "next = Some (AcquireAdd slot)"
    using assms(2) by (auto simp: try_acquire_exchange_def)
  have known: "slot < slotCount (pool s)" using True by (simp add: known_slot_def)
  have free: "slot \<notin> set (in_use s)" using True known assms(1) by (auto simp: pool_inv_def split: if_splits)
  have D: "length (slotLeases (pool s)) = unat (slotCount (pool s))" "distinct (in_use s)"
    "\<forall>x\<in>set (in_use s). x < slotCount (pool s)"
    "\<forall>x. x < slotCount (pool s) \<longrightarrow> slot_lease (pool s) x = (if x \<in> set (in_use s) then 1 else 0)"
    using assms(1) by (auto simp: pool_inv_def)
  have used: "set (in_use (settle (flight s) p next None s)) = insert slot (set (in_use s))"
    by (auto simp: settle_in_use step in_use_flight)
  show ?thesis
  proof (rule pool_inv_settle [OF assms(1)])
    show "distinct (in_use (settle (flight s) p next None s))"
      using D(2) free by (auto simp: settle_in_use step in_use_flight)
    show "\<forall>x\<in>set (in_use (settle (flight s) p next None s)). x < slotCount (pool s)"
      using D(3) known used by simp
    show "slot_lease p x = (if x \<in> set (in_use (settle (flight s) p next None s)) then 1 else 0)"
      if "x < slotCount (pool s)" for x
      unfolding used using D(1,4) that by (simp add: step slot_lease_set)
  qed (use assms(1) D(1) in \<open>simp_all add: step pool_inv_def\<close>)
qed

lemma turn_keeps_inv:
  assumes "pool_inv s" "flight s = before @ op # after" "pool_turn spurious op (pool s) = (p, next, got)"
  shows "pool_inv (settle (before @ after) p next got s)"
proof -
  have ok: "\<not> op_mismatch op" using assms(1,2) by (simp add: pool_inv_def)
  note F = turn_facts [OF assms(3) ok]
  have D: "distinct (in_use s)" "\<forall>x\<in>set (in_use s). x < slotCount (pool s)"
    "\<forall>x. x < slotCount (pool s) \<longrightarrow> slot_lease (pool s) x = (if x \<in> set (in_use s) then 1 else 0)"
    "list_all (\<lambda>op. \<not> op_mismatch op) (flight s)"
    "leasedCurrent (pool s) = of_nat (length (held s) + sum_list (map op_counted (flight s)))"
    using assms(1) by (simp_all add: pool_inv_def)
  have same: "mset (in_use (settle (before @ after) p next got s)) = mset (in_use s)"
    using F by (simp add: settle_in_use in_use_flight assms(2) ac_simps split: option.splits)
  have used: "set (in_use (settle (before @ after) p next got s)) = set (in_use s)"
    by (rule mset_eq_setD [OF same])
  show ?thesis
  proof (rule pool_inv_settle [OF assms(1)])
    show "distinct (in_use (settle (before @ after) p next got s))"
      using D(1) mset_eq_imp_distinct_iff [OF same] by blast
    show "\<forall>x\<in>set (in_use (settle (before @ after) p next got s)). x < slotCount (pool s)"
      unfolding used by (rule D(2))
    show "slot_lease p x = (if x \<in> set (in_use (settle (before @ after) p next got s)) then 1 else 0)"
      if "x < slotCount (pool s)" for x
      unfolding used using D(3) that F by (simp add: slot_lease_def)
    show "leasedCurrent p = of_nat (length (held (settle (before @ after) p next got s)) +
        sum_list (map op_counted (flight (settle (before @ after) p next got s))))"
      using F D(5) by (auto simp: assms(2) algebra_simps split: option.splits)
    show "list_all (\<lambda>op. \<not> op_mismatch op) (flight (settle (before @ after) p next got s))"
      using F D(4) by (auto simp: assms(2) split: option.splits)
  qed (use assms(1) F in \<open>simp_all add: pool_inv_def\<close>)
qed

lemma release_keeps_inv:
  assumes "pool_inv s" "slot \<in> set (held s)" "release_sub slot (generation (pool s)) (pool s) = (p, next)"
  shows "pool_inv (settle (flight s) p next None (s\<lparr>held := remove1 slot (held s)\<rparr>))"
proof -
  have D: "length (slotLeases (pool s)) = unat (slotCount (pool s))" "distinct (in_use s)"
    "\<forall>x\<in>set (in_use s). x < slotCount (pool s)"
    "\<forall>x. x < slotCount (pool s) \<longrightarrow> slot_lease (pool s) x = (if x \<in> set (in_use s) then 1 else 0)"
    "leasedCurrent (pool s) = of_nat (length (held s) + sum_list (map op_counted (flight s)))"
    using assms(1) by (simp_all add: pool_inv_def)
  have mem: "slot \<in> set (in_use s)" using assms(2) by (simp add: in_use_flight)
  have known: "slot < slotCount (pool s)" using D(3) mem by blast
  have lease: "slot_lease (pool s) slot = 1" using D(4) known mem by simp
  have "slotLeases (pool s) \<noteq> []" using D(1) known by (auto simp: word_less_nat_alt)
  then have step: "p = set_slot_lease slot 0 (pool s)" "next = Some ReleaseSub"
    using assms(3) known lease by (auto simp: release_sub_def known_slot_def Let_def)
  let ?t = "settle (flight s) p next None (s\<lparr>held := remove1 slot (held s)\<rparr>)"
  have used: "set (in_use ?t) = set (in_use s) - {slot}"
    using D(2) assms(2) by (auto simp: settle_in_use step in_use_flight)
  have len: "length (held s) = Suc (length (remove1 slot (held s)))"
    using assms(2) by (simp add: length_remove1) (metis length_pos_if_in_set Suc_pred)
  show ?thesis
  proof (rule pool_inv_settle [OF assms(1)])
    show "distinct (in_use ?t)"
      using D(2) set_remove1_subset [of slot "held s"] by (auto simp: settle_in_use step in_use_flight)
    show "\<forall>x\<in>set (in_use ?t). x < slotCount (pool s)" using D(3) used by simp
    show "slot_lease p x = (if x \<in> set (in_use ?t) then 1 else 0)" if "x < slotCount (pool s)" for x
      unfolding used using D(1,4) that by (simp add: step slot_lease_set)
    show "leasedCurrent p = of_nat (length (held ?t) + sum_list (map op_counted (flight ?t)))"
      using D(5) by (simp add: step len)
  qed (use assms(1) D(1) in \<open>simp_all add: step pool_inv_def\<close>)
qed

lemma pool_inv_step: "pool_step s t \<Longrightarrow> pool_inv s \<Longrightarrow> pool_inv t"
  by (induction rule: pool_step.induct)
    (blast intro: acquire_keeps_inv turn_keeps_inv release_keeps_inv)+

lemma pool_inv_start: "pool_start s \<Longrightarrow> pool_inv s"
  by (auto simp: pool_start_def pool_inv_def init_pool_def in_use_def slot_lease_def word_less_nat_alt)

interpretation pool_leasing: invariant_system pool_start pool_step pool_inv
  by unfold_locales (blast intro: pool_inv_start pool_inv_step)+

lemma distinct_words_below:
  assumes "distinct (xs :: 'w::len word list)" "\<forall>x\<in>set xs. x < n"
  shows "length xs \<le> unat n"
proof -
  have "set (map unat xs) \<subseteq> {..<unat n}" using assms(2) by (auto simp: word_less_nat_alt)
  moreover have "distinct (map unat xs)" using assms(1) by (simp add: distinct_map inj_on_def word_unat_eq_iff)
  ultimately show ?thesis using card_mono [of "{..<unat n}" "set (map unat xs)"]
    by (simp only: distinct_card) simp
qed

text \<open>C29: In every interleaving of acquisitions and releases no slot of the capture pool is leased
  twice, a slot reads as free exactly when no lease and no acquisition uses it, no release is ever
  counted as a mismatch, and at rest the count of leased slots is the number of live leases.\<close>

theorem pool_slots_leased_once:
  assumes "reachable_from pool_start pool_step s"
  shows "distinct (held s) \<and> (\<forall>slot\<in>set (held s). slot < slotCount (pool s)) \<and>
    (\<forall>slot < slotCount (pool s). slot_lease (pool s) slot = 0 \<longleftrightarrow> slot \<notin> set (in_use s)) \<and>
    releaseMismatchCount (pool s) = 0 \<and>
    (flight s = [] \<longrightarrow> unat (leasedCurrent (pool s)) = length (held s))"
proof -
  have inv: "pool_inv s" by (rule pool_leasing.reachable_inv [OF assms])
  have held: "distinct (held s)" "\<forall>slot\<in>set (held s). slot < slotCount (pool s)"
    using inv by (auto simp: pool_inv_def in_use_def)
  have "unat (slotCount (pool s)) < 2 ^ LENGTH(32)" by (rule unsigned_less)
  then have "length (held s) < 2 ^ 32" using distinct_words_below [OF held] by simp
  then have "flight s = [] \<longrightarrow> unat (leasedCurrent (pool s)) = length (held s)"
    using inv by (simp add: pool_inv_def unat_of_nat take_bit_nat_eq_self)
  then show ?thesis using inv held by (simp add: pool_inv_def)
qed

text \<open>A pool of two slots after one acquisition: the oldest operation in flight turns, five times.\<close>

definition turn_oldest :: "pool_system \<Rightarrow> pool_system" where
  "turn_oldest s = (let (p, next, got) = pool_turn False (hd (flight s)) (pool s) in settle (tl (flight s)) p next got s)"

definition acquiring :: pool_system where
  "acquiring = (let p = init_pool 2 7; (q, next) = try_acquire_exchange 1 p
     in settle [] q next None \<lparr>pool = p, flight = [], held = []\<rparr>)"

definition one_leased :: pool_system where
  "one_leased = (turn_oldest ^^ 5) acquiring"

lemma reachable_turn_oldest:
  "reachable_from pool_start pool_step s \<Longrightarrow> flight s \<noteq> [] \<Longrightarrow> reachable_from pool_start pool_step (turn_oldest s)"
  using turn [of s "[]" "hd (flight s)" "tl (flight s)"]
  by (auto simp: turn_oldest_def split: prod.split intro: more)

lemma reachable_turns:
  assumes "reachable_from pool_start pool_step s"
  shows "list_all (\<lambda>k. flight ((turn_oldest ^^ k) s) \<noteq> []) [0..<n] \<Longrightarrow>
    reachable_from pool_start pool_step ((turn_oldest ^^ n) s)"
  using assms by (induction n) (simp_all add: reachable_turn_oldest)

lemma one_leased_reachable: "reachable_from pool_start pool_step one_leased"
  unfolding one_leased_def
proof (rule reachable_turns)
  let ?a = "\<lparr>pool = init_pool 2 7, flight = [], held = []\<rparr>"
  have "reachable_from pool_start pool_step ?a" by (rule start) (auto simp: pool_start_def)
  from more [OF this acquire [where slot = 1, OF surjective_pairing]]
  show "reachable_from pool_start pool_step acquiring"
    unfolding acquiring_def by (simp add: Let_def case_prod_beta)
  show "list_all (\<lambda>k. flight ((turn_oldest ^^ k) acquiring) \<noteq> []) [0..<5]" by code_simp
qed

theorem pool_slots_leased_once_witness:
  "distinct (held one_leased) \<and> slot_lease (pool one_leased) 0 = 0 \<and> unat (leasedCurrent (pool one_leased)) = 1"
proof -
  have "held one_leased = [1]" "flight one_leased = []" "slotCount (pool one_leased) = 2" by code_simp+
  then show ?thesis
    using pool_slots_leased_once [OF one_leased_reachable] by (simp add: in_use_def)
qed

end
