(* ===== verification/SourceReads.thy ===== *)
theory SourceReads
  imports FrameRing "HOL-Library.Multiset"
begin

text \<open>
  Why a frame the encoder has accepted still occupies its ring slot: leases with shared ownership
  (\<open>src/common/capture/inject_frame_ring_lease.h\<close>) wait in a queue until the GPU has read the
  source texture (\<open>inject_source_read_release.h\<close>), where
  \<open>captureengine/media/inject_source_read.cpp\<close> puts them.  Whether a token has completed and whether
  its event can be armed are answers of the media engine: arguments of the operations.  The last
  part joins them to the frame ring.
\<close>

section \<open>Leases\<close>

text \<open>
  A lease has the state it came from, or the box it shares with others, or neither.  The boxes that
  \<open>make_shared\<close> allocated are numbered in the order of their allocation and counted by their users; a
  destroyed box keeps its number and count zero.
\<close>

record inject_lease =
  leaseState :: bool
  sharedLease :: "nat option"
  ringIndex :: u32

record lease_box =
  boxed :: inject_lease
  useCount :: nat

definition no_inject_lease :: inject_lease where
  "no_inject_lease = \<lparr>leaseState = False, sharedLease = None, ringIndex = 0\<rparr>"

definition lease_set :: "inject_lease \<Rightarrow> bool" where
  "lease_set l \<longleftrightarrow> leaseState l \<or> sharedLease l \<noteq> None"

text \<open>\<open>InjectFrameRingLeaseState::Acquire\<close>.\<close>

definition acquire_lease :: "u32 \<Rightarrow> inject_lease" where
  "acquire_lease i = \<lparr>leaseState = True, sharedLease = None, ringIndex = i\<rparr>"

text \<open>\<open>Complete\<close> is a no-op after \<open>Detach\<close>.\<close>

definition state_complete :: "bool \<Rightarrow> (nat \<Rightarrow> bool) \<Rightarrow> frame_ring \<Rightarrow> u32 \<Rightarrow> frame_ring" where
  "state_complete attached cas r i = (if attached then complete_inject_frame_ring_slot cas r i else r)"

text \<open>
  The calls of \<open>Complete\<close> that resetting a lease without box makes.  A boxed lease never has a box
  itself, because \<open>Share\<close> boxes a lease only when it has none.
\<close>

definition complete_calls :: "inject_lease \<Rightarrow> u32 list" where
  "complete_calls l = (if leaseState l then [ringIndex l] else [])"

definition drop_box :: "nat \<Rightarrow> lease_box list \<Rightarrow> lease_box list \<times> u32 list" where
  "drop_box b bs =
     (let box = bs ! b
      in if useCount box = 1 then (bs[b := \<lparr>boxed = no_inject_lease, useCount = 0\<rparr>], complete_calls (boxed box))
         else (bs[b := box\<lparr>useCount := useCount box - 1\<rparr>], []))"

definition reset_inject_lease :: "inject_lease \<Rightarrow> lease_box list \<Rightarrow> inject_lease \<times> lease_box list \<times> u32 list" where
  "reset_inject_lease l bs =
     (let (bs, calls) = (case sharedLease l of None \<Rightarrow> (bs, []) | Some b \<Rightarrow> drop_box b bs)
      in (no_inject_lease, bs, calls @ complete_calls l))"

text \<open>Move assignment: target, source, boxes and the calls that the reset of the target makes.\<close>

definition assign_inject_lease ::
  "inject_lease \<Rightarrow> inject_lease \<Rightarrow> lease_box list \<Rightarrow> inject_lease \<times> inject_lease \<times> lease_box list \<times> u32 list" where
  "assign_inject_lease target source bs =
     (case reset_inject_lease target bs of (_, bs, calls) \<Rightarrow> (source, no_inject_lease, bs, calls))"

text \<open>\<open>Share\<close>: this lease and the one returned.\<close>

definition share_inject_lease ::
  "inject_lease \<Rightarrow> lease_box list \<Rightarrow> inject_lease \<times> inject_lease \<times> lease_box list" where
  "share_inject_lease l bs =
     (if \<not> lease_set l then (l, no_inject_lease, bs)
      else let (l, bs) = (case sharedLease l of
                 Some b \<Rightarrow> (l, bs)
               | None \<Rightarrow> (\<lparr>leaseState = False, sharedLease = Some (length bs), ringIndex = ringIndex l\<rparr>,
                          bs @ [\<lparr>boxed = l, useCount = 1\<rparr>]));
               b = the (sharedLease l)
           in (l, \<lparr>leaseState = False, sharedLease = Some b, ringIndex = ringIndex l\<rparr>,
               bs[b := (bs ! b)\<lparr>useCount := useCount (bs ! b) + 1\<rparr>]))"

text \<open>\<open>Abandon\<close>, with the slots that lose their owner.\<close>

definition abandon_inject_lease ::
  "inject_lease \<Rightarrow> lease_box list \<Rightarrow> inject_lease \<times> lease_box list \<times> u32 list" where
  "abandon_inject_lease l bs =
     (let (bs, left) = (case sharedLease l of None \<Rightarrow> (bs, [])
        | Some b \<Rightarrow> (fst (drop_box b (bs[b := (bs ! b)\<lparr>boxed := no_inject_lease\<rparr>])), complete_calls (boxed (bs ! b))))
      in (no_inject_lease, bs, left @ complete_calls l))"

section \<open>The queue of pending reads\<close>

record read_window =
  deferred :: u32
  immediate :: u32
  released :: u32
  armFailures :: u32
  maxPending :: u32
  maxHoldQpc :: int

record 't read_entry =
  entryToken :: 't
  entryLease :: inject_lease
  deferredQpc :: int

record 't read_queue =
  hasEvent :: bool
  entries :: "'t read_entry list"
  readWindow :: read_window
  readTotal :: read_window

definition no_reads :: read_window where
  "no_reads = \<lparr>deferred = 0, immediate = 0, released = 0, armFailures = 0, maxPending = 0, maxHoldQpc = 0\<rparr>"

definition create_read_queue :: "bool \<Rightarrow> 't read_queue" where
  "create_read_queue event = \<lparr>hasEvent = event, entries = [], readWindow = no_reads, readTotal = no_reads\<rparr>"

text \<open>The window and the totals are always updated alike.\<close>

definition note_both :: "(read_window \<Rightarrow> read_window) \<Rightarrow> 't read_queue \<Rightarrow> 't read_queue" where
  "note_both f q = q\<lparr>readWindow := f (readWindow q), readTotal := f (readTotal q)\<rparr>"

definition note_hold :: "'t read_entry \<Rightarrow> int \<Rightarrow> 't read_queue \<Rightarrow> 't read_queue" where
  "note_hold e now q =
     (if now \<le> 0 \<or> deferredQpc e \<le> 0 \<or> now < deferredQpc e then q
      else note_both (\<lambda>w. w\<lparr>maxHoldQpc := max (maxHoldQpc w) (now - deferredQpc e)\<rparr>) q)"

text \<open>\<open>Defer\<close> for a token with the given answers: the queue, the boxes and the calls of \<open>Complete\<close>.\<close>

definition defer_lease ::
  "('t \<Rightarrow> bool) \<Rightarrow> ('t \<Rightarrow> bool) \<Rightarrow> inject_lease \<Rightarrow> 't \<Rightarrow> int \<Rightarrow> 't read_queue \<Rightarrow> lease_box list
     \<Rightarrow> 't read_queue \<times> lease_box list \<times> u32 list" where
  "defer_lease completed armed l token now q bs =
     (if \<not> lease_set l then (q, bs, [])
      else if completed token
      then (note_both (\<lambda>w. w\<lparr>immediate := immediate w + 1\<rparr>) q, snd (reset_inject_lease l bs))
      else let q = (if \<not> hasEvent q \<or> \<not> armed token
                    then note_both (\<lambda>w. w\<lparr>armFailures := armFailures w + 1\<rparr>) q else q);
               q = q\<lparr>entries := entries q @ [\<lparr>entryToken = token, entryLease = l, deferredQpc = now\<rparr>]\<rparr>;
               q = note_both (\<lambda>w. w\<lparr>deferred := deferred w + 1\<rparr>) q;
               pending = of_nat (length (entries q))
           in (note_both (\<lambda>w. w\<lparr>maxPending := max (maxPending w) pending\<rparr>) q, bs, []))"

text \<open>The loop of \<open>ReleaseCompleted\<close>: what is kept, and how many entries were released.\<close>

fun release_entries ::
  "('t \<Rightarrow> bool) \<Rightarrow> int \<Rightarrow> 't read_entry list \<Rightarrow> 't read_queue \<Rightarrow> lease_box list
     \<Rightarrow> 't read_entry list \<times> 't read_queue \<times> lease_box list \<times> u32 list \<times> nat" where
  "release_entries completed now [] q bs = ([], q, bs, [], 0)"
| "release_entries completed now (e # es) q bs =
     (if \<not> completed (entryToken e)
      then case release_entries completed now es q bs of (kept, r) \<Rightarrow> (e # kept, r)
      else let q = note_hold e now q; (_, bs, calls) = reset_inject_lease (entryLease e) bs
           in case release_entries completed now es q bs of (kept, q, bs, later, n) \<Rightarrow>
                (kept, q, bs, calls @ later, n + 1))"

definition release_completed ::
  "('t \<Rightarrow> bool) \<Rightarrow> int \<Rightarrow> 't read_queue \<Rightarrow> lease_box list
     \<Rightarrow> 't read_queue \<times> lease_box list \<times> u32 list \<times> nat" where
  "release_completed completed now q bs =
     (case release_entries completed now (entries q) q bs of (kept, q, bs, calls, n) \<Rightarrow>
        (note_both (\<lambda>w. w\<lparr>released := released w + of_nat n\<rparr>) (q\<lparr>entries := kept\<rparr>), bs, calls, n))"

definition pending_reads :: "'t read_queue \<Rightarrow> nat" where
  "pending_reads q = length (entries q)"

definition take_window :: "'t read_queue \<Rightarrow> 't read_queue \<times> read_window" where
  "take_window q = (q\<lparr>readWindow := no_reads\<rparr>, readWindow q)"

text \<open>
  \<open>Drain\<close>, over what it sees in each turn of its loop: the clock, the tokens, the elapsed time and
  whether the wait failed.  Nothing is returned while it has not seen enough.
\<close>

record 't drain_turn =
  turnQpc :: int
  turnCompleted :: "'t \<Rightarrow> bool"
  turnElapsedMs :: nat
  waitFailed :: bool

fun drain_reads ::
  "nat \<Rightarrow> 't drain_turn list \<Rightarrow> 't read_queue \<Rightarrow> lease_box list
     \<Rightarrow> 't read_queue \<times> lease_box list \<times> u32 list \<times> bool option" where
  "drain_reads timeoutMs [] q bs = (q, bs, [], None)"
| "drain_reads timeoutMs (t # ts) q bs =
     (case release_completed (turnCompleted t) (turnQpc t) q bs of (q, bs, calls, _) \<Rightarrow>
        if pending_reads q = 0 then (q, bs, calls, Some True)
        else if \<not> hasEvent q \<or> timeoutMs \<le> turnElapsedMs t then (q, bs, calls, Some False)
        else if waitFailed t then (q, bs, calls, Some False)
        else case drain_reads timeoutMs ts q bs of (q, bs, later, r) \<Rightarrow> (q, bs, calls @ later, r))"

text \<open>The destructor: the boxes and the slots that lose their owner.\<close>

fun abandon_entries :: "'t read_entry list \<Rightarrow> lease_box list \<Rightarrow> lease_box list \<times> u32 list" where
  "abandon_entries [] bs = (bs, [])"
| "abandon_entries (e # es) bs =
     (case abandon_inject_lease (entryLease e) bs of (_, bs, left) \<Rightarrow>
        (case abandon_entries es bs of (bs, later) \<Rightarrow> (bs, left @ later)))"

definition destroy_read_queue :: "'t read_queue \<Rightarrow> lease_box list \<Rightarrow> 't read_queue \<times> lease_box list \<times> u32 list" where
  "destroy_read_queue q bs =
     (case abandon_entries (entries q) bs of (bs, left) \<Rightarrow> (q\<lparr>entries := []\<rparr>, bs, left))"

section \<open>The encoder's calls\<close>

text \<open>\<open>InjectSourceReadToken\<close>; a function pointer that could not be resolved is \<^const>\<open>None\<close>.\<close>

record source_read_token =
  tokenEngine :: u64
  tokenSequence :: u64
  isCompleteFn :: "(u64 \<Rightarrow> u64 \<Rightarrow> bool) option"
  setsWakeEvent :: bool

definition token_completed :: "source_read_token \<Rightarrow> bool" where
  "token_completed t \<longleftrightarrow> tokenSequence t \<noteq> 0 \<and>
     (case isCompleteFn t of None \<Rightarrow> False | Some f \<Rightarrow> f (tokenEngine t) (tokenSequence t))"

definition token_arm_event :: "source_read_token \<Rightarrow> bool" where
  "token_arm_event t = setsWakeEvent t"

text \<open>
  \<open>DeferInjectLeaseUntilSourceRead\<close>: the token that could be taken, if any, whether the submission
  retains the frame for a retry, and the lease of the frame before and after.
\<close>

definition defer_inject_lease_until_source_read ::
  "bool \<Rightarrow> 't option \<Rightarrow> bool \<Rightarrow> ('t \<Rightarrow> bool) \<Rightarrow> ('t \<Rightarrow> bool) \<Rightarrow> int \<Rightarrow> inject_lease \<Rightarrow> 't read_queue
     \<Rightarrow> lease_box list \<Rightarrow> inject_lease \<times> 't read_queue \<times> lease_box list \<times> u32 list" where
  "defer_inject_lease_until_source_read injectMode taken retain completed armed now l q bs =
     (if \<not> injectMode then (l, q, bs, [])
      else case taken of
        None \<Rightarrow> (l, q, bs, [])
      | Some token \<Rightarrow>
          if \<not> lease_set l then (l, q, bs, [])
          else if retain
          then case share_inject_lease l bs of (l, shared, bs) \<Rightarrow> (l, defer_lease completed armed shared token now q bs)
          else (no_inject_lease, defer_lease completed armed l token now q bs))"

definition release_completed_inject_source_reads ::
  "('t \<Rightarrow> bool) \<Rightarrow> int \<Rightarrow> 't read_queue \<Rightarrow> lease_box list \<Rightarrow> 't read_queue \<times> lease_box list \<times> u32 list" where
  "release_completed_inject_source_reads completed now q bs =
     (if pending_reads q = 0 then (q, bs, [])
      else case release_completed completed now q bs of (q, bs, calls, _) \<Rightarrow> (q, bs, calls))"

section \<open>Who owns a slot\<close>

text \<open>
  A lease world is the multiset of live leases with the boxes and the slots without owner.  Its
  slots are those of the leases with a state and of the boxed leases.
\<close>

definition users :: "nat \<Rightarrow> inject_lease multiset \<Rightarrow> nat" where
  "users b G = size (filter_mset (\<lambda>l. sharedLease l = Some b) G)"

definition box_slots :: "lease_box list \<Rightarrow> u32 multiset" where
  "box_slots bs = mset (concat (map (complete_calls \<circ> boxed) bs))"

definition owned_slots :: "inject_lease multiset \<Rightarrow> lease_box list \<Rightarrow> u32 multiset" where
  "owned_slots G bs = (\<Sum>l\<in>#G. mset (complete_calls l)) + box_slots bs"

definition lease_ok :: "lease_box list \<Rightarrow> u32 list \<Rightarrow> inject_lease \<Rightarrow> bool" where
  "lease_ok bs stuck l \<longleftrightarrow> (case sharedLease l of None \<Rightarrow> True | Some b \<Rightarrow> \<not> leaseState l \<and> b < length bs \<and>
     (if leaseState (boxed (bs ! b)) then ringIndex (boxed (bs ! b)) = ringIndex l else ringIndex l \<in> set stuck))"

definition box_ok :: "inject_lease multiset \<Rightarrow> nat \<Rightarrow> lease_box \<Rightarrow> bool" where
  "box_ok G b box \<longleftrightarrow> useCount box = users b G \<and> sharedLease (boxed box) = None \<and>
     (useCount box = 0 \<longrightarrow> \<not> leaseState (boxed box))"

definition lease_world :: "inject_lease multiset \<Rightarrow> lease_box list \<Rightarrow> u32 list \<Rightarrow> bool" where
  "lease_world G bs stuck \<longleftrightarrow> (\<forall>l\<in>#G. lease_ok bs stuck l) \<and> (\<forall>b < length bs. box_ok G b (bs ! b))"

lemma users_simps [simp]:
  "users b {#} = 0"
  "users b (add_mset l G) = (if sharedLease l = Some b then Suc (users b G) else users b G)"
  by (simp_all add: users_def)

lemma users_pos: "l \<in># G \<Longrightarrow> sharedLease l = Some b \<Longrightarrow> 0 < users b G"
  by (auto simp: users_def nonempty_has_size [symmetric])

lemma owned_slots_add [simp]:
  "owned_slots (add_mset l G) bs = mset (complete_calls l) + owned_slots G bs"
  by (simp add: owned_slots_def)

lemma box_slots_update:
  assumes "b < length bs"
  shows "box_slots (bs[b := box]) + mset (complete_calls (boxed (bs ! b))) = box_slots bs + mset (complete_calls (boxed box))"
proof -
  let ?f = "complete_calls \<circ> boxed" and ?l = "take b bs" and ?r = "drop (Suc b) bs"
  have "box_slots bs = box_slots (?l @ bs ! b # ?r)" using assms by (simp add: id_take_nth_drop [symmetric])
  moreover have "box_slots (bs[b := box]) = box_slots (?l @ box # ?r)" using assms by (simp add: upd_conv_take_nth_drop)
  ultimately show ?thesis by (simp add: box_slots_def)
qed

lemma no_inject_lease_simps [simp]:
  "leaseState no_inject_lease = False" "sharedLease no_inject_lease = None" "ringIndex no_inject_lease = 0"
  "complete_calls no_inject_lease = []" "\<not> lease_set no_inject_lease"
  by (simp_all add: no_inject_lease_def complete_calls_def lease_set_def)

lemma world_no_lease: "lease_world (add_mset no_inject_lease G) bs stuck \<longleftrightarrow> lease_world G bs stuck"
  by (simp add: lease_world_def lease_ok_def box_ok_def)

lemma world_more_stuck: "lease_world G bs stuck \<Longrightarrow> lease_world G bs (xs @ stuck)"
  by (auto simp: lease_world_def lease_ok_def split: option.splits if_splits)

lemma world_stuck_cong: "set stuck = set stuck' \<Longrightarrow> lease_world G bs stuck \<longleftrightarrow> lease_world G bs stuck'"
  by (simp add: lease_world_def lease_ok_def cong: option.case_cong if_cong)

text \<open>Dropping one use of a box.\<close>

lemma drop_box_world:
  assumes W: "lease_world (add_mset l G) bs stuck" and l: "sharedLease l = Some b"
    and drop: "drop_box b bs = (bs', calls)"
  shows "lease_world G bs' stuck \<and> box_slots bs = box_slots bs' + mset calls"
proof -
  have b: "b < length bs" "box_ok (add_mset l G) b (bs ! b)" using W l by (auto simp: lease_world_def lease_ok_def)
  then have count: "useCount (bs ! b) = Suc (users b G)" using l by (simp add: box_ok_def)
  show ?thesis
  proof (cases "users b G = 0")
    case True
    then have bs': "bs' = bs[b := \<lparr>boxed = no_inject_lease, useCount = 0\<rparr>]" "calls = complete_calls (boxed (bs ! b))"
      using drop count by (simp_all add: drop_box_def Let_def)
    have "sharedLease m \<noteq> Some b" if "m \<in># G" for m using users_pos [OF that] True by auto
    then have "lease_world G bs' stuck"
      using W True l unfolding lease_world_def bs'
      by (auto simp: lease_ok_def box_ok_def nth_list_update split: option.splits if_splits)
    moreover have "box_slots bs = box_slots bs' + mset calls"
      using box_slots_update [OF b(1), of "\<lparr>boxed = no_inject_lease, useCount = 0\<rparr>"] bs' by simp
    ultimately show ?thesis by blast
  next
    case False
    then have bs': "bs' = bs[b := (bs ! b)\<lparr>useCount := users b G\<rparr>]" "calls = []"
      using drop count by (simp_all add: drop_box_def Let_def)
    have "lease_world G bs' stuck"
      using W False l b(2) unfolding lease_world_def bs'
      by (auto simp: lease_ok_def box_ok_def nth_list_update split: option.splits if_splits)
    moreover have "box_slots bs = box_slots bs'"
      using box_slots_update [OF b(1), of "(bs ! b)\<lparr>useCount := users b G\<rparr>"] bs' by simp
    ultimately show ?thesis using bs' by simp
  qed
qed

lemma world_without_box:
  "lease_world (add_mset l G) bs stuck \<Longrightarrow> sharedLease l = None \<Longrightarrow> lease_world G bs stuck"
  by (simp add: lease_world_def box_ok_def)

lemma reset_world:
  assumes W: "lease_world (add_mset l G) bs stuck" and reset: "reset_inject_lease l bs = (l', bs', calls)"
  shows "l' = no_inject_lease \<and> lease_world G bs' stuck \<and> owned_slots (add_mset l G) bs = owned_slots G bs' + mset calls"
proof (cases "sharedLease l")
  case None
  then show ?thesis using reset world_without_box [OF W] by (auto simp: reset_inject_lease_def)
next
  case (Some b)
  obtain cs where drop: "drop_box b bs = (bs', cs)" "calls = cs @ complete_calls l" "l' = no_inject_lease"
    using reset Some by (auto simp: reset_inject_lease_def split: prod.splits)
  from drop_box_world [OF W Some drop(1)] show ?thesis
    using drop by (simp add: owned_slots_def)
qed

lemma abandon_world:
  assumes W: "lease_world (add_mset l G) bs stuck" and abandon: "abandon_inject_lease l bs = (l', bs', left)"
  shows "l' = no_inject_lease \<and> lease_world G bs' (left @ stuck) \<and>
    owned_slots (add_mset l G) bs = owned_slots G bs' + mset left \<and> (lease_set l \<longrightarrow> ringIndex l \<in> set (left @ stuck))"
proof (cases "sharedLease l")
  case None
  then show ?thesis using abandon world_more_stuck [OF world_without_box [OF W]]
    by (auto simp: abandon_inject_lease_def complete_calls_def lease_set_def)
next
  case (Some b)
  let ?e = "bs[b := (bs ! b)\<lparr>boxed := no_inject_lease\<rparr>]"
  have b: "b < length bs" "\<not> leaseState l" using W Some by (auto simp: lease_world_def lease_ok_def)
  obtain cs where drop: "drop_box b ?e = (bs', cs)" "left = complete_calls (boxed (bs ! b))" "l' = no_inject_lease"
    using abandon Some b(2) by (cases "drop_box b ?e") (auto simp: abandon_inject_lease_def complete_calls_def)
  have E: "lease_world (add_mset l G) ?e (left @ stuck)"
    using W b(1) unfolding lease_world_def drop(2)
    by (auto simp: lease_ok_def box_ok_def nth_list_update complete_calls_def split: option.splits if_splits)
  note D = drop_box_world [OF E Some drop(1)]
  have "cs = []" using drop(1) b(1) by (auto simp: drop_box_def Let_def split: if_splits)
  moreover have "box_slots ?e + mset left = box_slots bs"
    using box_slots_update [OF b(1), of "(bs ! b)\<lparr>boxed := no_inject_lease\<rparr>"] drop(2) by simp
  moreover have "ringIndex l \<in> set (left @ stuck)"
    using W Some drop(2) by (auto simp: lease_world_def lease_ok_def complete_calls_def split: if_splits)
  ultimately show ?thesis using D drop(3) b(2) by (simp add: owned_slots_def complete_calls_def)
qed

lemma box_slots_count [simp]:
  "b < length bs \<Longrightarrow> box_slots (bs[b := (bs ! b)\<lparr>useCount := n\<rparr>]) = box_slots bs"
  using box_slots_update [of b bs "(bs ! b)\<lparr>useCount := n\<rparr>"] by simp

lemma share_again_world:
  assumes "lease_world (add_mset l G) bs stuck" "sharedLease l = Some b"
  shows "lease_world (add_mset l (add_mset \<lparr>leaseState = False, sharedLease = Some b, ringIndex = ringIndex l\<rparr> G))
    (bs[b := (bs ! b)\<lparr>useCount := useCount (bs ! b) + 1\<rparr>]) stuck"
  using assms unfolding lease_world_def
  by (auto simp: lease_ok_def box_ok_def nth_list_update split: option.splits if_splits)

lemma share_first_world:
  assumes "lease_world (add_mset l G) bs stuck" "sharedLease l = None" "leaseState l"
  shows "lease_world (add_mset \<lparr>leaseState = False, sharedLease = Some (length bs), ringIndex = ringIndex l\<rparr> G)
    (bs @ [\<lparr>boxed = l, useCount = 1\<rparr>]) stuck"
proof -
  have "users (length bs) G = 0"
    using assms(1) users_pos [of _ G "length bs"] unfolding users_def
    by (fastforce simp: lease_world_def lease_ok_def dest: multi_nonempty_split)
  then show ?thesis using assms unfolding lease_world_def
    by (auto simp: lease_ok_def box_ok_def nth_append less_Suc_eq split: option.splits if_splits)
qed

lemma share_world:
  assumes W: "lease_world (add_mset l G) bs stuck" and l: "lease_set l" and share: "share_inject_lease l bs = (l1, l2, bs')"
  shows "lease_world (add_mset l1 (add_mset l2 G)) bs' stuck \<and>
    owned_slots (add_mset l1 (add_mset l2 G)) bs' = owned_slots (add_mset l G) bs \<and>
    lease_set l2 \<and> ringIndex l2 = ringIndex l"
proof (cases "sharedLease l")
  case (Some b)
  then have "b < length bs" "\<not> leaseState l" using W by (auto simp: lease_world_def lease_ok_def)
  then show ?thesis using share_again_world [OF W Some] share l Some
    by (auto simp: share_inject_lease_def owned_slots_def complete_calls_def lease_set_def)
next
  case None
  then have s: "leaseState l" using l by (simp add: lease_set_def)
  let ?l = "\<lparr>leaseState = False, sharedLease = Some (length bs), ringIndex = ringIndex l\<rparr>"
    and ?bs = "bs @ [\<lparr>boxed = l, useCount = 1\<rparr>]"
  note W = share_again_world [OF share_first_world [OF W None s], of "length bs"]
  have eq: "l1 = ?l" "l2 = ?l" "bs' = ?bs[length bs := (?bs ! length bs)\<lparr>useCount := useCount (?bs ! length bs) + 1\<rparr>]"
    using share l None by (auto simp: share_inject_lease_def Let_def)
  have "box_slots bs' = box_slots ?bs" unfolding eq(3) by (rule box_slots_count) simp
  then have "box_slots bs' = box_slots bs + mset (complete_calls l)" by (simp add: box_slots_def)
  moreover have "complete_calls ?l = []" by (simp add: complete_calls_def)
  ultimately show ?thesis using W unfolding eq(1,2) by (simp add: eq(3) owned_slots_def lease_set_def)
qed

text \<open>A live lease keeps its slot owned.\<close>

lemma set_lease_owned:
  assumes "lease_world G bs stuck" "l \<in># G" "lease_set l"
  shows "ringIndex l \<in># owned_slots G bs \<or> ringIndex l \<in> set stuck"
proof (cases "sharedLease l")
  case None
  then have "ringIndex l \<in># (\<Sum>l\<in>#G. mset (complete_calls l))"
    using assms(2,3) by (auto simp: lease_set_def complete_calls_def)
  then show ?thesis by (simp add: owned_slots_def)
next
  case (Some b)
  then have b: "b < length bs" "leaseState (boxed (bs ! b)) \<Longrightarrow> ringIndex (boxed (bs ! b)) = ringIndex l"
    "\<not> leaseState (boxed (bs ! b)) \<Longrightarrow> ringIndex l \<in> set stuck"
    using assms(1,2) by (auto simp: lease_world_def lease_ok_def split: if_splits)
  have "ringIndex l \<in># box_slots bs" if "leaseState (boxed (bs ! b))"
    using b(1,2) that nth_mem [OF b(1)] by (force simp: box_slots_def complete_calls_def)
  then show ?thesis using b(3) by (auto simp: owned_slots_def)
qed

section \<open>The queue's operations on leases\<close>

lemma entries_note [simp]:
  "entries (note_both f q) = entries q" "entries (note_hold e now q) = entries q"
  by (simp_all add: note_both_def note_hold_def)

abbreviation entry_leases :: "'t read_entry list \<Rightarrow> inject_lease multiset" where
  "entry_leases es \<equiv> image_mset entryLease (mset es)"

lemma release_entries_kept:
  "release_entries completed now es q bs = (kept, q', bs', calls, n) \<Longrightarrow>
   kept = filter (\<lambda>e. \<not> completed (entryToken e)) es \<and> n = length (filter (completed \<circ> entryToken) es)"
  by (induction es arbitrary: q bs kept q' bs' calls n) (auto simp: Let_def split: if_splits prod.splits)

lemma release_entries_world:
  assumes "release_entries completed now es q bs = (kept, q', bs', calls, n)" "lease_world (entry_leases es + G) bs stuck"
  shows "lease_world (entry_leases kept + G) bs' stuck \<and>
    owned_slots (entry_leases es + G) bs = owned_slots (entry_leases kept + G) bs' + mset calls"
  using assms
proof (induction es arbitrary: q bs kept q' bs' calls n G)
  case (Cons e es)
  show ?case
  proof (cases "completed (entryToken e)")
    case False
    then obtain kept1 where k: "release_entries completed now es q bs = (kept1, q', bs', calls, n)" "kept = e # kept1"
      using Cons.prems(1) by (auto split: prod.splits)
    have "lease_world (entry_leases es + add_mset (entryLease e) G) bs stuck" using Cons.prems(2) by simp
    from Cons.IH [OF k(1) this] k(2) show ?thesis by simp
  next
    case True
    obtain l1 bs1 c1 where r: "reset_inject_lease (entryLease e) bs = (l1, bs1, c1)"
      by (cases "reset_inject_lease (entryLease e) bs") auto
    obtain c2 m where k: "release_entries completed now es (note_hold e now q) bs1 = (kept, q', bs', c2, m)"
      "calls = c1 @ c2" "n = m + 1"
      using Cons.prems(1) True r by (auto simp: Let_def split: prod.splits)
    have W: "lease_world (add_mset (entryLease e) (entry_leases es + G)) bs stuck" using Cons.prems(2) by simp
    from reset_world [OF W r] Cons.IH [OF k(1), of G] k(2) show ?thesis by (simp add: ac_simps)
  qed
qed simp

lemma abandon_entries_world:
  assumes "abandon_entries es bs = (bs', left)" "lease_world (entry_leases es + G) bs stuck"
    "\<forall>e\<in>set es. lease_set (entryLease e)"
  shows "lease_world G bs' (left @ stuck) \<and> owned_slots (entry_leases es + G) bs = owned_slots G bs' + mset left \<and>
    (\<forall>e\<in>set es. ringIndex (entryLease e) \<in> set (left @ stuck))"
  using assms
proof (induction es arbitrary: bs bs' left stuck)
  case (Cons e es)
  obtain l1 bs1 c1 where r: "abandon_inject_lease (entryLease e) bs = (l1, bs1, c1)"
    by (cases "abandon_inject_lease (entryLease e) bs") auto
  obtain c2 where k: "abandon_entries es bs1 = (bs', c2)" "left = c1 @ c2"
    using Cons.prems(1) r by (auto split: prod.splits)
  have W: "lease_world (add_mset (entryLease e) (entry_leases es + G)) bs stuck" using Cons.prems(2) by simp
  note A = abandon_world [OF W r]
  have "lease_world G bs' (c2 @ c1 @ stuck)" "owned_slots (entry_leases es + G) bs1 = owned_slots G bs' + mset c2"
    "\<forall>e\<in>set es. ringIndex (entryLease e) \<in> set (c2 @ c1 @ stuck)"
    using Cons.IH [OF k(1), of "c1 @ stuck"] A Cons.prems(3) by auto
  moreover have "lease_world G bs' (left @ stuck)"
    using calculation(1) world_stuck_cong [of "c2 @ c1 @ stuck" "left @ stuck" G bs'] k(2) by auto
  ultimately show ?case using A Cons.prems(3) k(2) by (auto simp: ac_simps)
qed simp

section \<open>Frames, reads and the ring together\<close>

text \<open>
  The ring with what surrounds it: whether the lease state is attached, the boxes, the lease objects
  of the frames, the queue, the calls of \<open>Complete\<close> that released leases still have to make, the slots
  whose owner was abandoned or came too late, the tokens that have completed, and for the statements
  the reads that were deferred (token and ring index), the windows taken and the entries destroyed.
\<close>

record 't read_system =
  ringSys :: ring_sys
  attached :: bool
  boxes :: "lease_box list"
  frameLeases :: "inject_lease list"
  readQueue :: "'t read_queue"
  dueCalls :: "u32 list"
  stuckSlots :: "u32 list"
  finished :: "'t set"
  reads :: "('t \<times> u32) list"
  taken :: "read_window list"
  destroyedEntries :: nat

definition all_leases :: "'t read_system \<Rightarrow> inject_lease multiset" where
  "all_leases s = mset (frameLeases s) + entry_leases (entries (readQueue s))"

definition reads_start :: "'t read_system \<Rightarrow> bool" where
  "reads_start s \<longleftrightarrow> ring_init (ringSys s) \<and> attached s \<and> boxes s = [] \<and> frameLeases s = [] \<and>
     (\<exists>event. readQueue s = create_read_queue event) \<and> dueCalls s = [] \<and> stuckSlots s = [] \<and> finished s = {} \<and>
     reads s = [] \<and> taken s = [] \<and> destroyedEntries s = 0"

text \<open>
  Producer and publication steps leave the leases alone.  A release in the code completes the slot at
  once; here the calls it owes are made later, in any order, one mark at a time.  A token answers
  \<open>completed\<close> only when it has completed.
\<close>

inductive reads_step :: "'t read_system \<Rightarrow> 't read_system \<Rightarrow> bool" where
  ring_moves: "ring_step (ringSys s) r \<Longrightarrow> leases r = leases (ringSys s) \<Longrightarrow> reads_step s (s\<lparr>ringSys := r\<rparr>)"
| frame_taken: "ring_step (ringSys s) r \<Longrightarrow> leases r = i # leases (ringSys s) \<Longrightarrow>
    reads_step s (s\<lparr>ringSys := r, frameLeases := acquire_lease i # frameLeases s\<rparr>)"
| call_made: "dueCalls s = before @ i # after \<Longrightarrow> attached s \<Longrightarrow>
    reads_step s (s\<lparr>ringSys := (ringSys s)\<lparr>ring := complete_mark (ring (ringSys s)) i,
                                       leases := remove1 i (leases (ringSys s))\<rparr>, dueCalls := before @ after\<rparr>)"
| call_ignored: "dueCalls s = before @ i # after \<Longrightarrow> \<not> attached s \<Longrightarrow>
    reads_step s (s\<lparr>dueCalls := before @ after, stuckSlots := i # stuckSlots s\<rparr>)"
| detached: "reads_step s (s\<lparr>attached := False\<rparr>)"
| frame_dropped: "frameLeases s = before @ l # after \<Longrightarrow> reset_inject_lease l (boxes s) = (l', bs, calls) \<Longrightarrow>
    reads_step s (s\<lparr>frameLeases := before @ l' # after, boxes := bs, dueCalls := calls @ dueCalls s\<rparr>)"
| read_deferred: "frameLeases s = before @ l # after \<Longrightarrow> lease_set l \<Longrightarrow> \<forall>t. completed t \<longrightarrow> t \<in> finished s \<Longrightarrow>
    defer_inject_lease_until_source_read True (Some token) retain completed armed now l (readQueue s) (boxes s)
      = (l', q, bs, calls) \<Longrightarrow>
    reads_step s (s\<lparr>frameLeases := before @ l' # after, readQueue := q, boxes := bs, dueCalls := calls @ dueCalls s,
                   reads := (token, ringIndex l) # reads s\<rparr>)"
| reads_released: "\<forall>t. completed t \<longrightarrow> t \<in> finished s \<Longrightarrow>
    release_completed completed now (readQueue s) (boxes s) = (q, bs, calls, n) \<Longrightarrow>
    reads_step s (s\<lparr>readQueue := q, boxes := bs, dueCalls := calls @ dueCalls s\<rparr>)"
| window_taken: "take_window (readQueue s) = (q, w) \<Longrightarrow> reads_step s (s\<lparr>readQueue := q, taken := w # taken s\<rparr>)"
| read_finished: "reads_step s (s\<lparr>finished := insert token (finished s)\<rparr>)"
| queue_destroyed: "destroy_read_queue (readQueue s) (boxes s) = (q, bs, left) \<Longrightarrow>
    reads_step s (s\<lparr>readQueue := q, boxes := bs, stuckSlots := left @ stuckSlots s,
                   destroyedEntries := destroyedEntries s + length (entries (readQueue s))\<rparr>)"

text \<open>A read that has not finished: its entry waits, or its slot is stuck.\<close>

definition read_kept :: "'t read_system \<Rightarrow> 't \<times> u32 \<Rightarrow> bool" where
  "read_kept s r \<longleftrightarrow> fst r \<in> finished s \<or> snd r \<in> set (stuckSlots s) \<or>
     (\<exists>e\<in>set (entries (readQueue s)). entryToken e = fst r \<and> ringIndex (entryLease e) = snd r)"

definition ownership_inv :: "'t read_system \<Rightarrow> bool" where
  "ownership_inv s \<longleftrightarrow> ring_inv (ringSys s) \<and> lease_world (all_leases s) (boxes s) (stuckSlots s) \<and>
     mset (leases (ringSys s)) = owned_slots (all_leases s) (boxes s) + mset (dueCalls s) + mset (stuckSlots s) \<and>
     (\<forall>e\<in>set (entries (readQueue s)). lease_set (entryLease e)) \<and> (\<forall>r\<in>set (reads s). read_kept s r)"

lemma ownership_start: "reads_start s \<Longrightarrow> ownership_inv s"
  unfolding ownership_inv_def
  by (intro conjI; auto simp: reads_start_def ring_init_def create_read_queue_def all_leases_def lease_world_def
      owned_slots_def box_slots_def intro!: ring_inv_init)

lemma ownership_complete:
  assumes "ownership_inv s" "dueCalls s = before @ i # after"
  shows "ownership_inv (s\<lparr>ringSys := (ringSys s)\<lparr>ring := complete_mark (ring (ringSys s)) i,
    leases := remove1 i (leases (ringSys s))\<rparr>, dueCalls := before @ after\<rparr>)"
proof -
  have "i \<in># mset (leases (ringSys s))" using assms by (simp add: ownership_inv_def)
  then have "ring_step (ringSys s) ((ringSys s)\<lparr>ring := complete_mark (ring (ringSys s)) i,
    leases := remove1 i (leases (ringSys s))\<rparr>)" by (intro ring_step.complete) simp
  then show ?thesis using assms ring_inv_step by (auto simp: ownership_inv_def all_leases_def read_kept_def)
qed

text \<open>Steps that leave the ring alone: slots move between owners, calls and the stuck.\<close>

lemma ownership_exchange:
  assumes "ownership_inv s" "ringSys t = ringSys s" "lease_world (all_leases t) (boxes t) (stuckSlots t)"
    and "owned_slots (all_leases s) (boxes s) + mset (dueCalls s) + mset (stuckSlots s) =
      owned_slots (all_leases t) (boxes t) + mset (dueCalls t) + mset (stuckSlots t)"
    and "\<forall>e\<in>set (entries (readQueue t)). lease_set (entryLease e)" "\<forall>r\<in>set (reads t). read_kept t r"
  shows "ownership_inv t"
  using assms by (simp add: ownership_inv_def)

lemma ownership_frame_dropped:
  assumes "ownership_inv s" "frameLeases s = before @ l # after" "reset_inject_lease l (boxes s) = (l', bs, calls)"
  shows "ownership_inv (s\<lparr>frameLeases := before @ l' # after, boxes := bs, dueCalls := calls @ dueCalls s\<rparr>)" (is "ownership_inv ?t")
proof -
  let ?G = "mset before + mset after + entry_leases (entries (readQueue s))"
  have all: "all_leases s = add_mset l ?G" "all_leases ?t = add_mset l' ?G"
    using assms(2) by (simp_all add: all_leases_def)
  have W: "lease_world (all_leases s) (boxes s) (stuckSlots s)" using assms(1) by (simp add: ownership_inv_def)
  note R = reset_world [OF W [unfolded all(1)] assms(3)]
  show ?thesis
    by (rule ownership_exchange [OF assms(1)])
       (use assms(1) R all in \<open>simp_all add: world_no_lease ownership_inv_def read_kept_def ac_simps\<close>)
qed

text \<open>\<open>Defer\<close> as a whole: the lease it is given becomes an entry, or is released at once.\<close>

lemma defer_lease_world:
  assumes "lease_world (add_mset l (entry_leases (entries q) + G)) bs stuck" "lease_set l"
    "defer_lease completed armed l token now q bs = (q', bs', calls)"
  shows "lease_world (entry_leases (entries q') + G) bs' stuck \<and>
    owned_slots (add_mset l (entry_leases (entries q) + G)) bs = owned_slots (entry_leases (entries q') + G) bs' + mset calls \<and>
    entries q' = entries q @ (if completed token then [] else [\<lparr>entryToken = token, entryLease = l, deferredQpc = now\<rparr>])"
proof (cases "completed token")
  case True
  obtain l1 where r: "reset_inject_lease l bs = (l1, bs', calls)" "entries q' = entries q"
    using assms(2,3) True by (cases "reset_inject_lease l bs") (auto simp: defer_lease_def)
  from reset_world [OF assms(1) r(1)] r(2) True show ?thesis by simp
next
  case False
  then have "bs' = bs \<and> calls = [] \<and> entries q' = entries q @ [\<lparr>entryToken = token, entryLease = l, deferredQpc = now\<rparr>]"
    using assms(2,3) by (auto simp: defer_lease_def Let_def)
  then show ?thesis using assms(1) False by simp
qed

text \<open>Handing over a submitted frame's lease.\<close>

lemma handler_world:
  assumes "lease_world (add_mset l (entry_leases (entries q) + G)) bs stuck" "lease_set l"
    "defer_inject_lease_until_source_read True (Some token) retain completed armed now l q bs = (l', q', bs', calls)"
  shows "lease_world (add_mset l' (entry_leases (entries q') + G)) bs' stuck \<and>
    owned_slots (add_mset l (entry_leases (entries q) + G)) bs =
      owned_slots (add_mset l' (entry_leases (entries q') + G)) bs' + mset calls \<and>
    (if completed token then entries q' = entries q
     else \<exists>e. entries q' = entries q @ [e] \<and> entryToken e = token \<and> lease_set (entryLease e) \<and>
       ringIndex (entryLease e) = ringIndex l)"
proof (cases retain)
  case True
  obtain l1 l2 bs1 where share: "share_inject_lease l bs = (l1, l2, bs1)"
    by (cases "share_inject_lease l bs") auto
  note S = share_world [OF assms(1,2) share]
  have d: "defer_lease completed armed l2 token now q bs1 = (q', bs', calls)" "l' = l1"
    using assms(2,3) True share by (simp_all add: defer_inject_lease_until_source_read_def)
  have eq: "add_mset l1 (add_mset l2 (X + G)) = add_mset l2 (X + add_mset l1 G)" for X
    by (simp add: add_mset_commute)
  have l1: "add_mset l1 (X + G) = X + add_mset l1 G" for X by simp
  note D = defer_lease_world [OF S [unfolded eq, THEN conjunct1] _ d(1)]
  show ?thesis using S D unfolding d(2) l1 eq
    by (cases "completed token"; elim conjE; simp add: add_mset_commute [of l1 l2])
next
  case False
  then have d: "defer_lease completed armed l token now q bs = (q', bs', calls)" "l' = no_inject_lease"
    using assms(2,3) by (simp_all add: defer_inject_lease_until_source_read_def)
  from defer_lease_world [OF assms(1,2) d(1)] d(2) assms(2) show ?thesis by (auto simp: world_no_lease)
qed

lemma ownership_deferred:
  assumes "ownership_inv s" "frameLeases s = before @ l # after" "lease_set l" "\<forall>t. completed t \<longrightarrow> t \<in> finished s"
    "defer_inject_lease_until_source_read True (Some token) retain completed armed now l (readQueue s) (boxes s)
      = (l', q, bs, calls)"
  shows "ownership_inv (s\<lparr>frameLeases := before @ l' # after, readQueue := q, boxes := bs,
    dueCalls := calls @ dueCalls s, reads := (token, ringIndex l) # reads s\<rparr>)" (is "ownership_inv ?t")
proof -
  let ?G = "mset before + mset after"
  have all: "all_leases s = add_mset l (entry_leases (entries (readQueue s)) + ?G)"
    "all_leases ?t = add_mset l' (entry_leases (entries q) + ?G)"
    using assms(2) by (simp_all add: all_leases_def ac_simps)
  have W: "lease_world (all_leases s) (boxes s) (stuckSlots s)" using assms(1) by (simp add: ownership_inv_def)
  note H = handler_world [OF W [unfolded all(1)] assms(3,5)]
  have set: "\<forall>e\<in>set (entries q). lease_set (entryLease e)"
    by (cases "completed token") (use H assms(1) in \<open>auto simp: ownership_inv_def\<close>)
  show ?thesis
  proof (rule ownership_exchange [OF assms(1)])
    show "\<forall>r\<in>set (reads ?t). read_kept ?t r"
      by (cases "completed token") (use assms(1,4) H in \<open>auto simp: ownership_inv_def read_kept_def\<close>)
  qed (use set H all in \<open>simp_all add: ac_simps\<close>)
qed

lemma ownership_released:
  assumes "ownership_inv s" "\<forall>t. completed t \<longrightarrow> t \<in> finished s"
    "release_completed completed now (readQueue s) (boxes s) = (q, bs, calls, n)"
  shows "ownership_inv (s\<lparr>readQueue := q, boxes := bs, dueCalls := calls @ dueCalls s\<rparr>)" (is "ownership_inv ?t")
proof -
  obtain kept q1 where r: "release_entries completed now (entries (readQueue s)) (readQueue s) (boxes s) = (kept, q1, bs, calls, n)"
    "entries q = kept" using assms(3) by (auto simp: release_completed_def split: prod.splits)
  have all: "all_leases s = entry_leases (entries (readQueue s)) + mset (frameLeases s)"
    "all_leases ?t = entry_leases kept + mset (frameLeases s)" using r(2) by (simp_all add: all_leases_def ac_simps)
  have W: "lease_world (all_leases s) (boxes s) (stuckSlots s)" using assms(1) by (simp add: ownership_inv_def)
  note R = release_entries_world [OF r(1) W [unfolded all(1)]]
  have kept: "set (entries q) = {e \<in> set (entries (readQueue s)). \<not> completed (entryToken e)}"
    using release_entries_kept [OF r(1)] r(2) by auto
  show ?thesis
  proof (rule ownership_exchange [OF assms(1)])
    show "\<forall>r\<in>set (reads ?t). read_kept ?t r"
      using assms(1,2) kept by (fastforce simp: ownership_inv_def read_kept_def)
  qed (use assms(1) R kept all in \<open>auto simp: ownership_inv_def ac_simps\<close>)
qed

lemma ownership_destroyed:
  assumes "ownership_inv s" "destroy_read_queue (readQueue s) (boxes s) = (q, bs, left)"
  shows "ownership_inv (s\<lparr>readQueue := q, boxes := bs, stuckSlots := left @ stuckSlots s, destroyedEntries := d\<rparr>)"
    (is "ownership_inv ?t")
proof -
  have a: "abandon_entries (entries (readQueue s)) (boxes s) = (bs, left)" "entries q = []"
    using assms(2) by (auto simp: destroy_read_queue_def split: prod.splits)
  have W: "lease_world (entry_leases (entries (readQueue s)) + mset (frameLeases s)) (boxes s) (stuckSlots s)"
    "\<forall>e\<in>set (entries (readQueue s)). lease_set (entryLease e)"
    using assms(1) by (simp_all add: ownership_inv_def all_leases_def ac_simps)
  note A = abandon_entries_world [OF a(1) W]
  show ?thesis
  proof (rule ownership_exchange [OF assms(1)])
    show "\<forall>r\<in>set (reads ?t). read_kept ?t r"
      using assms(1) A by (fastforce simp: ownership_inv_def read_kept_def)
  qed (use A a(2) in \<open>simp_all add: all_leases_def ac_simps\<close>)
qed

lemma ownership_step: "reads_step s t \<Longrightarrow> ownership_inv s \<Longrightarrow> ownership_inv t"
proof (induction rule: reads_step.induct)
  case (ring_moves s r)
  then show ?case using ring_inv_step [OF ring_moves(1)] by (auto simp: ownership_inv_def all_leases_def read_kept_def)
next
  case (frame_taken s r i)
  then show ?case using ring_inv_step [OF frame_taken(1)]
    by (auto simp: ownership_inv_def all_leases_def read_kept_def acquire_lease_def complete_calls_def
        lease_world_def lease_ok_def box_ok_def)
next
  case (call_ignored s before i after)
  then show ?case using world_more_stuck [of _ _ "stuckSlots s" "[i]"]
    by (auto simp: ownership_inv_def all_leases_def read_kept_def)
next
  case (window_taken s q w)
  then show ?case by (auto simp: ownership_inv_def all_leases_def read_kept_def take_window_def)
qed (simp_all add: ownership_complete ownership_frame_dropped ownership_deferred ownership_released ownership_destroyed,
  auto simp: ownership_inv_def all_leases_def read_kept_def)

interpretation source_reads: invariant_system reads_start reads_step ownership_inv
  by unfold_locales (blast intro: ownership_start ownership_step)+

text \<open>A whole call of \<open>Complete\<close> is a run of steps.\<close>

lemma ring_moves_star:
  "publish_step\<^sup>*\<^sup>* r r' \<Longrightarrow> reads_step\<^sup>*\<^sup>* (s\<lparr>ringSys := r\<rparr>) (s\<lparr>ringSys := r'\<rparr>)"
proof (induction rule: rtranclp_induct)
  case (step y z)
  then have "reads_step (s\<lparr>ringSys := y\<rparr>) (s\<lparr>ringSys := z\<rparr>)"
    using ring_moves [of "s\<lparr>ringSys := y\<rparr>" z] by (simp add: publish_step_def)
  then show ?case using step.IH by simp
qed simp

lemma complete_call_steps:
  assumes "dueCalls s = before @ i # after" "attached s"
  shows "reads_step\<^sup>*\<^sup>* s (s\<lparr>ringSys := (ringSys s)\<lparr>ring := state_complete (attached s) cas (ring (ringSys s)) i,
    leases := remove1 i (leases (ringSys s))\<rparr>, dueCalls := before @ after\<rparr>)"
proof -
  let ?r = "(ringSys s)\<lparr>ring := complete_mark (ring (ringSys s)) i, leases := remove1 i (leases (ringSys s))\<rparr>"
    and ?s = "s\<lparr>dueCalls := before @ after\<rparr>"
  have swap: "?s\<lparr>ringSys := r\<rparr> = s\<lparr>ringSys := r, dueCalls := before @ after\<rparr>" for r by (cases s) simp
  have "reads_step s (?s\<lparr>ringSys := ?r\<rparr>)" unfolding swap by (rule call_made [OF assms])
  moreover have "publish_step\<^sup>*\<^sup>* ?r (?r\<lparr>ring := state_complete (attached s) cas (ring (ringSys s)) i\<rparr>)"
    using publish_prefix_moves [of ?r cas frame_ring_size] assms(2)
    by (cases "complete_guard (ring (ringSys s)) i")
       (simp_all add: state_complete_def complete_inject_frame_ring_slot_def complete_mark_def)
  moreover have "?r\<lparr>ring := x\<rparr> = (ringSys s)\<lparr>ring := x, leases := remove1 i (leases (ringSys s))\<rparr>" for x
    by (cases "ringSys s") simp
  ultimately show ?thesis using ring_moves_star [of ?r _ ?s] unfolding swap
    by (metis (no_types) converse_rtranclp_into_rtranclp)
qed

section \<open>What the reads are promised\<close>

lemma reads_step_ring:
  "reads_step s t \<Longrightarrow> ownership_inv s \<Longrightarrow> ringSys t = ringSys s \<or> ring_step (ringSys s) (ringSys t)"
proof (induction rule: reads_step.induct)
  case (call_made s before i after)
  then have "i \<in># mset (leases (ringSys s))" by (simp add: ownership_inv_def)
  then show ?case by (auto intro: ring_step.complete)
qed auto

lemma reads_step_finished:
  "reads_step s t \<Longrightarrow> finished t = finished s \<or> ringSys t = ringSys s"
  by (induction rule: reads_step.induct) auto

lemma reads_step_reads: "reads_step s t \<Longrightarrow> set (reads s) \<subseteq> set (reads t)"
  by (induction rule: reads_step.induct) auto

lemma unfinished_read_leased:
  assumes inv: "ownership_inv s" and "(token, i) \<in> set (reads s)" "token \<notin> finished s"
  shows "i \<in> set (leases (ringSys s))"
proof -
  have slots: "mset (leases (ringSys s)) =
    owned_slots (all_leases s) (boxes s) + mset (dueCalls s) + mset (stuckSlots s)"
    using inv by (simp add: ownership_inv_def)
  have kept: "read_kept s (token, i)" using inv assms(2) by (simp add: ownership_inv_def)
  have "i \<in># owned_slots (all_leases s) (boxes s) \<or> i \<in> set (stuckSlots s)"
  proof (cases "i \<in> set (stuckSlots s)")
    case False
    then obtain e where e: "e \<in> set (entries (readQueue s))" "ringIndex (entryLease e) = i"
      using kept assms(3) by (auto simp: read_kept_def)
    then have "lease_set (entryLease e)" "entryLease e \<in># all_leases s"
      using inv by (auto simp: ownership_inv_def all_leases_def)
    then show ?thesis using set_lease_owned [of "all_leases s" "boxes s" "stuckSlots s"] inv e(2)
      by (auto simp: ownership_inv_def)
  qed simp
  then have "i \<in># mset (leases (ringSys s))" unfolding slots by auto
  then show ?thesis by simp
qed

text \<open>C30: While the GPU has not finished reading a submitted frame, no step of any thread - releases, retries
  that share the lease, teardown with abandoned leases, a detached lease state - changes the ring slot of
  the frame, and the producer's search never picks the frame's texture.\<close>

theorem unfinished_read_pins_texture:
  assumes "reachable_from reads_start reads_step s" and "reads_step s t"
    and "(token, i) \<in> set (reads s)" and "token \<notin> finished s"
  shows "slot_at (ring (ringSys t)) i = slot_at (ring (ringSys s)) i \<and>
    frameIndex (slot_at (ring (ringSys s)) i) = i \<and>
    fst (find_available_capture_texture_slot_if (ring (ringSys s)) first textureCount gpuReady)
      \<notin> {textureIndex (slot_at (ring (ringSys s)) i)} - {-1}"
proof -
  let ?r = "ringSys s"
  have inv: "ownership_inv s" by (rule source_reads.reachable_inv [OF assms(1)])
  then have ring: "ring_inv ?r" by (simp add: ownership_inv_def)
  have leased: "i \<in> set (leases ?r)" by (rule unfinished_read_leased [OF inv assms(3,4)])
  have "slot_at (ring (ringSys t)) i = slot_at (ring ?r) i"
  proof (cases "ringSys t = ringSys s")
    case False
    then have "ring_step ?r (ringSys t)" "finished t = finished s"
      using reads_step_ring [OF assms(2) inv] reads_step_finished [OF assms(2)] by auto
    moreover have "i \<in> set (leases (ringSys t))"
      using unfinished_read_leased [OF ownership_step [OF assms(2) inv], of token i]
        reads_step_reads [OF assms(2)] assms(3,4) calculation(2) by auto
    ultimately show ?thesis using slot_kept_by_step ring leased by blast
  qed simp
  moreover have "frameIndex (slot_at (ring ?r) i) = i"
    using ring in_window_less(1) [OF ring leased] by (simp add: ring_inv_def window_def)
  moreover have "c = -1 \<or> c \<noteq> textureIndex (slot_at (ring ?r) i)"
    if "find_available_capture_texture_slot_if (ring ?r) first textureCount gpuReady = (c, cpuBusy, gpuBusy)"
    for c cpuBusy gpuBusy
    using find_available_free [OF that] in_window_less(1) [OF ring leased] leased
    by (auto simp: outstanding_iff [OF ring])
  ultimately show ?thesis
    by (cases "find_available_capture_texture_slot_if (ring ?r) first textureCount gpuReady") auto
qed

section \<open>The accounts of the queue\<close>

text \<open>Two windows put together.\<close>

definition add_window :: "read_window \<Rightarrow> read_window \<Rightarrow> read_window" where
  "add_window v w = \<lparr>deferred = deferred w + deferred v, immediate = immediate w + immediate v,
     released = released w + released v, armFailures = armFailures w + armFailures v,
     maxPending = max (maxPending w) (maxPending v), maxHoldQpc = max (maxHoldQpc w) (maxHoldQpc v)\<rparr>"

lemma fold_add_window:
  assumes "\<And>v w. f (add_window v w) = add_window v (f w)"
  shows "f (fold add_window ws w) = fold add_window ws (f w)"
  by (induction ws arbitrary: w) (simp_all add: assms)

text \<open>The part of the account that every update of both windows keeps.\<close>

definition windows_sum :: "'t read_queue \<Rightarrow> read_window list \<Rightarrow> bool" where
  "windows_sum q ws \<longleftrightarrow> readTotal q = fold add_window ws (readWindow q) \<and> 0 \<le> maxHoldQpc (readWindow q)"

definition queue_inv :: "'t read_queue \<Rightarrow> read_window list \<Rightarrow> nat \<Rightarrow> bool" where
  "queue_inv q ws d \<longleftrightarrow> windows_sum q ws \<and>
     deferred (readTotal q) = released (readTotal q) + of_nat (length (entries q) + d)"

lemma note_keeps_windows:
  assumes "windows_sum q ws" "\<And>v w. f (add_window v w) = add_window v (f w)"
    "\<And>w. 0 \<le> maxHoldQpc w \<Longrightarrow> 0 \<le> maxHoldQpc (f w)"
  shows "windows_sum (note_both f q) ws"
  using assms by (simp add: windows_sum_def note_both_def fold_add_window)

lemma note_hold_keeps_windows: "windows_sum q ws \<Longrightarrow> windows_sum (note_hold e now q) ws"
  unfolding note_hold_def by (auto intro!: note_keeps_windows simp: add_window_def max.assoc)

lemma windows_sum_entries [simp]: "windows_sum (q\<lparr>entries := es\<rparr>) ws = windows_sum q ws"
  by (simp add: windows_sum_def)

lemma note_total [simp]: "readTotal (note_both f q) = f (readTotal q)"
  by (simp add: note_both_def)

lemma note_hold_total [simp]:
  "deferred (readTotal (note_hold e now q)) = deferred (readTotal q)"
  "released (readTotal (note_hold e now q)) = released (readTotal q)"
  by (simp_all add: note_hold_def)

lemma release_entries_account:
  assumes "release_entries completed now es q bs = (kept, q', bs', calls, n)"
  shows "(windows_sum q ws \<longrightarrow> windows_sum q' ws) \<and> deferred (readTotal q') = deferred (readTotal q) \<and>
    released (readTotal q') = released (readTotal q) \<and> n + length kept = length es"
  using assms
  by (induction es arbitrary: q bs kept q' bs' calls n)
     (auto simp: Let_def note_hold_keeps_windows split: if_splits prod.splits)

lemma release_completed_account:
  assumes "release_completed completed now q bs = (q', bs', calls, n)" "queue_inv q ws d"
  shows "queue_inv q' ws d"
proof -
  obtain kept q1 where r: "release_entries completed now (entries q) q bs = (kept, q1, bs', calls, n)"
    "q' = note_both (\<lambda>w. w\<lparr>released := released w + of_nat n\<rparr>) (q1\<lparr>entries := kept\<rparr>)"
    using assms(1) by (auto simp: release_completed_def split: prod.splits)
  note A = release_entries_account [OF r(1), of ws]
  have "windows_sum q ws" using assms(2) by (simp add: queue_inv_def)
  then have "windows_sum q' ws" using A unfolding r(2)
    by (intro note_keeps_windows) (auto simp: add_window_def)
  moreover have "(of_nat (length (entries q)) :: u32) = of_nat n + of_nat (length kept)"
    using A by (metis of_nat_add)
  ultimately show ?thesis using A assms(2) by (simp add: queue_inv_def r(2))
qed

lemma defer_lease_account:
  assumes "defer_lease completed armed l token now q bs = (q', bs', calls)" "queue_inv q ws d"
  shows "queue_inv q' ws d"
proof -
  have W: "windows_sum q ws" using assms(2) by (simp add: queue_inv_def)
  have "windows_sum q' ws"
    using assms(1) W by (auto simp: defer_lease_def Let_def add_window_def max.assoc max.commute max.left_commute
      intro!: note_keeps_windows split: if_splits)
  then show ?thesis using assms
    by (auto simp: queue_inv_def defer_lease_def Let_def split: if_splits)
qed

definition account_inv :: "'t read_system \<Rightarrow> bool" where
  "account_inv s \<longleftrightarrow> queue_inv (readQueue s) (taken s) (destroyedEntries s)"

lemma read_account_step: "reads_step s t \<Longrightarrow> account_inv s \<Longrightarrow> account_inv t"
proof (induction rule: reads_step.induct)
  case (read_deferred s before l after completed token retain armed now l' q bs calls)
  then show ?case
    by (auto simp: account_inv_def defer_inject_lease_until_source_read_def split: if_splits prod.splits
        dest: defer_lease_account)
next
  case (reads_released completed s now q bs calls n)
  then show ?case by (auto simp: account_inv_def dest: release_completed_account)
next
  case (window_taken s q w)
  moreover have "add_window w no_reads = w" if "0 \<le> maxHoldQpc w" using that
    by (simp add: add_window_def no_reads_def)
  ultimately show ?case by (auto simp: account_inv_def queue_inv_def windows_sum_def take_window_def no_reads_def)
next
  case (queue_destroyed s q bs left)
  then show ?case
    by (auto simp: account_inv_def queue_inv_def destroy_read_queue_def ac_simps split: prod.splits)
qed (simp_all add: account_inv_def)

lemma read_account_start: "reads_start s \<Longrightarrow> account_inv s"
  by (auto simp: reads_start_def account_inv_def queue_inv_def windows_sum_def create_read_queue_def no_reads_def)

interpretation read_accounts: invariant_system reads_start reads_step account_inv
  by unfold_locales (blast intro: read_account_start read_account_step)+

text \<open>The totals of the queue are always the windows taken so far together with the current one, and every
  deferred lease is released, pending or was destroyed with the queue (modulo the width of the counters).\<close>

theorem read_windows_add_up:
  assumes "reachable_from reads_start reads_step s"
  shows "readTotal (readQueue s) = fold add_window (taken s) (readWindow (readQueue s)) \<and>
    deferred (readTotal (readQueue s)) =
      released (readTotal (readQueue s)) + of_nat (pending_reads (readQueue s) + destroyedEntries s)"
  using read_accounts.reachable_inv [OF assms] unfolding account_inv_def queue_inv_def windows_sum_def pending_reads_def
  by blast

section \<open>Draining\<close>

text \<open>\<open>Drain\<close> reports success only when no read is left and every entry was seen completed, reports failure
  only with reads left, keeps every entry it did not see completed, and comes back at the latest when the
  timeout has elapsed.\<close>

theorem drain_tells_truth:
  assumes "drain_reads timeoutMs ts q bs = (q', bs', calls, r)"
  shows "(case r of None \<Rightarrow> (\<forall>t\<in>set ts. turnElapsedMs t < timeoutMs) | Some ok \<Rightarrow> ok \<longleftrightarrow> entries q' = []) \<and>
    set (entries q') \<subseteq> set (entries q) \<and>
    (\<forall>e\<in>set (entries q) - set (entries q'). \<exists>t\<in>set ts. turnCompleted t (entryToken e))"
  using assms
proof (induction ts arbitrary: q bs calls)
  case (Cons t ts)
  obtain q1 bs1 c1 n where rel: "release_completed (turnCompleted t) (turnQpc t) q bs = (q1, bs1, c1, n)"
    by (cases "release_completed (turnCompleted t) (turnQpc t) q bs") auto
  then have kept: "entries q1 = filter (\<lambda>e. \<not> turnCompleted t (entryToken e)) (entries q)"
    by (auto simp: release_completed_def split: prod.splits dest: release_entries_kept)
  consider (stop) "q' = q1" "r = Some (entries q1 = [])"
    | (turn) c2 where "drain_reads timeoutMs ts q1 bs1 = (q', bs', c2, r)" "turnElapsedMs t < timeoutMs"
    using Cons.prems rel by (auto simp: pending_reads_def split: if_splits prod.splits)
  then show ?case
  proof cases
    case stop
    then show ?thesis using kept by auto
  next
    case turn
    note IH = Cons.IH [OF turn(1)]
    have "\<exists>u\<in>set (t # ts). turnCompleted u (entryToken e)" if "e \<in> set (entries q) - set (entries q')" for e
    proof (cases "e \<in> set (entries q1)")
      case True
      then show ?thesis using IH that by auto
    qed (use kept that in auto)
    then show ?thesis using IH turn(2) kept by (auto split: option.splits)
  qed
qed simp

section \<open>A frame submitted and kept for a retry\<close>

text \<open>The only frame of the ring is taken, and its lease shared with a pending read of token 5.\<close>

definition system_of :: "ring_sys \<Rightarrow> nat read_system" where
  "system_of r = \<lparr>ringSys = r, attached = True, boxes = [], frameLeases = [], readQueue = create_read_queue True,
     dueCalls = [], stuckSlots = [], finished = {}, reads = [], taken = [], destroyedEntries = 0\<rparr>"

definition one_read :: "nat read_system" where
  "one_read = (let s = system_of run_one;
       (l, q, bs, calls) = defer_inject_lease_until_source_read True (Some 5) True (\<lambda>_. False) (\<lambda>_. True) 10
         (acquire_lease 0) (readQueue s) (boxes s)
     in s\<lparr>frameLeases := [l], readQueue := q, boxes := bs, dueCalls := calls, reads := [(5, 0)]\<rparr>)"

definition one_frame :: "nat read_system" where
  "one_frame = (system_of run_one)\<lparr>frameLeases := [acquire_lease 0]\<rparr>"

lemma one_frame_steps:
  "reads_step (system_of run_empty) (system_of run_written)"
  "reads_step (system_of run_written) (system_of run_published)"
  "reads_step (system_of run_published) one_frame"
  using ring_moves [of "system_of run_empty" run_written] run_written_step
    ring_moves [of "system_of run_written" run_published] run_published_step
    frame_taken [of "system_of run_published" run_one 0] run_one_step
  by (simp_all add: system_of_def one_frame_def run_empty_def run_written_def run_published_def run_one_simps)

lemma one_read_step: "reads_step one_frame one_read"
proof -
  have lease: "lease_set (acquire_lease 0)" by (simp add: lease_set_def acquire_lease_def)
  obtain l q bs calls where h: "defer_inject_lease_until_source_read True (Some 5) True (\<lambda>_. False) (\<lambda>_. True) 10
      (acquire_lease 0) (readQueue one_frame) (boxes one_frame) = (l, q, bs, calls)"
    by (cases "defer_inject_lease_until_source_read True (Some 5) True (\<lambda>_. False) (\<lambda>_. True) 10
      (acquire_lease 0) (readQueue one_frame) (boxes one_frame)") auto
  have "one_read = one_frame\<lparr>frameLeases := [] @ l # [], readQueue := q, boxes := bs,
      dueCalls := calls @ dueCalls one_frame, reads := (5, ringIndex (acquire_lease 0)) # reads one_frame\<rparr>"
    using h by (simp add: one_read_def one_frame_def system_of_def acquire_lease_def)
  then show ?thesis
    using read_deferred [OF _ lease _ h, of "[]" "[]"] by (simp add: one_frame_def)
qed

lemma one_read_reachable: "reachable_from reads_start reads_step one_read"
proof -
  have "reads_start (system_of run_empty)" by (auto simp: reads_start_def system_of_def run_init)
  then show ?thesis using one_frame_steps one_read_step by (meson start more)
qed

theorem unfinished_read_pins_texture_witness:
  "slot_at (ring run_two) 0 = slot_at (ring run_one) 0 \<and>
   fst (find_available_capture_texture_slot_if (ring run_one) 0 2 (\<lambda>_. True)) \<noteq> 0"
proof -
  have f: "ringSys one_read = run_one" "reads one_read = [(5, 0)]" "finished one_read = {}"
    by (simp_all add: one_read_def system_of_def split: prod.splits)
  have "reads_step one_read (one_read\<lparr>ringSys := run_two\<rparr>)"
    by (rule ring_moves) (simp_all add: f run_two_step run_one_simps)
  from unfinished_read_pins_texture [OF one_read_reachable this, of 5 0 0 2 "\<lambda>_. True"] show ?thesis
    by (simp add: f run_one_simps)
qed

theorem read_windows_add_up_witness:
  "deferred (readTotal (readQueue one_read)) = released (readTotal (readQueue one_read)) + 1"
proof -
  have "pending_reads (readQueue one_read) = 1" "destroyedEntries one_read = 0" by code_simp+
  then show ?thesis using read_windows_add_up [OF one_read_reachable] by (elim conjE) (simp only: of_nat_1 add_0_right)
qed

definition waited_turns :: "nat drain_turn list" where
  "waited_turns = [\<lparr>turnQpc = 20, turnCompleted = (\<lambda>_. False), turnElapsedMs = 1, waitFailed = False\<rparr>,
     \<lparr>turnQpc = 30, turnCompleted = (\<lambda>t. t = 5), turnElapsedMs = 2, waitFailed = False\<rparr>]"

theorem drain_tells_truth_witness:
  "entries (fst (drain_reads 5000 waited_turns (readQueue one_read) (boxes one_read))) = []"
proof -
  have "snd (snd (snd (drain_reads 5000 waited_turns (readQueue one_read) (boxes one_read)))) = Some True"
    by code_simp
  then show ?thesis
    using drain_tells_truth [of 5000 waited_turns "readQueue one_read" "boxes one_read"]
    by (cases "drain_reads 5000 waited_turns (readQueue one_read) (boxes one_read)") auto
qed

end
