(* ===== verification/RecordingSession.thy ===== *)
theory RecordingSession
  imports RecordingControl "HOL-Library.Sublist"
begin

text \<open>
  The recording state machine of the engine: \<open>src/runtime/recording/recording_session.cpp\<close>, the notice
  by which the media helper ends a recording itself
  (\<open>src/common/capture/media_ended_recording.h\<close>) and the owner that asks for it
  (\<open>src/runtime/core/recording_owner.cpp\<close>).  The answers of the helpers are arguments.  An operation
  that waits for a helper may be re-entered by further calls, as the guards of the source expect;
  publications and notices come straight back.  The reason texts only reach log lines and are left out.
\<close>

section \<open>The notice of the media helper\<close>

text \<open>A reason byte read back need not be one of the enumerators; zero is \<open>None\<close>.\<close>

record end_notice =
  endReason :: u8
  endLiveSinceMs :: u64

definition live_stamp_mask :: u64 where
  "live_stamp_mask = push_bit 56 1 - 1"

definition encode_end :: "u8 \<Rightarrow> u64 \<Rightarrow> u64" where
  "encode_end reason liveSinceMs = push_bit 8 (liveSinceMs AND live_stamp_mask) OR ucast reason"

definition decode_end :: "u64 \<Rightarrow> end_notice" where
  "decode_end v = \<lparr>endReason = ucast (v AND 0xFF), endLiveSinceMs = drop_bit 8 v\<rparr>"

definition ends_request :: "end_notice \<Rightarrow> nat \<Rightarrow> bool" where
  "ends_request n requestStartedMs \<longleftrightarrow>
     endReason n \<noteq> 0 \<and> endLiveSinceMs n \<noteq> 0 \<and> unat (endLiveSinceMs n) \<ge> requestStartedMs"

text \<open>
  One turn of the loop of \<open>RequestStop\<close> with the notice it last saw, the notice stored now and whether
  the weak exchange fails without need: \<^const>\<open>Inr\<close> ends the loop with the notice stored.
\<close>

definition request_stop_turn :: "u64 \<Rightarrow> u64 \<Rightarrow> u64 \<Rightarrow> bool \<Rightarrow> u64 + u64" where
  "request_stop_turn notice current found spurious =
     (if endLiveSinceMs (decode_end current) = endLiveSinceMs (decode_end notice) then Inr found
      else if found = current \<and> \<not> spurious then Inr notice
      else Inl found)"

section \<open>State and effects\<close>

datatype start_intent = IntentIdle | IntentVideo | IntentAudioOnly
datatype command_outcome = Accepted | Rejected | AcknowledgementUnknown
datatype recording_notice = NoticeClear | NoticeRequested | NoticeFinalizing | NoticeFailed | NoticeLive
  | NoticeStopResult | NoticeEndedByMedia

record session_snapshot =
  requested :: bool
  streaming :: bool
  observedLive :: bool
  pendingIntent :: start_intent
  request :: u64
  pendingSince :: nat
  requestedSince :: nat
  lastStop :: command_outcome

record session_observation =
  obsRequest :: u64
  obsNow :: nat
  obsLive :: bool
  obsLiveSince :: int
  obsFailure :: u32
  obsMediaEnded :: u64
  mediaAvailable :: bool
  injectAvailable :: bool

datatype session_effect = PrepareIdentity
  | PublishIntent start_intent
  | EnsureMedia | EnsureSensor | StartInject | StartAudioMedia
  | StopMedia nat | StopInject nat
  | ReleaseMedia u64
  | SessionNotice recording_notice session_snapshot nat bool
  | ClearMediaFailure u32 bool
  | DisableAutomaticRecording

datatype recording_call = CallStart start_intent bool nat
  | CallStop nat
  | CallToggle start_intent bool nat
  | CallObserve session_observation
  | CallShutdown

text \<open>What a helper answers, and the calls that arrive while the session waits for it.\<close>

record session_reply =
  ok :: bool
  answer :: command_outcome
  during :: "recording_call list"

record rec_session =
  snapshot :: session_snapshot
  commandInFlight :: bool
  replies :: "session_reply list"
  sessionEffects :: "session_effect list"

definition no_reply :: session_reply where
  "no_reply = \<lparr>ok = False, answer = Rejected, during = []\<rparr>"

definition initial_snapshot :: session_snapshot where
  "initial_snapshot = \<lparr>requested = False, streaming = False, observedLive = False, pendingIntent = IntentIdle,
     request = 0, pendingSince = 0, requestedSince = 0, lastStop = Accepted\<rparr>"

definition new_session :: "session_reply list \<Rightarrow> rec_session" where
  "new_session rs = \<lparr>snapshot = initial_snapshot, commandInFlight = False, replies = rs, sessionEffects = []\<rparr>"

definition emit :: "session_effect \<Rightarrow> rec_session \<Rightarrow> rec_session" where
  "emit e s = s\<lparr>sessionEffects := sessionEffects s @ [e]\<rparr>"

text \<open>The next answer; a session that is asked more often than it has answers gets the failing one.\<close>

definition next_reply :: "rec_session \<Rightarrow> session_reply \<times> rec_session" where
  "next_reply s = (case replies s of [] \<Rightarrow> (no_reply, s) | r # rs \<Rightarrow> (r, s\<lparr>replies := rs\<rparr>))"

text \<open>An effect that waits; \<open>reenter\<close> runs the calls that arrive meanwhile.\<close>

definition await :: "(recording_call list \<Rightarrow> rec_session \<Rightarrow> rec_session) \<Rightarrow> session_effect \<Rightarrow> rec_session \<Rightarrow> session_reply \<times> rec_session" where
  "await reenter e s = (let (r, s) = next_reply (emit e s) in (r, reenter (during r) s))"

definition notice :: "recording_notice \<Rightarrow> nat \<Rightarrow> bool \<Rightarrow> rec_session \<Rightarrow> rec_session" where
  "notice n elapsedMs exactly s = emit (SessionNotice n (snapshot s) elapsedMs exactly) s"

definition publish_intent :: "start_intent \<Rightarrow> rec_session \<Rightarrow> bool \<times> rec_session" where
  "publish_intent intent s = (let (r, s) = next_reply (emit (PublishIntent intent) s) in (ok r, s))"

definition inject_connected :: "rec_session \<Rightarrow> bool \<times> rec_session" where
  "inject_connected s = (let (r, s) = next_reply s in (ok r, s))"

text \<open>\<open>CommandGuard\<close>.\<close>

definition guarded :: "(rec_session \<Rightarrow> 'a \<times> rec_session) \<Rightarrow> rec_session \<Rightarrow> 'a \<times> rec_session" where
  "guarded f s = (case f (s\<lparr>commandInFlight := True\<rparr>) of (r, t) \<Rightarrow> (r, t\<lparr>commandInFlight := commandInFlight s\<rparr>))"

section \<open>The operations\<close>

definition clear_intent :: "rec_session \<Rightarrow> rec_session" where
  "clear_intent s =
     (let s = s\<lparr>snapshot := (snapshot s)\<lparr>requested := False, pendingIntent := IntentIdle, pendingSince := 0,
                                        requestedSince := 0\<rparr>\<rparr>
      in notice NoticeRequested 0 False (snd (publish_intent IntentIdle s)))"

definition stop_child_endpoints ::
  "(recording_call list \<Rightarrow> rec_session \<Rightarrow> rec_session) \<Rightarrow> nat \<Rightarrow> rec_session \<Rightarrow> command_outcome \<times> rec_session" where
  "stop_child_endpoints reenter timeoutMs s =
     (let (media, s) = await reenter (StopMedia timeoutMs) s;
          (outcome, s) =
            (if answer media \<noteq> Accepted
             then let (inject, s) = await reenter (StopInject timeoutMs) s
                  in (if answer inject = Accepted then Accepted
                      else if answer media = AcknowledgementUnknown \<or> answer inject = AcknowledgementUnknown
                      then AcknowledgementUnknown else Rejected, s)
             else (answer media, s));
          s = emit (ReleaseMedia (request (snapshot s))) s;
          s = s\<lparr>snapshot := (snapshot s)\<lparr>lastStop := outcome\<rparr>\<rparr>
      in (outcome, notice NoticeStopResult 0 False s))"

definition fail_session ::
  "(recording_call list \<Rightarrow> rec_session \<Rightarrow> rec_session) \<Rightarrow> u32 \<Rightarrow> bool \<Rightarrow> bool \<Rightarrow> bool \<Rightarrow> rec_session \<Rightarrow> rec_session" where
  "fail_session reenter failure mediaGone stopChild disableAutomatic s =
     snd (guarded (\<lambda>s.
       let s = clear_intent s;
           s = (if stopChild then snd (stop_child_endpoints reenter 1000 s) else s);
           s = notice NoticeFailed 0 False s;
           s = emit (ClearMediaFailure failure mediaGone) s
       in ((), if disableAutomatic then emit DisableAutomaticRecording s else s)) s)"

definition end_by_media :: "rec_session \<Rightarrow> rec_session" where
  "end_by_media s =
     snd (guarded (\<lambda>s.
       let s = notice NoticeEndedByMedia 0 False (clear_intent s);
           s = emit (ClearMediaFailure 0 True) s
       in ((), emit (ReleaseMedia (request (snapshot s))) s)) s)"

text \<open>The check after every wait of a start: the request is still the one this call made.\<close>

definition still_requested :: "u64 \<Rightarrow> rec_session \<Rightarrow> bool" where
  "still_requested r s \<longleftrightarrow> requested (snapshot s) \<and> request (snapshot s) = r"

text \<open>The start command to the helpers; nothing is returned after the early return of the audio branch.\<close>

definition start_helpers ::
  "(recording_call list \<Rightarrow> rec_session \<Rightarrow> rec_session) \<Rightarrow> start_intent \<Rightarrow> bool \<Rightarrow> u64 \<Rightarrow> rec_session \<Rightarrow> command_outcome option \<times> rec_session" where
  "start_helpers reenter intent published r s =
     (if intent = IntentAudioOnly
      then let s = (if \<not> published then snd (publish_intent intent s) else s);
               (connected, s) = inject_connected s;
               (outcome, s) = (if connected then (let (a, s) = await reenter StartInject s in (answer a, s))
                               else (Rejected, s))
           in if \<not> still_requested r s then (None, s)
              else let (direct, s) = await reenter StartAudioMedia s
                   in (Some (if answer direct = Accepted \<or> outcome \<noteq> Accepted then answer direct else outcome), s)
      else let (connected, s) = inject_connected s
           in if connected
              then let (a, s) = await reenter StartInject s
                   in if still_requested r s \<and> answer a \<noteq> Accepted
                      then let (b, s) = await reenter StartInject s in (Some (answer b), s)
                      else (Some (answer a), s)
              else (Some Rejected, s))"

text \<open>What follows once media is there, and the start from its first effect on.\<close>

definition finish_start ::
  "(recording_call list \<Rightarrow> rec_session \<Rightarrow> rec_session) \<Rightarrow> start_intent \<Rightarrow> bool \<Rightarrow> u64 \<Rightarrow> rec_session \<Rightarrow> command_outcome \<times> rec_session" where
  "finish_start reenter intent published r s =
     (case start_helpers reenter intent published r s of (outcome, s) \<Rightarrow>
        (case outcome of
           None \<Rightarrow> (Rejected, s)
         | Some outcome \<Rightarrow>
             if \<not> still_requested r s then (Rejected, s)
             else (outcome, if outcome \<noteq> Accepted then fail_session reenter 0 False False False s else s)))"

definition start_request ::
  "(recording_call list \<Rightarrow> rec_session \<Rightarrow> rec_session) \<Rightarrow> start_intent \<Rightarrow> bool \<Rightarrow> nat \<Rightarrow> rec_session \<Rightarrow> command_outcome \<times> rec_session" where
  "start_request reenter intent streamTarget now s =
     (let s = s\<lparr>snapshot := (snapshot s)\<lparr>requested := True, observedLive := False,
                 streaming := streamTarget \<and> intent = IntentVideo, pendingIntent := intent, pendingSince := now,
                 requestedSince := now, request := request (snapshot s) + 1\<rparr>\<rparr>;
          r = request (snapshot s);
          s = notice NoticeClear 0 False (emit PrepareIdentity s);
          (published, s) = publish_intent intent s;
          s = notice NoticeRequested 0 False s;
          s = (if intent = IntentVideo then snd (await reenter EnsureSensor s) else s)
      in if \<not> still_requested r s then (Rejected, s)
         else let (ready, s) = await reenter EnsureMedia s
              in if \<not> still_requested r s then (Rejected, s)
                 else if \<not> ok ready then (Rejected, fail_session reenter 0 False False False s)
                 else finish_start reenter intent published r s)"

definition rec_start ::
  "(recording_call list \<Rightarrow> rec_session \<Rightarrow> rec_session) \<Rightarrow> start_intent \<Rightarrow> bool \<Rightarrow> nat \<Rightarrow> rec_session \<Rightarrow> command_outcome \<times> rec_session" where
  "rec_start reenter intent streamTarget now s =
     (if commandInFlight s \<or> requested (snapshot s) \<or> intent = IntentIdle then (Rejected, s)
      else guarded (start_request reenter intent streamTarget now) s)"

definition rec_stop ::
  "(recording_call list \<Rightarrow> rec_session \<Rightarrow> rec_session) \<Rightarrow> nat \<Rightarrow> rec_session \<Rightarrow> command_outcome \<times> rec_session" where
  "rec_stop reenter now s =
     guarded (\<lambda>s.
       let active = requested (snapshot s) \<or> pendingIntent (snapshot s) \<noteq> IntentIdle;
           since = pendingSince (snapshot s);
           pendingMs = (if since \<noteq> 0 \<and> now \<ge> since then now - since else 0);
           s = clear_intent s
       in if \<not> active then (Accepted, s)
          else let (outcome, s) = stop_child_endpoints reenter 5000 (notice NoticeFinalizing pendingMs False s)
               in (outcome, s\<lparr>snapshot := (snapshot s)\<lparr>lastStop := outcome\<rparr>\<rparr>)) s"

definition rec_toggle ::
  "(recording_call list \<Rightarrow> rec_session \<Rightarrow> rec_session) \<Rightarrow> start_intent \<Rightarrow> bool \<Rightarrow> nat \<Rightarrow> rec_session \<Rightarrow> command_outcome \<times> rec_session" where
  "rec_toggle reenter intent streamTarget now s =
     (if requested (snapshot s) then rec_stop reenter now s else rec_start reenter intent streamTarget now s)"

text \<open>The first half of \<open>Observe\<close>: whether the live report confirms the pending start.\<close>

definition stale_live_stamp :: "session_observation \<Rightarrow> session_snapshot \<Rightarrow> bool" where
  "stale_live_stamp obs st \<longleftrightarrow>
     obsLiveSince obs > 0 \<and> pendingSince st \<noteq> 0 \<and> nat (obsLiveSince obs) < pendingSince st"

definition confirm_live :: "session_observation \<Rightarrow> rec_session \<Rightarrow> rec_session" where
  "confirm_live obs s =
     (if obsLive obs \<and> \<not> stale_live_stamp obs (snapshot s) \<and> pendingIntent (snapshot s) \<noteq> IntentIdle
      then let timing = resolve_recording_startup_timing (pendingSince (snapshot s)) (obsLiveSince obs) (obsNow obs);
               s = s\<lparr>snapshot := (snapshot s)\<lparr>observedLive := True\<rparr>\<rparr>;
               s = notice NoticeLive (startupMs timing) (exact timing) s
           in s\<lparr>snapshot := (snapshot s)\<lparr>pendingSince := 0, pendingIntent := IntentIdle\<rparr>\<rparr>
      else s)"

definition observe_session :: "(recording_call list \<Rightarrow> rec_session \<Rightarrow> rec_session) \<Rightarrow> session_observation \<Rightarrow> rec_session \<Rightarrow> rec_session" where
  "observe_session reenter obs s =
     (if \<not> requested (snapshot s) \<or> obsRequest obs \<noteq> request (snapshot s) then s
      else let s = confirm_live obs s; st = snapshot s
           in if obsFailure obs \<noteq> 0 then fail_session reenter (obsFailure obs) False True True s
              else if ends_request (decode_end (obsMediaEnded obs)) (requestedSince st) then end_by_media s
              else if pendingIntent st \<noteq> IntentIdle \<and>
                      (\<not> mediaAvailable obs \<or> (pendingIntent st = IntentVideo \<and> \<not> injectAvailable obs))
              then fail_session reenter 0 False True False s
              else if observedLive st \<and> \<not> mediaAvailable obs then fail_session reenter 0 True False True s
              else s)"

definition shutdown_session :: "rec_session \<Rightarrow> rec_session" where
  "shutdown_session s = clear_intent s"

text \<open>A call as a whole.  Calls that arrive during a wait may be waited in themselves, to any depth.\<close>

definition session_op ::
  "(recording_call list \<Rightarrow> rec_session \<Rightarrow> rec_session) \<Rightarrow> recording_call \<Rightarrow> rec_session \<Rightarrow> command_outcome option \<times> rec_session" where
  "session_op reenter c s =
     (case c of
        CallStart intent stream now \<Rightarrow> (let (r, s) = rec_start reenter intent stream now s in (Some r, s))
      | CallStop now \<Rightarrow> (let (r, s) = rec_stop reenter now s in (Some r, s))
      | CallToggle intent stream now \<Rightarrow> (let (r, s) = rec_toggle reenter intent stream now s in (Some r, s))
      | CallObserve obs \<Rightarrow> (None, observe_session reenter obs s)
      | CallShutdown \<Rightarrow> (None, shutdown_session s))"

primrec run_calls :: "nat \<Rightarrow> recording_call list \<Rightarrow> rec_session \<Rightarrow> rec_session" where
  "run_calls 0 cs s = s"
| "run_calls (Suc depth) cs s = fold (\<lambda>c s. snd (session_op (run_calls depth) c s)) cs s"

section \<open>The owner\<close>

text \<open>\<open>RecordingOwner::Reconcile\<close>: the health read from the children and their readiness, if sampled.\<close>

record recording_health =
  healthLive :: bool
  healthLiveSince :: int
  healthFailure :: u32
  healthMediaEnded :: u64

definition reconcile_owner ::
  "(recording_call list \<Rightarrow> rec_session \<Rightarrow> rec_session) \<Rightarrow> recording_health \<Rightarrow> (bool \<times> bool) option \<Rightarrow> nat \<Rightarrow> rec_session \<Rightarrow> rec_session" where
  "reconcile_owner reenter health children now s =
     (if \<not> requested (snapshot s) then s
      else let obs = \<lparr>obsRequest = request (snapshot s), obsNow = now, obsLive = False, obsLiveSince = 0,
                      obsFailure = healthFailure health, obsMediaEnded = healthMediaEnded health,
                      mediaAvailable = True, injectAvailable = True\<rparr>;
               obs = (case children of None \<Rightarrow> obs
                      | Some (media, inject) \<Rightarrow> obs\<lparr>obsLive := healthLive health, obsLiveSince := healthLiveSince health,
                                                     mediaAvailable := media, injectAvailable := inject\<rparr>)
           in observe_session reenter obs s)"

definition owner_stop :: "(recording_call list \<Rightarrow> rec_session \<Rightarrow> rec_session) \<Rightarrow> nat \<Rightarrow> rec_session \<Rightarrow> bool \<times> rec_session" where
  "owner_stop reenter now s = (let (r, s) = rec_stop reenter now s in (r = Accepted, s))"

section \<open>What a wait may change\<close>

text \<open>The published intent and the reported ownership: the last such effects.\<close>

fun intents_of :: "session_effect list \<Rightarrow> start_intent list" where
  "intents_of [] = []"
| "intents_of (PublishIntent i # es) = i # intents_of es"
| "intents_of (e # es) = intents_of es"

fun reports_of :: "session_effect list \<Rightarrow> bool list" where
  "reports_of [] = []"
| "reports_of (SessionNotice NoticeRequested st e x # es) = requested st # reports_of es"
| "reports_of (e # es) = reports_of es"

definition published_intent :: "rec_session \<Rightarrow> start_intent" where
  "published_intent s = last (IntentIdle # intents_of (sessionEffects s))"

definition reported_request :: "rec_session \<Rightarrow> bool" where
  "reported_request s = last (False # reports_of (sessionEffects s))"

lemma intents_append: "intents_of (es @ fs) = intents_of es @ intents_of fs"
  by (induction es rule: intents_of.induct) simp_all

lemma reports_append: "reports_of (es @ fs) = reports_of es @ reports_of fs"
  by (induction es rule: reports_of.induct) simp_all

definition snapshot_ok :: "session_snapshot \<Rightarrow> bool" where
  "snapshot_ok st \<longleftrightarrow>
     (if requested st then observedLive st \<longleftrightarrow> pendingIntent st = IntentIdle
      else pendingIntent st = IntentIdle \<and> pendingSince st = 0 \<and> requestedSince st = 0)"

definition session_ok :: "rec_session \<Rightarrow> bool" where
  "session_ok s \<longleftrightarrow> snapshot_ok (snapshot s) \<and> (published_intent s \<noteq> IntentIdle \<longleftrightarrow> requested (snapshot s)) \<and>
     (reported_request s \<longleftrightarrow> requested (snapshot s))"

text \<open>
  What re-entering calls keep: the invariant, the flag and the effects made so far, and while a
  command is in flight no new request is made.
\<close>

definition reenters :: "rec_session \<Rightarrow> rec_session \<Rightarrow> bool" where
  "reenters s t \<longleftrightarrow> (session_ok s \<longrightarrow> session_ok t) \<and> commandInFlight t = commandInFlight s \<and>
     prefix (sessionEffects s) (sessionEffects t) \<and>
     (commandInFlight s \<longrightarrow> request (snapshot t) = request (snapshot s) \<and>
        (requested (snapshot t) \<longrightarrow> requested (snapshot s)))"

lemma reenters_refl [simp]: "reenters s s"
  by (simp add: reenters_def)

lemma reenters_trans: "reenters s t \<Longrightarrow> reenters t u \<Longrightarrow> reenters s u"
  by (auto simp: reenters_def intro: prefix_order.trans)

fun plain_effect :: "session_effect \<Rightarrow> bool" where
  "plain_effect (PublishIntent i) = False"
| "plain_effect (SessionNotice NoticeRequested st e x) = False"
| "plain_effect e = True"

lemma plain_effect_keeps:
  "plain_effect e \<Longrightarrow> published_intent (emit e s) = published_intent s \<and> reported_request (emit e s) = reported_request s"
  by (cases e rule: plain_effect.cases)
     (auto simp: published_intent_def reported_request_def emit_def intents_append reports_append)

lemma emit_fields [simp]:
  "snapshot (emit e s) = snapshot s" "commandInFlight (emit e s) = commandInFlight s"
  "sessionEffects (emit e s) = sessionEffects s @ [e]"
  by (simp_all add: emit_def)

lemma reenters_emit: "plain_effect e \<Longrightarrow> reenters s (emit e s)"
  by (simp add: reenters_def session_ok_def plain_effect_keeps)

lemma notice_fields [simp]:
  "snapshot (notice n e x s) = snapshot s" "commandInFlight (notice n e x s) = commandInFlight s"
  "sessionEffects (notice n e x s) = sessionEffects s @ [SessionNotice n (snapshot s) e x]"
  by (simp_all add: notice_def)

lemma reenters_notice: "n \<noteq> NoticeRequested \<Longrightarrow> reenters s (notice n e x s)"
  unfolding notice_def by (rule reenters_emit) (cases n; simp)

lemma next_reply_fields [simp]:
  "snapshot (snd (next_reply s)) = snapshot s" "commandInFlight (snd (next_reply s)) = commandInFlight s"
  "sessionEffects (snd (next_reply s)) = sessionEffects s"
  by (simp_all add: next_reply_def split: list.split)

lemma published_next_reply [simp]:
  "published_intent (snd (next_reply s)) = published_intent s" "reported_request (snd (next_reply s)) = reported_request s"
  by (simp_all add: published_intent_def reported_request_def)

lemma reenters_next_reply [simp]: "reenters s (snd (next_reply s))"
  by (simp add: reenters_def session_ok_def)

lemma publish_intent_fields [simp]:
  "sessionEffects (snd (publish_intent i s)) = sessionEffects s @ [PublishIntent i]"
  "snapshot (snd (publish_intent i s)) = snapshot s" "commandInFlight (snd (publish_intent i s)) = commandInFlight s"
  "published_intent (snd (publish_intent i s)) = i" "reported_request (snd (publish_intent i s)) = reported_request s"
  by (simp_all add: publish_intent_def case_prod_beta)
     (simp_all add: published_intent_def reported_request_def emit_def intents_append reports_append)

lemma report_fields [simp]:
  "published_intent (notice NoticeRequested e x s) = published_intent s"
  "reported_request (notice NoticeRequested e x s) = requested (snapshot s)"
  by (simp_all add: published_intent_def reported_request_def notice_def emit_def intents_append reports_append)

lemma reenters_lastStop [simp]: "reenters s (s\<lparr>snapshot := (snapshot s)\<lparr>lastStop := x\<rparr>\<rparr>)"
  by (simp add: reenters_def session_ok_def snapshot_ok_def published_intent_def reported_request_def)

lemma clear_intent_snapshot [simp]:
  "snapshot (clear_intent s) = (snapshot s)\<lparr>requested := False, pendingIntent := IntentIdle, pendingSince := 0,
     requestedSince := 0\<rparr>" "commandInFlight (clear_intent s) = commandInFlight s"
  by (simp_all add: clear_intent_def Let_def)

lemma clear_intent_effects: "prefix (sessionEffects s) (sessionEffects (clear_intent s))"
  by (simp add: clear_intent_def Let_def publish_intent_def notice_def case_prod_beta)

lemma clear_intent_ok: "session_ok (clear_intent s)"
  by (simp add: session_ok_def snapshot_ok_def) (simp add: clear_intent_def Let_def)

lemma reenters_clear_intent: "reenters s (clear_intent s)"
  by (simp add: reenters_def clear_intent_ok clear_intent_effects)

lemma reenters_guarded:
  assumes "\<And>s. commandInFlight s \<Longrightarrow> reenters s (snd (f s))"
  shows "reenters s (snd (guarded f s))" and "request (snapshot (snd (guarded f s))) = request (snapshot s)"
    and "requested (snapshot (snd (guarded f s))) \<Longrightarrow> requested (snapshot s)"
proof -
  let ?s = "s\<lparr>commandInFlight := True\<rparr>" and ?t = "snd (f (s\<lparr>commandInFlight := True\<rparr>))"
  have step: "reenters ?s ?t" using assms by simp
  have same: "session_ok (x\<lparr>commandInFlight := b\<rparr>) = session_ok x" for x b
    by (simp add: session_ok_def published_intent_def reported_request_def)
  have t: "snd (guarded f s) = ?t\<lparr>commandInFlight := commandInFlight s\<rparr>"
    by (simp add: guarded_def case_prod_beta)
  show "reenters s (snd (guarded f s))" "request (snapshot (snd (guarded f s))) = request (snapshot s)"
    "requested (snapshot (snd (guarded f s))) \<Longrightarrow> requested (snapshot s)"
    using step unfolding t by (auto simp: reenters_def same)
qed

text \<open>The same, appended to what came before.\<close>

lemma reenters_on:
  "reenters s t \<Longrightarrow> plain_effect e \<Longrightarrow> reenters s (emit e t)"
  "reenters s t \<Longrightarrow> n \<noteq> NoticeRequested \<Longrightarrow> reenters s (notice n ms x t)"
  "reenters s t \<Longrightarrow> reenters s (t\<lparr>snapshot := (snapshot t)\<lparr>lastStop := out\<rparr>\<rparr>)"
  "reenters s t \<Longrightarrow> reenters s (snd (next_reply t))"
  "reenters s t \<Longrightarrow> reenters s (snd (inject_connected t))"
  by (erule reenters_trans; simp add: reenters_emit reenters_notice inject_connected_def case_prod_beta)+

locale session_reentry =
  fixes reenter :: "recording_call list \<Rightarrow> rec_session \<Rightarrow> rec_session"
  assumes reenter_ok: "reenters s (reenter cs s)"
begin

lemma reenters_await:
  assumes "plain_effect e"
  shows "reenters s (snd (await reenter e s))"
proof -
  have "reenters s (snd (next_reply (emit e s)))"
    by (rule reenters_trans [OF reenters_emit [OF assms] reenters_next_reply])
  then show ?thesis using reenter_ok by (auto simp: await_def case_prod_beta Let_def intro: reenters_trans)
qed

lemma reenters_await_on: "reenters s t \<Longrightarrow> plain_effect e \<Longrightarrow> reenters s (snd (await reenter e t))"
  by (rule reenters_trans [OF _ reenters_await])

lemma stop_child_endpoints_reenters:
  "reenters s t \<Longrightarrow> reenters s (snd (stop_child_endpoints reenter timeoutMs t))"
  unfolding stop_child_endpoints_def Let_def case_prod_beta snd_conv
  by (intro reenters_on) (auto intro!: reenters_await_on)

lemma fail_session_clears:
  "reenters s (fail_session reenter f g st d s)" "request (snapshot (fail_session reenter f g st d s)) = request (snapshot s)"
  "\<not> requested (snapshot (fail_session reenter f g st d s))"
proof -
  let ?f = "\<lambda>s. let s = clear_intent s;
           s = (if st then snd (stop_child_endpoints reenter 1000 s) else s);
           s = notice NoticeFailed 0 False s;
           s = emit (ClearMediaFailure f g) s
       in ((), if d then emit DisableAutomaticRecording s else s)"
  have after: "reenters (clear_intent s) (snd (?f s))" for s
    unfolding Let_def snd_conv by (cases d; cases st) (auto intro!: reenters_on stop_child_endpoints_reenters)
  have step: "reenters s (snd (?f s))" for s by (rule reenters_trans [OF reenters_clear_intent after])
  show "reenters s (fail_session reenter f g st d s)" "request (snapshot (fail_session reenter f g st d s)) = request (snapshot s)"
    unfolding fail_session_def by (rule reenters_guarded [OF step])+
  have "\<not> requested (snapshot (snd (?f (s\<lparr>commandInFlight := True\<rparr>))))"
    using after [of "s\<lparr>commandInFlight := True\<rparr>"] by (simp add: reenters_def)
  then show "\<not> requested (snapshot (fail_session reenter f g st d s))"
    unfolding fail_session_def guarded_def by (simp add: case_prod_beta)
qed

lemma end_by_media_clears:
  "reenters s (end_by_media s)" "request (snapshot (end_by_media s)) = request (snapshot s)"
  "\<not> requested (snapshot (end_by_media s))"
proof -
  let ?f = "\<lambda>s. let s = notice NoticeEndedByMedia 0 False (clear_intent s);
           s = emit (ClearMediaFailure 0 True) s
       in ((), emit (ReleaseMedia (request (snapshot s))) s)"
  have after: "reenters (clear_intent s) (snd (?f s))" for s
    unfolding Let_def snd_conv by (auto intro!: reenters_on)
  have step: "reenters s (snd (?f s))" for s by (rule reenters_trans [OF reenters_clear_intent after])
  show "reenters s (end_by_media s)" "request (snapshot (end_by_media s)) = request (snapshot s)"
    unfolding end_by_media_def by (rule reenters_guarded [OF step])+
  show "\<not> requested (snapshot (end_by_media s))"
    unfolding end_by_media_def guarded_def by (simp add: Let_def)
qed

lemma rec_stop_clears:
  "reenters s (snd (rec_stop reenter now s))" "request (snapshot (snd (rec_stop reenter now s))) = request (snapshot s)"
  "\<not> requested (snapshot (snd (rec_stop reenter now s)))"
proof -
  let ?f = "\<lambda>s. let active = requested (snapshot s) \<or> pendingIntent (snapshot s) \<noteq> IntentIdle;
           since = pendingSince (snapshot s);
           pendingMs = (if since \<noteq> 0 \<and> now \<ge> since then now - since else 0);
           s = clear_intent s
       in if \<not> active then (Accepted, s)
          else let (outcome, s) = stop_child_endpoints reenter 5000 (notice NoticeFinalizing pendingMs False s)
               in (outcome, s\<lparr>snapshot := (snapshot s)\<lparr>lastStop := outcome\<rparr>\<rparr>)"
  have after: "reenters (clear_intent s) (snd (?f s))" for s
    unfolding Let_def case_prod_beta by (auto intro!: reenters_on stop_child_endpoints_reenters)
  have step: "reenters s (snd (?f s))" for s by (rule reenters_trans [OF reenters_clear_intent after])
  show "reenters s (snd (rec_stop reenter now s))" "request (snapshot (snd (rec_stop reenter now s))) = request (snapshot s)"
    unfolding rec_stop_def by (rule reenters_guarded [OF step])+
  have "\<not> requested (snapshot (snd (?f (s\<lparr>commandInFlight := True\<rparr>))))"
    using after [of "s\<lparr>commandInFlight := True\<rparr>"] by (simp add: reenters_def)
  then show "\<not> requested (snapshot (snd (rec_stop reenter now s)))"
    unfolding rec_stop_def guarded_def by (simp add: case_prod_beta)
qed

lemma confirm_live_reenters:
  fixes s :: rec_session
  shows "reenters s (confirm_live obs s)" and "request (snapshot (confirm_live obs s)) = request (snapshot s)"
proof -
  let ?s = "s\<lparr>snapshot := (snapshot s)\<lparr>observedLive := True\<rparr>\<rparr>"
  have same: "published_intent (u\<lparr>snapshot := x\<rparr>) = published_intent u" "reported_request (u\<lparr>snapshot := x\<rparr>) = reported_request u"
    for u x by (simp_all add: published_intent_def reported_request_def)
  have n: "published_intent (notice NoticeLive e x ?s) = published_intent s" "reported_request (notice NoticeLive e x ?s) = reported_request s"
    for e x using plain_effect_keeps [of "SessionNotice NoticeLive (snapshot ?s) e x" ?s] by (simp_all add: notice_def same)
  show "reenters s (confirm_live obs s)" "request (snapshot (confirm_live obs s)) = request (snapshot s)"
    by (auto simp: confirm_live_def Let_def reenters_def session_ok_def snapshot_ok_def same n split: if_splits)
qed

lemma observe_session_reenters:
  "reenters s (observe_session reenter obs s)" "request (snapshot (observe_session reenter obs s)) = request (snapshot s)"
  using confirm_live_reenters [where s = s and obs = obs] fail_session_clears end_by_media_clears
  by (auto simp: observe_session_def Let_def intro: reenters_trans)

lemma publish_again_on:
  assumes "reenters s t" "requested (snapshot t)" "i \<noteq> IntentIdle"
  shows "reenters s (snd (publish_intent i t))"
proof -
  have "reenters t (snd (publish_intent i t))" using assms(2,3) by (simp add: reenters_def session_ok_def)
  then show ?thesis by (rule reenters_trans [OF assms(1)])
qed

lemma start_helpers_reenters:
  assumes "reenters s t" "requested (snapshot t)" "intent \<noteq> IntentIdle"
  shows "reenters s (snd (start_helpers reenter intent published r t))"
proof -
  let ?t = "if \<not> published then snd (publish_intent intent t) else t"
  have "reenters s ?t" using assms publish_again_on by simp
  then show ?thesis using assms(1) unfolding start_helpers_def Let_def case_prod_beta
    by (auto intro!: reenters_on reenters_await_on simp del: if_not_P)
qed

lemma start_helpers_none:
  "start_helpers reenter intent published r t = (None, u) \<Longrightarrow> \<not> still_requested r u"
  by (auto simp: start_helpers_def Let_def case_prod_beta split: if_splits)

lemma finish_start_outcome:
  assumes "reenters s t" "commandInFlight s" "requested (snapshot t)" "request (snapshot t) = r" "intent \<noteq> IntentIdle"
    and finish: "finish_start reenter intent published r t = (out, u)"
  shows "reenters s u \<and> (requested (snapshot u) \<longleftrightarrow> out = Accepted)"
proof -
  obtain answer v where v: "start_helpers reenter intent published r t = (answer, v)" by fastforce
  have rv: "reenters s v" using start_helpers_reenters [OF assms(1,3,5)] v by (metis snd_conv)
  have same: "request (snapshot s) = r" using assms(1,2,4) by (simp add: reenters_def)
  have gone: "\<not> requested (snapshot v)" if "\<not> still_requested r v"
    using that rv same assms(2) by (auto simp: still_requested_def reenters_def)
  note failed = fail_session_clears [where s = v and f = 0 and g = False and st = False and d = False]
  have "reenters s (fail_session reenter 0 False False False v)" by (rule reenters_trans [OF rv failed(1)])
  then show ?thesis using finish v rv gone start_helpers_none [of intent published r t v] failed(3)
    by (auto simp: finish_start_def still_requested_def split: option.splits if_splits)
qed

text \<open>A start that was let in: the answer tells whether the request is there.\<close>

lemma start_request_outcome:
  assumes "commandInFlight s" "intent \<noteq> IntentIdle"
    and start: "start_request reenter intent streamTarget now s = (out, t)"
  shows "session_ok t \<and> commandInFlight t \<and> prefix (sessionEffects s) (sessionEffects t) \<and>
    request (snapshot t) = request (snapshot s) + 1 \<and>
    (requested (snapshot t) \<longleftrightarrow> out = Accepted)"
proof -
  let ?s1 = "s\<lparr>snapshot := (snapshot s)\<lparr>requested := True, observedLive := False,
                 streaming := streamTarget \<and> intent = IntentVideo, pendingIntent := intent, pendingSince := now,
                 requestedSince := now, request := request (snapshot s) + 1\<rparr>\<rparr>"
  let ?s2 = "notice NoticeClear 0 False (emit PrepareIdentity ?s1)"
  obtain published s3 where s3: "publish_intent intent ?s2 = (published, s3)" by fastforce
  let ?s4 = "notice NoticeRequested 0 False s3"
  let ?s5 = "if intent = IntentVideo then snd (await reenter EnsureSensor ?s4) else ?s4"
  let ?r = "request (snapshot s) + 1"
  have s3_fields: "snapshot s3 = snapshot ?s1" "commandInFlight s3" "published_intent s3 = intent"
    using publish_intent_fields [of intent ?s2] assms(1) by (simp_all add: s3)
  have "sessionEffects s3 = sessionEffects ?s2 @ [PublishIntent intent]"
    using publish_intent_fields(1) [of intent ?s2] by (simp add: s3)
  then have before: "prefix (sessionEffects s) (sessionEffects ?s4)" by simp
  have ok4: "session_ok ?s4" "commandInFlight ?s4" "request (snapshot ?s4) = ?r"
    using s3_fields assms(2) by (simp_all add: session_ok_def snapshot_ok_def)
  have kept: "session_ok u \<and> commandInFlight u \<and> prefix (sessionEffects s) (sessionEffects u) \<and>
      request (snapshot u) = ?r" if "reenters ?s4 u" for u
    using that ok4 prefix_order.trans [OF before, of "sessionEffects u"] by (simp add: reenters_def del: notice_fields(3))
  have s5: "reenters ?s4 ?s5" using reenters_await by simp
  obtain ready s6 where s6: "await reenter EnsureMedia ?s5 = (ready, s6)" by fastforce
  have r6: "reenters ?s4 s6" using reenters_await_on [OF s5, of EnsureMedia] s6 by simp
  have gone: "\<not> requested (snapshot u)" if "reenters ?s4 u" "\<not> still_requested ?r u" for u
    using that kept by (auto simp: still_requested_def)
  note failed = fail_session_clears [where s = s6 and f = 0 and g = False and st = False and d = False]
  have fail: "reenters ?s4 (fail_session reenter 0 False False False s6)" by (rule reenters_trans [OF r6 failed(1)])
  show ?thesis
  proof (cases "still_requested ?r ?s5")
    case False
    then have "out = Rejected \<and> t = ?s5" using start by (simp add: start_request_def Let_def s3)
    then show ?thesis using kept [OF s5] gone [OF s5 False] by simp
  next
    case five: True
    then have rest: "(out, t) = (if \<not> still_requested ?r s6 then (Rejected, s6)
        else if \<not> ok ready then (Rejected, fail_session reenter 0 False False False s6)
        else finish_start reenter intent published ?r s6)"
      using start by (cases "still_requested ?r s6"; cases "ok ready") (simp_all add: start_request_def Let_def s3 s6)
    show ?thesis
    proof (cases "still_requested ?r s6 \<and> ok ready")
      case False
      then show ?thesis using rest kept [OF r6] kept [OF fail] gone [OF r6] failed(3)
        by (cases "still_requested ?r s6") simp_all
    next
      case True
      then have "finish_start reenter intent published ?r s6 = (out, t)" using rest by simp
      from finish_start_outcome [OF r6 ok4(2) _ _ assms(2) this] True kept show ?thesis
        by (simp add: still_requested_def)
    qed
  qed
qed


lemma rec_start_outcome:
  assumes "rec_start reenter intent streamTarget now s = (out, t)"
  shows "if commandInFlight s \<or> requested (snapshot s) \<or> intent = IntentIdle then out = Rejected \<and> t = s
    else session_ok t \<and> \<not> commandInFlight t \<and> prefix (sessionEffects s) (sessionEffects t) \<and>
      request (snapshot t) = request (snapshot s) + 1 \<and> (requested (snapshot t) \<longleftrightarrow> out = Accepted)"
proof (cases "commandInFlight s \<or> requested (snapshot s) \<or> intent = IntentIdle")
  case True
  then show ?thesis using assms by (auto simp: rec_start_def)
next
  case False
  obtain u where u: "start_request reenter intent streamTarget now (s\<lparr>commandInFlight := True\<rparr>) = (out, u)"
    "t = u\<lparr>commandInFlight := False\<rparr>"
    using assms False by (auto simp: rec_start_def guarded_def split: prod.splits)
  have same: "session_ok (x\<lparr>commandInFlight := b\<rparr>) = session_ok x" for x b
    by (simp add: session_ok_def published_intent_def reported_request_def)
  from start_request_outcome [OF _ _ u(1)] False show ?thesis by (simp add: same u(2))
qed

lemma rec_start_reenters: "reenters s (snd (rec_start reenter intent stream now s))"
  using rec_start_outcome [of intent stream now s]
  by (cases "rec_start reenter intent stream now s") (auto simp: reenters_def split: if_splits)

lemma session_op_reenters: "reenters s (snd (session_op reenter c s))"
  by (cases c) (simp_all add: session_op_def rec_toggle_def shutdown_session_def case_prod_beta Let_def
    rec_start_reenters rec_stop_clears observe_session_reenters reenters_clear_intent)

end

lemma run_calls_reenters: "reenters s (run_calls depth cs s)"
proof (induction depth arbitrary: cs s)
  case (Suc depth)
  have op: "reenters u (snd (session_op (run_calls depth) c u))" for c u
    by (rule session_reentry.session_op_reenters) (unfold_locales, rule Suc.IH)
  have "reenters s (fold (\<lambda>c s. snd (session_op (run_calls depth) c s)) cs u)" if "reenters s u" for u
    using that by (induction cs arbitrary: u) (auto intro: reenters_trans [OF _ op])
  then show ?case by simp
qed simp

interpretation nested_calls: session_reentry "run_calls depth" for depth
  by unfold_locales (rule run_calls_reenters)

section \<open>What the session promises\<close>

lemma new_session_ok: "session_ok (new_session rs)" "\<not> commandInFlight (new_session rs)"
  by (simp_all add: new_session_def session_ok_def snapshot_ok_def initial_snapshot_def published_intent_def reported_request_def)

lemma run_session_ok: "session_ok (run_calls depth cs (new_session rs)) \<and> \<not> commandInFlight (run_calls depth cs (new_session rs))"
  using run_calls_reenters [of "new_session rs" depth cs] new_session_ok by (simp add: reenters_def)

text \<open>C31: After any calls, answered in any way and re-entered to any depth while they wait, the hook-facing intent is
  published exactly while a recording is requested, the observer was last told so, no command is left in flight, and
  a requested recording is either pending or seen live.\<close>

theorem session_state_is_published:
  "let s = run_calls depth cs (new_session rs); st = snapshot s
   in (published_intent s \<noteq> IntentIdle \<longleftrightarrow> requested st) \<and> (reported_request s \<longleftrightarrow> requested st) \<and>
      \<not> commandInFlight s \<and>
      (if requested st then observedLive st \<longleftrightarrow> pendingIntent st = IntentIdle
       else pendingIntent st = IntentIdle \<and> pendingSince st = 0 \<and> requestedSince st = 0)"
  using run_session_ok [of depth cs rs] by (simp add: Let_def session_ok_def snapshot_ok_def)

text \<open>C32: A start that is let in makes exactly one new request, and the request is there afterwards exactly when the
  answer is acceptance, also when a stop, a shutdown or an observation arrives while the start waits for a helper.\<close>

theorem start_answer_is_the_truth:
  assumes "s = run_calls depth' cs (new_session rs)"
    and "rec_start (run_calls depth) intent streamTarget now s = (out, t)"
    and "\<not> requested (snapshot s)" and "intent \<noteq> IntentIdle"
  shows "request (snapshot t) = request (snapshot s) + 1 \<and>
    (requested (snapshot t) \<longleftrightarrow> out = Accepted) \<and> (published_intent t \<noteq> IntentIdle \<longleftrightarrow> out = Accepted)"
  using nested_calls.rec_start_outcome [OF assms(2)] run_session_ok [of depth' cs rs] assms(1,3,4)
  by (auto simp: session_ok_def split: if_splits)

lemma stop_child_endpoints_retires:
  assumes "stop_child_endpoints (run_calls depth) timeoutMs s = (out, t)" "commandInFlight s"
  shows "lastStop (snapshot t) = out \<and>
    (\<exists>es. sessionEffects t = sessionEffects s @ es \<and> ReleaseMedia (request (snapshot s)) \<in> set es)"
proof -
  obtain u where u: "reenters s u"
    "t = notice NoticeStopResult 0 False
       ((emit (ReleaseMedia (request (snapshot u))) u)\<lparr>snapshot := (snapshot u)\<lparr>lastStop := out\<rparr>\<rparr>)"
  proof -
    let ?m = "snd (await (run_calls depth) (StopMedia timeoutMs) s)"
      and ?i = "\<lambda>s. snd (await (run_calls depth) (StopInject timeoutMs) s)"
    have "reenters s ?m" "reenters s (?i ?m)" by (auto intro!: nested_calls.reenters_await_on)
    then show thesis using assms(1) that [of ?m] that [of "?i ?m"]
      by (auto simp: stop_child_endpoints_def Let_def case_prod_beta split: if_splits)
  qed
  have "request (snapshot u) = request (snapshot s)" "prefix (sessionEffects s) (sessionEffects u)"
    using u(1) assms(2) by (simp_all add: reenters_def)
  then show ?thesis by (auto simp: u(2) prefix_def)
qed

text \<open>Whatever the helpers answer, a stop of a requested recording ends the request, keeps its answer for the
  status and retires the media child for exactly this recording before it returns, so the next start gets a fresh
  one and the old one's exit is attributed to the recording it wrote.\<close>

theorem stop_retires_media:
  assumes "rec_stop (run_calls depth) now s = (out, t)" and "requested (snapshot s)"
  shows "\<not> requested (snapshot t) \<and> lastStop (snapshot t) = out \<and>
    (\<exists>es. sessionEffects t = sessionEffects s @ es \<and> ReleaseMedia (request (snapshot s)) \<in> set es)"
proof -
  let ?s = "clear_intent (s\<lparr>commandInFlight := True\<rparr>)"
  obtain ms u where u: "stop_child_endpoints (run_calls depth) 5000 (notice NoticeFinalizing ms False ?s) = (out, u)"
    "t = u\<lparr>snapshot := (snapshot u)\<lparr>lastStop := out\<rparr>, commandInFlight := commandInFlight s\<rparr>"
    using assms by (auto simp: rec_stop_def guarded_def Let_def split: prod.splits)
  have "prefix (sessionEffects s) (sessionEffects ?s)"
    using clear_intent_effects [of "s\<lparr>commandInFlight := True\<rparr>"] by simp
  then show ?thesis
    using stop_child_endpoints_retires [OF u(1)] nested_calls.rec_stop_clears(3) [of depth now s] assms(1) u(2)
    by (auto simp: prefix_def)
qed

text \<open>The live report of an observation confirms the pending start.\<close>

definition confirms_live :: "session_observation \<Rightarrow> session_snapshot \<Rightarrow> bool" where
  "confirms_live obs st \<longleftrightarrow> obsLive obs \<and> \<not> stale_live_stamp obs st \<and> pendingIntent st \<noteq> IntentIdle"

lemma confirm_live_snapshot:
  "snapshot (confirm_live obs s) = (if confirms_live obs (snapshot s)
     then (snapshot s)\<lparr>observedLive := True, pendingSince := 0, pendingIntent := IntentIdle\<rparr> else snapshot s)"
  by (simp add: confirm_live_def confirms_live_def Let_def)

text \<open>C33: An observation of the current request keeps the recording exactly when media reported no failure, its end
  notice is not about a recording that went live after this request began, a pending start still has the helpers it
  needs, and a live one still has media; it is then live exactly when it was or a live report that is not older
  than the request confirms it. Observations of other requests change nothing.\<close>

theorem observation_decides:
  assumes "requested (snapshot s)" and "t = observe_session (run_calls depth) obs s"
    and "live = (observedLive (snapshot s) \<or> confirms_live obs (snapshot s))"
    and "pending = (pendingIntent (snapshot s) \<noteq> IntentIdle \<and> \<not> confirms_live obs (snapshot s))"
  shows "if obsRequest obs \<noteq> request (snapshot s) then t = s
    else (requested (snapshot t) \<longleftrightarrow> obsFailure obs = 0 \<and>
            \<not> ends_request (decode_end (obsMediaEnded obs)) (requestedSince (snapshot s)) \<and>
            (pending \<longrightarrow> mediaAvailable obs \<and> (pendingIntent (snapshot s) = IntentVideo \<longrightarrow> injectAvailable obs)) \<and>
            (live \<longrightarrow> mediaAvailable obs)) \<and>
         (requested (snapshot t) \<longrightarrow> (observedLive (snapshot t) \<longleftrightarrow> live))"
proof -
  have "requested (snapshot (confirm_live obs s))" using assms(1) by (simp add: confirm_live_snapshot)
  then show ?thesis
    using nested_calls.fail_session_clears(3) [of depth] nested_calls.end_by_media_clears(3)
    unfolding assms(2-4) observe_session_def Let_def
    by (auto simp: assms(1) confirm_live_snapshot)
qed

section \<open>The notice survives its word\<close>

text \<open>The first notice of a recording is kept, and what is read back is what was written.\<close>

lemma decode_encode_end:
  "decode_end (encode_end reason ms) = \<lparr>endReason = reason, endLiveSinceMs = ms AND live_stamp_mask\<rparr>"
proof -
  have masks: "(0xFF :: u64) = mask 8" "live_stamp_mask = mask 56"
    by (simp_all add: live_stamp_mask_def mask_eq_exp_minus_1 push_bit_eq_mult)
  have "ucast (encode_end reason ms AND 0xFF) = reason"
    by (rule bit_word_eqI) (auto simp: encode_end_def masks bit_simps)
  moreover have "drop_bit 8 (encode_end reason ms) = ms AND live_stamp_mask"
    by (rule bit_word_eqI) (auto simp: encode_end_def masks bit_simps dest: bit_imp_le_length)
  ultimately show ?thesis by (simp add: decode_end_def)
qed

text \<open>A notice for a stamp below \<open>2 ^ 56\<close> ms ends exactly the requests made no later than the recording went live.\<close>

lemma encoded_notice_ends_request:
  assumes "reason \<noteq> 0" "0 < ms" "ms < 2 ^ 56"
  shows "ends_request (decode_end (encode_end reason ms)) start \<longleftrightarrow> start \<le> unat ms"
proof -
  have "live_stamp_mask = mask 56" by (simp add: live_stamp_mask_def mask_eq_exp_minus_1 push_bit_eq_mult)
  moreover have "ms AND mask 56 = ms" using assms(3) by (rule less_mask_eq)
  ultimately have "ms AND live_stamp_mask = ms" by simp
  then show ?thesis using assms by (auto simp: ends_request_def decode_encode_end)
qed

section \<open>Concrete sessions\<close>

text \<open>A started video recording that is pending: sensor, media and inject answer.\<close>

definition good_reply :: session_reply where
  "good_reply = \<lparr>ok = True, answer = Accepted, during = []\<rparr>"

definition pending_session :: rec_session where
  "pending_session = run_calls 1 [CallStart IntentVideo False 100] (new_session (replicate 9 good_reply))"

definition fresh_session :: rec_session where
  "fresh_session = run_calls 0 [] (new_session (replicate 9 good_reply))"

theorem start_answer_is_the_truth_witness:
  "requested (snapshot (snd (rec_start (run_calls 0) IntentVideo False 100 fresh_session)))"
proof -
  obtain out t where t: "rec_start (run_calls 0) IntentVideo False 100 fresh_session = (out, t)" by fastforce
  have out: "fst (rec_start (run_calls 0) IntentVideo False 100 fresh_session) = Accepted"
    "\<not> requested (snapshot fresh_session)" by code_simp+
  then show ?thesis using start_answer_is_the_truth [OF fresh_session_def t] t by simp
qed

theorem stop_retires_media_witness:
  "\<not> requested (snapshot (snd (rec_stop (run_calls 0) 200 pending_session)))"
proof -
  have "requested (snapshot pending_session)" by code_simp
  then show ?thesis
    using stop_retires_media [of 0 200 pending_session] by (cases "rec_stop (run_calls 0) 200 pending_session") auto
qed

definition live_report :: session_observation where
  "live_report = \<lparr>obsRequest = 1, obsNow = 400, obsLive = True, obsLiveSince = 300, obsFailure = 0, obsMediaEnded = 0,
     mediaAvailable = True, injectAvailable = True\<rparr>"

theorem observation_decides_witness:
  "observedLive (snapshot (observe_session (run_calls 0) live_report pending_session))"
proof -
  have s: "requested (snapshot pending_session)" "request (snapshot pending_session) = 1"
    "confirms_live live_report (snapshot pending_session)"
    "\<not> ends_request (decode_end (obsMediaEnded live_report)) (requestedSince (snapshot pending_session))"
    by code_simp+
  show ?thesis
    using observation_decides [OF s(1) refl refl refl, where depth = 0 and obs = live_report] s(2-4) by (simp add: live_report_def)
qed

end
