(* ===== verification/ChildProcesses.thy ===== *)
theory ChildProcesses
  imports MediaResult "HOL-Library.Multiset" "HOL-Library.AList"
begin

text \<open>
  The helper processes of the engine: their lifecycle
  (\<open>src/runtime/children/child_process_lifecycle.h\<close>), the bookkeeping of what finished media children
  report (\<open>media_finalizations.h\<close>) and the supervisor that joins them
  (\<open>host_children.cpp\<close>).  Everything runs on the engine thread, but waiting and spawning pump messages,
  so further calls may arrive in the middle of \<open>Ensure\<close>: it is cut at its waits, and the pieces
  interleave with the other operations and with the exits of the processes.  What the operating
  system answers is an argument; a process it cannot observe counts as running.
\<close>

section \<open>The lifecycle\<close>

datatype child_role = RoleInject | RoleMedia | RoleLogger | RoleSensors
datatype child_wait = WaitExited | WaitMessages | WaitTimeout | WaitFailed

text \<open>The token zero is no process.\<close>

record child_slot =
  slotProcess :: nat
  slotGeneration :: u64
  slotInstalling :: bool
  slotReady :: bool

record retired_child =
  retiredRole :: child_role
  retiredProcess :: nat
  retiredGeneration :: u64

record child_lifecycle =
  childSlots :: "child_role \<Rightarrow> child_slot"
  retiredChildren :: "retired_child list"
  lifecycleClosing :: bool

definition empty_child_slot :: child_slot where
  "empty_child_slot = \<lparr>slotProcess = 0, slotGeneration = 0, slotInstalling = False, slotReady = False\<rparr>"

definition new_lifecycle :: child_lifecycle where
  "new_lifecycle = \<lparr>childSlots = (\<lambda>_. empty_child_slot), retiredChildren = [], lifecycleClosing = False\<rparr>"

definition update_slot :: "child_role \<Rightarrow> (child_slot \<Rightarrow> child_slot) \<Rightarrow> child_lifecycle \<Rightarrow> child_lifecycle" where
  "update_slot role f l = l\<lparr>childSlots := (childSlots l)(role := f (childSlots l role))\<rparr>"

definition active_process :: "child_lifecycle \<Rightarrow> child_role \<Rightarrow> nat" where
  "active_process l role = slotProcess (childSlots l role)"

definition child_ready :: "(nat \<Rightarrow> bool) \<Rightarrow> (child_role \<Rightarrow> bool) \<Rightarrow> child_lifecycle \<Rightarrow> child_role \<Rightarrow> bool" where
  "child_ready running connected l role \<longleftrightarrow> \<not> lifecycleClosing l \<and> slotReady (childSlots l role) \<and>
     active_process l role \<noteq> 0 \<and> running (active_process l role) \<and> connected role"

definition child_present :: "child_lifecycle \<Rightarrow> child_role \<Rightarrow> bool" where
  "child_present l role \<longleftrightarrow> active_process l role \<noteq> 0"

definition child_running :: "(nat \<Rightarrow> bool) \<Rightarrow> child_lifecycle \<Rightarrow> child_role \<Rightarrow> bool" where
  "child_running running l role \<longleftrightarrow> active_process l role \<noteq> 0 \<and> running (active_process l role)"

text \<open>The operations also return the processes they close, in order.\<close>

definition collect_retired :: "(nat \<Rightarrow> bool) \<Rightarrow> child_lifecycle \<Rightarrow> child_lifecycle \<times> nat list" where
  "collect_retired running l =
     (l\<lparr>retiredChildren := filter (\<lambda>c. running (retiredProcess c)) (retiredChildren l)\<rparr>,
      map retiredProcess (filter (\<lambda>c. \<not> running (retiredProcess c)) (retiredChildren l)))"

definition has_retired :: "child_lifecycle \<Rightarrow> child_role \<Rightarrow> bool" where
  "has_retired l role \<longleftrightarrow> list_ex (\<lambda>c. retiredRole c = role) (retiredChildren l)"

definition retire_child :: "(nat \<Rightarrow> bool) \<Rightarrow> child_role \<Rightarrow> child_lifecycle \<Rightarrow> child_lifecycle \<times> nat list" where
  "retire_child running role l =
     (let l = update_slot role (\<lambda>s. s\<lparr>slotGeneration := slotGeneration s + 1, slotReady := False\<rparr>) l;
          s = childSlots l role;
          l = (if slotProcess s \<noteq> 0
               then update_slot role (\<lambda>s. s\<lparr>slotProcess := 0\<rparr>)
                      (l\<lparr>retiredChildren := retiredChildren l @ [\<lparr>retiredRole = role, retiredProcess = slotProcess s,
                           retiredGeneration = slotGeneration s - 1\<rparr>]\<rparr>)
               else l)
      in collect_retired running l)"

text \<open>
  Where \<open>Ensure\<close> stands: before the test of its loop, with the ticket and the deadline, after a wait,
  or in the spawn.
\<close>

datatype ensure_point = EnsureCheck u64 nat | EnsureWaited u64 nat | EnsureSpawn u64
datatype ensure_next = EnsureReturn bool | EnsureAt ensure_point

definition leave_ensure :: "child_role \<Rightarrow> child_lifecycle \<Rightarrow> child_lifecycle" where
  "leave_ensure role l = update_slot role (\<lambda>s. s\<lparr>slotInstalling := False\<rparr>) l"

definition ensure_enter ::
  "(nat \<Rightarrow> bool) \<Rightarrow> (child_role \<Rightarrow> bool) \<Rightarrow> bool \<Rightarrow> nat \<Rightarrow> nat \<Rightarrow> child_role \<Rightarrow> child_lifecycle
     \<Rightarrow> child_lifecycle \<times> nat list \<times> ensure_next" where
  "ensure_enter running connected accepting now timeoutMs role l =
     (if lifecycleClosing l \<or> \<not> accepting \<or> slotInstalling (childSlots l role) then (l, [], EnsureReturn False)
      else let (l, closed) = collect_retired running (update_slot role (\<lambda>s. s\<lparr>slotInstalling := True\<rparr>) l)
           in if child_ready running connected l role then (leave_ensure role l, closed, EnsureReturn True)
              else (l, closed, EnsureAt (EnsureCheck (slotGeneration (childSlots l role)) (now + min timeoutMs 2000))))"

text \<open>The test of the loop, and past it the end of the old process and the new launch.\<close>

definition ensure_check ::
  "(nat \<Rightarrow> bool) \<Rightarrow> nat \<Rightarrow> u64 \<Rightarrow> nat \<Rightarrow> child_role \<Rightarrow> child_lifecycle \<Rightarrow> child_lifecycle \<times> nat list \<times> ensure_next" where
  "ensure_check running now ticket deadline role l =
     (let p = active_process l role
      in if p \<noteq> 0 \<and> running p
         then if now \<ge> deadline then (leave_ensure role l, [], EnsureReturn False)
              else (l, [], EnsureAt (EnsureWaited ticket deadline))
         else let l = update_slot role (\<lambda>s. s\<lparr>slotProcess := 0, slotGeneration := slotGeneration s + 1\<rparr>) l
              in (l, if p \<noteq> 0 then [p] else [], EnsureAt (EnsureSpawn (slotGeneration (childSlots l role)))))"

definition ensure_waited ::
  "child_wait \<Rightarrow> bool \<Rightarrow> u64 \<Rightarrow> nat \<Rightarrow> child_role \<Rightarrow> child_lifecycle \<Rightarrow> child_lifecycle \<times> nat list \<times> ensure_next" where
  "ensure_waited wait accepting ticket deadline role l =
     (if lifecycleClosing l \<or> slotGeneration (childSlots l role) \<noteq> ticket \<or> \<not> accepting \<or>
         wait = WaitTimeout \<or> wait = WaitFailed
      then (leave_ensure role l, [], EnsureReturn False)
      else (l, [], EnsureAt (EnsureCheck ticket deadline)))"

definition ensure_spawned ::
  "(nat \<Rightarrow> bool) \<Rightarrow> (child_role \<Rightarrow> bool) \<Rightarrow> bool \<Rightarrow> nat \<Rightarrow> u64 \<Rightarrow> child_role \<Rightarrow> child_lifecycle
     \<Rightarrow> child_lifecycle \<times> nat list \<times> ensure_next" where
  "ensure_spawned running connected accepting process launch role l =
     (if process = 0 then (leave_ensure role l, [], EnsureReturn False)
      else let l = update_slot role (\<lambda>s. s\<lparr>slotProcess := process, slotReady := False\<rparr>) l
           in if lifecycleClosing l \<or> launch \<noteq> slotGeneration (childSlots l role) \<or> \<not> accepting
              then let l = update_slot role (\<lambda>s. s\<lparr>slotProcess := 0\<rparr>)
                         (l\<lparr>retiredChildren := retiredChildren l @ [\<lparr>retiredRole = role, retiredProcess = process,
                              retiredGeneration = launch\<rparr>]\<rparr>);
                       (l, closed) = collect_retired running l
                   in (leave_ensure role l, closed, EnsureReturn False)
              else let l = update_slot role (\<lambda>s. s\<lparr>slotReady := True\<rparr>) l
                   in (leave_ensure role l, [], EnsureReturn (child_ready running connected l role)))"

text \<open>\<open>BeginShutdown\<close> asks every helper to exit and retires it.\<close>

definition begin_shutdown :: "(nat \<Rightarrow> bool) \<Rightarrow> child_lifecycle \<Rightarrow> child_lifecycle \<times> nat list" where
  "begin_shutdown running l =
     fold (\<lambda>role (l, closed). case retire_child running role l of (l, later) \<Rightarrow> (l, closed @ later))
       [RoleInject, RoleMedia, RoleLogger, RoleSensors] (l\<lparr>lifecycleClosing := True\<rparr>, [])"

text \<open>
  \<open>DrainUntilExited\<close> over what it sees in each turn: the processes running, the clock and how the wait
  ended.  The answer comes with the times at which progress was reported.
\<close>

record drain_view =
  viewRunning :: "nat \<Rightarrow> bool"
  viewNowMs :: nat
  viewWait :: child_wait

fun drain_until_exited ::
  "nat \<Rightarrow> nat \<Rightarrow> nat \<Rightarrow> drain_view list \<Rightarrow> child_lifecycle
     \<Rightarrow> child_lifecycle \<times> nat list \<times> nat list \<times> bool option" where
  "drain_until_exited start nextReport progressMs [] l = (l, [], [], None)"
| "drain_until_exited start nextReport progressMs (v # vs) l =
     (case collect_retired (viewRunning v) l of (l, closed) \<Rightarrow>
        if retiredChildren l = [] then (l, closed, [], Some True)
        else let late = viewNowMs v \<ge> nextReport;
                 progress = (if late then [viewNowMs v - start] else []);
                 nextReport = (if late then viewNowMs v + progressMs else nextReport)
             in if viewWait v = WaitFailed then (l, closed, progress, Some False)
                else case drain_until_exited start nextReport progressMs vs l of
                       (l, later, reports, r) \<Rightarrow> (l, closed @ later, progress @ reports, r))"

section \<open>What media children report\<close>

record media_entry =
  entryRequest :: u64
  entryRetired :: bool

record finalized_media =
  finalRequest :: u64
  finalResolution :: resolution

record media_finalizations =
  mediaEntries :: "(nat \<times> media_entry) list"
  finalizedMedia :: "finalized_media list"

definition adopt_media :: "nat \<Rightarrow> media_finalizations \<Rightarrow> media_finalizations" where
  "adopt_media process f =
     f\<lparr>mediaEntries := AList.update process \<lparr>entryRequest = 0, entryRetired = False\<rparr> (mediaEntries f)\<rparr>"

definition retire_media_entry :: "nat \<Rightarrow> u64 \<Rightarrow> media_finalizations \<Rightarrow> media_finalizations" where
  "retire_media_entry process req f =
     (case map_of (mediaEntries f) process of
        None \<Rightarrow> f
      | Some e \<Rightarrow> f\<lparr>mediaEntries := AList.update process (e\<lparr>entryRequest := req, entryRetired := True\<rparr>) (mediaEntries f)\<rparr>)"

text \<open>\<open>Closing\<close>, given the exit code and what can be read from the result slot.\<close>

definition closing_media :: "nat \<Rightarrow> u32 \<Rightarrow> finalization_result option \<Rightarrow> media_finalizations \<Rightarrow> media_finalizations" where
  "closing_media process exitCode published f =
     (case map_of (mediaEntries f) process of
        None \<Rightarrow> f
      | Some e \<Rightarrow>
          let f = (if entryRetired e
                   then f\<lparr>finalizedMedia := finalizedMedia f @
                          [\<lparr>finalRequest = entryRequest e, finalResolution = resolve exitCode published\<rparr>]\<rparr>
                   else f)
          in f\<lparr>mediaEntries := AList.delete process (mediaEntries f)\<rparr>)"

definition tracked_media :: "media_finalizations \<Rightarrow> nat" where
  "tracked_media f = length (mediaEntries f)"

definition take_finalized :: "media_finalizations \<Rightarrow> media_finalizations \<times> finalized_media list" where
  "take_finalized f = (f\<lparr>finalizedMedia := []\<rparr>, finalizedMedia f)"

section \<open>The supervisor\<close>

record host_children =
  lifecycle :: child_lifecycle
  finalizations :: media_finalizations

text \<open>What a closed process left: its exit code and the content of its result slot.\<close>

type_synonym exit_report = "nat \<Rightarrow> u32 \<times> finalization_result option"

definition close_processes :: "exit_report \<Rightarrow> nat list \<Rightarrow> media_finalizations \<Rightarrow> media_finalizations" where
  "close_processes exits ps f = fold (\<lambda>p. closing_media p (fst (exits p)) (snd (exits p))) ps f"

definition after_lifecycle :: "exit_report \<Rightarrow> child_lifecycle \<times> nat list \<Rightarrow> host_children \<Rightarrow> host_children" where
  "after_lifecycle exits r h = \<lparr>lifecycle = fst r, finalizations = close_processes exits (snd r) (finalizations h)\<rparr>"

definition retire_media :: "(nat \<Rightarrow> bool) \<Rightarrow> exit_report \<Rightarrow> u64 \<Rightarrow> host_children \<Rightarrow> host_children" where
  "retire_media running exits req h =
     (let p = active_process (lifecycle h) RoleMedia;
          h = (if p \<noteq> 0 then h\<lparr>finalizations := retire_media_entry p req (finalizations h)\<rparr> else h)
      in after_lifecycle exits (retire_child running RoleMedia (lifecycle h)) h)"

definition collect_finalized_media :: "host_children \<Rightarrow> host_children \<times> finalized_media list" where
  "collect_finalized_media h = (case take_finalized (finalizations h) of (f, ms) \<Rightarrow> (h\<lparr>finalizations := f\<rparr>, ms))"

definition finalizing_count :: "host_children \<Rightarrow> nat" where
  "finalizing_count h =
     (let active = (if child_present (lifecycle h) RoleMedia then 1 else 0); tracked = tracked_media (finalizations h)
      in if tracked > active then tracked - active else 0)"

text \<open>\<open>Spawn\<close>: a spawned media child is adopted with its result slot.\<close>

definition spawn_child :: "child_role \<Rightarrow> nat \<Rightarrow> host_children \<Rightarrow> host_children" where
  "spawn_child role process h =
     (if process \<noteq> 0 \<and> role = RoleMedia then h\<lparr>finalizations := adopt_media process (finalizations h)\<rparr> else h)"

text \<open>
  \<open>Shutdown\<close>, with what a first look at the processes and the turns of the wait see.  Messages that arrive
  during the wait reach the operations above, which interleave; here it is run alone.
\<close>

definition host_shutdown ::
  "(nat \<Rightarrow> bool) \<Rightarrow> exit_report \<Rightarrow> nat \<Rightarrow> drain_view list \<Rightarrow> host_children \<Rightarrow> host_children \<times> nat list \<times> bool option" where
  "host_shutdown running exits start vs h =
     (case begin_shutdown running (lifecycle h) of (l, closed) \<Rightarrow>
        case drain_until_exited start (start + 10000) 10000 vs l of (l, later, reports, r) \<Rightarrow>
          (after_lifecycle exits (l, closed @ later) h, reports, r))"

section \<open>Who owns a process\<close>

definition owned_processes :: "child_lifecycle \<Rightarrow> nat set" where
  "owned_processes l = range (active_process l) - {0} \<union> retiredProcess ` set (retiredChildren l)"

definition media_processes :: "child_lifecycle \<Rightarrow> nat set" where
  "media_processes l = {active_process l RoleMedia} - {0} \<union>
     retiredProcess ` {c \<in> set (retiredChildren l). retiredRole c = RoleMedia}"

definition lifecycle_ok :: "child_lifecycle \<Rightarrow> bool" where
  "lifecycle_ok l \<longleftrightarrow>
     (\<forall>r q. active_process l r \<noteq> 0 \<longrightarrow> active_process l r = active_process l q \<longrightarrow> r = q) \<and>
     (\<forall>r. active_process l r \<notin> retiredProcess ` set (retiredChildren l)) \<and>
     distinct (map retiredProcess (retiredChildren l)) \<and> 0 \<notin> retiredProcess ` set (retiredChildren l)"

text \<open>What an operation may do: close processes that have exited.\<close>

definition lifecycle_moves :: "(nat \<Rightarrow> bool) \<Rightarrow> child_lifecycle \<Rightarrow> child_lifecycle \<times> nat list \<Rightarrow> bool" where
  "lifecycle_moves running l r \<longleftrightarrow> lifecycle_ok (fst r) \<and> owned_processes (fst r) = owned_processes l - set (snd r) \<and>
     media_processes (fst r) = media_processes l - set (snd r) \<and> set (snd r) \<subseteq> owned_processes l \<and>
     list_all (\<lambda>p. \<not> running p) (snd r) \<and> distinct (snd r)"

lemma update_slot_simps [simp]:
  "childSlots (update_slot role f l) role = f (childSlots l role)"
  "q \<noteq> role \<Longrightarrow> childSlots (update_slot role f l) q = childSlots l q"
  "retiredChildren (update_slot role f l) = retiredChildren l"
  "lifecycleClosing (update_slot role f l) = lifecycleClosing l"
  by (simp_all add: update_slot_def)

lemma active_update [simp]:
  "active_process (update_slot role f l) q = (if q = role then slotProcess (f (childSlots l role)) else active_process l q)"
  by (simp add: active_process_def)

lemma active_fields [simp]:
  "active_process (l\<lparr>retiredChildren := rs\<rparr>) = active_process l" "active_process (l\<lparr>lifecycleClosing := c\<rparr>) = active_process l"
  by (auto simp: active_process_def)

text \<open>Updates of a slot that leave its process alone move nothing.\<close>

definition same_processes :: "child_lifecycle \<Rightarrow> child_lifecycle \<Rightarrow> bool" where
  "same_processes l k \<longleftrightarrow> active_process l = active_process k \<and> retiredChildren l = retiredChildren k \<and>
     lifecycleClosing l = lifecycleClosing k"

lemma same_update: "slotProcess (f (childSlots l role)) = slotProcess (childSlots l role) \<Longrightarrow>
    same_processes (update_slot role f l) l"
  by (auto simp: same_processes_def active_process_def update_slot_def)

lemma same_processes_eqs:
  assumes "same_processes l k"
  shows "owned_processes l = owned_processes k" "media_processes l = media_processes k" "lifecycle_ok l = lifecycle_ok k"
    "lifecycle_moves running l = lifecycle_moves running k"
    "lifecycle_moves running m (l, ps) = lifecycle_moves running m (k, ps)"
  using assms
  by (auto simp: same_processes_def owned_processes_def media_processes_def lifecycle_ok_def lifecycle_moves_def fun_eq_iff)

lemma same_leave: "same_processes (leave_ensure role l) l"
  unfolding leave_ensure_def by (rule same_update) simp

lemma lifecycle_moves_refl: "lifecycle_ok l \<Longrightarrow> lifecycle_moves running l (l, [])"
  by (simp add: lifecycle_moves_def)

lemma lifecycle_moves_trans:
  "lifecycle_moves running l (k, ps) \<Longrightarrow> lifecycle_moves running k (m, qs) \<Longrightarrow> lifecycle_moves running l (m, ps @ qs)"
  by (auto simp: lifecycle_moves_def)

lemma collect_retired_moves:
  assumes "lifecycle_ok l"
  shows "lifecycle_moves running l (collect_retired running l)"
proof -
  have eq: "retiredProcess c = retiredProcess d \<longleftrightarrow> c = d" if "c \<in> set (retiredChildren l)" "d \<in> set (retiredChildren l)" for c d
    using assms that by (auto simp: lifecycle_ok_def distinct_map inj_on_def)
  have act: "active_process l r \<notin> retiredProcess ` set (retiredChildren l)" for r
    using assms by (simp add: lifecycle_ok_def)
  have "lifecycle_ok (fst (collect_retired running l))"
    using assms by (auto simp: lifecycle_ok_def collect_retired_def distinct_map_filter)
  moreover have "owned_processes (fst (collect_retired running l)) = owned_processes l - set (snd (collect_retired running l))"
    using act by (fastforce simp: owned_processes_def collect_retired_def eq image_iff)
  moreover have "media_processes (fst (collect_retired running l)) = media_processes l - set (snd (collect_retired running l))"
    using act by (fastforce simp: media_processes_def collect_retired_def eq image_iff)
  moreover have "set (snd (collect_retired running l)) \<subseteq> owned_processes l"
    by (auto simp: owned_processes_def collect_retired_def)
  moreover have "list_all (\<lambda>p. \<not> running p) (snd (collect_retired running l))" "distinct (snd (collect_retired running l))"
    using assms by (auto simp: collect_retired_def list_all_iff lifecycle_ok_def distinct_map_filter)
  ultimately show ?thesis by (simp add: lifecycle_moves_def)
qed

lemma collect_active [simp]:
  "active_process (fst (collect_retired running l)) = active_process l"
  "lifecycleClosing (fst (collect_retired running l)) = lifecycleClosing l"
  "childSlots (fst (collect_retired running l)) = childSlots l"
  by (auto simp: collect_retired_def active_process_def)

text \<open>Moving a slot's process to the retired ones.\<close>

lemma to_retired_ok:
  fixes g :: u64
  assumes "lifecycle_ok l" "active_process l role = p" "p \<noteq> 0"
  defines "k \<equiv> update_slot role (\<lambda>s. s\<lparr>slotProcess := 0\<rparr>) (l\<lparr>retiredChildren := retiredChildren l @
      [\<lparr>retiredRole = role, retiredProcess = p, retiredGeneration = g\<rparr>]\<rparr>)"
  shows "lifecycle_ok k \<and> owned_processes k = owned_processes l \<and> media_processes k = media_processes l"
proof -
  have act: "active_process k q = (if q = role then 0 else active_process l q)" for q
    by (simp add: k_def)
  have ret: "retiredChildren k = retiredChildren l @ [\<lparr>retiredRole = role, retiredProcess = p, retiredGeneration = g\<rparr>]"
    by (simp add: k_def)
  have other: "active_process l q \<noteq> p" if "q \<noteq> role" for q
    using assms(1-3) that unfolding lifecycle_ok_def by metis
  have "lifecycle_ok k"
    using assms(1-3) other unfolding lifecycle_ok_def act ret by (auto simp: k_def)
  moreover have "owned_processes k = owned_processes l"
    using assms(2,3) unfolding owned_processes_def ret by (auto simp: act image_iff split: if_splits)
  moreover have "media_processes k = media_processes l"
    using assms(2,3) by (cases "role = RoleMedia") (force simp: media_processes_def act ret)+
  ultimately show ?thesis by blast
qed

lemma retire_child_moves:
  assumes "lifecycle_ok l"
  shows "lifecycle_moves running l (retire_child running role l)"
    and "active_process (fst (retire_child running role l)) q = (if q = role then 0 else active_process l q)"
    and "lifecycleClosing (fst (retire_child running role l)) = lifecycleClosing l"
proof -
  let ?l = "update_slot role (\<lambda>s. s\<lparr>slotGeneration := slotGeneration s + 1, slotReady := False\<rparr>) l"
  have same: "same_processes ?l l" by (rule same_update) simp
  then have ok: "lifecycle_ok ?l" using assms same_processes_eqs by blast
  let ?k = "\<lambda>p g. update_slot role (\<lambda>s. s\<lparr>slotProcess := 0\<rparr>) (?l\<lparr>retiredChildren := retiredChildren ?l @
      [\<lparr>retiredRole = role, retiredProcess = p, retiredGeneration = g\<rparr>]\<rparr>)"
  have moves: "lifecycle_moves running l (collect_retired running (?k p g))" if "active_process l role = p" "p \<noteq> 0" for p g
  proof -
    have "lifecycle_ok (?k p g) \<and> owned_processes (?k p g) = owned_processes l \<and> media_processes (?k p g) = media_processes l"
      using to_retired_ok [OF ok _ that(2), of role g] that(1) same_processes_eqs(1,2) [OF same]
      by (simp add: active_process_def)
    then show ?thesis using collect_retired_moves [of "?k p g" running] by (simp add: lifecycle_moves_def)
  qed
  show "lifecycle_moves running l (retire_child running role l)"
    using moves [of "active_process l role"] collect_retired_moves [OF ok, of running] same_processes_eqs(4) [OF same]
    by (auto simp: retire_child_def Let_def active_process_def)
  show "active_process (fst (retire_child running role l)) q = (if q = role then 0 else active_process l q)"
    "lifecycleClosing (fst (retire_child running role l)) = lifecycleClosing l"
    by (auto simp: retire_child_def Let_def active_process_def)
qed

lemma begin_shutdown_moves:
  assumes "lifecycle_ok l"
  shows "lifecycle_moves running l (begin_shutdown running l)"
    and "active_process (fst (begin_shutdown running l)) q = 0"
    and "lifecycleClosing (fst (begin_shutdown running l))"
proof -
  let ?l0 = "l\<lparr>lifecycleClosing := True\<rparr>"
  have ok0: "lifecycle_ok ?l0" using assms by (simp add: lifecycle_ok_def)
  have start: "lifecycle_moves running l (?l0, [])"
    using assms ok0 by (simp add: lifecycle_moves_def owned_processes_def media_processes_def)
  have ok: "lifecycle_ok k" if "lifecycle_moves running l (k, ps)" for k ps
    using that by (simp add: lifecycle_moves_def)
  obtain l1 c1 where r1: "retire_child running RoleInject ?l0 = (l1, c1)" by fastforce
  have m1: "lifecycle_moves running l (l1, c1)"
    using lifecycle_moves_trans [OF start] retire_child_moves(1) [OF ok0, of running RoleInject] r1 by auto
  obtain l2 c2 where r2: "retire_child running RoleMedia l1 = (l2, c2)" by fastforce
  have m2: "lifecycle_moves running l (l2, c1 @ c2)"
    using lifecycle_moves_trans [OF m1] retire_child_moves(1) [OF ok [OF m1], of running RoleMedia] r2 by auto
  obtain l3 c3 where r3: "retire_child running RoleLogger l2 = (l3, c3)" by fastforce
  have m3: "lifecycle_moves running l (l3, (c1 @ c2) @ c3)"
    using lifecycle_moves_trans [OF m2] retire_child_moves(1) [OF ok [OF m2], of running RoleLogger] r3 by auto
  obtain l4 c4 where r4: "retire_child running RoleSensors l3 = (l4, c4)" by fastforce
  have m4: "lifecycle_moves running l (l4, ((c1 @ c2) @ c3) @ c4)"
    using lifecycle_moves_trans [OF m3] retire_child_moves(1) [OF ok [OF m3], of running RoleSensors] r4 by auto
  have result: "begin_shutdown running l = (l4, ((c1 @ c2) @ c3) @ c4)"
    by (simp add: begin_shutdown_def r1 r2 r3 r4)
  then show "lifecycle_moves running l (begin_shutdown running l)" using m4 by simp
  have act: "active_process l1 q = (if q = RoleInject then 0 else active_process ?l0 q)"
    "active_process l2 q = (if q = RoleMedia then 0 else active_process l1 q)"
    "active_process l3 q = (if q = RoleLogger then 0 else active_process l2 q)"
    "active_process l4 q = (if q = RoleSensors then 0 else active_process l3 q)"
    using retire_child_moves(2) [OF ok0, of running RoleInject q] retire_child_moves(2) [OF ok [OF m1], of running RoleMedia q]
      retire_child_moves(2) [OF ok [OF m2], of running RoleLogger q] retire_child_moves(2) [OF ok [OF m3], of running RoleSensors q]
    by (simp_all add: r1 r2 r3 r4)
  then show "active_process (fst (begin_shutdown running l)) q = 0" by (cases q) (simp_all add: result)
  show "lifecycleClosing (fst (begin_shutdown running l))"
    using retire_child_moves(3) [OF ok0, of running RoleInject] retire_child_moves(3) [OF ok [OF m1], of running RoleMedia]
      retire_child_moves(3) [OF ok [OF m2], of running RoleLogger] retire_child_moves(3) [OF ok [OF m3], of running RoleSensors]
    by (simp add: result r1 r2 r3 r4)
qed

text \<open>The pieces of \<open>Ensure\<close>; the last one brings a new process.\<close>

lemma ensure_enter_moves:
  assumes "lifecycle_ok l" "ensure_enter running connected accepting now timeoutMs role l = (l', closed, next)"
  shows "lifecycle_moves running l (l', closed) \<and> active_process l' = active_process l \<and>
    lifecycleClosing l' = lifecycleClosing l"
proof -
  let ?l = "update_slot role (\<lambda>s. s\<lparr>slotInstalling := True\<rparr>) l"
  have same: "same_processes ?l l" by (rule same_update) simp
  have ok: "lifecycle_ok ?l" using assms(1) same_processes_eqs(3) [OF same] by simp
  obtain k ps where k: "collect_retired running ?l = (k, ps)" by fastforce
  have m: "lifecycle_moves running l (k, ps)"
    using collect_retired_moves [OF ok, of running] k same_processes_eqs(4) [OF same] by simp
  have act: "active_process k = active_process l" "lifecycleClosing k = lifecycleClosing l"
    using collect_active [of running ?l] same by (simp_all add: k same_processes_def)
  show ?thesis using assms m act same_processes_eqs(5) [OF same_leave, of running l role k ps] same_leave [of role k]
    by (auto simp: ensure_enter_def k lifecycle_moves_refl same_processes_def split: if_splits)
qed

lemma ensure_check_moves:
  assumes "lifecycle_ok l" "ensure_check running now ticket deadline role l = (l', closed, next)"
  shows "lifecycle_moves running l (l', closed) \<and> lifecycleClosing l' = lifecycleClosing l \<and>
    (\<forall>q. active_process l' q \<in> {0, active_process l q}) \<and>
    (\<forall>launch. next = EnsureAt (EnsureSpawn launch) \<longrightarrow> active_process l' role = 0)"
proof -
  let ?k = "update_slot role (\<lambda>s. s\<lparr>slotProcess := 0, slotGeneration := slotGeneration s + 1\<rparr>) l"
    and ?p = "active_process l role"
  have act: "active_process ?k q = (if q = role then 0 else active_process l q)" for q by simp
  have other: "active_process l q = 0" if "?p = active_process l q" "q \<noteq> role" for q
    using assms(1) that unfolding lifecycle_ok_def by metis
  have ret: "?p \<notin> retiredProcess ` set (retiredChildren l)" using assms(1) by (simp add: lifecycle_ok_def)
  have "lifecycle_ok ?k" using assms(1) by (auto simp: lifecycle_ok_def)
  moreover have "owned_processes ?k = owned_processes l - {?p}" "media_processes ?k = media_processes l - {?p}"
    using ret by (auto simp: owned_processes_def media_processes_def act image_iff split: if_splits intro: other)
  ultimately have facts: "lifecycle_ok ?k" "owned_processes ?k = owned_processes l - {?p}"
    "media_processes ?k = media_processes l - {?p}" by blast+
  have k: "lifecycle_moves running l (?k, if ?p \<noteq> 0 then [?p] else [])" if "?p \<noteq> 0 \<longrightarrow> \<not> running ?p"
  proof -
    have "0 \<notin> owned_processes l" "0 \<notin> media_processes l"
      using assms(1) by (auto simp: lifecycle_ok_def owned_processes_def media_processes_def)
    moreover have "?p \<noteq> 0 \<Longrightarrow> ?p \<in> owned_processes l" by (simp add: owned_processes_def)
    ultimately show ?thesis using that facts by (cases "?p = 0") (simp_all add: lifecycle_moves_def)
  qed
  show ?thesis using assms k act same_processes_eqs(5) [OF same_leave] same_leave [of role l]
    by (auto simp: ensure_check_def Let_def lifecycle_moves_refl same_processes_def split: if_splits)
qed

lemma ensure_spawned_moves:
  assumes "lifecycle_ok l" "active_process l role = 0" "p \<noteq> 0" "p \<notin> owned_processes l"
    and "ensure_spawned running connected accepting p launch role l = (l', closed, next)"
  shows "lifecycle_ok l' \<and> owned_processes l' = insert p (owned_processes l) - set closed \<and>
    media_processes l' = (if role = RoleMedia then insert p else id) (media_processes l) - set closed \<and>
    set closed \<subseteq> insert p (owned_processes l) \<and> list_all (\<lambda>p. \<not> running p) closed \<and> distinct closed \<and>
    lifecycleClosing l' = lifecycleClosing l \<and> (\<forall>q. q \<noteq> role \<longrightarrow> active_process l' q = active_process l q) \<and>
    (lifecycleClosing l \<longrightarrow> active_process l' role = 0) \<and> active_process l' role \<in> {0, p}"
proof -
  let ?k = "update_slot role (\<lambda>s. s\<lparr>slotProcess := p, slotReady := False\<rparr>) l"
  let ?m = "update_slot role (\<lambda>s. s\<lparr>slotProcess := 0\<rparr>) (?k\<lparr>retiredChildren := retiredChildren ?k @
      [\<lparr>retiredRole = role, retiredProcess = p, retiredGeneration = launch\<rparr>]\<rparr>)"
  have fresh: "\<And>q. active_process l q \<noteq> p" "p \<notin> retiredProcess ` set (retiredChildren l)"
    using assms(3,4) by (auto simp: owned_processes_def)
  have k: "lifecycle_ok ?k" "owned_processes ?k = insert p (owned_processes l)"
    "media_processes ?k = (if role = RoleMedia then insert p else id) (media_processes l)"
    using assms(1,2,3) fresh
    by (auto simp: lifecycle_ok_def owned_processes_def media_processes_def image_iff split: if_splits)
  have m: "lifecycle_ok ?m \<and> owned_processes ?m = owned_processes ?k \<and> media_processes ?m = media_processes ?k"
    by (rule to_retired_ok [OF k(1)]) (simp_all add: assms(3))
  show ?thesis
  proof (cases "lifecycleClosing l \<or> launch \<noteq> slotGeneration (childSlots l role) \<or> \<not> accepting")
    case True
    obtain n ps where n: "collect_retired running ?m = (n, ps)" by fastforce
    have c: "lifecycle_moves running ?m (n, ps)" using collect_retired_moves m n by metis
    have eqs: "l' = leave_ensure role n" "closed = ps"
      using assms(3,5) True n by (auto simp: ensure_spawned_def Let_def)
    have act: "active_process n = active_process ?m" using collect_active(1) [of running ?m] unfolding n fst_conv .
    moreover have closing: "lifecycleClosing n = lifecycleClosing l"
      using collect_active(2) [of running ?m] unfolding n fst_conv by simp
    ultimately have same: "active_process l' q = (if q = role then 0 else active_process l q)"
        "lifecycleClosing l' = lifecycleClosing l" for q
      using same_leave [of role n] by (simp_all add: eqs(1) same_processes_def)
    show ?thesis unfolding eqs(2) same
      using c m k(2,3) same_processes_eqs(1-3) [OF same_leave, of role n] unfolding eqs(1) [symmetric]
      by (simp add: lifecycle_moves_def)
  next
    case False
    let ?n = "update_slot role (\<lambda>s. s\<lparr>slotReady := True\<rparr>) ?k"
    have eqs: "l' = leave_ensure role ?n" "closed = []"
      using assms(3,5) False by (auto simp: ensure_spawned_def Let_def)
    have "same_processes ?n ?k" by (rule same_update) simp
    then have same: "same_processes l' ?k" using same_leave [of role ?n] by (simp add: eqs(1) same_processes_def)
    then show ?thesis using k same_processes_eqs(1-3) [OF same] False
      by (simp add: eqs(2) same_processes_def)
  qed
qed

text \<open>Whether \<open>Ensure\<close> is under way for a role, as its guard sees it.\<close>

definition installing :: "child_lifecycle \<Rightarrow> child_role \<Rightarrow> bool" where
  "installing l role = slotInstalling (childSlots l role)"

lemma installing_update [simp]:
  "installing (update_slot role f l) q = (if q = role then slotInstalling (f (childSlots l role)) else installing l q)"
  by (simp add: installing_def)

lemma installing_fields [simp]:
  "installing (l\<lparr>retiredChildren := rs\<rparr>) = installing l" "installing (l\<lparr>lifecycleClosing := c\<rparr>) = installing l"
  "slotInstalling (childSlots l q) = installing l q"
  by (simp_all add: installing_def fun_eq_iff)

lemma installing_collect [simp]: "installing (fst (collect_retired running l)) = installing l"
  by (simp add: installing_def collect_retired_def fun_eq_iff)

lemma installing_retire [simp]: "installing (fst (retire_child running role l)) = installing l"
  by (auto simp: retire_child_def Let_def fun_eq_iff)

lemma installing_shutdown [simp]: "installing (fst (begin_shutdown running l)) = installing l"
proof -
  have "installing (fst (fold (\<lambda>role (l, closed). case retire_child running role l of (l, later) \<Rightarrow> (l, closed @ later))
      rs (k, ps))) = installing k" for rs k ps
  proof (induction rs arbitrary: k ps)
    case (Cons r rs)
    show ?case using Cons.IH installing_retire [of running r k] by (cases "retire_child running r k") simp
  qed simp
  from this [of "[RoleInject, RoleMedia, RoleLogger, RoleSensors]"] show ?thesis
    unfolding begin_shutdown_def by (simp only: installing_fields)
qed

lemma installing_leave [simp]: "installing (leave_ensure role l) q \<longleftrightarrow> q \<noteq> role \<and> installing l q"
  by (simp add: leave_ensure_def)

text \<open>The pieces of \<open>Ensure\<close> leave its guard set exactly when another piece follows.\<close>

lemma ensure_enter_installing:
  assumes "ensure_enter running connected accepting now timeoutMs role l = (l', closed, next)"
  shows "if installing l role then (l', closed, next) = (l, [], EnsureReturn False)
    else (installing l' role \<longleftrightarrow> (\<exists>p. next = EnsureAt p)) \<and> (\<forall>q. q \<noteq> role \<longrightarrow> installing l' q = installing l q) \<and>
      (\<forall>g. next \<noteq> EnsureAt (EnsureSpawn g))"
proof -
  let ?l = "update_slot role (\<lambda>s. s\<lparr>slotInstalling := True\<rparr>) l"
  have "installing k = installing ?l" if "collect_retired running ?l = (k, ps)" for k ps
    using installing_collect [of running ?l] unfolding that fst_conv .
  then show ?thesis using assms by (auto simp: ensure_enter_def split: if_splits prod.splits)
qed

definition piece_installs :: "child_role \<Rightarrow> child_lifecycle \<Rightarrow> child_lifecycle \<times> nat list \<times> ensure_next \<Rightarrow> bool" where
  "piece_installs role l r \<longleftrightarrow> (installing (fst r) role \<longleftrightarrow> (\<exists>p. snd (snd r) = EnsureAt p)) \<and>
     (\<forall>q. q \<noteq> role \<longrightarrow> installing (fst r) q = installing l q)"

lemma ensure_pieces_installing:
  assumes "installing l role"
  shows "piece_installs role l (ensure_check running now ticket deadline role l)"
    and "piece_installs role l (ensure_waited wait accepting ticket deadline role l)"
    and "piece_installs role l (ensure_spawned running connected accepting p launch role l)"
proof -
  show "piece_installs role l (ensure_check running now ticket deadline role l)"
    "piece_installs role l (ensure_waited wait accepting ticket deadline role l)"
    using assms by (simp_all add: ensure_check_def ensure_waited_def piece_installs_def Let_def)
  show "piece_installs role l (ensure_spawned running connected accepting p launch role l)"
    using assms by (simp add: ensure_spawned_def piece_installs_def Let_def case_prod_beta)
qed

section \<open>The account of the finalizations\<close>

definition retired_requests :: "(nat \<times> media_entry) list \<Rightarrow> u64 multiset" where
  "retired_requests es = mset (map (entryRequest \<circ> snd) (filter (entryRetired \<circ> snd) es))"

text \<open>Every request that has been or will be reported.\<close>

definition account :: "media_finalizations \<Rightarrow> u64 multiset" where
  "account f = mset (map finalRequest (finalizedMedia f)) + retired_requests (mediaEntries f)"

lemma retired_requests_update:
  "distinct (map fst es) \<Longrightarrow> retired_requests (AList.update p e es) + (case map_of es p of Some d \<Rightarrow> retired_requests [(p, d)] | None \<Rightarrow> {#})
     = retired_requests es + retired_requests [(p, e)]"
  by (induction es) (auto simp: retired_requests_def dest: weak_map_of_SomeI split: option.splits)

lemma retired_requests_delete:
  "distinct (map fst es) \<Longrightarrow> retired_requests (AList.delete p es) + (case map_of es p of Some d \<Rightarrow> retired_requests [(p, d)] | None \<Rightarrow> {#})
     = retired_requests es"
proof (induction es)
  case (Cons a es)
  have "map_of es p = None \<Longrightarrow> AList.delete p es = es" by (simp add: map_of_eq_None_iff AList.delete_id)
  then show ?case using Cons by (cases a) (auto simp: retired_requests_def map_of_eq_None_iff split: option.splits)
qed (simp add: retired_requests_def)

definition media_keys :: "media_finalizations \<Rightarrow> nat set" where
  "media_keys f = fst ` set (mediaEntries f)"

definition distinct_media :: "media_finalizations \<Rightarrow> bool" where
  "distinct_media f \<longleftrightarrow> distinct (map fst (mediaEntries f))"

lemma closing_media_account:
  assumes "distinct_media f"
  shows "account (closing_media p c r f) = account f"
    and "mediaEntries (closing_media p c r f) = AList.delete p (mediaEntries f)"
proof -
  have none: "map_of (mediaEntries f) p = None \<Longrightarrow> AList.delete p (mediaEntries f) = mediaEntries f"
    by (simp add: map_of_eq_None_iff AList.delete_id)
  show "mediaEntries (closing_media p c r f) = AList.delete p (mediaEntries f)"
    using none by (auto simp: closing_media_def Let_def split: option.splits)
  show "account (closing_media p c r f) = account f"
    using retired_requests_delete [OF assms [unfolded distinct_media_def], of p]
    by (auto simp: closing_media_def account_def Let_def retired_requests_def split: option.splits)
qed

lemma close_processes_account:
  assumes "distinct_media f"
  shows "account (close_processes exits ps f) = account f \<and> distinct_media (close_processes exits ps f) \<and>
    media_keys (close_processes exits ps f) = media_keys f - set ps \<and>
    map_of (mediaEntries (close_processes exits ps f)) \<subseteq>\<^sub>m map_of (mediaEntries f)"
  using assms
proof (induction ps arbitrary: f)
  case (Cons p ps)
  let ?f = "closing_media p (fst (exits p)) (snd (exits p)) f"
  note closed = closing_media_account [OF Cons.prems, of p "fst (exits p)" "snd (exits p)"]
  have step: "close_processes exits (p # ps) f = close_processes exits ps ?f" by (simp add: close_processes_def)
  have f: "distinct_media ?f" "media_keys ?f = media_keys f - {p}" "map_of (mediaEntries ?f) \<subseteq>\<^sub>m map_of (mediaEntries f)"
    using Cons.prems closed(2)
    by (auto simp: distinct_media_def distinct_delete media_keys_def map_le_def delete_conv'
      simp flip: dom_map_of_conv_image_fst)
  show ?case using Cons.IH [OF f(1)] f closed(1) map_le_trans by (auto simp: step)
qed (simp add: close_processes_def)

lemma retire_media_entry_account:
  assumes "distinct_media f" "map_of (mediaEntries f) p = Some e" "\<not> entryRetired e"
  shows "account (retire_media_entry p req f) = add_mset req (account f)"
    and "distinct_media (retire_media_entry p req f)" "media_keys (retire_media_entry p req f) = media_keys f"
proof -
  show "account (retire_media_entry p req f) = add_mset req (account f)"
    using assms retired_requests_update [OF assms(1) [unfolded distinct_media_def], of p "e\<lparr>entryRequest := req, entryRetired := True\<rparr>"]
    by (simp add: retire_media_entry_def account_def retired_requests_def)
  have "p \<in> fst ` set (mediaEntries f)" using assms(2) by (force dest: map_of_SomeD)
  then show "distinct_media (retire_media_entry p req f)" "media_keys (retire_media_entry p req f) = media_keys f"
    using assms by (auto simp: retire_media_entry_def distinct_media_def media_keys_def distinct_update dom_update)
qed

lemma adopt_media_account:
  assumes "distinct_media f" "p \<notin> media_keys f"
  shows "account (adopt_media p f) = account f" "distinct_media (adopt_media p f)"
    "media_keys (adopt_media p f) = insert p (media_keys f)"
    "map_of (mediaEntries (adopt_media p f)) = (map_of (mediaEntries f))(p \<mapsto> \<lparr>entryRequest = 0, entryRetired = False\<rparr>)"
proof -
  have "map_of (mediaEntries f) p = None" using assms(2) by (simp add: media_keys_def map_of_eq_None_iff)
  then show "account (adopt_media p f) = account f"
    using retired_requests_update [OF assms(1) [unfolded distinct_media_def], of p "\<lparr>entryRequest = 0, entryRetired = False\<rparr>"]
    by (simp add: adopt_media_def account_def retired_requests_def)
  show "distinct_media (adopt_media p f)" "media_keys (adopt_media p f) = insert p (media_keys f)"
    "map_of (mediaEntries (adopt_media p f)) = (map_of (mediaEntries f))(p \<mapsto> \<lparr>entryRequest = 0, entryRetired = False\<rparr>)"
    using assms by (simp_all add: adopt_media_def distinct_media_def media_keys_def distinct_update dom_update update_conv')
qed

section \<open>The running system\<close>

text \<open>The media records match the media processes owned, and the active one awaits no report.\<close>

definition media_ok :: "child_lifecycle \<Rightarrow> media_finalizations \<Rightarrow> bool" where
  "media_ok l f \<longleftrightarrow> distinct_media f \<and> media_keys f = media_processes l \<and>
     (\<forall>e. map_of (mediaEntries f) (active_process l RoleMedia) = Some e \<longrightarrow> \<not> entryRetired e)"

lemma no_media_zero: "lifecycle_ok l \<Longrightarrow> 0 \<notin> media_processes l"
  by (auto simp: media_processes_def lifecycle_ok_def)

lemma media_record: "p \<notin> media_keys f \<Longrightarrow> map_of (mediaEntries f) p = None"
  by (simp add: media_keys_def map_of_eq_None_iff)

lemma media_moves:
  assumes "media_ok l f" "lifecycle_moves running l (l', closed)"
    and "active_process l' RoleMedia \<in> {0, active_process l RoleMedia}"
  shows "media_ok l' (close_processes exits closed f)" "account (close_processes exits closed f) = account f"
proof -
  let ?f = "close_processes exits closed f"
  have d: "distinct_media f" using assms(1) by (simp add: media_ok_def)
  note c = close_processes_account [OF d, of exits closed]
  show "account ?f = account f" using c by blast
  have keys: "media_keys ?f = media_processes l'" using c assms(1,2) by (simp add: media_ok_def lifecycle_moves_def)
  have "\<not> entryRetired e" if "map_of (mediaEntries ?f) (active_process l' RoleMedia) = Some e" for e
  proof (cases "active_process l' RoleMedia = 0")
    case True
    have "lifecycle_ok l'" using assms(2) by (simp add: lifecycle_moves_def)
    then have "0 \<notin> media_keys ?f" unfolding keys by (rule no_media_zero)
    then show ?thesis using that media_record True by fastforce
  next
    case False
    have "map_of (mediaEntries f) (active_process l' RoleMedia) = Some e"
      using c that by (metis map_le_def domI)
    then show ?thesis using assms(1,3) False by (simp add: media_ok_def)
  qed
  then show "media_ok l' ?f" using c keys by (simp add: media_ok_def)
qed

text \<open>
  All operations with the exits of the processes.  \<open>alive\<close> are the helper processes that run, \<open>retirements\<close>
  the requests media children were retired for, \<open>reportedMedia\<close> what the engine was told.  The ghost
  \<open>exitLog\<close> has for every retired media child closed, in order, its request, its exit code and what its result
  slot held.
\<close>

record child_system =
  host :: host_children
  ensuring :: "child_role \<Rightarrow> ensure_point option"
  alive :: "nat set"
  retirements :: "u64 list"
  reportedMedia :: "finalized_media list"
  exitLog :: "(u64 \<times> u32 \<times> finalization_result option) list"

definition exits_seen ::
  "exit_report \<Rightarrow> nat list \<Rightarrow> media_finalizations \<Rightarrow> (u64 \<times> u32 \<times> finalization_result option) list" where
  "exits_seen exits ps f = concat (map (\<lambda>p. case map_of (mediaEntries f) p of
       Some e \<Rightarrow> (if entryRetired e then [(entryRequest e, exits p)] else []) | None \<Rightarrow> []) ps)"

definition note_exits :: "exit_report \<Rightarrow> nat list \<Rightarrow> media_finalizations \<Rightarrow> child_system \<Rightarrow> child_system" where
  "note_exits exits ps f s = s\<lparr>exitLog := exitLog s @ exits_seen exits ps f\<rparr>"

lemma note_exits_fields [simp]:
  "host (note_exits exits ps f s) = host s" "ensuring (note_exits exits ps f s) = ensuring s"
  "alive (note_exits exits ps f s) = alive s" "retirements (note_exits exits ps f s) = retirements s"
  "reportedMedia (note_exits exits ps f s) = reportedMedia s"
  "exitLog (note_exits exits ps f s) = exitLog s @ exits_seen exits ps f"
  by (simp_all add: note_exits_def)

text \<open>The records of the media children once \<open>RetireMedia\<close> has stamped the active one.\<close>

definition stamped_media :: "u64 \<Rightarrow> host_children \<Rightarrow> media_finalizations" where
  "stamped_media req h = (let p = active_process (lifecycle h) RoleMedia
     in if p \<noteq> 0 then retire_media_entry p req (finalizations h) else finalizations h)"

definition new_host_children :: host_children where
  "new_host_children = \<lparr>lifecycle = new_lifecycle, finalizations = \<lparr>mediaEntries = [], finalizedMedia = []\<rparr>\<rparr>"

definition child_init :: "child_system \<Rightarrow> bool" where
  "child_init s \<longleftrightarrow> s = \<lparr>host = new_host_children, ensuring = (\<lambda>_. None), alive = {}, retirements = [], reportedMedia = [], exitLog = []\<rparr>"

definition observes :: "(nat \<Rightarrow> bool) \<Rightarrow> nat set \<Rightarrow> bool" where
  "observes running ps \<longleftrightarrow> (\<forall>p\<in>ps. running p)"

definition follow_ensure :: "child_role \<Rightarrow> exit_report \<Rightarrow> child_lifecycle \<times> nat list \<times> ensure_next \<Rightarrow> child_system \<Rightarrow> child_system" where
  "follow_ensure role exits r s =
     note_exits exits (fst (snd r)) (finalizations (host s))
       (s\<lparr>host := after_lifecycle exits (fst r, fst (snd r)) (host s),
          ensuring := (ensuring s)(role := (case snd (snd r) of EnsureReturn _ \<Rightarrow> None | EnsureAt p \<Rightarrow> Some p))\<rparr>)"

inductive child_step :: "child_system \<Rightarrow> child_system \<Rightarrow> bool" where
  process_exits: "child_step s (s\<lparr>alive := alive s - {p}\<rparr>)"
| ensure_enters: "observes running (alive s) \<Longrightarrow>
    ensure_enter running connected accepting now timeoutMs role (lifecycle (host s)) = (l, closed, EnsureReturn r) \<Longrightarrow>
    child_step s (note_exits exits closed (finalizations (host s)) (s\<lparr>host := after_lifecycle exits (l, closed) (host s)\<rparr>))"
| ensure_begins: "observes running (alive s) \<Longrightarrow>
    ensure_enter running connected accepting now timeoutMs role (lifecycle (host s)) = (l, closed, EnsureAt p) \<Longrightarrow>
    child_step s (note_exits exits closed (finalizations (host s))
      (s\<lparr>host := after_lifecycle exits (l, closed) (host s), ensuring := (ensuring s)(role := Some p)\<rparr>))"
| ensure_checks: "observes running (alive s) \<Longrightarrow> ensuring s role = Some (EnsureCheck ticket deadline) \<Longrightarrow>
    child_step s (follow_ensure role exits (ensure_check running now ticket deadline role (lifecycle (host s))) s)"
| ensure_waits: "ensuring s role = Some (EnsureWaited ticket deadline) \<Longrightarrow>
    child_step s (follow_ensure role exits (ensure_waited wait accepting ticket deadline role (lifecycle (host s))) s)"
| ensure_fails: "ensuring s role = Some (EnsureSpawn launch) \<Longrightarrow>
    child_step s (follow_ensure role exits (ensure_spawned running connected accepting 0 launch role (lifecycle (host s)))
      (s\<lparr>host := spawn_child role 0 (host s)\<rparr>))"
| ensure_spawns: "observes running now_alive \<Longrightarrow> now_alive \<in> {alive s, insert p (alive s)} \<Longrightarrow>
    p \<noteq> 0 \<Longrightarrow> p \<notin> owned_processes (lifecycle (host s)) \<Longrightarrow> ensuring s role = Some (EnsureSpawn launch) \<Longrightarrow>
    child_step s (follow_ensure role exits (ensure_spawned running connected accepting p launch role (lifecycle (host s)))
      (s\<lparr>host := spawn_child role p (host s), alive := now_alive\<rparr>))"
| media_retires: "observes running (alive s) \<Longrightarrow>
    child_step s (note_exits exits (snd (retire_child running RoleMedia (lifecycle (host s)))) (stamped_media req (host s))
      (s\<lparr>host := retire_media running exits req (host s),
         retirements := retirements s @ (if child_present (lifecycle (host s)) RoleMedia then [req] else [])\<rparr>))"
| other_retires: "observes running (alive s) \<Longrightarrow> role \<noteq> RoleMedia \<Longrightarrow>
    child_step s (note_exits exits (snd (retire_child running role (lifecycle (host s)))) (finalizations (host s))
      (s\<lparr>host := after_lifecycle exits (retire_child running role (lifecycle (host s))) (host s)\<rparr>))"
| retired_collected: "observes running (alive s) \<Longrightarrow>
    child_step s (note_exits exits (snd (collect_retired running (lifecycle (host s)))) (finalizations (host s))
      (s\<lparr>host := after_lifecycle exits (collect_retired running (lifecycle (host s))) (host s)\<rparr>))"
| shutdown_begins: "observes running (alive s) \<Longrightarrow>
    child_step s (note_exits exits (snd (begin_shutdown running (lifecycle (host s)))) (finalizations (host s))
      (s\<lparr>host := after_lifecycle exits (begin_shutdown running (lifecycle (host s))) (host s)\<rparr>))"
| finalized_taken: "collect_finalized_media (host s) = (h, ms) \<Longrightarrow>
    child_step s (s\<lparr>host := h, reportedMedia := reportedMedia s @ ms\<rparr>)"

definition child_ok :: "child_system \<Rightarrow> bool" where
  "child_ok s \<longleftrightarrow> (let l = lifecycle (host s); f = finalizations (host s) in
     lifecycle_ok l \<and> alive s \<subseteq> owned_processes l \<and>
     (\<forall>r. installing l r \<longleftrightarrow> ensuring s r \<noteq> None) \<and>
     (\<forall>r g. ensuring s r = Some (EnsureSpawn g) \<longrightarrow> active_process l r = 0) \<and>
     (lifecycleClosing l \<longrightarrow> (\<forall>r. active_process l r = 0)) \<and>
     media_ok l f \<and> mset (retirements s) = mset (map finalRequest (reportedMedia s)) + account f)"

lemma child_ok_note [simp]: "child_ok (note_exits exits ps f s) \<longleftrightarrow> child_ok s"
  by (simp add: child_ok_def)

lemma child_ok_init: "child_init s \<Longrightarrow> child_ok s"
  by (simp add: child_init_def child_ok_def new_host_children_def new_lifecycle_def lifecycle_ok_def active_process_def
    empty_child_slot_def installing_def media_ok_def distinct_media_def media_keys_def media_processes_def account_def
    retired_requests_def Let_def del: installing_fields(3))

text \<open>A step that only closes processes, on whatever account it keeps of the retirements.\<close>

lemma child_ok_moves:
  assumes "child_ok s" "lifecycle_moves running (lifecycle (host s)) (l, closed)" "observes running (alive s)"
    and "\<And>r. active_process l r \<in> {0, active_process (lifecycle (host s)) r}"
    and "lifecycleClosing l \<Longrightarrow> lifecycleClosing (lifecycle (host s)) \<or> (\<forall>r. active_process l r = 0)"
    and "\<And>r. installing l r \<longleftrightarrow> E r \<noteq> None" "\<And>r g. E r = Some (EnsureSpawn g) \<Longrightarrow> active_process l r = 0"
  shows "child_ok (s\<lparr>host := after_lifecycle exits (l, closed) (host s), ensuring := E\<rparr>)"
proof -
  have ok: "lifecycle_ok l" "alive s \<subseteq> owned_processes l"
    using assms(1-3) by (auto simp: child_ok_def lifecycle_moves_def list_all_iff observes_def Let_def)
  have m: "media_ok (lifecycle (host s)) (finalizations (host s))"
    "lifecycleClosing (lifecycle (host s)) \<Longrightarrow> active_process (lifecycle (host s)) r = 0" for r
    using assms(1) by (simp_all add: child_ok_def Let_def)
  have closing: "\<forall>r. active_process l r = 0" if "lifecycleClosing l"
    using assms(4,5) m(2) that by fastforce
  have e: "\<forall>r. installing l r \<longleftrightarrow> E r \<noteq> None" "\<forall>r g. E r = Some (EnsureSpawn g) \<longrightarrow> active_process l r = 0"
    using assms(6,7) by blast+
  have a: "mset (retirements s) = mset (map finalRequest (reportedMedia s)) + account (finalizations (host s))"
    using assms(1) by (simp add: child_ok_def Let_def)
  let ?f = "close_processes exits closed (finalizations (host s))"
  note f = media_moves [OF m(1) assms(2) assms(4), of exits]
  let ?t = "s\<lparr>host := after_lifecycle exits (l, closed) (host s), ensuring := E\<rparr>"
  have parts: "lifecycle (host ?t) = l" "finalizations (host ?t) = ?f" "ensuring ?t = E" "alive ?t = alive s"
    "retirements ?t = retirements s" "reportedMedia ?t = reportedMedia s" by (simp_all add: after_lifecycle_def)
  have "mset (retirements s) = mset (map finalRequest (reportedMedia s)) + account ?f" using a f(2) by presburger
  then show ?thesis using ok closing e f(1)
    unfolding child_ok_def Let_def parts by blast
qed

lemma child_ok_parts:
  assumes "child_ok s"
  shows "lifecycle_ok (lifecycle (host s))" "alive s \<subseteq> owned_processes (lifecycle (host s))"
    "installing (lifecycle (host s)) r \<longleftrightarrow> ensuring s r \<noteq> None"
    "ensuring s r = Some (EnsureSpawn g) \<Longrightarrow> active_process (lifecycle (host s)) r = 0"
    "lifecycleClosing (lifecycle (host s)) \<Longrightarrow> active_process (lifecycle (host s)) r = 0"
    "media_ok (lifecycle (host s)) (finalizations (host s))"
    "mset (retirements s) = mset (map finalRequest (reportedMedia s)) + account (finalizations (host s))"
  using assms by (simp_all add: child_ok_def Let_def)

text \<open>Operations outside \<open>Ensure\<close>.\<close>

lemma child_ok_plain:
  assumes "child_ok s" "observes running (alive s)" "lifecycle_moves running (lifecycle (host s)) r"
    and "\<And>q. active_process (fst r) q \<in> {0, active_process (lifecycle (host s)) q}"
    and "lifecycleClosing (fst r) \<Longrightarrow> lifecycleClosing (lifecycle (host s)) \<or> (\<forall>q. active_process (fst r) q = 0)"
    and "installing (fst r) = installing (lifecycle (host s))"
  shows "child_ok (s\<lparr>host := after_lifecycle exits r (host s)\<rparr>)"
proof -
  have "active_process (fst r) q = 0" if "ensuring s q = Some (EnsureSpawn g)" for q g
    using child_ok_parts(4) [OF assms(1) that] assms(4) [of q] by simp
  then show ?thesis
    using child_ok_moves [OF assms(1), of running "fst r" "snd r" "ensuring s" exits] assms child_ok_parts(3) [OF assms(1)]
    by simp
qed

lemma child_ok_follow:
  assumes "child_ok s" "observes running (alive s)" "ensuring s role \<noteq> None"
    and "lifecycle_moves running (lifecycle (host s)) (fst r, fst (snd r))"
    and "\<And>q. active_process (fst r) q \<in> {0, active_process (lifecycle (host s)) q}"
    and "lifecycleClosing (fst r) = lifecycleClosing (lifecycle (host s))"
    and "piece_installs role (lifecycle (host s)) r"
    and "\<And>g. snd (snd r) = EnsureAt (EnsureSpawn g) \<Longrightarrow> active_process (fst r) role = 0"
  shows "child_ok (follow_ensure role exits r s)"
proof -
  let ?E = "(ensuring s)(role := (case snd (snd r) of EnsureReturn _ \<Rightarrow> None | EnsureAt p \<Rightarrow> Some p))"
  have "installing (fst r) q \<longleftrightarrow> ?E q \<noteq> None" for q
    using assms(7) child_ok_parts(3) [OF assms(1), of q] by (auto simp: piece_installs_def split: ensure_next.splits)
  moreover have "active_process (fst r) q = 0" if "?E q = Some (EnsureSpawn g)" for q g
    using that assms(5) [of q] assms(8) child_ok_parts(4) [OF assms(1), of q g] by (auto split: if_splits ensure_next.splits)
  ultimately show ?thesis unfolding follow_ensure_def
    using child_ok_moves [OF assms(1), of running "fst r" "fst (snd r)" ?E exits] assms(2,4-6) by simp
qed

lemma piece_installing: "child_ok s \<Longrightarrow> ensuring s role = Some x \<Longrightarrow> installing (lifecycle (host s)) role"
  by (simp add: child_ok_parts(3))

text \<open>A new process joins the owned ones, a media process with its record.\<close>

lemma child_ok_spawn:
  assumes "child_ok s" "observes running now_alive" "now_alive \<in> {alive s, insert p (alive s)}" "p \<noteq> 0"
    "p \<notin> owned_processes (lifecycle (host s))" "ensuring s role = Some (EnsureSpawn launch)"
  shows "child_ok (follow_ensure role exits (ensure_spawned running connected accepting p launch role (lifecycle (host s)))
    (s\<lparr>host := spawn_child role p (host s), alive := now_alive\<rparr>))"
proof -
  let ?l = "lifecycle (host s)" and ?f = "finalizations (spawn_child role p (host s))"
  obtain l closed nxt where r: "ensure_spawned running connected accepting p launch role ?l = (l, closed, nxt)"
    by (cases "ensure_spawned running connected accepting p launch role ?l") auto
  note old = child_ok_parts [OF assms(1)]
  note sp = ensure_spawned_moves [OF old(1) old(4) [OF assms(6)] assms(4,5) r]
  have m: "lifecycle_ok l" "owned_processes l = insert p (owned_processes ?l) - set closed"
    "media_processes l = (if role = RoleMedia then insert p else id) (media_processes ?l) - set closed"
    "list_all (\<lambda>p. \<not> running p) closed" "lifecycleClosing l = lifecycleClosing ?l"
    "active_process l role \<in> {0, p}" "lifecycleClosing ?l \<longrightarrow> active_process l role = 0"
    "\<forall>q. q \<noteq> role \<longrightarrow> active_process l q = active_process ?l q"
    using sp by - (elim conjE, assumption)+
  have installs: "piece_installs role ?l (l, closed, nxt)"
    using ensure_pieces_installing(3) [OF piece_installing [OF assms(1,6)]] r by metis
  have ret: "\<exists>b. nxt = EnsureReturn b" using r assms(4) by (auto simp: ensure_spawned_def Let_def split: if_splits prod.splits)
  have fresh: "p \<notin> media_keys (finalizations (host s))"
    using assms(5) old(6) by (auto simp: media_ok_def media_processes_def owned_processes_def)
  have d: "distinct_media (finalizations (host s))" using old(6) by (simp add: media_ok_def)
  note adopt = adopt_media_account [OF d fresh]
  have f: "distinct_media ?f" "media_keys ?f = (if role = RoleMedia then insert p else id) (media_processes ?l)"
    "account ?f = account (finalizations (host s))"
    using adopt old(6) assms(4) by (simp_all add: spawn_child_def media_ok_def)
  have unretired: "\<not> entryRetired e" if "map_of (mediaEntries ?f) (active_process l RoleMedia) = Some e" for e
  proof (cases "active_process l RoleMedia = 0")
    case True
    have "0 \<notin> media_keys ?f" using no_media_zero [OF old(1)] assms(4) f(2) by auto
    then show ?thesis using that media_record True by fastforce
  next
    case False
    then show ?thesis using that m(8) m(6) old(6) adopt(4) assms(4)
      by (cases "role = RoleMedia") (auto simp: spawn_child_def media_ok_def)
  qed
  note closed = close_processes_account [OF f(1), of exits closed]
  let ?g = "close_processes exits closed ?f"
  have media: "media_ok l ?g"
  proof -
    have "\<not> entryRetired e" if "map_of (mediaEntries ?g) (active_process l RoleMedia) = Some e" for e
      using unretired [of e] that closed unfolding map_le_def by (metis domI)
    then show ?thesis using closed f(2) m(3) by (simp add: media_ok_def)
  qed
  have account: "mset (retirements s) = mset (map finalRequest (reportedMedia s)) + account ?g"
    using closed f(3) old(7) by simp
  have live: "now_alive \<subseteq> owned_processes l"
    using assms(2,3) old(2) m(2,4) by (auto simp: observes_def list_all_iff)
  let ?E = "(ensuring s)(role := None)"
  have inst: "\<forall>q. installing l q \<longleftrightarrow> ?E q \<noteq> None"
    using installs ret old(3) by (auto simp: piece_installs_def)
  have spawn: "\<forall>q g. ?E q = Some (EnsureSpawn g) \<longrightarrow> active_process l q = 0"
    using m(8) old(4) by (auto split: if_splits)
  have closing: "lifecycleClosing l \<longrightarrow> (\<forall>q. active_process l q = 0)"
    using m(5,7,8) old(5) by metis
  let ?t = "follow_ensure role exits (l, closed, nxt) (s\<lparr>host := spawn_child role p (host s), alive := now_alive\<rparr>)"
  have parts: "lifecycle (host ?t) = l" "finalizations (host ?t) = ?g" "ensuring ?t = ?E" "alive ?t = now_alive"
    "retirements ?t = retirements s" "reportedMedia ?t = reportedMedia s"
    using ret by (auto simp: after_lifecycle_def follow_ensure_def)
  show ?thesis unfolding r child_ok_def Let_def parts using m(1) live inst spawn closing media account by blast
qed

text \<open>A media child is stamped with its request before it is retired.\<close>

lemma child_ok_retire_media:
  assumes "child_ok s" "observes running (alive s)"
  shows "child_ok (s\<lparr>host := retire_media running exits req (host s),
      retirements := retirements s @ (if child_present (lifecycle (host s)) RoleMedia then [req] else [])\<rparr>)"
proof -
  let ?l = "lifecycle (host s)"
  note old = child_ok_parts [OF assms(1)]
  obtain l closed where r: "retire_child running RoleMedia ?l = (l, closed)" by fastforce
  have m: "lifecycle_moves running ?l (l, closed)" "active_process l q = (if q = RoleMedia then 0 else active_process ?l q)"
    "lifecycleClosing l = lifecycleClosing ?l" "installing l = installing ?l" for q
    using retire_child_moves [OF old(1), of running RoleMedia] installing_retire [of running RoleMedia ?l] by (simp_all add: r)
  let ?p = "active_process ?l RoleMedia"
  show ?thesis
  proof (cases "?p = 0")
    case True
    have "child_ok (s\<lparr>host := after_lifecycle exits (l, closed) (host s)\<rparr>)"
      using m child_ok_plain [OF assms, of "(l, closed)" exits] by simp
    then show ?thesis using True by (simp add: retire_media_def child_present_def r)
  next
    case False
    let ?f = "retire_media_entry ?p req (finalizations (host s))"
    have d: "distinct_media (finalizations (host s))" using old(6) by (simp add: media_ok_def)
    have "?p \<in> media_keys (finalizations (host s))" using old(6) False by (simp add: media_ok_def media_processes_def)
    then obtain e where e: "map_of (mediaEntries (finalizations (host s))) ?p = Some e"
      using map_of_eq_None_iff [of "mediaEntries (finalizations (host s))" ?p] by (fastforce simp: media_keys_def)
    have "\<not> entryRetired e" using old(6) e by (simp add: media_ok_def)
    note stamped = retire_media_entry_account [OF d e this, of req]
    note closed = close_processes_account [OF stamped(2), of exits closed]
    let ?g = "close_processes exits closed ?f"
    have keys: "media_keys ?g = media_processes l" using closed stamped(3) m(1) old(6) by (simp add: media_ok_def lifecycle_moves_def)
    have ok: "lifecycle_ok l" "alive s \<subseteq> owned_processes l"
      using m(1) old(2) assms(2) by (auto simp: lifecycle_moves_def list_all_iff observes_def)
    have media: "media_ok l ?g"
      using closed keys media_record [of 0 ?g] no_media_zero [OF ok(1)] m(2) [of RoleMedia] by (simp add: media_ok_def)
    have inst: "\<forall>q. installing l q \<longleftrightarrow> ensuring s q \<noteq> None" using m(4) old(3) by simp
    have rest: "\<forall>q g. ensuring s q = Some (EnsureSpawn g) \<longrightarrow> active_process l q = 0"
      "lifecycleClosing l \<longrightarrow> (\<forall>q. active_process l q = 0)"
      using m(2,3) old(4,5) by metis+
    let ?t = "s\<lparr>host := retire_media running exits req (host s), retirements := retirements s @ [req]\<rparr>"
    have account: "mset (retirements ?t) = mset (map finalRequest (reportedMedia s)) + account ?g"
      using closed stamped(1) old(7) by simp
    have parts: "lifecycle (host ?t) = l" "finalizations (host ?t) = ?g" "ensuring ?t = ensuring s" "alive ?t = alive s"
      "reportedMedia ?t = reportedMedia s"
      using False by (simp_all add: retire_media_def after_lifecycle_def r)
    have "child_ok ?t" unfolding child_ok_def Let_def parts using ok inst rest media account by blast
    then show ?thesis using False by (simp add: child_present_def)
  qed
qed

lemma child_ok_taken:
  assumes "child_ok s" "collect_finalized_media (host s) = (h, ms)"
  shows "child_ok (s\<lparr>host := h, reportedMedia := reportedMedia s @ ms\<rparr>)"
proof -
  have h: "lifecycle h = lifecycle (host s)" "mediaEntries (finalizations h) = mediaEntries (finalizations (host s))"
    "finalizedMedia (finalizations h) = []" "ms = finalizedMedia (finalizations (host s))"
    using assms(2) by (auto simp: collect_finalized_media_def take_finalized_def)
  show ?thesis using assms(1) by (simp add: child_ok_def h media_ok_def distinct_media_def media_keys_def account_def Let_def)
qed

lemma child_ok_step: "child_step s t \<Longrightarrow> child_ok s \<Longrightarrow> child_ok t"
proof (induction rule: child_step.induct)
  case (process_exits s p)
  then show ?case by (auto simp: child_ok_def Let_def)
next
  case (ensure_enters running s connected accepting now timeoutMs role l closed r exits)
  note p = child_ok_parts [OF ensure_enters(3)]
  have i: "installing l = installing (lifecycle (host s))"
    using ensure_enter_installing [OF ensure_enters(2)] by (cases "installing (lifecycle (host s)) role") (auto simp: fun_eq_iff)
  show ?case
    using ensure_enter_moves [OF p(1) ensure_enters(2)] child_ok_plain [OF ensure_enters(3,1), of "(l, closed)" exits] i by simp
next
  case (ensure_begins running s connected accepting now timeoutMs role l closed p exits)
  note old = child_ok_parts [OF ensure_begins(3)]
  note moves = ensure_enter_moves [OF old(1) ensure_begins(2)] and inst = ensure_enter_installing [OF ensure_begins(2)]
  have i: "installing l q \<longleftrightarrow> ((ensuring s)(role := Some p)) q \<noteq> None" for q
    using inst old(3) by (auto split: if_splits)
  have sp: "active_process l q = 0" if "((ensuring s)(role := Some p)) q = Some (EnsureSpawn g)" for q g
    using that inst old(4) moves by (auto split: if_splits)
  show ?case
    unfolding child_ok_note by (rule child_ok_moves [OF ensure_begins(3) _ ensure_begins(1)]) (use moves i sp in auto)
next
  case (ensure_checks running s role ticket deadline exits now)
  note old = child_ok_parts [OF ensure_checks(3)]
  obtain l closed nxt where r: "ensure_check running now ticket deadline role (lifecycle (host s)) = (l, closed, nxt)"
    by (cases "ensure_check running now ticket deadline role (lifecycle (host s))") auto
  show ?case
    using ensure_check_moves [OF old(1) r] ensure_pieces_installing(1) [OF piece_installing [OF ensure_checks(3,2)], of running now ticket deadline]
      child_ok_follow [OF ensure_checks(3,1), of role "(l, closed, nxt)" exits] ensure_checks(2)
    by (simp add: r)
next
  case (ensure_waits s role ticket deadline exits wait accepting)
  note old = child_ok_parts [OF ensure_waits(2)]
  let ?r = "ensure_waited wait accepting ticket deadline role (lifecycle (host s))"
  have same: "same_processes (fst ?r) (lifecycle (host s))" "fst (snd ?r) = []" "snd (snd ?r) \<noteq> EnsureAt (EnsureSpawn g)" for g
    using same_leave [of role "lifecycle (host s)"] by (simp_all add: ensure_waited_def same_processes_def)
  have "observes (\<lambda>_. True) (alive s)" by (simp add: observes_def)
  then show ?case
    using child_ok_follow [OF ensure_waits(2), of "\<lambda>_. True" role ?r exits] ensure_waits(1) same
      ensure_pieces_installing(2) [OF piece_installing [OF ensure_waits(2,1)], of wait accepting ticket deadline]
      same_processes_eqs(5) [OF same(1), of "\<lambda>_. True" "lifecycle (host s)" "[]"] lifecycle_moves_refl [OF old(1)]
    by (simp add: same_processes_def)
next
  case (ensure_fails s role launch exits running connected accepting)
  note old = child_ok_parts [OF ensure_fails(2)]
  have "observes (\<lambda>_. True) (alive s)" by (simp add: observes_def)
  then show ?case
    using child_ok_follow [OF ensure_fails(2), of "\<lambda>_. True" role "(leave_ensure role (lifecycle (host s)), [], EnsureReturn False)" exits]
      same_leave [of role "lifecycle (host s)"] ensure_fails(1)
      same_processes_eqs(5) [OF same_leave, of "\<lambda>_. True" "lifecycle (host s)" role "lifecycle (host s)" "[]"] lifecycle_moves_refl [OF old(1)]
    by (simp add: same_processes_def spawn_child_def ensure_spawned_def piece_installs_def)
next
  case (ensure_spawns running now_alive s p role launch exits connected accepting)
  then show ?case by (intro child_ok_spawn) auto
next
  case (media_retires running s exits req)
  then show ?case unfolding child_ok_note by (intro child_ok_retire_media)
next
  case (other_retires running s role exits)
  note p = child_ok_parts [OF other_retires(3)]
  show ?case
    unfolding child_ok_note by (rule child_ok_plain [OF other_retires(3,1) retire_child_moves(1) [OF p(1)]]) (simp_all add: retire_child_moves [OF p(1)])
next
  case (retired_collected running s exits)
  note p = child_ok_parts [OF retired_collected(2)]
  show ?case unfolding child_ok_note by (rule child_ok_plain [OF retired_collected(2,1) collect_retired_moves [OF p(1)]]) simp_all
next
  case (shutdown_begins running s exits)
  note p = child_ok_parts [OF shutdown_begins(2)]
  show ?case
    unfolding child_ok_note by (rule child_ok_plain [OF shutdown_begins(2,1) begin_shutdown_moves(1) [OF p(1)]]) (simp_all add: begin_shutdown_moves [OF p(1)])
next
  case (finalized_taken s h ms)
  then show ?case by (intro child_ok_taken)
qed

interpretation children: invariant_system child_init child_step child_ok
  by unfold_locales (rule child_ok_init, assumption, rule child_ok_step)

text \<open>What a closing appends is what the exits of the retired children resolve to.\<close>

definition report_of_exit :: "u64 \<times> u32 \<times> finalization_result option \<Rightarrow> u64 \<times> resolution" where
  "report_of_exit x = (fst x, resolve (fst (snd x)) (snd (snd x)))"

definition report_of_media :: "finalized_media \<Rightarrow> u64 \<times> resolution" where
  "report_of_media m = (finalRequest m, finalResolution m)"

lemma close_processes_reports:
  assumes "distinct_media f" "distinct ps"
  shows "map report_of_media (finalizedMedia (close_processes exits ps f)) =
    map report_of_media (finalizedMedia f) @ map report_of_exit (exits_seen exits ps f)"
  using assms
proof (induction ps arbitrary: f)
  case (Cons p ps)
  let ?f = "closing_media p (fst (exits p)) (snd (exits p)) f"
  have entries: "mediaEntries ?f = AList.delete p (mediaEntries f)" by (rule closing_media_account(2) [OF Cons.prems(1)])
  then have d: "distinct_media ?f" using Cons.prems(1) by (simp add: distinct_media_def distinct_delete)
  have one: "map report_of_media (finalizedMedia ?f) =
      map report_of_media (finalizedMedia f) @ map report_of_exit (exits_seen exits [p] f)"
    by (auto simp: closing_media_def exits_seen_def report_of_media_def report_of_exit_def Let_def split: option.splits)
  have "map_of (mediaEntries ?f) q = map_of (mediaEntries f) q" if "q \<in> set ps" for q
    using that Cons.prems(2) by (auto simp: entries delete_conv')
  then have rest: "exits_seen exits ps ?f = exits_seen exits ps f"
    unfolding exits_seen_def by (intro arg_cong [where f = concat] map_cong) auto
  have "close_processes exits (p # ps) f = close_processes exits ps ?f" by (simp add: close_processes_def)
  moreover have "exits_seen exits (p # ps) f = exits_seen exits [p] f @ exits_seen exits ps f" by (simp add: exits_seen_def)
  ultimately show ?case using Cons.IH [OF d] Cons.prems(2) one rest by simp
qed (simp add: close_processes_def exits_seen_def)

definition exits_reported :: "child_system \<Rightarrow> bool" where
  "exits_reported s \<longleftrightarrow>
     map report_of_media (reportedMedia s @ finalizedMedia (finalizations (host s))) = map report_of_exit (exitLog s)"

lemma exits_reported_close:
  assumes "exits_reported s" "distinct ps" "distinct_media f" "finalizedMedia f = finalizedMedia (finalizations (host s))"
    "finalizations (host t) = close_processes exits ps f" "reportedMedia t = reportedMedia s"
    "exitLog t = exitLog s @ exits_seen exits ps f"
  shows "exits_reported t"
  using assms(1) close_processes_reports [OF assms(3,2), of exits] assms(4-7) by (simp add: exits_reported_def)

lemma exits_reported_step: "child_step s t \<Longrightarrow> child_ok s \<and> exits_reported s \<Longrightarrow> exits_reported t"
proof (induction rule: child_step.induct)
  case (process_exits s p)
  then show ?case by (simp add: exits_reported_def)
next
  case (ensure_enters running s connected accepting now timeoutMs role l closed r exits)
  note ok = child_ok_parts [OF ensure_enters(3) [THEN conjunct1]]
  show ?case
    by (rule exits_reported_close [where exits = exits and f = "finalizations (host s)" and ps = closed])
      (use ensure_enters ensure_enter_moves [OF ok(1) ensure_enters(2)] ok(6) in
        \<open>simp_all add: lifecycle_moves_def media_ok_def after_lifecycle_def\<close>)
next
  case (ensure_begins running s connected accepting now timeoutMs role l closed p exits)
  note ok = child_ok_parts [OF ensure_begins(3) [THEN conjunct1]]
  show ?case
    by (rule exits_reported_close [where exits = exits and f = "finalizations (host s)" and ps = closed])
      (use ensure_begins ensure_enter_moves [OF ok(1) ensure_begins(2)] ok(6) in
        \<open>simp_all add: lifecycle_moves_def media_ok_def after_lifecycle_def\<close>)
next
  case (ensure_checks running s role ticket deadline exits now)
  note ok = child_ok_parts [OF ensure_checks(3) [THEN conjunct1]]
  obtain l closed nxt where r: "ensure_check running now ticket deadline role (lifecycle (host s)) = (l, closed, nxt)"
    by (cases "ensure_check running now ticket deadline role (lifecycle (host s))") auto
  show ?case
    by (rule exits_reported_close [where exits = exits and f = "finalizations (host s)" and ps = closed])
      (use ensure_checks ensure_check_moves [OF ok(1) r] ok(6) in
        \<open>simp_all add: r lifecycle_moves_def media_ok_def after_lifecycle_def follow_ensure_def\<close>)
next
  case (ensure_waits s role ticket deadline exits wait accepting)
  note ok = child_ok_parts [OF ensure_waits(2) [THEN conjunct1]]
  show ?case
    by (rule exits_reported_close [where exits = exits and f = "finalizations (host s)" and ps = "[]"])
      (use ensure_waits ok(6) in
        \<open>auto simp: ensure_waited_def media_ok_def after_lifecycle_def follow_ensure_def\<close>)
next
  case (ensure_fails s role launch exits running connected accepting)
  note ok = child_ok_parts [OF ensure_fails(2) [THEN conjunct1]]
  show ?case
    by (rule exits_reported_close [where exits = exits and f = "finalizations (host s)" and ps = "[]"])
      (use ensure_fails ok(6) in
        \<open>simp_all add: ensure_spawned_def spawn_child_def media_ok_def after_lifecycle_def follow_ensure_def\<close>)
next
  case (ensure_spawns running now_alive s p role launch exits connected accepting)
  note ok = child_ok_parts [OF ensure_spawns(6) [THEN conjunct1]]
  obtain l closed nxt where r: "ensure_spawned running connected accepting p launch role (lifecycle (host s)) = (l, closed, nxt)"
    by (cases "ensure_spawned running connected accepting p launch role (lifecycle (host s))") auto
  let ?f = "finalizations (spawn_child role p (host s))"
  have "distinct closed"
    using ensure_spawned_moves [OF ok(1) ok(4) [OF ensure_spawns(5)] ensure_spawns(3,4) r] by blast
  moreover have "p \<notin> media_keys (finalizations (host s))"
    using ensure_spawns(4) ok(6) by (auto simp: media_ok_def media_processes_def owned_processes_def)
  then have "distinct_media ?f" using adopt_media_account(2) ok(6) by (simp add: spawn_child_def media_ok_def)
  moreover have "finalizedMedia ?f = finalizedMedia (finalizations (host s))" by (simp add: spawn_child_def adopt_media_def)
  ultimately show ?case using ensure_spawns(6)
    by - (rule exits_reported_close [where s = s and exits = exits and f = ?f and ps = closed],
      simp_all add: r after_lifecycle_def follow_ensure_def)
next
  case (media_retires running s exits req)
  note ok = child_ok_parts [OF media_retires(2) [THEN conjunct1]]
  have d: "distinct_media (finalizations (host s))" using ok(6) by (simp add: media_ok_def)
  have "distinct_media (stamped_media req (host s))"
    using d by (auto simp: stamped_media_def retire_media_entry_def distinct_media_def distinct_update Let_def split: option.splits)
  moreover have "finalizedMedia (stamped_media req (host s)) = finalizedMedia (finalizations (host s))"
    by (auto simp: stamped_media_def retire_media_entry_def Let_def split: option.splits)
  moreover have "distinct (snd (retire_child running RoleMedia (lifecycle (host s))))"
    using retire_child_moves(1) [OF ok(1), of running RoleMedia] by (simp add: lifecycle_moves_def)
  ultimately show ?case using media_retires(2)
    by - (rule exits_reported_close [where s = s and exits = exits and f = "stamped_media req (host s)"
          and ps = "snd (retire_child running RoleMedia (lifecycle (host s)))"],
      simp_all add: retire_media_def stamped_media_def after_lifecycle_def Let_def)
next
  case (other_retires running s role exits)
  note ok = child_ok_parts [OF other_retires(3) [THEN conjunct1]]
  show ?case
    by (rule exits_reported_close [where exits = exits and f = "finalizations (host s)" and ps = "snd (retire_child running role (lifecycle (host s)))"])
      (use other_retires retire_child_moves(1) [OF ok(1), of running role] ok(6) in
        \<open>simp_all add: lifecycle_moves_def media_ok_def after_lifecycle_def\<close>)
next
  case (retired_collected running s exits)
  note ok = child_ok_parts [OF retired_collected(2) [THEN conjunct1]]
  show ?case
    by (rule exits_reported_close [where exits = exits and f = "finalizations (host s)" and ps = "snd (collect_retired running (lifecycle (host s)))"])
      (use retired_collected collect_retired_moves [OF ok(1), of running] ok(6) in
        \<open>simp_all add: lifecycle_moves_def media_ok_def after_lifecycle_def\<close>)
next
  case (shutdown_begins running s exits)
  note ok = child_ok_parts [OF shutdown_begins(2) [THEN conjunct1]]
  show ?case
    by (rule exits_reported_close [where exits = exits and f = "finalizations (host s)" and ps = "snd (begin_shutdown running (lifecycle (host s)))"])
      (use shutdown_begins begin_shutdown_moves(1) [OF ok(1), of running] ok(6) in
        \<open>simp_all add: lifecycle_moves_def media_ok_def after_lifecycle_def\<close>)
next
  case (finalized_taken s h ms)
  then show ?case by (auto simp: exits_reported_def collect_finalized_media_def take_finalized_def)
qed

interpretation child_exits: invariant_system child_init child_step "\<lambda>s. child_ok s \<and> exits_reported s"
proof
  show "child_init s \<Longrightarrow> child_ok s \<and> exits_reported s" for s
    using child_ok_init by (simp add: child_init_def exits_reported_def new_host_children_def)
  show "child_step s t \<Longrightarrow> child_ok s \<and> exits_reported s \<Longrightarrow> child_ok t \<and> exits_reported t" for s t
    using child_ok_step exits_reported_step by blast
qed

section \<open>What the supervisor promises\<close>

lemma owned_retired: "(\<And>r. active_process l r = 0) \<Longrightarrow> owned_processes l = retiredProcess ` set (retiredChildren l)"
  by (auto simp: owned_processes_def)

text \<open>C34: Whatever calls arrive while \<open>Ensure\<close> waits or spawns, and whenever processes exit, every live helper has exactly
  one owner: one slot, or one retired child. Once the shutdown began no slot holds a process, and when the last
  retired child is gone no helper is left alive.\<close>

theorem children_never_lost:
  assumes "reachable_from child_init child_step s" and "l = lifecycle (host s)"
  shows "(\<forall>p\<in>alive s. (\<exists>!r. active_process l r = p) \<noteq> (p \<in> retiredProcess ` set (retiredChildren l))) \<and>
    distinct (map retiredProcess (retiredChildren l)) \<and>
    (lifecycleClosing l \<longrightarrow> (\<forall>r. active_process l r = 0) \<and> (retiredChildren l = [] \<longrightarrow> alive s = {}))"
proof -
  note ok = child_ok_parts [OF children.reachable_inv [OF assms(1)], folded assms(2)]
  have "(\<exists>!r. active_process l r = p) \<noteq> (p \<in> retiredProcess ` set (retiredChildren l))" if live: "p \<in> alive s" for p
  proof (cases "p \<in> retiredProcess ` set (retiredChildren l)")
    case True
    then show ?thesis using ok(1) by (auto simp: lifecycle_ok_def)
  next
    case False
    then obtain r where "active_process l r = p" "p \<noteq> 0" using subsetD [OF ok(2) live] by (auto simp: owned_processes_def)
    then show ?thesis using False ok(1) unfolding lifecycle_ok_def by metis
  qed
  moreover have "alive s = {}" if "lifecycleClosing l" "retiredChildren l = []"
    using ok(2,5) that owned_retired [of l] by simp
  ultimately show ?thesis using ok(1,5) by (simp add: lifecycle_ok_def)
qed

text \<open>The media processes retired and not yet seen exited.\<close>

definition finalizing_children :: "child_lifecycle \<Rightarrow> retired_child list" where
  "finalizing_children l = filter (\<lambda>c. retiredRole c = RoleMedia) (retiredChildren l)"

lemma media_processes_finalizing:
  "media_processes l = {active_process l RoleMedia} - {0} \<union> retiredProcess ` set (finalizing_children l)"
  by (simp add: media_processes_def finalizing_children_def)

lemma finalizing_count_retired:
  assumes "lifecycle_ok (lifecycle h)" "media_ok (lifecycle h) (finalizations h)"
  shows "finalizing_count h = length (finalizing_children (lifecycle h))"
proof -
  let ?l = "lifecycle h" and ?cs = "finalizing_children (lifecycle h)"
  have d: "distinct (map retiredProcess ?cs)" using assms(1) by (simp add: finalizing_children_def lifecycle_ok_def distinct_map_filter)
  have "active_process ?l RoleMedia \<notin> retiredProcess ` set ?cs"
    using assms(1) by (auto simp: finalizing_children_def lifecycle_ok_def)
  moreover have "card (retiredProcess ` set ?cs) = length ?cs" using distinct_card [OF d] by simp
  moreover have "tracked_media (finalizations h) = card (media_processes ?l)"
    using assms(2) distinct_card [of "map fst (mediaEntries (finalizations h))"]
    by (simp add: media_ok_def distinct_media_def media_keys_def tracked_media_def)
  ultimately show ?thesis
    by (simp add: media_processes_finalizing finalizing_count_def child_present_def Let_def)
qed

lemma no_retired_requests:
  assumes "media_ok l f" "finalizing_children l = []"
  shows "retired_requests (mediaEntries f) = {#}"
proof -
  have "\<not> entryRetired e" if "(p, e) \<in> set (mediaEntries f)" for p e
  proof -
    have "map_of (mediaEntries f) p = Some e" using that assms(1) by (simp add: media_ok_def distinct_media_def)
    moreover have "p \<in> media_processes l" using that assms(1) by (force simp: media_ok_def media_keys_def)
    ultimately show ?thesis using assms by (auto simp: media_ok_def media_processes_finalizing)
  qed
  then show ?thesis by (auto simp: retired_requests_def filter_empty_conv)
qed

text \<open>Every request a media child was retired for is reported exactly once, when that child has exited: the
  requests reported and those still attached to a child add up to the retirements. The count shown to clients is the
  number of retired media children not yet seen exited, and when it is zero every report has been made.\<close>

theorem finalizations_attributed_once:
  assumes "reachable_from child_init child_step s" and "f = finalizations (host s)"
  shows "mset (retirements s) = mset (map finalRequest (reportedMedia s @ finalizedMedia f)) + retired_requests (mediaEntries f) \<and>
    finalizing_count (host s) = length (finalizing_children (lifecycle (host s))) \<and>
    (finalizing_count (host s) = 0 \<longrightarrow> mset (retirements s) = mset (map finalRequest (reportedMedia s @ finalizedMedia f)))"
proof -
  note ok = child_ok_parts [OF children.reachable_inv [OF assms(1)], folded assms(2)]
  note count = finalizing_count_retired [OF ok(1)] 
  have total: "mset (retirements s) = mset (map finalRequest (reportedMedia s @ finalizedMedia f)) + retired_requests (mediaEntries f)"
    using ok(7) by (simp add: account_def)
  have none: "retired_requests (mediaEntries f) = {#}" if "finalizing_children (lifecycle (host s)) = []"
    by (rule no_retired_requests [OF ok(6) that])
  show ?thesis using total none count ok(6) assms(2) by simp
qed

text \<open>The wait of the shutdown.\<close>

definition drain_seen :: "child_lifecycle \<Rightarrow> drain_view list \<Rightarrow> child_lifecycle \<times> nat list \<Rightarrow> bool option \<Rightarrow> bool" where
  "drain_seen l vs k r \<longleftrightarrow> lifecycle_ok (fst k) \<and> owned_processes (fst k) = owned_processes l - set (snd k) \<and>
     media_processes (fst k) = media_processes l - set (snd k) \<and> active_process (fst k) = active_process l \<and>
     lifecycleClosing (fst k) = lifecycleClosing l \<and> installing (fst k) = installing l \<and>
     (\<forall>p\<in>set (snd k). \<exists>v\<in>set vs. \<not> viewRunning v p) \<and> (r = Some True \<longrightarrow> retiredChildren (fst k) = []) \<and>
     (r = Some False \<longrightarrow> retiredChildren (fst k) \<noteq> [] \<and> (\<exists>v\<in>set vs. viewWait v = WaitFailed)) \<and>
     (r = None \<longrightarrow> (\<forall>v\<in>set vs. \<exists>c\<in>set (retiredChildren l). viewRunning v (retiredProcess c)))"

lemma drain_until_exited_drained:
  assumes "lifecycle_ok l" "drain_until_exited start nextReport progressMs vs l = (l', closed, reports, r)"
  shows "drain_seen l vs (l', closed) r"
  using assms
proof (induction vs arbitrary: l nextReport l' closed reports r)
  case (Cons v vs)
  obtain k ps where k: "collect_retired (viewRunning v) l = (k, ps)" by fastforce
  have m: "lifecycle_moves (viewRunning v) l (k, ps)" using collect_retired_moves [OF Cons.prems(1)] k by metis
  have act: "active_process k = active_process l" "lifecycleClosing k = lifecycleClosing l" "installing k = installing l"
    using collect_active [of "viewRunning v" l] installing_collect [of "viewRunning v" l] by (simp_all add: k)
  have rets: "retiredChildren k = filter (\<lambda>c. viewRunning v (retiredProcess c)) (retiredChildren l)"
    using k by (auto simp: collect_retired_def)
  show ?case
  proof (cases "retiredChildren k = [] \<or> viewWait v = WaitFailed")
    case True
    have "l' = k" "closed = ps" "r = Some (retiredChildren k = [])"
      using Cons.prems(2) True by (auto simp: k Let_def split: if_splits)
    then show ?thesis using m act True by (auto simp: drain_seen_def lifecycle_moves_def list_all_iff)
  next
    case False
    let ?next = "if viewNowMs v \<ge> nextReport then viewNowMs v + progressMs else nextReport"
    obtain n qs rs b where n: "drain_until_exited start ?next progressMs vs k = (n, qs, rs, b)"
      by (cases "drain_until_exited start ?next progressMs vs k") auto
    have "drain_seen k vs (n, qs) b" using Cons.IH [OF _ n] m by (simp add: lifecycle_moves_def)
    moreover have "l' = n" "closed = ps @ qs" "r = b"
      using Cons.prems(2) False n by (auto simp: k Let_def split: if_splits)
    moreover have "\<exists>c\<in>set (retiredChildren l). viewRunning v (retiredProcess c)"
      using False by (auto simp: rets filter_empty_conv)
    ultimately show ?thesis using m act rets by (auto simp: drain_seen_def lifecycle_moves_def list_all_iff)
  qed
qed (simp add: drain_seen_def)

text \<open>C35: A shutdown forgets no helper: it answers success only when every helper owned at its beginning has been seen
  exited, failure only with helpers left and a failed wait, and it answers unless every turn sees a helper running. It
  adds no report and loses none: on success each retired media child has been reported, whereas one still active
  when the shutdown began ends unreported.\<close>

theorem shutdown_forgets_no_helper:
  assumes "reachable_from child_init child_step s" and "host_shutdown running exits start vs (host s) = (h, reports, r)"
    and "seen = (\<lambda>p. \<not> running p \<or> (\<exists>v\<in>set vs. \<not> viewRunning v p))"
  shows "(\<forall>p\<in>owned_processes (lifecycle (host s)). p \<in> owned_processes (lifecycle h) \<or> seen p) \<and>
    (r = Some True \<longrightarrow> owned_processes (lifecycle h) = {} \<and>
       mset (retirements s) = mset (map finalRequest (reportedMedia s @ finalizedMedia (finalizations h)))) \<and>
    (r = Some False \<longrightarrow> owned_processes (lifecycle h) \<noteq> {} \<and> (\<exists>v\<in>set vs. viewWait v = WaitFailed)) \<and>
    (r = None \<longrightarrow> (\<forall>v\<in>set vs. \<exists>p\<in>owned_processes (lifecycle (host s)). viewRunning v p))"
proof -
  note old = child_ok_parts [OF children.reachable_inv [OF assms(1)]]
  obtain k ps where k: "begin_shutdown running (lifecycle (host s)) = (k, ps)" by fastforce
  note begun = begin_shutdown_moves [OF old(1), of running, unfolded k fst_conv]
  obtain l qs rs where d: "drain_until_exited start (start + 10000) 10000 vs k = (l, qs, rs, r)"
    and h: "h = after_lifecycle exits (l, ps @ qs) (host s)"
    using assms(2) by (auto simp: host_shutdown_def k split: prod.splits)
  have "lifecycle_ok k" using begun(1) by (simp add: lifecycle_moves_def)
  note drained = drain_until_exited_drained [OF this d, unfolded drain_seen_def fst_conv snd_conv]
  let ?l0 = "lifecycle (host s)" and ?f0 = "finalizations (host s)"
  have l: "lifecycle h = l" "finalizations h = close_processes exits (ps @ qs) ?f0" by (simp_all add: h after_lifecycle_def)
  have owned: "owned_processes l = owned_processes ?l0 - set (ps @ qs)" "media_processes l = media_processes ?l0 - set (ps @ qs)"
    "\<forall>p\<in>set ps. \<not> running p"
    using drained begun(1) by (auto simp: lifecycle_moves_def list_all_iff)
  have "active_process l q = 0" for q using drained begun(2) by simp
  then have own: "owned_processes l = retiredProcess ` set (retiredChildren l)" by (rule owned_retired)
  have d0: "distinct_media ?f0" using old(6) by (simp add: media_ok_def)
  note closed = close_processes_account [OF d0, of exits "ps @ qs"]
  have reports: "retired_requests (mediaEntries (finalizations h)) = {#}" if "owned_processes l = {}"
  proof -
    have "media_keys (finalizations h) \<subseteq> owned_processes l"
      using closed old(6) owned by (auto simp: media_ok_def l media_processes_def owned_processes_def)
    then show ?thesis using that by (simp add: media_keys_def retired_requests_def)
  qed
  have account: "mset (retirements s) = mset (map finalRequest (reportedMedia s)) + account (finalizations h)"
    using old(7) closed by (simp add: l)
  have "retiredProcess c \<in> owned_processes ?l0" if "c \<in> set (retiredChildren k)" for c
    using that begun(1) by (auto simp: lifecycle_moves_def owned_processes_def)
  then have none: "r = None \<longrightarrow> (\<forall>v\<in>set vs. \<exists>p\<in>owned_processes ?l0. viewRunning v p)" using drained by blast
  have "p \<in> owned_processes l \<or> seen p" if "p \<in> owned_processes ?l0" for p
    using that owned drained by (auto simp: assms(3))
  moreover have "r = Some True \<longrightarrow> owned_processes l = {}" "r = Some False \<longrightarrow> owned_processes l \<noteq> {} \<and> (\<exists>v\<in>set vs. viewWait v = WaitFailed)"
  proof -
    have "r = Some True \<longrightarrow> retiredChildren l = []"
      "r = Some False \<longrightarrow> retiredChildren l \<noteq> [] \<and> (\<exists>v\<in>set vs. viewWait v = WaitFailed)"
      using drained by blast+
    then show "r = Some True \<longrightarrow> owned_processes l = {}" "r = Some False \<longrightarrow> owned_processes l \<noteq> {} \<and> (\<exists>v\<in>set vs. viewWait v = WaitFailed)"
      by (simp_all add: own)
  qed
  ultimately show ?thesis using none account reports by (simp add: l(1) account_def)
qed

section \<open>A concrete run\<close>

text \<open>A media child is ensured, spawned as process 7 and retired for request 5.\<close>

definition quiet_exits :: exit_report where
  "quiet_exits = (\<lambda>_. (0, None))"

definition supervisor_started :: child_system where
  "supervisor_started =
     \<lparr>host = new_host_children, ensuring = (\<lambda>_. None), alive = {}, retirements = [], reportedMedia = [], exitLog = []\<rparr>"

definition media_ensuring :: child_system where
  "media_ensuring = note_exits quiet_exits [] (finalizations (host supervisor_started))
     (supervisor_started\<lparr>host := after_lifecycle quiet_exits
       (update_slot RoleMedia (\<lambda>s. s\<lparr>slotInstalling := True\<rparr>) new_lifecycle, []) (host supervisor_started),
     ensuring := (ensuring supervisor_started)(RoleMedia := Some (EnsureCheck 0 2000))\<rparr>)"

definition media_spawning :: child_system where
  "media_spawning = follow_ensure RoleMedia quiet_exits
     (ensure_check (\<lambda>_. True) 0 0 2000 RoleMedia (lifecycle (host media_ensuring))) media_ensuring"

definition media_spawned :: child_system where
  "media_spawned = follow_ensure RoleMedia quiet_exits
     (ensure_spawned (\<lambda>_. True) (\<lambda>_. True) True 7 1 RoleMedia (lifecycle (host media_spawning)))
     (media_spawning\<lparr>host := spawn_child RoleMedia 7 (host media_spawning), alive := insert 7 (alive media_spawning)\<rparr>)"

definition media_retired :: child_system where
  "media_retired = note_exits quiet_exits (snd (retire_child (\<lambda>_. True) RoleMedia (lifecycle (host media_spawned))))
     (stamped_media 5 (host media_spawned))
     (media_spawned\<lparr>host := retire_media (\<lambda>_. True) quiet_exits 5 (host media_spawned),
        retirements := retirements media_spawned @ (if child_present (lifecycle (host media_spawned)) RoleMedia then [5] else [])\<rparr>)"

lemma media_retired_reachable: "reachable_from child_init child_step media_retired"
proof -
  have r0: "reachable_from child_init child_step supervisor_started"
    by (rule reachable_from.intros) (simp add: child_init_def supervisor_started_def)
  have "ensure_enter (\<lambda>_. True) (\<lambda>_. True) True 0 2000 RoleMedia (lifecycle (host supervisor_started)) =
      (update_slot RoleMedia (\<lambda>s. s\<lparr>slotInstalling := True\<rparr>) new_lifecycle, [], EnsureAt (EnsureCheck 0 2000))"
    by (simp add: ensure_enter_def supervisor_started_def new_host_children_def new_lifecycle_def update_slot_def
      collect_retired_def child_ready_def empty_child_slot_def del: installing_fields(3))
  then have "child_step supervisor_started media_ensuring"
    unfolding media_ensuring_def by (rule ensure_begins [rotated]) (simp add: observes_def)
  from reachable_from.intros(2) [OF r0 this] have r1: "reachable_from child_init child_step media_ensuring" .
  have "child_step media_ensuring media_spawning"
    unfolding media_spawning_def by (rule ensure_checks) (simp_all add: observes_def media_ensuring_def)
  from reachable_from.intros(2) [OF r1 this] have r2: "reachable_from child_init child_step media_spawning" .
  have at: "ensuring media_spawning RoleMedia = Some (EnsureSpawn 1)" by code_simp
  have "active_process (lifecycle (host media_spawning)) r = 0" for r by (cases r) (simp_all, code_simp+)
  moreover have "retiredChildren (lifecycle (host media_spawning)) = []" by code_simp
  ultimately have "owned_processes (lifecycle (host media_spawning)) = {}" using owned_retired by simp
  then have "child_step media_spawning media_spawned"
    unfolding media_spawned_def using at by (intro ensure_spawns) (simp_all add: observes_def)
  from reachable_from.intros(2) [OF r2 this] have r3: "reachable_from child_init child_step media_spawned" .
  have "child_step media_spawned media_retired"
    unfolding media_retired_def by (rule media_retires) (simp add: observes_def)
  from reachable_from.intros(2) [OF r3 this] show ?thesis .
qed

theorem children_never_lost_witness: "\<not> (\<exists>!r. active_process (lifecycle (host media_retired)) r = 7)"
proof -
  have "7 \<in> alive media_retired" by code_simp
  moreover have "7 \<in> retiredProcess ` set (retiredChildren (lifecycle (host media_retired)))" by code_simp
  ultimately show ?thesis using children_never_lost [OF media_retired_reachable refl] by blast
qed

theorem finalizations_attributed_once_witness: "finalizing_count (host media_retired) = 1"
proof -
  have "length (finalizing_children (lifecycle (host media_retired))) = 1" by code_simp
  then show ?thesis using finalizations_attributed_once [OF media_retired_reachable refl] by simp
qed

text \<open>The shutdown sees the child running once more, and then exited.\<close>

definition shutdown_views :: "drain_view list" where
  "shutdown_views = [\<lparr>viewRunning = \<lambda>_. True, viewNowMs = 0, viewWait = WaitExited\<rparr>,
     \<lparr>viewRunning = \<lambda>_. False, viewNowMs = 300, viewWait = WaitExited\<rparr>]"

theorem shutdown_forgets_no_helper_witness:
  "retirements media_retired = [5] \<and> map finalRequest (finalizedMedia (finalizations
     (fst (host_shutdown (\<lambda>_. True) quiet_exits 0 shutdown_views (host media_retired))))) = [5]"
proof -
  obtain h reports r where h: "host_shutdown (\<lambda>_. True) quiet_exits 0 shutdown_views (host media_retired) = (h, reports, r)"
    by (cases "host_shutdown (\<lambda>_. True) quiet_exits 0 shutdown_views (host media_retired)") auto
  have "snd (snd (host_shutdown (\<lambda>_. True) quiet_exits 0 shutdown_views (host media_retired))) = Some True" by code_simp
  then have "r = Some True" by (simp add: h)
  moreover have ret: "retirements media_retired = [5]" "reportedMedia media_retired = []" by code_simp+
  ultimately have "mset (map finalRequest (finalizedMedia (finalizations h))) = {#5#}"
    using shutdown_forgets_no_helper [OF media_retired_reachable h refl] by simp
  then have "map finalRequest (finalizedMedia (finalizations h)) = [5]" by (simp only: mset_single_iff)
  then show ?thesis using ret by (simp add: h)
qed

end
