(* ===== verification/EngineCommands.thy ===== *)
theory EngineCommands
  imports Prelude "HOL-Library.Sublist" "HOL-Library.Multiset"
begin

text \<open>
  The commands of the engine: how client threads submit them and ask for the end
  (\<open>src/runtime/core/runtime.cpp\<close>), how the engine thread takes, executes and completes them
  (\<open>engine.cpp\<close>, \<open>engine_setup.cpp\<close>), and how it stops (\<open>engine_lifecycle.cpp\<close>), with the setup
  actions behind it (\<open>src/runtime/platform/setup_actions.cpp\<close>).  Everything under the shared mutex is
  one step; client threads interleave with the engine thread.  Whether an event slot could be reserved
  and what helpers and workers answer are arguments; a reserved event is never lost, which the event
  queue's own theory shows.  Settings edits and message texts only pass through and are left out.
\<close>

section \<open>Commands and their admission\<close>

datatype ce_status = CeOk | CeInvalidArgument | CeInvalidState | CeBusy | CeUnsupported | CeSettings
  | CeConflict | CeIpc | CeProcess | CeIo | CeNoMemory | CeCanceled | CeInternal

datatype command_kind = StartRecording | StopRecording | ToggleRecording | ToggleOverlay | ToggleBenchmark
  | TakeScreenshot | LaunchTarget | CommitSettings | SetupCommand

datatype runtime_state = RuntimeStarting | RuntimeReady | RuntimeStopping | RuntimeStopped | RuntimeFailed

definition mode_video :: int where "mode_video = 1"
definition mode_audio_only :: int where "mode_audio_only = 2"

record command =
  commandKind :: command_kind
  commandMode :: int
  commandText :: string
  setupAction :: int

text \<open>The completion of a pending command always has its event slot; a screenshot has a second one.\<close>

record pending_command =
  pendingRequest :: nat
  pendingCommand :: command
  screenshotSlot :: bool

datatype engine_event = CommandCompleted nat ce_status
  | ScreenshotTaken nat ce_status
  | RuntimeStateChanged runtime_state

record engine_core =
  queued :: "pending_command list"
  runtimeState :: runtime_state
  statusPublication :: nat
  nextRequest :: nat
  shutdownRequested :: bool
  engineEvents :: "engine_event list"
  hasSetup :: bool
  setupInFlight :: "(nat \<times> int) option"
  setupPending :: "nat option"
  sensorsHeld :: bool

definition new_engine :: "bool \<Rightarrow> engine_core" where
  "new_engine backend = \<lparr>queued = [], runtimeState = RuntimeStarting, statusPublication = 0, nextRequest = 0,
     shutdownRequested = False, engineEvents = [], hasSetup = backend,
     setupInFlight = None, setupPending = None, sensorsHeld = False\<rparr>"

definition push_event :: "engine_event \<Rightarrow> engine_core \<Rightarrow> engine_core" where
  "push_event ev e = e\<lparr>engineEvents := engineEvents e @ [ev]\<rparr>"

definition is_recording_command :: "command_kind \<Rightarrow> bool" where
  "is_recording_command k \<longleftrightarrow> k = StartRecording \<or> k = ToggleRecording"

definition sensor_driver_install :: int where "sensor_driver_install = 1"
definition sensor_driver_uninstall :: int where "sensor_driver_uninstall = 2"
definition sensor_offer_dismiss :: int where "sensor_offer_dismiss = 9"

definition is_known_setup_action :: "int \<Rightarrow> bool" where
  "is_known_setup_action v \<longleftrightarrow> v \<ge> sensor_driver_install \<and> v \<le> sensor_offer_dismiss"

text \<open>\<open>Submit\<close>, with the answers of the two reservations.\<close>

definition submit_command :: "bool \<Rightarrow> bool \<Rightarrow> command \<Rightarrow> engine_core \<Rightarrow> (ce_status \<times> nat) \<times> engine_core" where
  "submit_command completionSlot shotSlot c e =
     (if is_recording_command (commandKind c) \<and> commandMode c \<noteq> mode_video \<and> commandMode c \<noteq> mode_audio_only
      then ((CeInvalidArgument, 0), e)
      else if commandKind c = LaunchTarget \<and> commandText c = [] then ((CeInvalidArgument, 0), e)
      else if commandKind c = SetupCommand \<and> \<not> is_known_setup_action (setupAction c) then ((CeInvalidArgument, 0), e)
      else if shutdownRequested e \<or> runtimeState e \<noteq> RuntimeReady then ((CeInvalidState, 0), e)
      else if \<not> completionSlot then ((CeNoMemory, 0), e)
      else if commandKind c = TakeScreenshot \<and> \<not> shotSlot then ((CeNoMemory, 0), e)
      else let r = nextRequest e + 1;
               p = \<lparr>pendingRequest = r, pendingCommand = c, screenshotSlot = (commandKind c = TakeScreenshot)\<rparr>
           in ((CeOk, r), e\<lparr>nextRequest := r, queued := queued e @ [p]\<rparr>))"

definition request_shutdown :: "engine_core \<Rightarrow> engine_core" where
  "request_shutdown e = e\<lparr>shutdownRequested := True\<rparr>"

section \<open>The setup actions\<close>

definition error_success :: nat where "error_success = 0"
definition error_invalid_parameter :: nat where "error_invalid_parameter = 87"
definition error_busy :: nat where "error_busy = 170"
definition error_cancelled :: nat where "error_cancelled = 1223"

text \<open>\<open>Dispatch\<close> with the answer of the backend's request.\<close>

definition dispatch_setup :: "nat \<Rightarrow> int \<Rightarrow> nat" where
  "dispatch_setup backend action =
     (if sensor_driver_install \<le> action \<and> action < sensor_offer_dismiss then backend else error_invalid_parameter)"

definition setup_start :: "nat \<Rightarrow> nat \<Rightarrow> int \<Rightarrow> (nat \<times> int) option \<Rightarrow> nat \<times> (nat \<times> int) option" where
  "setup_start backend req action flight =
     (if \<not> is_known_setup_action action then (error_invalid_parameter, flight)
      else if flight \<noteq> None then (error_busy, flight)
      else let status = dispatch_setup backend action
           in if status \<noteq> error_success then (status, flight) else (error_success, Some (req, action)))"

text \<open>The completions are pairs of request and Win32 result; the results offered by the backend are arguments.\<close>

definition setup_collect :: "nat option \<Rightarrow> (nat \<times> int) option \<Rightarrow> (nat \<times> nat) list \<times> (nat \<times> int) option" where
  "setup_collect taken flight =
     (case flight of
        None \<Rightarrow> ([], flight)
      | Some (req, action) \<Rightarrow> (case taken of None \<Rightarrow> ([], flight) | Some result \<Rightarrow> ([(req, result)], None)))"

definition setup_shutdown :: "nat option \<Rightarrow> (nat \<times> int) option \<Rightarrow> (nat \<times> nat) option \<times> (nat \<times> int) option" where
  "setup_shutdown waited flight =
     (case flight of None \<Rightarrow> (None, None) | Some (req, action) \<Rightarrow> (map_option (Pair req) waited, None))"

definition setup_status_of :: "nat \<Rightarrow> ce_status" where
  "setup_status_of result =
     (if result = error_success then CeOk else if result = error_busy then CeBusy
      else if result = error_cancelled then CeCanceled else CeProcess)"

section \<open>The engine thread\<close>

definition complete_command :: "nat \<Rightarrow> ce_status \<Rightarrow> engine_core \<Rightarrow> engine_core" where
  "complete_command req status e = push_event (CommandCompleted req status) e"

text \<open>
  \<open>StartSetup\<close>, with whether the sensor helper exited and the backend's answer.
\<close>

definition start_setup :: "bool \<Rightarrow> nat \<Rightarrow> pending_command \<Rightarrow> engine_core \<Rightarrow> engine_core" where
  "start_setup sensorsExited backend p e =
     (let req = pendingRequest p; action = setupAction (pendingCommand p);
          removesDriver = (action = sensor_driver_uninstall)
      in if \<not> hasSetup e then complete_command req CeUnsupported e
         else if action = sensor_offer_dismiss then complete_command req CeOk e
         else if setupInFlight e \<noteq> None then complete_command req CeBusy e
         else let e = (if removesDriver then e\<lparr>sensorsHeld := True\<rparr> else e)
              in if removesDriver \<and> \<not> sensorsExited
                 then complete_command req CeProcess (e\<lparr>sensorsHeld := False\<rparr>)
                 else case setup_start backend req action (setupInFlight e) of
                        (started, flight) \<Rightarrow>
                          let e = e\<lparr>setupInFlight := flight\<rparr>
                          in if started \<noteq> error_success
                             then complete_command req (setup_status_of started)
                                    (if removesDriver then e\<lparr>sensorsHeld := False\<rparr> else e)
                             else e\<lparr>setupPending := Some req\<rparr>)"

definition finish_setup :: "nat \<Rightarrow> engine_core \<Rightarrow> engine_core" where
  "finish_setup result e =
     (case setupPending e of
        None \<Rightarrow> e
      | Some req \<Rightarrow> complete_command req (setup_status_of result) (e\<lparr>sensorsHeld := False, setupPending := None\<rparr>))"

definition collect_setup :: "nat option \<Rightarrow> engine_core \<Rightarrow> engine_core" where
  "collect_setup taken e =
     (if \<not> hasSetup e \<or> setupPending e = None then e
      else case setup_collect taken (setupInFlight e) of
             (completions, flight) \<Rightarrow> fold (\<lambda>c e. finish_setup (snd c) e) completions (e\<lparr>setupInFlight := flight\<rparr>))"

definition shutdown_setup :: "nat option \<Rightarrow> engine_core \<Rightarrow> engine_core" where
  "shutdown_setup waited e =
     (if \<not> hasSetup e then e
      else case setup_shutdown waited (setupInFlight e) of
             (result, flight) \<Rightarrow>
               let e = e\<lparr>setupInFlight := flight\<rparr>
               in case setupPending e of
                    None \<Rightarrow> e
                  | Some req \<Rightarrow>
                      (case result of
                         Some c \<Rightarrow> finish_setup (snd c) e
                       | None \<Rightarrow> complete_command req CeInvalidState (e\<lparr>sensorsHeld := False, setupPending := None\<rparr>)))"

text \<open>A turn of \<open>ExecutePendingCommands\<close>: the command it takes, and its end with the status of the execution.\<close>

definition take_command :: "engine_core \<Rightarrow> (pending_command \<times> engine_core) option" where
  "take_command e =
     (case queued e of
        [] \<Rightarrow> None
      | p # ps \<Rightarrow> if shutdownRequested e then None else Some (p, e\<lparr>queued := ps\<rparr>))"

definition finish_command :: "pending_command \<Rightarrow> ce_status \<Rightarrow> engine_core \<Rightarrow> engine_core" where
  "finish_command p status e =
     complete_command (pendingRequest p) status
       (if screenshotSlot p then push_event (ScreenshotTaken (pendingRequest p) status) e else e)"

definition set_runtime_state :: "runtime_state \<Rightarrow> engine_core \<Rightarrow> engine_core" where
  "set_runtime_state st e =
     (if runtimeState e = st then e
      else push_event (RuntimeStateChanged st) (e\<lparr>runtimeState := st, statusPublication := statusPublication e + 1\<rparr>))"

text \<open>\<open>FailPendingCommands\<close>: the queue is emptied under the mutex, then each command is completed.\<close>

definition swap_pending :: "engine_core \<Rightarrow> pending_command list \<times> engine_core" where
  "swap_pending e = (queued e, e\<lparr>queued := []\<rparr>)"

definition announce_stopped :: "bool \<Rightarrow> engine_core \<Rightarrow> engine_core" where
  "announce_stopped failed e = (if failed then e else push_event (RuntimeStateChanged RuntimeStopped) e)"

definition mark_stopped :: "engine_core \<Rightarrow> bool \<times> engine_core" where
  "mark_stopped e =
     (if runtimeState e = RuntimeFailed then (True, e)
      else (False, e\<lparr>runtimeState := RuntimeStopped, statusPublication := statusPublication e + 1\<rparr>))"

text \<open>Where the engine thread stands.\<close>

datatype engine_phase = EngineStarting
  | EngineLooping
  | EngineExecuting pending_command
  | EngineLeft
  | EngineStopping
  | EngineFailing "pending_command list"
  | EngineSettled
  | EngineMarked bool
  | EngineStopped

text \<open>\<open>admitted\<close> are the commands submitted with success, in the order of their requests.\<close>

record engine_run =
  core :: engine_core
  engphase :: engine_phase
  admitted :: "command list"

definition engine_init :: "engine_run \<Rightarrow> bool" where
  "engine_init s \<longleftrightarrow> (\<exists>backend. s = \<lparr>core = new_engine backend, engphase = EngineStarting, admitted = []\<rparr>)"

inductive engine_step :: "engine_run \<Rightarrow> engine_run \<Rightarrow> bool" where
  client_submits: "submit_command a b c (core s) = ((status, r), e) \<Longrightarrow>
    engine_step s (s\<lparr>core := e, admitted := admitted s @ (if status = CeOk then [c] else [])\<rparr>)"
| client_requests_shutdown: "engine_step s (s\<lparr>core := request_shutdown (core s)\<rparr>)"
| startup_succeeds: "engphase s = EngineStarting \<Longrightarrow>
    engine_step s (s\<lparr>core := set_runtime_state RuntimeReady (core s), engphase := EngineLooping\<rparr>)"
| startup_fails: "engphase s = EngineStarting \<Longrightarrow>
    engine_step s (s\<lparr>core := set_runtime_state RuntimeFailed (core s), engphase := EngineLeft\<rparr>)"
| command_taken: "engphase s = EngineLooping \<Longrightarrow> take_command (core s) = Some (p, e) \<Longrightarrow>
    engine_step s (s\<lparr>core := (if commandKind (pendingCommand p) = SetupCommand
                              then start_setup sensorsExited backend p e else e),
                     engphase := (if commandKind (pendingCommand p) = SetupCommand then EngineLooping else EngineExecuting p)\<rparr>)"
| command_executed: "engphase s = EngineExecuting p \<Longrightarrow>
    engine_step s (s\<lparr>core := finish_command p status (core s), engphase := EngineLooping\<rparr>)"
| setup_collected: "engphase s = EngineLooping \<Longrightarrow>
    engine_step s (s\<lparr>core := collect_setup taken (core s)\<rparr>)"
| loop_left: "engphase s = EngineLooping \<Longrightarrow> shutdownRequested (core s) \<Longrightarrow>
    engine_step s (s\<lparr>engphase := EngineLeft\<rparr>)"
| stopping_announced: "engphase s = EngineLeft \<Longrightarrow>
    engine_step s (s\<lparr>core := (if runtimeState (core s) = RuntimeFailed then core s
                              else set_runtime_state RuntimeStopping (core s)), engphase := EngineStopping\<rparr>)"
| commands_swapped: "engphase s = EngineStopping \<Longrightarrow> swap_pending (core s) = (ps, e) \<Longrightarrow>
    engine_step s (s\<lparr>core := e, engphase := EngineFailing ps\<rparr>)"
| command_failed: "engphase s = EngineFailing (p # ps) \<Longrightarrow>
    engine_step s (s\<lparr>core := finish_command p CeInvalidState (core s), engphase := EngineFailing ps\<rparr>)"
| setup_shut_down: "engphase s = EngineFailing [] \<Longrightarrow>
    engine_step s (s\<lparr>core := shutdown_setup waited (core s), engphase := EngineSettled\<rparr>)"
| stop_marked: "engphase s = EngineSettled \<Longrightarrow> mark_stopped (core s) = (failed, e) \<Longrightarrow>
    engine_step s (s\<lparr>core := e, engphase := EngineMarked failed\<rparr>)"
| stop_announced: "engphase s = EngineMarked failed \<Longrightarrow>
    engine_step s (s\<lparr>core := announce_stopped failed (core s), engphase := EngineStopped\<rparr>)"

section \<open>The requests\<close>

fun completions :: "engine_event list \<Rightarrow> nat list" where
  "completions [] = []"
| "completions (CommandCompleted r st # es) = r # completions es"
| "completions (e # es) = completions es"

fun shots :: "engine_event list \<Rightarrow> nat list" where
  "shots [] = []"
| "shots (ScreenshotTaken r st # es) = r # shots es"
| "shots (e # es) = shots es"

fun announced_states :: "engine_event list \<Rightarrow> runtime_state list" where
  "announced_states [] = []"
| "announced_states (RuntimeStateChanged st # es) = st # announced_states es"
| "announced_states (e # es) = announced_states es"

lemma event_views_append [simp]:
  "completions (es @ fs) = completions es @ completions fs" "shots (es @ fs) = shots es @ shots fs"
  "announced_states (es @ fs) = announced_states es @ announced_states fs"
  by (induction es rule: completions.induct; simp)+

text \<open>What an operation does to the events, seen through the three views.\<close>

definition pushes :: "engine_core \<Rightarrow> engine_core \<Rightarrow> nat list \<Rightarrow> nat list \<Rightarrow> runtime_state list \<Rightarrow> bool" where
  "pushes e e' cs ss sts \<longleftrightarrow> completions (engineEvents e') = completions (engineEvents e) @ cs \<and>
     shots (engineEvents e') = shots (engineEvents e) @ ss \<and> announced_states (engineEvents e') = announced_states (engineEvents e) @ sts \<and>
     nextRequest e' = nextRequest e \<and> shutdownRequested e' = shutdownRequested e \<and> hasSetup e' = hasSetup e"

text \<open>The setup state: a pending request exactly while an action is in flight, sensors held only by a removal.\<close>

definition setup_ok :: "engine_core \<Rightarrow> bool" where
  "setup_ok e \<longleftrightarrow> setupPending e = map_option fst (setupInFlight e) \<and> (setupInFlight e \<noteq> None \<longrightarrow> hasSetup e) \<and>
     (sensorsHeld e \<longrightarrow> (\<exists>r. setupInFlight e = Some (r, sensor_driver_uninstall)))"

definition pending_setup :: "engine_core \<Rightarrow> nat list" where
  "pending_setup e = (case setupPending e of None \<Rightarrow> [] | Some r \<Rightarrow> [r])"

lemma finish_command_pushes:
  "pushes e (finish_command p st e) [pendingRequest p] (if screenshotSlot p then [pendingRequest p] else []) []"
  "setup_ok (finish_command p st e) = setup_ok e" "pending_setup (finish_command p st e) = pending_setup e"
  "queued (finish_command p st e) = queued e" "runtimeState (finish_command p st e) = runtimeState e"
  by (simp_all add: finish_command_def complete_command_def push_event_def pushes_def setup_ok_def pending_setup_def)

lemmas setup_defs = complete_command_def push_event_def pushes_def setup_ok_def pending_setup_def

lemma start_setup_pushes:
  assumes "setup_ok e" "e' = start_setup exited backend p e"
  shows "setup_ok e' \<and> queued e' = queued e \<and> runtimeState e' = runtimeState e \<and>
    (pushes e e' [pendingRequest p] [] [] \<and> pending_setup e' = pending_setup e \<or>
     pushes e e' [] [] [] \<and> pending_setup e = [] \<and> pending_setup e' = [pendingRequest p])"
proof -
  let ?a = "setupAction (pendingCommand p)" and ?r = "pendingRequest p"
  show ?thesis
  proof (cases "hasSetup e \<and> ?a \<noteq> sensor_offer_dismiss \<and> setupInFlight e = None")
    case False
    then obtain st where "e' = complete_command ?r st e"
      using assms(2) by (cases "hasSetup e"; cases "?a = sensor_offer_dismiss") (auto simp: start_setup_def Let_def)
    then show ?thesis using assms(1) by (simp add: setup_defs)
  next
    case True
    then have idle: "setupPending e = None" "\<not> sensorsHeld e" using assms(1) by (auto simp: setup_ok_def)
    show ?thesis
    proof (cases "?a = sensor_driver_uninstall \<and> \<not> exited")
      case uninstall: True
      then have "e' = complete_command ?r CeProcess (e\<lparr>sensorsHeld := False\<rparr>)"
        using True assms(2) by (simp add: start_setup_def Let_def)
      then show ?thesis using True idle by (simp add: setup_defs)
    next
      case False
      have started: "setup_start backend ?r ?a None = (error_success, Some (?r, ?a)) \<or>
          (\<exists>w. w \<noteq> error_success \<and> setup_start backend ?r ?a None = (w, None))"
        by (auto simp: setup_start_def Let_def error_invalid_parameter_def error_success_def)
      show ?thesis using started
      proof
        assume "setup_start backend ?r ?a None = (error_success, Some (?r, ?a))"
        then have "e' = e\<lparr>sensorsHeld := (?a = sensor_driver_uninstall), setupInFlight := Some (?r, ?a), setupPending := Some ?r\<rparr>"
          using True False assms(2) idle by (auto simp: start_setup_def Let_def)
        then show ?thesis using True idle by (simp add: setup_defs)
      next
        assume "\<exists>w. w \<noteq> error_success \<and> setup_start backend ?r ?a None = (w, None)"
        then obtain w where w: "w \<noteq> error_success" "setup_start backend ?r ?a None = (w, None)" by blast
        then have "e' = complete_command ?r (setup_status_of w) (e\<lparr>sensorsHeld := False, setupInFlight := None\<rparr>)"
          using True False assms(2) idle by (auto simp: start_setup_def Let_def complete_command_def push_event_def)
        then show ?thesis using True idle by (simp add: setup_defs)
      qed
    qed
  qed
qed

lemma collect_setup_pushes:
  assumes "setup_ok e" "e' = collect_setup taken e"
  shows "setup_ok e' \<and> queued e' = queued e \<and> runtimeState e' = runtimeState e \<and>
    (\<exists>cs. pushes e e' cs [] [] \<and> pending_setup e = cs @ pending_setup e')"
  using assms(1) unfolding assms(2)
  by (auto simp: collect_setup_def setup_collect_def finish_setup_def setup_defs Let_def split: option.splits if_splits)

lemma shutdown_setup_pushes:
  assumes "setup_ok e" "e' = shutdown_setup waited e"
  shows "setup_ok e' \<and> queued e' = queued e \<and> runtimeState e' = runtimeState e \<and> pending_setup e' = [] \<and>
    pushes e e' (pending_setup e) [] []"
  using assms(1) unfolding assms(2)
  by (auto simp: shutdown_setup_def setup_shutdown_def finish_setup_def setup_defs Let_def split: option.splits if_splits)

section \<open>The invariant\<close>

text \<open>The commands the engine thread holds, and all that await their completion.\<close>

fun held_commands :: "engine_phase \<Rightarrow> pending_command list" where
  "held_commands (EngineExecuting p) = [p]"
| "held_commands (EngineFailing ps) = ps"
| "held_commands _ = []"

definition awaiting :: "engine_run \<Rightarrow> pending_command list" where
  "awaiting s = held_commands (engphase s) @ queued (core s)"

definition kind_of :: "command list \<Rightarrow> nat \<Rightarrow> command_kind" where
  "kind_of cs r = commandKind (cs ! (r - 1))"

definition immediate :: "command list \<Rightarrow> nat \<Rightarrow> bool" where
  "immediate cs r \<longleftrightarrow> kind_of cs r \<noteq> SetupCommand"

definition command_ok :: "command list \<Rightarrow> pending_command \<Rightarrow> bool" where
  "command_ok cs p \<longleftrightarrow> pendingCommand p = cs ! (pendingRequest p - 1) \<and>
     (screenshotSlot p \<longleftrightarrow> kind_of cs (pendingRequest p) = TakeScreenshot)"

text \<open>
  The account of the requests over the completions \<open>C\<close>, the commands awaiting theirs \<open>P\<close> and the setup
  request in flight \<open>S\<close>.
\<close>

definition requests_ok :: "command list \<Rightarrow> nat list \<Rightarrow> pending_command list \<Rightarrow> nat list \<Rightarrow> nat list \<Rightarrow> bool" where
  "requests_ok cs C P S ss \<longleftrightarrow>
     mset (C @ map pendingRequest P @ S) = mset [1..<Suc (length cs)] \<and>
     (\<forall>p\<in>set P. command_ok cs p) \<and> (\<forall>r\<in>set S. kind_of cs r = SetupCommand) \<and>
     sorted (filter (immediate cs) (C @ map pendingRequest P)) \<and>
     ss = filter (\<lambda>r. kind_of cs r = TakeScreenshot) C"

text \<open>What the phase says of the runtime state, and the states announced so far.\<close>

definition stop_states :: "runtime_state \<Rightarrow> runtime_state list" where
  "stop_states st = (if st = RuntimeFailed then [RuntimeFailed] else [RuntimeReady, RuntimeStopping])"

fun phase_ok :: "engine_phase \<Rightarrow> engine_core \<Rightarrow> bool" where
  "phase_ok EngineStarting e \<longleftrightarrow> runtimeState e = RuntimeStarting \<and> queued e = [] \<and> announced_states (engineEvents e) = []"
| "phase_ok EngineLooping e \<longleftrightarrow> runtimeState e = RuntimeReady \<and> announced_states (engineEvents e) = [RuntimeReady]"
| "phase_ok (EngineExecuting p) e \<longleftrightarrow> runtimeState e = RuntimeReady \<and> announced_states (engineEvents e) = [RuntimeReady]"
| "phase_ok EngineLeft e \<longleftrightarrow>
     (if shutdownRequested e \<and> runtimeState e = RuntimeReady then announced_states (engineEvents e) = [RuntimeReady]
      else runtimeState e = RuntimeFailed \<and> queued e = [] \<and> announced_states (engineEvents e) = [RuntimeFailed])"
| "phase_ok EngineStopping e \<longleftrightarrow> announced_states (engineEvents e) = stop_states (runtimeState e) \<and>
     runtimeState e \<in> {RuntimeFailed, RuntimeStopping}"
| "phase_ok (EngineFailing ps) e \<longleftrightarrow> announced_states (engineEvents e) = stop_states (runtimeState e) \<and>
     runtimeState e \<in> {RuntimeFailed, RuntimeStopping} \<and> queued e = []"
| "phase_ok EngineSettled e \<longleftrightarrow> announced_states (engineEvents e) = stop_states (runtimeState e) \<and>
     runtimeState e \<in> {RuntimeFailed, RuntimeStopping} \<and> queued e = [] \<and> setupPending e = None"
| "phase_ok (EngineMarked failed) e \<longleftrightarrow> announced_states (engineEvents e) = stop_states (runtimeState e) \<and>
     runtimeState e = (if failed then RuntimeFailed else RuntimeStopped) \<and> queued e = [] \<and> setupPending e = None"
| "phase_ok EngineStopped e \<longleftrightarrow> runtimeState e \<in> {RuntimeFailed, RuntimeStopped} \<and> queued e = [] \<and>
     setupPending e = None \<and> announced_states (engineEvents e) =
       (if runtimeState e = RuntimeFailed then [RuntimeFailed] else [RuntimeReady, RuntimeStopping, RuntimeStopped])"

definition engine_ok :: "engine_run \<Rightarrow> bool" where
  "engine_ok s \<longleftrightarrow> (let e = core s in
     nextRequest e = length (admitted s) \<and> setup_ok e \<and> phase_ok (engphase s) e \<and>
     requests_ok (admitted s) (completions (engineEvents e)) (awaiting s) (pending_setup e) (shots (engineEvents e)))"

text \<open>How the account moves.\<close>

lemma requests_ok_range:
  assumes "requests_ok cs C P S ss" "r \<in> set C \<union> pendingRequest ` set P \<union> set S"
  shows "1 \<le> r \<and> r \<le> length cs"
proof -
  have "r \<in># mset (C @ map pendingRequest P @ S)" using assms(2) by auto
  also have "mset (C @ map pendingRequest P @ S) = mset [1..<Suc (length cs)]" using assms(1) by (simp add: requests_ok_def)
  finally show ?thesis by auto
qed

lemma requests_ok_complete:
  assumes "requests_ok cs C (p # P) S ss"
  shows "requests_ok cs (C @ [pendingRequest p]) P S (ss @ (if screenshotSlot p then [pendingRequest p] else []))"
  using assms by (auto simp: requests_ok_def command_ok_def)

lemma requests_ok_to_setup:
  assumes "requests_ok cs C (p # P) [] ss" "commandKind (pendingCommand p) = SetupCommand"
  shows "requests_ok cs C P [pendingRequest p] ss"
proof -
  have "kind_of cs (pendingRequest p) = SetupCommand" using assms by (simp add: requests_ok_def command_ok_def kind_of_def)
  then show ?thesis using assms by (auto simp: requests_ok_def immediate_def)
qed

lemma requests_ok_setup_done:
  assumes "requests_ok cs C P (S @ T) ss"
  shows "requests_ok cs (C @ S) P T ss"
  using assms by (auto simp: requests_ok_def immediate_def ac_simps filter_empty_conv)

lemma requests_ok_submit:
  assumes "requests_ok cs C P S ss" "pendingRequest p = Suc (length cs)" "pendingCommand p = c"
    "screenshotSlot p = (commandKind c = TakeScreenshot)"
  shows "requests_ok (cs @ [c]) C (P @ [p]) S ss"
proof -
  note range = requests_ok_range [OF assms(1)]
  have kind: "kind_of (cs @ [c]) r = kind_of cs r" if "r \<in> set C \<union> pendingRequest ` set P \<union> set S" for r
    using range [OF that] by (auto simp: kind_of_def nth_append)
  have pend: "command_ok (cs @ [c]) q = command_ok cs q" if "q \<in> set P" for q
    using range [of "pendingRequest q"] that by (auto simp: command_ok_def kind_of_def nth_append)
  have C: "filter (immediate (cs @ [c])) xs = filter (immediate cs) xs"
    "filter (\<lambda>r. kind_of (cs @ [c]) r = TakeScreenshot) xs = filter (\<lambda>r. kind_of cs r = TakeScreenshot) xs"
    if "set xs \<subseteq> set C \<union> pendingRequest ` set P" for xs
  proof -
    have same: "kind_of (cs @ [c]) x = kind_of cs x" if "x \<in> set xs" for x
      using kind \<open>set xs \<subseteq> _\<close> that by blast
    show "filter (immediate (cs @ [c])) xs = filter (immediate cs) xs"
      "filter (\<lambda>r. kind_of (cs @ [c]) r = TakeScreenshot) xs = filter (\<lambda>r. kind_of cs r = TakeScreenshot) xs"
      by (rule filter_cong; simp add: same immediate_def)+
  qed
  have new: "command_ok (cs @ [c]) p" "kind_of (cs @ [c]) (Suc (length cs)) = commandKind c"
    using assms(2-4) by (simp_all add: command_ok_def kind_of_def)
  have le: "r \<le> Suc (length cs)" if "r \<in> set C \<union> pendingRequest ` set P" for r using range [of r] that by auto
  have "sorted (filter (immediate cs) (C @ map pendingRequest P) @ filter (immediate (cs @ [c])) [Suc (length cs)])"
    using assms(1) le by (auto simp: requests_ok_def sorted_append)
  then have "sorted (filter (immediate (cs @ [c])) (C @ map pendingRequest (P @ [p])))"
  proof -
    assume sorted: "sorted (filter (immediate cs) (C @ map pendingRequest P) @ filter (immediate (cs @ [c])) [Suc (length cs)])"
    have "filter (immediate (cs @ [c])) (C @ map pendingRequest P) = filter (immediate cs) (C @ map pendingRequest P)"
      by (rule C(1)) auto
    then show ?thesis using sorted assms(2) by (metis append.assoc filter_append list.map(1,2) map_append)
  qed
  then show ?thesis
    using assms(1) new(1) kind pend C(2) [of C] assms(2) unfolding requests_ok_def by (simp add: ac_simps)
qed

lemma submit_command_cases:
  assumes "submit_command a b c e = ((st, r), e')"
  obtains "st \<noteq> CeOk" "e' = e"
  | "st = CeOk" "\<not> shutdownRequested e" "runtimeState e = RuntimeReady" "r = nextRequest e + 1"
    "e' = e\<lparr>nextRequest := r, queued := queued e @
       [\<lparr>pendingRequest = r, pendingCommand = c, screenshotSlot = (commandKind c = TakeScreenshot)\<rparr>]\<rparr>"
proof -
  let ?p = "\<lparr>pendingRequest = nextRequest e + 1, pendingCommand = c, screenshotSlot = (commandKind c = TakeScreenshot)\<rparr>"
  have "(\<exists>st\<in>{CeInvalidArgument, CeInvalidState, CeNoMemory}. submit_command a b c e = ((st, 0), e)) \<or>
      \<not> shutdownRequested e \<and> runtimeState e = RuntimeReady \<and>
      submit_command a b c e = ((CeOk, nextRequest e + 1), e\<lparr>nextRequest := nextRequest e + 1, queued := queued e @ [?p]\<rparr>)"
    unfolding submit_command_def Let_def by simp
  then show ?thesis using assms that by auto
qed

lemma engine_ok_init: "engine_init s \<Longrightarrow> engine_ok s"
  by (auto simp: engine_init_def engine_ok_def new_engine_def setup_ok_def requests_ok_def awaiting_def pending_setup_def Let_def)

lemma engine_okD:
  assumes "engine_ok s"
  shows "nextRequest (core s) = length (admitted s)" "setup_ok (core s)" "phase_ok (engphase s) (core s)"
    "requests_ok (admitted s) (completions (engineEvents (core s))) (awaiting s) (pending_setup (core s))
       (shots (engineEvents (core s)))"
  using assms by (simp_all add: engine_ok_def Let_def)

lemma engine_ok_submit:
  assumes "engine_ok s" "submit_command a b c (core s) = ((st, r), e)"
  shows "engine_ok (s\<lparr>core := e, admitted := admitted s @ (if st = CeOk then [c] else [])\<rparr>)"
  using assms(2)
proof (cases rule: submit_command_cases)
  case 1
  then show ?thesis using assms(1) by simp
next
  case 2
  note ok = engine_okD [OF assms(1)]
  have phase: "engphase s = EngineLooping \<or> (\<exists>p. engphase s = EngineExecuting p)"
    using ok(3) 2(2,3) by (cases "engphase s") (auto split: if_splits)
  let ?p = "\<lparr>pendingRequest = r, pendingCommand = c, screenshotSlot = (commandKind c = TakeScreenshot)\<rparr>"
  have "requests_ok (admitted s @ [c]) (completions (engineEvents (core s))) (awaiting s @ [?p]) (pending_setup (core s))
      (shots (engineEvents (core s)))"
    by (rule requests_ok_submit [OF ok(4)]) (simp_all add: 2(4) ok(1))
  then show ?thesis using ok phase 2(1,4)
    by (auto simp: engine_ok_def 2(5) setup_ok_def pending_setup_def awaiting_def Let_def)
qed

text \<open>Steps of the engine thread that keep the admitted commands.\<close>

lemma engine_okI:
  assumes "engine_ok s" "pushes (core s) e cs ss sts" "setup_ok e" "phase_ok ph e"
    and "requests_ok (admitted s) (completions (engineEvents (core s)) @ cs) (held_commands ph @ queued e) (pending_setup e)
      (shots (engineEvents (core s)) @ ss)"
  shows "engine_ok (s\<lparr>core := e, engphase := ph\<rparr>)"
  using assms by (simp add: engine_ok_def pushes_def awaiting_def Let_def)

lemma set_runtime_state_pushes:
  assumes "runtimeState e \<noteq> st"
  shows "pushes e (set_runtime_state st e) [] [] [st]" "setup_ok (set_runtime_state st e) = setup_ok e"
    "queued (set_runtime_state st e) = queued e" "pending_setup (set_runtime_state st e) = pending_setup e"
    "runtimeState (set_runtime_state st e) = st"
    "announced_states (engineEvents (set_runtime_state st e)) = announced_states (engineEvents e) @ [st]"
  using assms by (simp_all add: set_runtime_state_def setup_defs)

lemma pushes_refl: "pushes e e [] [] []" by (simp add: pushes_def)

lemma engine_ok_step: "engine_step s t \<Longrightarrow> engine_ok s \<Longrightarrow> engine_ok t"
proof (induction rule: engine_step.induct)
  case (client_submits a b c s status r e)
  then show ?case by (intro engine_ok_submit)
next
  case (client_requests_shutdown s)
  note ok = engine_okD [OF this]
  have "phase_ok (engphase s) (request_shutdown (core s))"
    using ok(3) by (cases "engphase s") (auto simp: request_shutdown_def split: if_splits)
  then show ?case using ok
    by (simp add: engine_ok_def request_shutdown_def setup_ok_def pending_setup_def awaiting_def Let_def)
next
  case (startup_succeeds s)
  note ok = engine_okD [OF startup_succeeds(2)]
  have st: "runtimeState (core s) \<noteq> RuntimeReady" using ok(3) startup_succeeds(1) by simp
  show ?case using ok startup_succeeds(1)
    by (intro engine_okI [OF startup_succeeds(2) set_runtime_state_pushes(1) [OF st]])
      (simp_all add: set_runtime_state_pushes [OF st] awaiting_def)
next
  case (startup_fails s)
  note ok = engine_okD [OF startup_fails(2)]
  have st: "runtimeState (core s) \<noteq> RuntimeFailed" using ok(3) startup_fails(1) by simp
  show ?case using ok startup_fails(1)
    by (intro engine_okI [OF startup_fails(2) set_runtime_state_pushes(1) [OF st]])
      (simp_all add: set_runtime_state_pushes [OF st] awaiting_def)
next
  case (command_taken s p e sensorsExited backend)
  note ok = engine_okD [OF command_taken(3)]
  have e: "queued (core s) = p # queued e" "e = (core s)\<lparr>queued := queued e\<rparr>"
    using command_taken(2) by (auto simp: take_command_def split: list.splits if_splits)
  have req: "requests_ok (admitted s) (completions (engineEvents (core s))) (p # queued e) (pending_setup (core s))
      (shots (engineEvents (core s)))" using ok(4) e(1) command_taken(1) by (simp add: awaiting_def)
  have views: "pushes (core s) e [] [] []" "setup_ok e" "pending_setup e = pending_setup (core s)" "runtimeState e = runtimeState (core s)"
    "engineEvents e = engineEvents (core s)"
    using ok(2) by (subst e(2), simp add: setup_defs)+
  show ?case
  proof (cases "commandKind (pendingCommand p) = SetupCommand")
    case True
    obtain f where f: "f = start_setup sensorsExited backend p e" by blast
    note pushed = start_setup_pushes [OF views(2) f]
    have shot: "\<not> screenshotSlot p" using req True by (simp add: requests_ok_def command_ok_def kind_of_def)
    show ?thesis
    proof (cases "pushes e f [pendingRequest p] [] [] \<and> pending_setup f = pending_setup e")
      case fin: True
      show ?thesis using True requests_ok_complete [OF req] shot pushed fin views ok(3) command_taken(1,3)
        by (auto simp: f [symmetric] pushes_def intro!: engine_okI [where cs = "[pendingRequest p]" and ss = "[]" and sts = "[]"])
    next
      case False
      then have started: "pushes e f [] [] []" "pending_setup e = []" "pending_setup f = [pendingRequest p]" using pushed by blast+
      have "requests_ok (admitted s) (completions (engineEvents (core s))) (queued f) (pending_setup f) (shots (engineEvents (core s)))"
        using requests_ok_to_setup [OF _ True] req started pushed views(3) by simp
      then show ?thesis using True pushed started views ok(3) command_taken(1,3)
        by (auto simp: f [symmetric] pushes_def intro!: engine_okI [where cs = "[]" and ss = "[]" and sts = "[]"])
    qed
  next
    case False
    then show ?thesis using req views ok(3) command_taken(1,3)
      by (auto simp: pushes_def intro!: engine_okI [where cs = "[]" and ss = "[]" and sts = "[]"])
  qed
next
  case (command_executed s p status)
  note ok = engine_okD [OF command_executed(2)]
  have "requests_ok (admitted s) (completions (engineEvents (core s))) (p # queued (core s)) (pending_setup (core s))
      (shots (engineEvents (core s)))" using ok(4) command_executed(1) by (simp add: awaiting_def)
  from requests_ok_complete [OF this] show ?case
    using engine_okI [OF command_executed(2) finish_command_pushes(1)] ok(2,3) command_executed(1) finish_command_pushes(1) [of "core s" p status]
    by (simp add: finish_command_pushes(2-5) pushes_def)
next
  case (setup_collected s taken)
  note ok = engine_okD [OF setup_collected(2)]
  obtain f where f: "f = collect_setup taken (core s)" by blast
  obtain cs where cs: "setup_ok f" "queued f = queued (core s)" "runtimeState f = runtimeState (core s)"
    "pushes (core s) f cs [] []" "pending_setup (core s) = cs @ pending_setup f"
    using collect_setup_pushes [OF ok(2) f] by blast
  have "requests_ok (admitted s) (completions (engineEvents (core s)) @ cs) (queued f) (pending_setup f) (shots (engineEvents (core s)))"
    using requests_ok_setup_done [of "admitted s" _ _ cs] ok(4) cs(2,5) setup_collected(1) by (simp add: awaiting_def)
  then have "engine_ok (s\<lparr>core := f, engphase := EngineLooping\<rparr>)"
    using engine_okI [OF setup_collected(2) cs(4,1), of EngineLooping] ok(3) setup_collected(1) cs(3,4) by (simp add: pushes_def)
  moreover have "s\<lparr>core := f, engphase := EngineLooping\<rparr> = s\<lparr>core := f\<rparr>" using setup_collected(1) by (cases s) simp
  ultimately show ?case by (simp add: f [symmetric])
next
  case (loop_left s)
  note ok = engine_okD [OF loop_left(3)]
  have "engine_ok (s\<lparr>core := core s, engphase := EngineLeft\<rparr>)"
    using ok loop_left(1,2) by (intro engine_okI [OF loop_left(3) pushes_refl]) (simp_all add: awaiting_def)
  then show ?case by simp
next
  case (stopping_announced s)
  note ok = engine_okD [OF stopping_announced(2)]
  show ?case
  proof (cases "runtimeState (core s) = RuntimeFailed")
    case True
    then have "engine_ok (s\<lparr>core := core s, engphase := EngineStopping\<rparr>)"
      using ok stopping_announced(1) by (intro engine_okI [OF stopping_announced(2) pushes_refl]) (simp_all add: awaiting_def stop_states_def)
    then show ?thesis using True by simp
  next
    case False
    then have ready: "runtimeState (core s) = RuntimeReady" "announced_states (engineEvents (core s)) = [RuntimeReady]"
      using ok(3) stopping_announced(1) by (auto split: if_splits)
    then have st: "runtimeState (core s) \<noteq> RuntimeStopping" by simp
    have "engine_ok (s\<lparr>core := set_runtime_state RuntimeStopping (core s), engphase := EngineStopping\<rparr>)"
      using ok stopping_announced(1) ready
      by (intro engine_okI [OF stopping_announced(2) set_runtime_state_pushes(1) [OF st]])
        (simp_all add: set_runtime_state_pushes [OF st] awaiting_def stop_states_def)
    then show ?thesis using False by simp
  qed
next
  case (commands_swapped s ps e)
  note ok = engine_okD [OF commands_swapped(3)]
  have e: "ps = queued (core s)" "e = (core s)\<lparr>queued := []\<rparr>" using commands_swapped(2) by (auto simp: swap_pending_def)
  show ?case using ok commands_swapped(1)
    by (intro engine_okI [OF commands_swapped(3), where cs = "[]" and ss = "[]" and sts = "[]"])
      (simp_all add: e setup_defs awaiting_def)
next
  case (command_failed s p ps)
  note ok = engine_okD [OF command_failed(2)]
  have q: "queued (core s) = []" using ok(3) command_failed(1) by simp
  have "requests_ok (admitted s) (completions (engineEvents (core s))) (p # ps) (pending_setup (core s))
      (shots (engineEvents (core s)))" using ok(4) command_failed(1) q by (simp add: awaiting_def)
  from requests_ok_complete [OF this] show ?case
    using engine_okI [OF command_failed(2) finish_command_pushes(1), of p CeInvalidState "EngineFailing ps"] ok(2,3) command_failed(1) q
      finish_command_pushes(1) [of "core s" p CeInvalidState]
    by (simp add: finish_command_pushes(2-5) pushes_def)
next
  case (setup_shut_down s waited)
  note ok = engine_okD [OF setup_shut_down(2)]
  obtain f where f: "f = shutdown_setup waited (core s)" by blast
  note down = shutdown_setup_pushes [OF ok(2) f]
  have "requests_ok (admitted s) (completions (engineEvents (core s)) @ pending_setup (core s)) [] [] (shots (engineEvents (core s)))"
    using requests_ok_setup_done [of "admitted s" _ _ "pending_setup (core s)" "[]"] ok(3,4) setup_shut_down(1) by (simp add: awaiting_def)
  moreover have "setupPending f = None" using down by (simp add: pending_setup_def split: option.splits)
  ultimately show ?case using down ok(3) setup_shut_down(1)
    by (auto simp: f [symmetric] pushes_def intro!: engine_okI [OF setup_shut_down(2), where cs = "pending_setup (core s)" and ss = "[]" and sts = "[]"])
next
  case (stop_marked s failed e)
  note ok = engine_okD [OF stop_marked(3)]
  have e: "failed = (runtimeState (core s) = RuntimeFailed)"
    "e = (if failed then core s else (core s)\<lparr>runtimeState := RuntimeStopped, statusPublication := statusPublication (core s) + 1\<rparr>)"
    using stop_marked(2) by (auto simp: mark_stopped_def split: if_splits)
  show ?case using ok stop_marked(1)
    by (intro engine_okI [OF stop_marked(3), where cs = "[]" and ss = "[]" and sts = "[]"])
      (auto simp: e setup_defs awaiting_def stop_states_def)
next
  case (stop_announced s failed)
  note ok = engine_okD [OF stop_announced(2)]
  show ?case using ok stop_announced(1)
    by (intro engine_okI [OF stop_announced(2), where cs = "[]" and ss = "[]" and sts = "if failed then [] else [RuntimeStopped]"])
      (auto simp: announce_stopped_def setup_defs awaiting_def stop_states_def split: if_splits)
qed

interpretation engine: invariant_system engine_init engine_step engine_ok
  by unfold_locales (rule engine_ok_init, assumption, rule engine_ok_step)

section \<open>What clients are promised\<close>

text \<open>C36: Every admitted command gets at most one completion at any time and exactly one by the time the engine has
  stopped, whenever clients submit and request the shutdown, whatever the commands do, and also when they never ran;
  a screenshot event accompanies exactly the completions of screenshots, and all commands but the setup actions
  complete in the order of their admission.\<close>

theorem every_command_completes_once:
  assumes "reachable_from engine_init engine_step s" and "completed = completions (engineEvents (core s))"
  shows "distinct completed \<and> set completed \<subseteq> {1..length (admitted s)} \<and>
    (engphase s = EngineStopped \<longrightarrow> set completed = {1..length (admitted s)}) \<and>
    shots (engineEvents (core s)) = filter (\<lambda>r. kind_of (admitted s) r = TakeScreenshot) completed \<and>
    sorted (filter (immediate (admitted s)) completed)"
proof -
  note ok = engine_okD [OF engine.reachable_inv [OF assms(1)], folded assms(2)]
  let ?all = "completed @ map pendingRequest (awaiting s) @ pending_setup (core s)"
  have m: "mset ?all = mset [1..<Suc (length (admitted s))]" using ok(4) by (simp only: requests_ok_def)
  have "distinct ?all" using mset_eq_imp_distinct_iff [OF m] by simp
  moreover have all: "set ?all = {1..length (admitted s)}"
    using mset_eq_setD [OF m] by (simp only: set_upt atLeastLessThanSuc_atLeastAtMost)
  moreover have "?all = completed" if "engphase s = EngineStopped"
    using ok(3) that by (simp add: awaiting_def pending_setup_def)
  moreover have "distinct completed \<and> set completed \<subseteq> set ?all" if "distinct ?all" using that by auto
  moreover have "shots (engineEvents (core s)) = filter (\<lambda>r. kind_of (admitted s) r = TakeScreenshot) completed"
    "sorted (filter (immediate (admitted s)) completed)"
    using ok(4) unfolding requests_ok_def filter_append sorted_append by blast+
  ultimately show ?thesis by metis
qed

lemma phase_ok_announced:
  assumes "phase_ok ph e" "st = runtimeState e" "seen = announced_states (engineEvents e)"
  shows "(st, seen) \<in> {(RuntimeStarting, []), (RuntimeReady, [RuntimeReady]), (RuntimeFailed, [RuntimeFailed]),
      (RuntimeStopping, [RuntimeReady, RuntimeStopping]), (RuntimeStopped, [RuntimeReady, RuntimeStopping]),
      (RuntimeStopped, [RuntimeReady, RuntimeStopping, RuntimeStopped])}"
    and "ph = EngineStopped \<Longrightarrow> (st, seen) \<in> {(RuntimeFailed, [RuntimeFailed]),
      (RuntimeStopped, [RuntimeReady, RuntimeStopping, RuntimeStopped])}"
proof -
  show "(st, seen) \<in> {(RuntimeStarting, []), (RuntimeReady, [RuntimeReady]), (RuntimeFailed, [RuntimeFailed]),
      (RuntimeStopping, [RuntimeReady, RuntimeStopping]), (RuntimeStopped, [RuntimeReady, RuntimeStopping]),
      (RuntimeStopped, [RuntimeReady, RuntimeStopping, RuntimeStopped])}"
    using assms(1) unfolding assms(2,3) by (cases ph) (auto simp: stop_states_def split: if_splits)
  show "(st, seen) \<in> {(RuntimeFailed, [RuntimeFailed]), (RuntimeStopped, [RuntimeReady, RuntimeStopping, RuntimeStopped])}"
    if "ph = EngineStopped"
    using assms(1) that unfolding assms(2,3) by (auto split: if_splits)
qed

text \<open>The runtime announces exactly the states it went through: ready, stopping and stopped in this order, or failed
  alone; the status is never behind an announcement, and once the engine has stopped the last state announced is the
  final one of the status, so a client that sees it may destroy the runtime.\<close>

theorem runtime_announces_lifecycle:
  assumes "reachable_from engine_init engine_step s" and "seen = announced_states (engineEvents (core s))"
  shows "(prefix seen [RuntimeReady, RuntimeStopping, RuntimeStopped] \<or> seen = [RuntimeFailed]) \<and>
    (runtimeState (core s) = last (RuntimeStarting # seen) \<or>
       runtimeState (core s) = RuntimeStopped \<and> seen = [RuntimeReady, RuntimeStopping]) \<and>
    (engphase s = EngineStopped \<longrightarrow> runtimeState (core s) = last seen \<and> last seen \<in> {RuntimeStopped, RuntimeFailed})"
proof -
  note ok = engine_okD(3) [OF engine.reachable_inv [OF assms(1)]]
  note states = phase_ok_announced(1) [OF ok refl assms(2)] and final = phase_ok_announced(2) [OF ok refl assms(2)]
  show ?thesis
  proof (intro conjI impI)
    show "prefix seen [RuntimeReady, RuntimeStopping, RuntimeStopped] \<or> seen = [RuntimeFailed]"
      "runtimeState (core s) = last (RuntimeStarting # seen) \<or>
       runtimeState (core s) = RuntimeStopped \<and> seen = [RuntimeReady, RuntimeStopping]"
      using states by auto
    show "runtimeState (core s) = last seen" "last seen \<in> {RuntimeStopped, RuntimeFailed}" if "engphase s = EngineStopped"
      using final [OF that] by auto
  qed
qed

text \<open>The sensor helper is held stopped only while the removal of its driver is in flight.\<close>

lemma sensors_held_for_removal:
  assumes "reachable_from engine_init engine_step s"
  shows "(sensorsHeld (core s) \<longrightarrow> (\<exists>r. setupInFlight (core s) = Some (r, sensor_driver_uninstall) \<and> setupPending (core s) = Some r)) \<and>
    (engphase s = EngineStopped \<longrightarrow> \<not> sensorsHeld (core s) \<and> setupInFlight (core s) = None)"
  using engine_okD(2,3) [OF engine.reachable_inv [OF assms]] by (auto simp: setup_ok_def)

section \<open>A concrete run\<close>

text \<open>A screenshot is submitted, and the shutdown arrives before the engine takes it.\<close>

definition shot_command :: command where
  "shot_command = \<lparr>commandKind = TakeScreenshot, commandMode = 0, commandText = [], setupAction = 0\<rparr>"

definition run_at :: "engine_phase \<Rightarrow> runtime_state \<Rightarrow> nat \<Rightarrow> pending_command list \<Rightarrow> bool \<Rightarrow> engine_event list \<Rightarrow> engine_run" where
  "run_at ph st pub q down evs = \<lparr>core = (new_engine False)\<lparr>queued := q, runtimeState := st, statusPublication := pub,
     nextRequest := 1, shutdownRequested := down, engineEvents := evs\<rparr>, engphase = ph, admitted = [shot_command]\<rparr>"

definition stopped_run :: engine_run where
  "stopped_run = run_at EngineStopped RuntimeStopped 3 [] True
     [RuntimeStateChanged RuntimeReady, RuntimeStateChanged RuntimeStopping, ScreenshotTaken 1 CeInvalidState,
      CommandCompleted 1 CeInvalidState, RuntimeStateChanged RuntimeStopped]"

lemma stopped_run_reachable: "reachable_from engine_init engine_step stopped_run"
proof -
  note defs = eval_nat_numeral run_at_def new_engine_def set_runtime_state_def push_event_def finish_command_def complete_command_def
  let ?p = "\<lparr>pendingRequest = 1, pendingCommand = shot_command, screenshotSlot = True\<rparr>"
  let ?ev = "[RuntimeStateChanged RuntimeReady]" and ?es = "[RuntimeStateChanged RuntimeReady, RuntimeStateChanged RuntimeStopping]"
  let ?fs = "?es @ [ScreenshotTaken 1 CeInvalidState, CommandCompleted 1 CeInvalidState]"
  let ?s0 = "\<lparr>core = new_engine False, engphase = EngineStarting, admitted = []\<rparr>"
  let ?s1 = "?s0\<lparr>core := set_runtime_state RuntimeReady (new_engine False), engphase := EngineLooping\<rparr>"
  have "reachable_from engine_init engine_step ?s0" by (rule reachable_from.start) (auto simp: engine_init_def)
  moreover have "engine_step ?s0 ?s1" using startup_succeeds [of ?s0] by simp
  ultimately have "reachable_from engine_init engine_step ?s1" by (rule reachable_from.more)
  moreover have "engine_step ?s1 (run_at EngineLooping RuntimeReady 1 [?p] False ?ev)"
    using client_submits [of True True shot_command ?s1 CeOk 1]
    by (simp add: defs submit_command_def shot_command_def is_recording_command_def)
  ultimately have "reachable_from engine_init engine_step (run_at EngineLooping RuntimeReady 1 [?p] False ?ev)"
    by (rule reachable_from.more)
  moreover have "engine_step (run_at EngineLooping RuntimeReady 1 [?p] False ?ev) (run_at EngineLooping RuntimeReady 1 [?p] True ?ev)"
    using client_requests_shutdown [of "run_at EngineLooping RuntimeReady 1 [?p] False ?ev"] by (simp add: defs request_shutdown_def)
  ultimately have "reachable_from engine_init engine_step (run_at EngineLooping RuntimeReady 1 [?p] True ?ev)"
    by (rule reachable_from.more)
  moreover have "engine_step (run_at EngineLooping RuntimeReady 1 [?p] True ?ev) (run_at EngineLeft RuntimeReady 1 [?p] True ?ev)"
    using loop_left [of "run_at EngineLooping RuntimeReady 1 [?p] True ?ev"] by (simp add: defs)
  ultimately have "reachable_from engine_init engine_step (run_at EngineLeft RuntimeReady 1 [?p] True ?ev)"
    by (rule reachable_from.more)
  moreover have "engine_step (run_at EngineLeft RuntimeReady 1 [?p] True ?ev) (run_at EngineStopping RuntimeStopping 2 [?p] True ?es)"
    using stopping_announced [of "run_at EngineLeft RuntimeReady 1 [?p] True ?ev"] by (simp add: defs)
  ultimately have "reachable_from engine_init engine_step (run_at EngineStopping RuntimeStopping 2 [?p] True ?es)"
    by (rule reachable_from.more)
  moreover have "engine_step (run_at EngineStopping RuntimeStopping 2 [?p] True ?es) (run_at (EngineFailing [?p]) RuntimeStopping 2 [] True ?es)"
    using commands_swapped [of "run_at EngineStopping RuntimeStopping 2 [?p] True ?es"] by (simp add: defs swap_pending_def)
  ultimately have "reachable_from engine_init engine_step (run_at (EngineFailing [?p]) RuntimeStopping 2 [] True ?es)"
    by (rule reachable_from.more)
  moreover have "engine_step (run_at (EngineFailing [?p]) RuntimeStopping 2 [] True ?es) (run_at (EngineFailing []) RuntimeStopping 2 [] True ?fs)"
    using command_failed [of "run_at (EngineFailing [?p]) RuntimeStopping 2 [] True ?es" ?p "[]"] by (simp add: defs)
  ultimately have "reachable_from engine_init engine_step (run_at (EngineFailing []) RuntimeStopping 2 [] True ?fs)"
    by (rule reachable_from.more)
  moreover have "engine_step (run_at (EngineFailing []) RuntimeStopping 2 [] True ?fs) (run_at EngineSettled RuntimeStopping 2 [] True ?fs)"
    using setup_shut_down [of "run_at (EngineFailing []) RuntimeStopping 2 [] True ?fs" None] by (simp add: defs shutdown_setup_def)
  ultimately have "reachable_from engine_init engine_step (run_at EngineSettled RuntimeStopping 2 [] True ?fs)"
    by (rule reachable_from.more)
  moreover have "engine_step (run_at EngineSettled RuntimeStopping 2 [] True ?fs) (run_at (EngineMarked False) RuntimeStopped 3 [] True ?fs)"
    using stop_marked [of "run_at EngineSettled RuntimeStopping 2 [] True ?fs" False] by (simp add: defs mark_stopped_def)
  ultimately have "reachable_from engine_init engine_step (run_at (EngineMarked False) RuntimeStopped 3 [] True ?fs)"
    by (rule reachable_from.more)
  moreover have "engine_step (run_at (EngineMarked False) RuntimeStopped 3 [] True ?fs) stopped_run"
    using stop_announced [of "run_at (EngineMarked False) RuntimeStopped 3 [] True ?fs" False]
    by (simp add: defs announce_stopped_def stopped_run_def)
  ultimately show ?thesis by (rule reachable_from.more)
qed

theorem every_command_completes_once_witness: "set (completions (engineEvents (core stopped_run))) = {1}"
proof -
  have "engphase stopped_run = EngineStopped" "length (admitted stopped_run) = 1" by code_simp+
  then show ?thesis using every_command_completes_once [OF stopped_run_reachable refl] by (elim conjE) simp
qed

theorem runtime_announces_lifecycle_witness: "runtimeState (core stopped_run) = RuntimeStopped"
proof -
  have "last (announced_states (engineEvents (core stopped_run))) = RuntimeStopped" "engphase stopped_run = EngineStopped" by code_simp+
  then show ?thesis using runtime_announces_lifecycle [OF stopped_run_reachable refl] by simp
qed

end
