(* ===== verification/EngineReports.thy ===== *)
theory EngineReports
  imports ChildProcesses RecordingSession EngineCommands
begin

text \<open>
  What the engine reports to its clients beside command completions (\<open>src/runtime/core/engine.cpp\<close>,
  \<open>helper_health.h\<close>, the end of \<open>Shutdown\<close> in \<open>engine_lifecycle.cpp\<close>): the end of every recording, on top of
  the supervisor of the helper processes; the transitions of the helpers; the state of the recording and the outcome of the
  recording commands, on top of the recording session.  Whether an event slot could be reserved is an
  argument; message texts other than those of a finalization are left out.
\<close>

section \<open>The end of a recording\<close>

record finalization_text =
  textStatus :: ce_status
  textPath :: octets
  textMessage :: string

definition finalization_outcome :: "resolution \<Rightarrow> finalization_text" where
  "finalization_outcome res =
     (let r = resolved res; text = (\<lambda>st path msg. \<lparr>textStatus = st, textPath = path, textMessage = msg\<rparr>)
      in case result_status r of
           Saved \<Rightarrow>
             if result_flags r AND flag_live_stream \<noteq> 0 then text CeOk [] ''live stream: no file''
             else if result_paths r = [] then text CeOk [] ''output path not reported''
             else text CeOk (hd (result_paths r)) []
         | Canceled \<Rightarrow> text CeOk [] ''canceled''
         | Failed \<Rightarrow> text CeIo [] ''finalization failed''
         | Lost \<Rightarrow> text CeProcess [] ''media helper ended without a result''
         | StatusNone \<Rightarrow> text CeOk [] ''nothing recorded'')"

text \<open>
  The slots taken for requested recordings, the finalizations waiting for one and whether a wait was logged.
  Ghosts are the announcements made (request and text), what was dropped unreported, and whether the engine
  has stopped reporting.
\<close>

record final_book =
  finalSlots :: "u64 set"
  waitingFinal :: "finalized_media list"
  finalHeld :: bool
  announcedFinal :: "(u64 \<times> finalization_text) list"
  droppedFinal :: "finalized_media list"
  bookClosed :: bool

text \<open>\<open>ReserveFinalization\<close>, with the answers the event queue will give; without one left it refuses.\<close>

definition reserve_finalization :: "u64 \<Rightarrow> bool list \<Rightarrow> u64 set \<Rightarrow> bool \<times> bool list \<times> u64 set" where
  "reserve_finalization req answers slots =
     (if req \<in> slots then (True, answers, slots)
      else case answers of
             [] \<Rightarrow> (False, [], slots)
           | a # rest \<Rightarrow> (a, rest, if a then insert req slots else slots))"

text \<open>The loop of \<open>ReportFinalizations\<close> and whether a recovery is to be started.\<close>

fun report_waiting :: "finalized_media list \<Rightarrow> bool list \<Rightarrow> final_book \<Rightarrow> bool \<times> final_book" where
  "report_waiting [] answers b = (False, b\<lparr>waitingFinal := []\<rparr>)"
| "report_waiting (m # ms) answers b =
     (case reserve_finalization (finalRequest m) answers (finalSlots b) of
        (False, rest, slots) \<Rightarrow> (False, b\<lparr>waitingFinal := m # ms, finalSlots := slots, finalHeld := True\<rparr>)
      | (True, rest, slots) \<Rightarrow>
          let text = finalization_outcome (finalResolution m);
              b = b\<lparr>finalHeld := False, announcedFinal := announcedFinal b @ [(finalRequest m, text)],
                    finalSlots := slots - {finalRequest m}\<rparr>
          in case report_waiting ms rest b of (trigger, b) \<Rightarrow> (trigger \<or> textStatus text \<noteq> CeOk, b))"

text \<open>
  \<open>ReportFinalizations\<close> over what it collects from the children, the finalizations still running and the
  session's snapshot.
\<close>

definition report_finalizations ::
  "finalized_media list \<Rightarrow> bool list \<Rightarrow> nat \<Rightarrow> session_snapshot \<Rightarrow> final_book \<Rightarrow> bool \<times> final_book" where
  "report_finalizations collected answers finalizing snap b =
     (case report_waiting (waitingFinal b @ collected) answers b of
        (trigger, b) \<Rightarrow>
          (trigger,
           if waitingFinal b = [] \<and> finalizing = 0
           then b\<lparr>finalSlots := Set.filter (\<lambda>r. requested snap \<and> r = request snap) (finalSlots b)\<rparr>
           else b))"

text \<open>The end of \<open>Shutdown\<close>, after its last \<open>ReportFinalizations\<close>: what has no slot left is dropped.\<close>

definition drop_unreported :: "final_book \<Rightarrow> final_book" where
  "drop_unreported b = b\<lparr>waitingFinal := [], finalSlots := {},
     droppedFinal := droppedFinal b @ waitingFinal b, bookClosed := True\<rparr>"

text \<open>What the loop keeps: the announcements are those of the first finalizations, and a slot goes only with one.\<close>

definition announcement :: "finalized_media \<Rightarrow> u64 \<times> finalization_text" where
  "announcement m = (finalRequest m, finalization_outcome (finalResolution m))"

definition announced_since :: "final_book \<Rightarrow> final_book \<Rightarrow> u64 set" where
  "announced_since b b' = fst ` set (drop (length (announcedFinal b)) (announcedFinal b'))"

lemma report_waiting_account:
  assumes "report_waiting ms answers b = (trigger, b')"
  shows "announcedFinal b' @ map announcement (waitingFinal b') = announcedFinal b @ map announcement ms \<and>
    prefix (announcedFinal b) (announcedFinal b') \<and> finalSlots b \<subseteq> finalSlots b' \<union> announced_since b b' \<and>
    droppedFinal b' = droppedFinal b \<and> bookClosed b' = bookClosed b \<and> (waitingFinal b' \<noteq> [] \<longrightarrow> finalHeld b')"
  using assms
proof (induction ms arbitrary: answers b trigger b')
  case (Cons m ms)
  obtain a rest slots where r: "reserve_finalization (finalRequest m) answers (finalSlots b) = (a, rest, slots)"
    by (cases "reserve_finalization (finalRequest m) answers (finalSlots b)") auto
  have slots: "finalSlots b \<subseteq> slots" using r by (auto simp: reserve_finalization_def split: if_splits list.splits)
  show ?case
  proof (cases a)
    case False
    then show ?thesis using Cons.prems r slots by auto
  next
    case True
    let ?b = "b\<lparr>finalHeld := False, announcedFinal := announcedFinal b @ [announcement m], finalSlots := slots - {finalRequest m}\<rparr>"
    obtain tr where rec: "report_waiting ms rest ?b = (tr, b')"
      using Cons.prems True r by (auto simp: Let_def announcement_def split: prod.splits)
    note ih = Cons.IH [OF rec]
    obtain zs where zs: "announcedFinal b' = announcedFinal b @ announcement m # zs"
      using ih by (auto simp: prefix_def)
    have "announced_since b b' = insert (finalRequest m) (announced_since ?b b')"
      by (simp add: announced_since_def zs announcement_def)
    then show ?thesis using ih slots by (auto simp: zs)
  qed
qed (simp add: announced_since_def)

text \<open>When every reservation is granted, nothing is left waiting.\<close>

lemma report_waiting_granted:
  assumes "report_waiting ms answers b = (trigger, b')" "length ms \<le> length answers" "\<forall>a\<in>set answers. a"
  shows "waitingFinal b' = []"
  using assms
proof (induction ms arbitrary: answers b trigger b')
  case (Cons m ms)
  obtain answers' where a: "answers = True # answers'" "length ms \<le> length answers'" "\<forall>a\<in>set answers'. a"
    using Cons.prems(2,3) by (cases answers) auto
  obtain rest slots where r: "reserve_finalization (finalRequest m) answers (finalSlots b) = (True, rest, slots)"
    "length ms \<le> length rest" "\<forall>a\<in>set rest. a"
  proof (cases "finalRequest m \<in> finalSlots b")
    case True
    then show thesis using that [of answers "finalSlots b"] a by (simp add: reserve_finalization_def)
  next
    case False
    then show thesis using that [of answers' "insert (finalRequest m) (finalSlots b)"] a by (simp add: reserve_finalization_def)
  qed
  then show ?case using Cons.prems(1) Cons.IH [OF _ r(2,3)] by (auto simp: Let_def split: prod.splits)
qed simp

section \<open>From a retired child to its announcement\<close>

record report_system =
  helpers :: child_system
  book :: final_book
  sessionNow :: session_snapshot

definition new_book :: final_book where
  "new_book = \<lparr>finalSlots = {}, waitingFinal = [], finalHeld = False, announcedFinal = [], droppedFinal = [],
     bookClosed = False\<rparr>"

definition report_init :: "report_system \<Rightarrow> bool" where
  "report_init s \<longleftrightarrow> child_init (helpers s) \<and> book s = new_book \<and> sessionNow s = initial_snapshot"

text \<open>
  The supervisor's steps, except that finalizations are taken by the engine alone; the recording session, which may
  change its snapshot in any way; the reservation that \<open>PublishRecordingState\<close> makes for the requested recording;
  \<open>ReportFinalizations\<close>; and its last call in \<open>Shutdown\<close>, after which the engine reports nothing.
\<close>

inductive report_step :: "report_system \<Rightarrow> report_system \<Rightarrow> bool" where
  helpers_move: "child_step (helpers s) h \<Longrightarrow> reportedMedia h = reportedMedia (helpers s) \<Longrightarrow>
    report_step s (s\<lparr>helpers := h\<rparr>)"
| session_moves: "report_step s (s\<lparr>sessionNow := snap\<rparr>)"
| recording_seen: "requested (sessionNow s) \<Longrightarrow>
    reserve_finalization (request (sessionNow s)) [a] (finalSlots (book s)) = (taken, rest, slots) \<Longrightarrow>
    report_step s (s\<lparr>book := (book s)\<lparr>finalSlots := slots\<rparr>\<rparr>)"
| finalizations_reported: "\<not> bookClosed (book s) \<Longrightarrow> collect_finalized_media (host (helpers s)) = (h, ms) \<Longrightarrow>
    report_finalizations ms answers (finalizing_count h) (sessionNow s) (book s) = (trigger, b) \<Longrightarrow>
    report_step s (s\<lparr>helpers := (helpers s)\<lparr>host := h, reportedMedia := reportedMedia (helpers s) @ ms\<rparr>, book := b\<rparr>)"
| engine_stops: "\<not> bookClosed (book s) \<Longrightarrow> collect_finalized_media (host (helpers s)) = (h, ms) \<Longrightarrow>
    report_finalizations ms answers (finalizing_count h) (sessionNow s) (book s) = (trigger, b) \<Longrightarrow>
    report_step s (s\<lparr>helpers := (helpers s)\<lparr>host := h, reportedMedia := reportedMedia (helpers s) @ ms\<rparr>,
      book := drop_unreported b\<rparr>)"

definition report_ok :: "report_system \<Rightarrow> bool" where
  "report_ok s \<longleftrightarrow> child_ok (helpers s) \<and>
     announcedFinal (book s) @ map announcement (droppedFinal (book s) @ waitingFinal (book s))
       = map announcement (reportedMedia (helpers s)) \<and>
     (droppedFinal (book s) \<noteq> [] \<longrightarrow> bookClosed (book s) \<and> finalHeld (book s)) \<and>
     (bookClosed (book s) \<longrightarrow> waitingFinal (book s) = [])"

lemma report_ok_init: "report_init s \<Longrightarrow> report_ok s"
  using child_ok_init by (auto simp: report_init_def report_ok_def child_init_def new_book_def)

lemma report_finalizations_account:
  assumes "report_finalizations ms answers n snap b = (trigger, b')"
  shows "announcedFinal b' @ map announcement (waitingFinal b') = announcedFinal b @ map announcement (waitingFinal b @ ms)"
    and "prefix (announcedFinal b) (announcedFinal b')"
    and "waitingFinal b' \<noteq> [] \<or> n \<noteq> 0 \<Longrightarrow> finalSlots b \<subseteq> finalSlots b' \<union> announced_since b b'"
    and "requested snap \<Longrightarrow> request snap \<in> finalSlots b \<Longrightarrow> request snap \<in> finalSlots b' \<union> announced_since b b'"
    and "droppedFinal b' = droppedFinal b" "bookClosed b' = bookClosed b" "waitingFinal b' \<noteq> [] \<Longrightarrow> finalHeld b'"
proof -
  obtain tr c where c: "report_waiting (waitingFinal b @ ms) answers b = (tr, c)" by fastforce
  have b': "announcedFinal b' = announcedFinal c" "waitingFinal b' = waitingFinal c"
    "droppedFinal b' = droppedFinal c" "bookClosed b' = bookClosed c" "finalHeld b' = finalHeld c"
    "waitingFinal c \<noteq> [] \<or> n \<noteq> 0 \<Longrightarrow> finalSlots b' = finalSlots c"
    "requested snap \<Longrightarrow> request snap \<in> finalSlots c \<Longrightarrow> request snap \<in> finalSlots b'"
    using assms by (auto simp: report_finalizations_def c split: if_splits)
  note acc = report_waiting_account [OF c]
  show "announcedFinal b' @ map announcement (waitingFinal b') = announcedFinal b @ map announcement (waitingFinal b @ ms)"
    "prefix (announcedFinal b) (announcedFinal b')" using acc by (simp_all add: b'(1,2))
  show "finalSlots b \<subseteq> finalSlots b' \<union> announced_since b b'" if "waitingFinal b' \<noteq> [] \<or> n \<noteq> 0"
    using acc b'(6) that by (simp add: b'(1,2) announced_since_def)
  show "request snap \<in> finalSlots b' \<union> announced_since b b'" if "requested snap" "request snap \<in> finalSlots b"
    using acc b'(7) [OF that(1)] that(2) by (auto simp: b'(1) announced_since_def)
  show "droppedFinal b' = droppedFinal b" "bookClosed b' = bookClosed b" "waitingFinal b' \<noteq> [] \<Longrightarrow> finalHeld b'"
    using acc by (simp_all add: b'(2-5))
qed

lemma report_ok_step: "report_step s t \<Longrightarrow> report_ok s \<Longrightarrow> report_ok t"
proof (induction rule: report_step.induct)
  case (helpers_move s h)
  then show ?case using child_ok_step by (simp add: report_ok_def)
next
  case (finalizations_reported s h ms answers trigger b)
  have "child_ok ((helpers s)\<lparr>host := h, reportedMedia := reportedMedia (helpers s) @ ms\<rparr>)"
    using child_ok_taken [OF _ finalizations_reported(2)] finalizations_reported(4) by (simp add: report_ok_def)
  then show ?case using report_finalizations_account [OF finalizations_reported(3)] finalizations_reported(1,4)
    by (auto simp: report_ok_def)
next
  case (engine_stops s h ms answers trigger b)
  have "child_ok ((helpers s)\<lparr>host := h, reportedMedia := reportedMedia (helpers s) @ ms\<rparr>)"
    using child_ok_taken [OF _ engine_stops(2)] engine_stops(4) by (simp add: report_ok_def)
  then show ?case using report_finalizations_account [OF engine_stops(3)] engine_stops(1,4)
    by (auto simp: report_ok_def drop_unreported_def)
qed (simp_all add: report_ok_def)

interpretation reports: invariant_system report_init report_step report_ok
  by unfold_locales (rule report_ok_init, assumption, rule report_ok_step)

text \<open>The supervisor sees only its own steps.\<close>

lemma report_helpers_reachable:
  "reachable_from report_init report_step s \<Longrightarrow> reachable_from child_init child_step (helpers s)"
proof (induction rule: reachable_from.induct)
  case (start s)
  then show ?case by (auto simp: report_init_def intro: reachable_from.start)
next
  case (more s t)
  from more.hyps(2) have "child_step (helpers s) (helpers t) \<or> helpers t = helpers s"
    by cases (auto intro: finalized_taken)
  then show ?case using more.IH by (auto intro: reachable_from.more)
qed

text \<open>The requests whose end is still to be announced: waiting, taken by the supervisor, or with a running child.\<close>

definition owed :: "report_system \<Rightarrow> u64 multiset" where
  "owed s = mset (map finalRequest (waitingFinal (book s))) + account (finalizations (host (helpers s)))"

text \<open>What is to be announced of a closed media child, from its exit alone.\<close>

definition exit_announcement :: "u64 \<times> u32 \<times> finalization_result option \<Rightarrow> u64 \<times> finalization_text" where
  "exit_announcement x = (fst x, finalization_outcome (resolve (fst (snd x)) (snd (snd x))))"

text \<open>C37: The announcements made are those of the first media children closed, in the order of their exits, each with the
  status, path and text that its exit code and its result slot resolve to. Every request a media child was retired for
  is announced once, or is still owed, or was dropped when the engine stopped; nothing is dropped before, and then only
  behind a finalization that the event queue had refused a slot.\<close>

theorem every_recording_end_announced_once:
  assumes "reachable_from report_init report_step s"
  shows "prefix (announcedFinal (book s)) (map exit_announcement (exitLog (helpers s))) \<and>
    mset (retirements (helpers s)) =
      mset (map fst (announcedFinal (book s))) + mset (map finalRequest (droppedFinal (book s))) + owed s \<and>
    (droppedFinal (book s) \<noteq> [] \<longrightarrow> bookClosed (book s) \<and> finalHeld (book s))"
proof -
  note inv = reports.reachable_inv [OF assms, unfolded report_ok_def]
  let ?m = "reportedMedia (helpers s)" and ?b = "book s"
  have ann: "map announcement ?m = announcedFinal ?b @ map announcement (droppedFinal ?b @ waitingFinal ?b)" using inv by simp
  have "map finalRequest ms = map fst (map announcement ms)" for ms by (simp add: announcement_def)
  then have "mset (map finalRequest ?m) = mset (map fst (announcedFinal ?b)) +
      mset (map finalRequest (droppedFinal ?b)) + mset (map finalRequest (waitingFinal ?b))"
    by (simp only: ann map_append mset_append add.assoc)
  then have total: "mset (retirements (helpers s)) =
      mset (map fst (announcedFinal ?b)) + mset (map finalRequest (droppedFinal ?b)) + owed s"
    using child_ok_parts(7) inv by (simp add: owed_def)
  have pairs: "announcement = map_prod id finalization_outcome \<circ> report_of_media"
    "exit_announcement = map_prod id finalization_outcome \<circ> report_of_exit"
    by (simp_all add: fun_eq_iff announcement_def report_of_media_def exit_announcement_def report_of_exit_def)
  have "map report_of_exit (exitLog (helpers s)) =
      map report_of_media ?m @ map report_of_media (finalizedMedia (finalizations (host (helpers s))))"
    using child_exits.reachable_inv [OF report_helpers_reachable [OF assms]] by (simp add: exits_reported_def)
  from arg_cong [OF this, of "map (map_prod id finalization_outcome)"]
  have "prefix (map announcement ?m) (map exit_announcement (exitLog (helpers s)))" by (simp add: pairs)
  then have "prefix (announcedFinal ?b) (map exit_announcement (exitLog (helpers s)))"
    unfolding ann by (rule append_prefixD)
  then show ?thesis using total inv by blast
qed

text \<open>C38: The event slot taken for a recording is not given up while its recording is requested, nor while its end is owed: as
  long as the engine runs, a step after which the recording is still requested or its end still to be announced, and
  which does not announce it, keeps the slot, so the event queue can no longer refuse it. The engine's stop gives up
  all slots.\<close>

theorem slot_kept_until_announced:
  assumes "reachable_from report_init report_step s" and "report_step s t" and "r \<in> finalSlots (book s)"
  shows "if bookClosed (book t) \<and> \<not> bookClosed (book s) then finalSlots (book t) = {}
    else (r \<in># owed t \<or> requested (sessionNow t) \<and> request (sessionNow t) = r) \<and>
         r \<notin> announced_since (book s) (book t) \<longrightarrow> r \<in> finalSlots (book t)"
  using assms(2)
proof cases
  case (finalizations_reported h ms answers trigger b)
  note acc = report_finalizations_account [OF finalizations_reported(4)]
  have "child_ok (helpers t)"
    using reports.reachable_inv [OF reachable_from.more [OF assms(1,2)]] by (simp add: report_ok_def)
  then have ok: "lifecycle_ok (lifecycle h)" "media_ok (lifecycle h) (finalizations h)"
    using child_ok_parts(1,6) [of "helpers t"] finalizations_reported(1) by simp_all
  have "waitingFinal b \<noteq> [] \<or> finalizing_count h \<noteq> 0" if "r \<in># owed t"
  proof (rule ccontr)
    assume "\<not> ?thesis"
    then have none: "waitingFinal b = []" "finalizing_children (lifecycle h) = []"
      using finalizing_count_retired [OF ok] by simp_all
    have "finalizedMedia (finalizations h) = []"
      using finalizations_reported(3) by (auto simp: collect_finalized_media_def take_finalized_def)
    then have "owed t = {#}"
      using none no_retired_requests [OF ok(2)] finalizations_reported(1) by (simp add: owed_def account_def)
    then show False using that by simp
  qed
  then show ?thesis using acc(3,4,6) assms(3) finalizations_reported(1,2) by auto
qed (use assms(3) in \<open>auto simp: reserve_finalization_def drop_unreported_def split: if_splits\<close>)

section \<open>The transitions of a helper\<close>

datatype helper_health = HelperDown | HelperUp | HelperLost
datatype helper_event = HelperReady | HelperIsLost | HelperRecovered

definition step_helper :: "helper_health \<Rightarrow> bool \<Rightarrow> bool \<Rightarrow> helper_health \<times> helper_event option" where
  "step_helper health ready wanted =
     (if ready
      then if health = HelperUp then (HelperUp, None)
           else (HelperUp, Some (if health = HelperLost then HelperRecovered else HelperReady))
      else if \<not> wanted then (HelperDown, None)
      else if health = HelperUp then (HelperLost, Some HelperIsLost)
      else (health, None))"

text \<open>\<open>ReportHelperLost\<close>, for an auxiliary helper that did not start.\<close>

definition report_helper_lost :: "helper_health \<Rightarrow> helper_health \<times> helper_event option" where
  "report_helper_lost health = (if health = HelperLost then (health, None) else (HelperLost, Some HelperIsLost))"

text \<open>\<open>ReportHelpers\<close> steps the four helpers in order; a tick is what it sees of one: ready and wanted.\<close>

definition helper_order :: "child_role list" where
  "helper_order = [RoleInject, RoleMedia, RoleLogger, RoleSensors]"

definition report_helpers ::
  "(child_role \<Rightarrow> bool) \<Rightarrow> (child_role \<Rightarrow> bool) \<Rightarrow> (child_role \<Rightarrow> helper_health)
     \<Rightarrow> (child_role \<Rightarrow> helper_health) \<times> (child_role \<times> helper_event) list" where
  "report_helpers ready wanted healths =
     fold (\<lambda>c (hs, evs). case step_helper (hs c) (ready c) (wanted c) of
             (h, ev) \<Rightarrow> (hs(c := h), evs @ (case ev of None \<Rightarrow> [] | Some e \<Rightarrow> [(c, e)])))
       helper_order (healths, [])"

fun run_helper :: "helper_health \<Rightarrow> (bool \<times> bool) list \<Rightarrow> helper_health" where
  "run_helper h [] = h"
| "run_helper h ((ready, wanted) # ts) = run_helper (fst (step_helper h ready wanted)) ts"

lemma run_helper_append [simp]: "run_helper h (ts @ us) = run_helper (run_helper h ts) us"
  by (induction h ts rule: run_helper.induct) simp_all

text \<open>
  The same without a state, from the history of a helper alone, newest tick first: it is up when it
  was just ready, and lost when the ticks since it was last there all wanted it.
\<close>

definition missed :: "(bool \<times> bool) list \<Rightarrow> (bool \<times> bool) list" where
  "missed history = takeWhile (\<lambda>t. \<not> fst t) history"

definition history_health :: "helper_health \<Rightarrow> (bool \<times> bool) list \<Rightarrow> helper_health" where
  "history_health start history =
     (if missed history = [] then (case history of [] \<Rightarrow> start | _ \<Rightarrow> HelperUp)
      else if list_all snd (missed history) \<and> (list_ex fst history \<or> start \<noteq> HelperDown) then HelperLost
      else HelperDown)"

lemma run_helper_history: "run_helper start (rev history) = history_health start history"
proof (induction history)
  case (Cons t ts)
  obtain ready wanted where t: "t = (ready, wanted)" by (cases t)
  have "list_ex fst ts \<longleftrightarrow> missed ts \<noteq> ts"
    by (auto simp: missed_def takeWhile_eq_all_conv list_ex_iff)
  then show ?case using Cons.IH
    by (cases ts; cases start) (auto simp: t step_helper_def history_health_def missed_def split: if_splits)
qed (simp add: history_health_def missed_def)

text \<open>C39: What is announced of a helper at a tick follows from its history alone: ready or recovered exactly when it is
  there and was not the tick before - recovered when it had been there before, or had failed to start, and was wanted
  ever since; lost exactly when it was there the tick before and is missing although wanted. So a helper that is no
  longer wanted ends silently and no loss is announced twice.\<close>

theorem helper_events_follow_history:
  fixes history :: "(bool \<times> bool) list" and ready wanted :: bool
  assumes "event = snd (step_helper (run_helper start (rev history)) ready wanted)"
    and "start \<in> {HelperDown, HelperLost}"
  shows "event = (let there = (history \<noteq> [] \<and> fst (hd history));
                      owed = (list_all snd (missed history) \<and> (list_ex fst history \<or> start = HelperLost))
                  in if ready \<and> \<not> there then Some (if owed then HelperRecovered else HelperReady)
                     else if \<not> ready \<and> wanted \<and> there then Some HelperIsLost else None)"
  using assms(2) unfolding assms(1) run_helper_history
  by (cases history) (auto simp: step_helper_def history_health_def missed_def Let_def)

theorem helper_events_follow_history_witness:
  "snd (step_helper (run_helper HelperDown (rev [(False, True), (True, True)])) True True) = Some HelperRecovered"
  using helper_events_follow_history [OF refl, of HelperDown "[(False, True), (True, True)]" True True]
  by (simp add: missed_def)

section \<open>The state of the recording\<close>

datatype recording_state = RecordingIdle | RecordingStarting | RecordingLive | RecordingStopping

text \<open>
  What was last published, the failure seen since, the recording fields of the status that clients
  read with the rest of it (helpers, settings revision, finalizations), and the events pushed: recording,
  state, mode and failure.
\<close>

record rec_publication =
  publishedState :: recording_state
  publishedMode :: int
  publishedId :: u64
  activeMode :: int
  pendingFailure :: nat
  statusRecording :: "recording_state \<times> int \<times> u64"
  statusRest :: "u32 \<times> nat \<times> nat"
  statusCount :: nat
  recordingEvents :: "(u64 \<times> recording_state \<times> int \<times> nat) list"

definition new_publication :: rec_publication where
  "new_publication = \<lparr>publishedState = RecordingIdle, publishedMode = 0, publishedId = 0, activeMode = mode_video,
     pendingFailure = 0, statusRecording = (RecordingIdle, 0, 0), statusRest = (0, 0, 0), statusCount = 0, recordingEvents = []\<rparr>"

definition mode_of :: "start_intent \<Rightarrow> int" where
  "mode_of intent = (if intent = IntentAudioOnly then mode_audio_only else mode_video)"

definition intent_of :: "int \<Rightarrow> start_intent" where
  "intent_of mode = (if mode = mode_audio_only then IntentAudioOnly else IntentVideo)"

definition failure_generic :: nat where "failure_generic = 1"
definition failure_integrity :: nat where "failure_integrity = 2"

text \<open>\<open>PublishStatus\<close>, with the helpers that are ready, the settings revision and the finalizing count.\<close>

definition publish_status :: "u32 \<times> nat \<times> nat \<Rightarrow> rec_publication \<Rightarrow> rec_publication" where
  "publish_status rest p =
     (if statusRecording p = (publishedState p, publishedMode p, publishedId p) \<and> statusRest p = rest then p
      else p\<lparr>statusRecording := (publishedState p, publishedMode p, publishedId p), statusRest := rest,
             statusCount := statusCount p + 1\<rparr>)"

definition state_of_recording :: "session_snapshot \<Rightarrow> recording_state" where
  "state_of_recording snap =
     (if \<not> requested snap then RecordingIdle else if observedLive snap then RecordingLive else RecordingStarting)"

definition publish_recording_state :: "u32 \<times> nat \<times> nat \<Rightarrow> session_snapshot \<Rightarrow> rec_publication \<Rightarrow> rec_publication" where
  "publish_recording_state rest snap p =
     (let st = state_of_recording snap;
          mode = (if requested snap then activeMode p else publishedMode p);
          failure = (if st = RecordingIdle then pendingFailure p else 0)
      in if st = publishedState p \<and> request snap = publishedId p \<and> failure = 0 then p
         else let p = p\<lparr>publishedState := st, publishedMode := mode, publishedId := request snap,
                        pendingFailure := if st = RecordingIdle then 0 else pendingFailure p\<rparr>;
                  p = publish_status rest p
              in p\<lparr>recordingEvents := recordingEvents p @ [(request snap, st, mode, failure)]\<rparr>)"

text \<open>What the engine does as the observer of the session: \<open>OnStartIntent\<close> and \<open>OnFailed\<close>.\<close>

definition on_start_intent :: "start_intent \<Rightarrow> rec_publication \<Rightarrow> rec_publication" where
  "on_start_intent intent p = (if intent \<noteq> IntentIdle then p\<lparr>activeMode := mode_of intent\<rparr> else p)"

definition on_failed :: "bool \<Rightarrow> rec_publication \<Rightarrow> rec_publication" where
  "on_failed integrity p =
     p\<lparr>pendingFailure := max (pendingFailure p) (if integrity then failure_integrity else failure_generic)\<rparr>"

fun observe_effect :: "session_effect \<Rightarrow> rec_publication \<Rightarrow> rec_publication" where
  "observe_effect (PublishIntent intent) p = on_start_intent intent p"
| "observe_effect (SessionNotice NoticeFailed snap ms exactly) p = on_failed False p"
| "observe_effect DisableAutomaticRecording p = on_failed True p"
| "observe_effect _ p = p"

definition observe_session_effects :: "rec_session \<Rightarrow> rec_session \<Rightarrow> rec_publication \<Rightarrow> rec_publication" where
  "observe_session_effects s t p = fold observe_effect (drop (length (sessionEffects s)) (sessionEffects t)) p"

text \<open>\<open>RunRecordingCommand\<close>, with the stream setting and the clock.\<close>

definition announce_stopping :: "u32 \<times> nat \<times> nat \<Rightarrow> u64 \<Rightarrow> rec_publication \<Rightarrow> rec_publication" where
  "announce_stopping rest req p =
     (let p = publish_status rest (p\<lparr>publishedState := RecordingStopping\<rparr>)
      in p\<lparr>recordingEvents := recordingEvents p @ [(req, RecordingStopping, activeMode p, 0)]\<rparr>)"

definition run_recording_command ::
  "(recording_call list \<Rightarrow> rec_session \<Rightarrow> rec_session) \<Rightarrow> u32 \<times> nat \<times> nat \<Rightarrow> bool \<Rightarrow> nat \<Rightarrow> command
     \<Rightarrow> rec_session \<Rightarrow> rec_publication \<Rightarrow> ce_status \<times> rec_session \<times> rec_publication" where
  "run_recording_command reenter rest toStream now c s p =
     (let before = snapshot s;
          stopping = (commandKind c = StopRecording \<or> (commandKind c = ToggleRecording \<and> requested before));
          p = (if stopping \<and> requested before then announce_stopping rest (request before) p else p);
          finish = (\<lambda>st t. (st, t, observe_session_effects s t p))
      in case commandKind c of
           StartRecording \<Rightarrow>
             if requested before then (CeInvalidState, s, p)
             else (case rec_start reenter (intent_of (commandMode c)) toStream now s of
                     (out, t) \<Rightarrow> finish (if out = Accepted then CeOk else CeProcess) t)
         | StopRecording \<Rightarrow>
             if \<not> requested before then (CeInvalidState, s, p)
             else (case owner_stop reenter now s of (stopped, t) \<Rightarrow> finish (if stopped then CeOk else CeIpc) t)
         | _ \<Rightarrow>
             (case rec_toggle reenter (intent_of (commandMode c)) toStream now s of
                (out, t) \<Rightarrow> finish (if out = Accepted then CeOk else if stopping then CeIpc else CeProcess) t))"

text \<open>A recording command of a client with the publication that \<open>ExecutePendingCommands\<close> makes after it.\<close>

definition recording_command ::
  "(recording_call list \<Rightarrow> rec_session \<Rightarrow> rec_session) \<Rightarrow> u32 \<times> nat \<times> nat \<Rightarrow> bool \<Rightarrow> nat \<Rightarrow> command
     \<Rightarrow> rec_session \<Rightarrow> rec_publication \<Rightarrow> ce_status \<times> rec_session \<times> rec_publication" where
  "recording_command reenter rest toStream now c s p =
     (case run_recording_command reenter rest toStream now c s p of
        (st, t, p) \<Rightarrow> (st, t, publish_recording_state rest (snapshot t) p))"

text \<open>A record hotkey is a toggle; its status has no reader.\<close>

definition record_hotkey ::
  "(recording_call list \<Rightarrow> rec_session \<Rightarrow> rec_session) \<Rightarrow> u32 \<times> nat \<times> nat \<Rightarrow> bool \<Rightarrow> nat \<Rightarrow> bool
     \<Rightarrow> rec_session \<Rightarrow> rec_publication \<Rightarrow> rec_session \<times> rec_publication" where
  "record_hotkey reenter rest toStream now audioOnly s p =
     snd (recording_command reenter rest toStream now
            \<lparr>commandKind = ToggleRecording, commandMode = (if audioOnly then mode_audio_only else mode_video),
             commandText = (if audioOnly then ''audio-only hotkey'' else ''record hotkey''), setupAction = 0\<rparr> s p)"

text \<open>The status of the other commands from the answers of their components.\<close>

datatype toggle_outcome = ToggleAccepted | ToggleNotConnected | ToggleRejected
datatype commit_status = Committed | CommitInvalid | CommitConflict | CommitIoError

definition error_invalid_argument :: nat where "error_invalid_argument = 87"

definition toggle_status :: "toggle_outcome \<Rightarrow> ce_status" where
  "toggle_status out = (if out = ToggleAccepted then CeOk else CeIpc)"

definition screenshot_status :: "bool \<Rightarrow> ce_status" where
  "screenshot_status saved = (if saved then CeOk else CeIo)"

text \<open>A launch is answered by nothing without a launcher, else by whether it started and its Win32 error.\<close>

definition launch_status :: "(bool \<times> nat) option \<Rightarrow> ce_status" where
  "launch_status result =
     (case result of
        None \<Rightarrow> CeInternal
      | Some (started, err) \<Rightarrow>
          if started then CeOk else if err = error_invalid_argument then CeInvalidArgument else CeProcess)"

fun commit_outcome :: "commit_status \<Rightarrow> ce_status" where
  "commit_outcome Committed = CeOk"
| "commit_outcome CommitInvalid = CeSettings"
| "commit_outcome CommitConflict = CeConflict"
| "commit_outcome CommitIoError = CeIo"

section \<open>What a recording command answers\<close>

lemma observe_effect_fields [simp]:
  "publishedState (observe_effect e p) = publishedState p" "publishedMode (observe_effect e p) = publishedMode p"
  "publishedId (observe_effect e p) = publishedId p" "statusRecording (observe_effect e p) = statusRecording p"
  "statusRest (observe_effect e p) = statusRest p" "recordingEvents (observe_effect e p) = recordingEvents p"
  by (cases "(e, p)" rule: observe_effect.cases; simp add: on_start_intent_def on_failed_def)+

lemma observe_session_fields [simp]:
  "publishedState (observe_session_effects s t p) = publishedState p"
  "publishedId (observe_session_effects s t p) = publishedId p"
  "statusRecording (observe_session_effects s t p) = statusRecording p"
  "publishedMode (observe_session_effects s t p) = publishedMode p"
  "recordingEvents (observe_session_effects s t p) = recordingEvents p"
proof -
  have "publishedState (fold observe_effect es q) = publishedState q \<and> publishedId (fold observe_effect es q) = publishedId q \<and>
      statusRecording (fold observe_effect es q) = statusRecording q \<and> publishedMode (fold observe_effect es q) = publishedMode q \<and>
      recordingEvents (fold observe_effect es q) = recordingEvents q" for es q
    by (induction es arbitrary: q) simp_all
  then show "publishedState (observe_session_effects s t p) = publishedState p"
    "publishedId (observe_session_effects s t p) = publishedId p"
    "statusRecording (observe_session_effects s t p) = statusRecording p"
    "publishedMode (observe_session_effects s t p) = publishedMode p"
    "recordingEvents (observe_session_effects s t p) = recordingEvents p"
    by (simp_all add: observe_session_effects_def)
qed

lemma publish_status_fields [simp]:
  "statusRecording (publish_status rest p) = (publishedState p, publishedMode p, publishedId p)"
  "publishedState (publish_status rest p) = publishedState p" "publishedMode (publish_status rest p) = publishedMode p"
  "publishedId (publish_status rest p) = publishedId p" "recordingEvents (publish_status rest p) = recordingEvents p"
  "activeMode (publish_status rest p) = activeMode p" "pendingFailure (publish_status rest p) = pendingFailure p"
  by (auto simp: publish_status_def)

lemma publish_recording_state_changed:
  assumes "state_of_recording snap \<noteq> publishedState p \<or> request snap \<noteq> publishedId p"
  shows "\<exists>mode failure. recordingEvents (publish_recording_state rest snap p) =
      recordingEvents p @ [(request snap, state_of_recording snap, mode, failure)]"
  using assms by (auto simp: publish_recording_state_def Let_def)

lemma publish_recording_state_status:
  assumes "statusRecording p = (publishedState p, publishedMode p, publishedId p)"
  shows "let q = publish_recording_state rest snap p
    in publishedState q = state_of_recording snap \<and> publishedId q = request snap \<and>
       statusRecording q = (publishedState q, publishedMode q, publishedId q)"
  using assms by (auto simp: publish_recording_state_def Let_def)

text \<open>Toggling is starting when idle and stopping otherwise, also in its status.\<close>

lemma recording_command_starts:
  assumes "\<not> requested (snapshot s)" "commandKind c \<in> {StartRecording, ToggleRecording}"
    "rec_start reenter (intent_of (commandMode c)) toStream now s = (out, t)"
  shows "recording_command reenter rest toStream now c s p = (if out = Accepted then CeOk else CeProcess, t,
      publish_recording_state rest (snapshot t) (observe_session_effects s t p))"
  using assms by (auto simp: recording_command_def run_recording_command_def rec_toggle_def Let_def)

lemma recording_command_stops:
  assumes "requested (snapshot s)" "commandKind c \<in> {StopRecording, ToggleRecording}" "rec_stop reenter now s = (out, t)"
  shows "recording_command reenter rest toStream now c s p = (if out = Accepted then CeOk else CeIpc, t,
      publish_recording_state rest (snapshot t)
        (observe_session_effects s t (announce_stopping rest (request (snapshot s)) p)))"
  using assms by (auto simp: recording_command_def run_recording_command_def rec_toggle_def owner_stop_def Let_def)

lemma recording_command_refused:
  assumes "commandKind c = (if requested (snapshot s) then StartRecording else StopRecording)"
  shows "recording_command reenter rest toStream now c s p = (CeInvalidState, s, publish_recording_state rest (snapshot s) p)"
  using assms by (auto simp: recording_command_def run_recording_command_def Let_def split: if_splits)

text \<open>C40: The outcome of a recording command tells what became of it, also when other calls arrive during its waits. A start
  without a recording makes one new request, which is there exactly when the outcome is success; a stop always ends
  the request and is announced as stopping and then idle for exactly this recording; a command that does not fit is
  refused and changes nothing; and afterwards the status names the session's recording and its state.\<close>

theorem recording_commands_answer_truth:
  assumes "s = run_calls depth' cs (new_session rs)" and "publishedId p = request (snapshot s)"
    and "statusRecording p = (publishedState p, publishedMode p, publishedId p)"
    and "commandKind c \<in> {StartRecording, StopRecording, ToggleRecording}"
    and "recording_command (run_calls depth) rest toStream now c s p = (st, t, p')"
  shows "let r = request (snapshot s); state = state_of_recording (snapshot t); was = requested (snapshot s)
    in (if commandKind c = (if was then StartRecording else StopRecording)
        then st = CeInvalidState \<and> t = s
        else if was
        then st \<in> {CeOk, CeIpc} \<and> \<not> requested (snapshot t) \<and> request (snapshot t) = r \<and>
          (\<exists>m n f. recordingEvents p' = recordingEvents p @ [(r, RecordingStopping, m, 0), (r, RecordingIdle, n, f)])
        else st \<in> {CeOk, CeProcess} \<and> request (snapshot t) = r + 1 \<and> (requested (snapshot t) \<longleftrightarrow> st = CeOk) \<and>
          (\<exists>m f. recordingEvents p' = recordingEvents p @ [(r + 1, state, m, f)])) \<and>
       publishedId p' = request (snapshot t) \<and> statusRecording p' = (state, publishedMode p', publishedId p')"
proof -
  have inv: "session_ok s" "\<not> commandInFlight s" using run_session_ok [of depth' cs rs] assms(1) by simp_all
  note sync = assms(2,3)
  have status: "publishedId (publish_recording_state rest (snapshot t) x) = request (snapshot t) \<and>
      statusRecording (publish_recording_state rest (snapshot t) x) =
        (state_of_recording (snapshot t), publishedMode (publish_recording_state rest (snapshot t) x), request (snapshot t))"
    if "statusRecording x = (publishedState x, publishedMode x, publishedId x)" for x
    using publish_recording_state_status [OF that, of rest "snapshot t"] by (simp add: Let_def)
  show ?thesis
  proof (cases "commandKind c = (if requested (snapshot s) then StartRecording else StopRecording)")
    case True
    from recording_command_refused [OF this, of "run_calls depth" rest toStream now p] show ?thesis
      using True assms(5) status [OF sync(2)] by (auto simp: Let_def)
  next
    case other: False
    show ?thesis
    proof (cases "requested (snapshot s)")
      case True
      then have kind: "commandKind c \<in> {StopRecording, ToggleRecording}" using other assms(4) by auto
      obtain out u where u: "rec_stop (run_calls depth) now s = (out, u)" by fastforce
      let ?x = "observe_session_effects s u (announce_stopping rest (request (snapshot s)) p)"
      have res: "st = (if out = Accepted then CeOk else CeIpc)" "t = u" "p' = publish_recording_state rest (snapshot u) ?x"
        using recording_command_stops [OF True kind u, of rest toStream p] assms(5) by simp_all
      have ended: "\<not> requested (snapshot u)" "request (snapshot u) = request (snapshot s)"
        using nested_calls.rec_stop_clears(2,3) [of depth now s] by (simp_all add: u)
      have x: "publishedState ?x = RecordingStopping" "statusRecording ?x = (publishedState ?x, publishedMode ?x, publishedId ?x)"
        "recordingEvents ?x = recordingEvents p @ [(request (snapshot s), RecordingStopping, activeMode p, 0)]"
        by (simp_all add: announce_stopping_def Let_def)
      have idle: "state_of_recording (snapshot u) = RecordingIdle" using ended by (simp add: state_of_recording_def)
      obtain m f where "recordingEvents p' = recordingEvents ?x @ [(request (snapshot u), RecordingIdle, m, f)]"
        using publish_recording_state_changed [of "snapshot u" ?x rest] x(1) idle res(3) by auto
      then show ?thesis using True other res(1,2) ended x(3) status [of ?x] x(2) idle res(3) by (auto simp: Let_def)
    next
      case False
      then have kind: "commandKind c \<in> {StartRecording, ToggleRecording}" using other assms(4) by auto
      obtain out u where u: "rec_start (run_calls depth) (intent_of (commandMode c)) toStream now s = (out, u)" by fastforce
      let ?x = "observe_session_effects s u p"
      have res: "st = (if out = Accepted then CeOk else CeProcess)" "t = u" "p' = publish_recording_state rest (snapshot u) ?x"
        using recording_command_starts [OF False kind u, of rest p] assms(5) by simp_all
      have "intent_of (commandMode c) \<noteq> IntentIdle" by (simp add: intent_of_def)
      then have started: "request (snapshot u) = request (snapshot s) + 1" "requested (snapshot u) \<longleftrightarrow> out = Accepted"
        using nested_calls.rec_start_outcome [OF u] inv(2) False by auto
      have x: "statusRecording ?x = (publishedState ?x, publishedMode ?x, publishedId ?x)" "publishedId ?x = request (snapshot s)"
        using sync by simp_all
      have "request (snapshot u) \<noteq> publishedId ?x" using x(2) started(1) by simp
      then obtain m f where "recordingEvents p' = recordingEvents p @ [(request (snapshot u), state_of_recording (snapshot u), m, f)]"
        using publish_recording_state_changed [of "snapshot u" ?x rest] res(3) by auto
      then show ?thesis using False other res(1,2) started status [of ?x] x(1) res(3) by (auto simp: Let_def)
    qed
  qed
qed

section \<open>Concrete runs\<close>

definition start_command :: command where
  "start_command = \<lparr>commandKind = StartRecording, commandMode = mode_video, commandText = [], setupAction = 0\<rparr>"

theorem recording_commands_answer_truth_witness:
  "requested (snapshot (fst (snd
     (recording_command (run_calls 0) (0, 0, 0) False 100 start_command fresh_session new_publication))))"
proof -
  obtain st t p' where r: "recording_command (run_calls 0) (0, 0, 0) False 100 start_command fresh_session new_publication = (st, t, p')"
    by (cases "recording_command (run_calls 0) (0, 0, 0) False 100 start_command fresh_session new_publication") auto
  have "fst (recording_command (run_calls 0) (0, 0, 0) False 100 start_command fresh_session new_publication) = CeOk"
    by code_simp
  then have ok: "st = CeOk" by (simp add: r)
  have init: "publishedId new_publication = request (snapshot fresh_session)" "\<not> requested (snapshot fresh_session)"
    "statusRecording new_publication = (publishedState new_publication, publishedMode new_publication, publishedId new_publication)"
    "commandKind start_command = StartRecording"
    by code_simp+
  show ?thesis using recording_commands_answer_truth [OF fresh_session_def init(1,3) _ r] init(2,4) ok r by (simp add: Let_def)
qed

text \<open>Every run of the supervisor is one of the engine's, which takes the finalizations.\<close>

lemma helpers_embedded:
  assumes "reachable_from child_init child_step h"
  shows "\<exists>s. reachable_from report_init report_step s \<and> helpers s = h \<and> \<not> bookClosed (book s)"
  using assms
proof induction
  case (start h)
  let ?s = "\<lparr>helpers = h, book = new_book, sessionNow = initial_snapshot\<rparr>"
  have "report_init ?s" using start by (simp add: report_init_def)
  then have "reachable_from report_init report_step ?s" by (rule reachable_from.start)
  then show ?case by (fastforce simp: new_book_def)
next
  case (more h h')
  obtain s where s: "reachable_from report_init report_step s" "helpers s = h" "\<not> bookClosed (book s)" using more.IH by blast
  have "\<exists>t. report_step s t \<and> helpers t = h' \<and> \<not> bookClosed (book t)"
  proof (cases "reportedMedia h' = reportedMedia h")
    case True
    then have "report_step s (s\<lparr>helpers := h'\<rparr>)" using more.hyps(2) s(2) helpers_move by simp
    then show ?thesis using s(3) by fastforce
  next
    case False
    from more.hyps(2) have "\<exists>k ms. collect_finalized_media (host h) = (k, ms) \<and>
        h' = h\<lparr>host := k, reportedMedia := reportedMedia h @ ms\<rparr>"
      by cases (use False in \<open>auto simp: follow_ensure_def\<close>)
    then obtain k ms where k: "collect_finalized_media (host h) = (k, ms)" "h' = h\<lparr>host := k, reportedMedia := reportedMedia h @ ms\<rparr>"
      by blast
    obtain trigger b where b: "report_finalizations ms [] (finalizing_count k) (sessionNow s) (book s) = (trigger, b)" by fastforce
    from finalizations_reported [OF s(3) _ b] have "report_step s (s\<lparr>helpers := h', book := b\<rparr>)" using k s(2) by simp
    moreover have "\<not> bookClosed b" using report_finalizations_account(6) [OF b] s(3) by simp
    ultimately show ?thesis by fastforce
  qed
  then show ?case using reachable_from.more [OF s(1)] by blast
qed

text \<open>The retired media child of request 5 exits with code 0 and an empty slot, and is collected.\<close>

definition media_gone :: child_system where
  "media_gone = media_retired\<lparr>alive := alive media_retired - {7}\<rparr>"

definition media_closed :: child_system where
  "media_closed = note_exits quiet_exits (snd (collect_retired (\<lambda>_. False) (lifecycle (host media_gone)))) (finalizations (host media_gone))
     (media_gone\<lparr>host := after_lifecycle quiet_exits (collect_retired (\<lambda>_. False) (lifecycle (host media_gone))) (host media_gone)\<rparr>)"

lemma media_closed_reachable: "reachable_from child_init child_step media_closed"
proof -
  have r: "reachable_from child_init child_step media_gone"
    unfolding media_gone_def by (rule reachable_from.more [OF media_retired_reachable process_exits])
  have "alive media_gone = {}" by (simp add: media_gone_def media_retired_def media_spawned_def media_spawning_def
    media_ensuring_def supervisor_started_def follow_ensure_def)
  then have "child_step media_gone media_closed"
    unfolding media_closed_def by (intro retired_collected) (simp add: observes_def)
  with r show ?thesis by (rule reachable_from.more)
qed

lemma media_closed_facts: "exitLog media_closed = [(5, 0, None)]" "reportedMedia media_closed = []"
    "map finalRequest (finalizedMedia (finalizations (host media_closed))) = [5]"
    "retired_requests (mediaEntries (finalizations (host media_closed))) = {#}" "retirements media_closed = [5]"
proof -
  let ?l = "lifecycle (host media_retired)" and ?f = "finalizations (host media_retired)"
  have "map retiredProcess (retiredChildren ?l) = [7]" by code_simp
  then have ps: "snd (collect_retired (\<lambda>_. False) ?l) = [7]" by (simp add: collect_retired_def)
  have f: "map fst (mediaEntries ?f) = [7]" "map (entryRequest \<circ> snd) (mediaEntries ?f) = [5]"
    "map (entryRetired \<circ> snd) (mediaEntries ?f) = [True]" "map finalRequest (finalizedMedia ?f) = []"
    by code_simp+
  then obtain e where e: "mediaEntries ?f = [(7, e)]" "entryRequest e = 5" "entryRetired e" by (auto simp: map_eq_Cons_conv)
  have "map fst (exitLog media_retired) = []" "map finalRequest (reportedMedia media_retired) = []"
    "retirements media_retired = [5]" by code_simp+
  then show "exitLog media_closed = [(5, 0, None)]" "reportedMedia media_closed = []" "retirements media_closed = [5]"
    "map finalRequest (finalizedMedia (finalizations (host media_closed))) = [5]"
    "retired_requests (mediaEntries (finalizations (host media_closed))) = {#}"
    using e ps f(4) by (simp_all add: media_closed_def media_gone_def exits_seen_def quiet_exits_def after_lifecycle_def
      close_processes_def closing_media_def retired_requests_def Let_def)
qed

theorem every_recording_end_announced_once_witness:
  "\<exists>s. reachable_from report_init report_step s \<and> announcedFinal (book s) = [(5, finalization_outcome (resolve 0 None))]"
proof -
  obtain s where s: "reachable_from report_init report_step s" "helpers s = media_closed" "\<not> bookClosed (book s)"
    using helpers_embedded [OF media_closed_reachable] by blast
  let ?ms = "finalizedMedia (finalizations (host media_closed))"
  have fresh: "waitingFinal (book s) = []" "droppedFinal (book s) = []"
    using reports.reachable_inv [OF s(1)] s(2) media_closed_facts(2) by (simp_all add: report_ok_def)
  obtain h where h: "collect_finalized_media (host (helpers s)) = (h, ?ms)"
    "mediaEntries (finalizations h) = mediaEntries (finalizations (host media_closed))" "finalizedMedia (finalizations h) = []"
    by (simp add: s(2) collect_finalized_media_def take_finalized_def)
  obtain trigger b where b: "report_finalizations ?ms [True] (finalizing_count h) (sessionNow s) (book s) = (trigger, b)"
    by fastforce
  let ?t = "s\<lparr>helpers := (helpers s)\<lparr>host := h, reportedMedia := reportedMedia (helpers s) @ ?ms\<rparr>, book := b\<rparr>"
  have t: "reachable_from report_init report_step ?t"
    by (rule reachable_from.more [OF s(1) finalizations_reported [OF s(3) h(1) b]])
  have "length ?ms = 1" using arg_cong [OF media_closed_facts(3), of length] by simp
  moreover obtain tr c where c: "report_waiting ?ms [True] (book s) = (tr, c)" by fastforce
  ultimately have "waitingFinal c = []" by (intro report_waiting_granted [OF c]) simp_all
  then have "waitingFinal b = []" using b by (auto simp: report_finalizations_def fresh c split: if_splits)
  then have "owed ?t = {#}" using media_closed_facts(4) h(2,3) by (simp add: owed_def account_def)
  moreover have "droppedFinal b = []" using report_finalizations_account(5) [OF b] fresh by simp
  ultimately have "mset (map fst (announcedFinal b)) = {#5#}"
    "prefix (announcedFinal b) [(5, finalization_outcome (resolve 0 None))]"
    using every_recording_end_announced_once [OF t] s(2) media_closed_facts(1,5) by (simp_all add: exit_announcement_def)
  then have "announcedFinal b = [(5, finalization_outcome (resolve 0 None))]" by (cases "announcedFinal b") auto
  then show ?thesis using t by (intro exI [of _ ?t]) simp
qed

text \<open>Recording 5 is requested and takes its slot; an idle tick of the engine, with no child at all, keeps it.\<close>

definition five_requested :: report_system where
  "five_requested = \<lparr>helpers = supervisor_started, book = new_book\<lparr>finalSlots := {5}\<rparr>,
     sessionNow = initial_snapshot\<lparr>requested := True, request := 5\<rparr>\<rparr>"

lemma five_requested_reachable: "reachable_from report_init report_step five_requested"
proof -
  let ?s = "\<lparr>helpers = supervisor_started, book = new_book, sessionNow = initial_snapshot\<rparr>"
  let ?snap = "initial_snapshot\<lparr>requested := True, request := 5\<rparr>"
  have "reachable_from report_init report_step ?s"
    by (rule reachable_from.start) (simp add: report_init_def child_init_def supervisor_started_def)
  from reachable_from.more [OF this session_moves [of ?s ?snap]]
  have r: "reachable_from report_init report_step (?s\<lparr>sessionNow := ?snap\<rparr>)" .
  have "reserve_finalization 5 [True] {} = (True, [], {5})" by (simp add: reserve_finalization_def)
  then have "report_step (?s\<lparr>sessionNow := ?snap\<rparr>)
      (?s\<lparr>sessionNow := ?snap, book := new_book\<lparr>finalSlots := {5}\<rparr>\<rparr>)"
    using recording_seen [of "?s\<lparr>sessionNow := ?snap\<rparr>" True True "[]" "{5}"] by (simp add: new_book_def)
  from reachable_from.more [OF r this] show ?thesis by (simp add: five_requested_def)
qed

theorem slot_kept_until_announced_witness:
  "\<exists>t. report_step five_requested t \<and> sessionNow t = sessionNow five_requested \<and> 5 \<in> finalSlots (book t)"
proof -
  obtain trigger b where b: "report_finalizations [] [] 0 (sessionNow five_requested) (book five_requested) = (trigger, b)"
    by fastforce
  let ?t = "five_requested\<lparr>helpers := (helpers five_requested)\<lparr>host := host supervisor_started,
    reportedMedia := reportedMedia (helpers five_requested) @ []\<rparr>, book := b\<rparr>"
  have "collect_finalized_media (host (helpers five_requested)) = (host supervisor_started, [])"
    "finalizing_count (host supervisor_started) = 0" "\<not> bookClosed (book five_requested)"
    by (simp_all add: five_requested_def supervisor_started_def new_host_children_def collect_finalized_media_def
      take_finalized_def finalizing_count_def tracked_media_def new_book_def Let_def)
  with finalizations_reported [of five_requested] b have step: "report_step five_requested ?t" by simp
  have "announcedFinal b = []" "\<not> bookClosed b"
    using report_finalizations_account(1,6) [OF b] by (simp_all add: five_requested_def new_book_def)
  then have "5 \<in> finalSlots (book ?t)"
    using slot_kept_until_announced [OF five_requested_reachable step, of 5]
    by (simp add: five_requested_def new_book_def announced_since_def)
  then show ?thesis using step by (intro exI [of _ ?t]) simp
qed

end
