(* ===== verification/Spec2Isabelle.thy ===== *)
theory Spec2Isabelle
  imports CfrGrid FrameRing RingBuffers EventQueue FpsLimiter FrameSelect HorizonPlayout
    SequenceLock Av1Session MuxInvariants MuxPressure WriterActivity FrameQueue
    NearestPlayout MediaResult ProcessTree CallbackGate RecordingHealth RecordingControl
    InjectLineage PoolLease SourceReads RecordingSession ChildProcesses EngineCommands
    EngineReports
begin

text \<open>
  Verification development of the capture engine: a Windows program that records games and the
  desktop.  A hook inside the game (or Windows Graphics Capture outside it) produces frames, a
  media process selects one frame for every slot of a constant-frame-rate (CFR) timeline, encodes
  it, and an asynchronous writer muxes the packets; clients of the engine receive events.

  How the parts interact, and which theory models which part (paths are under \<^verbatim>\<open>src/\<close>):

  \<^item> Capture.  The game side publishes frames into a shared-memory ring and the media side ingests
    them under leases: \<^verbatim>\<open>FrameRing\<close> (\<^verbatim>\<open>common/ipc/shared_defs_detail/frame_ring.h\<close>,
    \<^verbatim>\<open>common/capture/inject_frame_ring_lease.h\<close>, \<^verbatim>\<open>inject_frame_ring_ingest.h\<close>,
    \<^verbatim>\<open>capture_base.h\<close>).  Configuration shared between processes sits behind a sequence lock:
    \<^verbatim>\<open>SequenceLock\<close> (\<^verbatim>\<open>common/platform/sequence_lock.h\<close>).  Frames of either kind wait for the
    encoder thread in \<^verbatim>\<open>FrameQueue\<close> (\<^verbatim>\<open>common/capture/frame_queue.h\<close>); the lock-free, dynamic and
    audio rings are \<^verbatim>\<open>RingBuffers\<close> (\<^verbatim>\<open>common/platform/ring_buffer.h\<close>,
    \<^verbatim>\<open>mediaengine/audio/audio_ring_buffer.cpp\<close>).
    A submitted frame keeps its ring slot until the GPU has read it: \<^verbatim>\<open>SourceReads\<close>
    (\<^verbatim>\<open>common/capture/inject_source_read_release.h\<close>, the lease objects of
    \<^verbatim>\<open>inject_frame_ring_lease.h\<close>, \<^verbatim>\<open>captureengine/media/inject_source_read.cpp\<close>), composed with the
    ring; \<^verbatim>\<open>PoolLease\<close> is the lock-free account of the window-capture pool
    (\<^verbatim>\<open>common/capture/wgc_pool_lease.h\<close>).
  \<^item> Timing and selection.  \<^verbatim>\<open>CfrGrid\<close> is the rational output grid
    (\<^verbatim>\<open>common/capture/cfr_rational_grid.h\<close>, \<^verbatim>\<open>time_grid.h\<close>, \<^verbatim>\<open>frame_timing_utils.h\<close>);
    \<^verbatim>\<open>FrameSelect\<close> the closest-frame searches (\<^verbatim>\<open>frame_timing_utils.h\<close>); \<^verbatim>\<open>NearestPlayout\<close> the
    nearest-target playout, the cadence phase lock and the uniform tick of window capture with its drop
    loops and repeat rescue (\<^verbatim>\<open>capture_policy/cfr_nearest_playout.h\<close>,
    \<^verbatim>\<open>ingress_and_active_delay.h\<close>, \<^verbatim>\<open>media_main_encoder_05b_loop_wgc_select_uniform.cpp\<close>);
    \<^verbatim>\<open>HorizonPlayout\<close> the look-ahead dynamic program (\<^verbatim>\<open>capture_policy/cfr_horizon_playout.h\<close>);
    \<^verbatim>\<open>FpsLimiter\<close> the frame limiter of the hook (\<^verbatim>\<open>hook/pacing/fps_limiter_policy.h\<close>).
  \<^item> Encoding.  Repeated slots can be written as AV1 show-existing-frame units instead of encoded
    frames: \<^verbatim>\<open>Av1Obu\<close> reads and writes the bit stream (\<^verbatim>\<open>mediaengine/video/av1_obu.cpp\<close>),
    \<^verbatim>\<open>Av1Repeats\<close> is the ledger of committed repeats (\<^verbatim>\<open>av1_show_existing.cpp\<close>) and
    \<^verbatim>\<open>Av1Session\<close> the session around both (\<^verbatim>\<open>av1_show_existing_session.cpp\<close>).
  \<^item> Muxing.  \<^verbatim>\<open>MuxInvariants\<close> holds the decisions about a finished file, the audio lattice and the
    packet timeline (\<^verbatim>\<open>mediaengine/mux/mux_invariants.h\<close>); \<^verbatim>\<open>MuxPressure\<close> the queue warnings and
    \<^verbatim>\<open>WriterActivity\<close> the lock-free account of the writer
    (\<^verbatim>\<open>mediaengine/mux/mux_queue_pressure.h\<close>).
  \<^item> Results.  \<^verbatim>\<open>EventQueue\<close> is the bounded queue of client events
    (\<^verbatim>\<open>runtime/core/event_queue.cpp\<close>).  \<^verbatim>\<open>MediaResult\<close> is how a media child process tells its
    spawner what became of a recording, by exit code and result slot
    (\<^verbatim>\<open>common/ipc/media_finalization.h\<close>).

  \<^item> Control.  \<^verbatim>\<open>RecordingControl\<close> is the capture phase shared by control and encoder thread, what
    happens when the source is lost, and the hand-over from injected to window capture
    (\<^verbatim>\<open>common/capture/recording_lifecycle.h\<close>, \<^verbatim>\<open>capture_retarget_policy.h\<close>,
    \<^verbatim>\<open>capture_handoff_state.h\<close> and their callers in \<^verbatim>\<open>captureengine/media\<close>); \<^verbatim>\<open>CallbackGate\<close> keeps
    operating-system callbacks from outliving their owner (\<^verbatim>\<open>common/platform/callback_epoch.h\<close>).
    \<^verbatim>\<open>RecordingHealth\<close> is the health attribution of a recording and \<^verbatim>\<open>InjectLineage\<close> the check of
    the order of injected frames (\<^verbatim>\<open>common/capture/capture_policy/recording_health.h\<close>,
    \<^verbatim>\<open>inject_lineage.h\<close>).
    \<^verbatim>\<open>RecordingSession\<close> is the engine's state machine of one recording - start, stop, observation of
    the helpers - with calls that arrive while it waits for a helper
    (\<^verbatim>\<open>runtime/recording/recording_session.cpp\<close>, \<^verbatim>\<open>common/capture/media_ended_recording.h\<close>,
    \<^verbatim>\<open>runtime/core/recording_owner.cpp\<close>); such calls are nested to any given depth.
    \<^verbatim>\<open>ChildProcesses\<close> owns the helper processes and attributes what media children leave behind
    (\<^verbatim>\<open>runtime/children/child_process_lifecycle.h\<close>, \<^verbatim>\<open>media_finalizations.h\<close>, \<^verbatim>\<open>host_children.cpp\<close>);
    its \<^verbatim>\<open>Ensure\<close> is cut at its waits and the pieces interleave.
    \<^verbatim>\<open>EngineCommands\<close> is how clients submit commands and how the engine completes each of them, also
    at a shutdown (\<^verbatim>\<open>runtime/core/runtime.cpp\<close>, \<^verbatim>\<open>engine.cpp\<close>, \<^verbatim>\<open>engine_lifecycle.cpp\<close>,
    \<^verbatim>\<open>engine_setup.cpp\<close>, \<^verbatim>\<open>runtime/platform/setup_actions.cpp\<close>); \<^verbatim>\<open>EngineReports\<close> joins the helper
    processes and the recording session to what clients are told: the end of each recording, up to what
    the engine's stop leaves unreported, the state of the helpers and of the recording
    (\<^verbatim>\<open>engine.cpp\<close>, \<^verbatim>\<open>engine_lifecycle.cpp\<close>, \<^verbatim>\<open>helper_health.h\<close>).  Logs that no operation reads - the
    exits seen, the announcements made - record the history the theorems speak of.
    This theory joins the health words to the finalization result
    (\<^verbatim>\<open>captureengine/media/media_main_recording.cpp\<close>).
  \<^item> Audio sources.  \<^verbatim>\<open>ProcessSelector\<close> is how a configured selector picks a process
    (\<^verbatim>\<open>common/config/process_selector.h\<close>, \<^verbatim>\<open>application_profile.h\<close>) and \<^verbatim>\<open>ProcessTree\<close> which process
    tree an application's audio is captured from (\<^verbatim>\<open>mediaengine/audio/process_tree_selection.h\<close>,
    \<^verbatim>\<open>process_loopback_session_policy.h\<close>).

  In every theory the records have the fields of the C++ structs, the datatypes the enumerators, and
  there is one definition per function or handler, under the source's name in snake case; loops
  are recursive functions in the order of the iterations.  \<^verbatim>\<open>Prelude\<close> has the integers
  (\<^verbatim>\<open>wrap64\<close>, \<^verbatim>\<open>sub64\<close>: unsigned 64-bit arithmetic on naturals; signed values are integers with the
  guards of the source as branches; ring indices and sequence numbers are machine words), reachability, and
  three interfaces as locales: \<^verbatim>\<open>invariant_system\<close> (a step relation with an invariant),
  \<^verbatim>\<open>bounded_fifo\<close> (what a queue owes its users) and \<^verbatim>\<open>rational_stepper\<close> (an incremental stepper that
  sums to an exact rational).  Every one is interpreted on the model's own definitions.

  Concurrency: an operation under a mutex is one step; every atomic access outside one is a step of
  an inductive relation in which all threads interleave, under sequential consistency.  A weak
  compare-exchange may fail spuriously, as an argument of the step.  Clocks, allocators and the
  results of calls into code outside \<^verbatim>\<open>src/\<close> are arguments.

  Bounds and fuel: the publication pass of the frame ring makes at most 32 attempts and the resync
  at most 31, the constants of the source; the padding loop of the AV1 writer has no bound of its
  own and is a partial function proved to return; the late-frame loop of the limiter is bounded by
  the constant of the source.  The walks up a process tree visit each process once, which is their
  termination measure.  All other recursion is structural.

  What the groups of lemmas show: exactness of the grid and its inverse; that leases pin ring slots
  and textures; first-in first-out behaviour and exact overflow accounts of the queues; optimality
  of the selection policies; that readers of the lock-free structures see consistent values; round
  trips and totality of the bit-stream code; conservation of repeat slots; and the muxer's
  endpoint, coverage and stop decisions.

  Not modelled: floating-point estimators (service-time averages, rate predictors, byte budgets),
  because their rounding is the behaviour that matters and no faithful finite model of it is at
  hand here; the graphics hooks and wrappers, WGC, WASAPI, FFmpeg and NVENC calls, installers and
  user interfaces, which are calls into interfaces outside the repository; logging and counters
  that feed only log lines; C++ memory orderings weaker than sequential consistency.
\<close>

section \<open>From a lost source to the spawner\<close>

text \<open>
  \<open>CompleteRecordingFinalization\<close> and \<open>PublishFinalizationResult\<close> of
  \<open>src/captureengine/media/media_main_recording.cpp\<close>, which join the health words to the finalization
  result: the session's health word, the degraded flags of the media engine, the outcome of the
  stop, the slot and the count of the previous finalization.  The path of the engine is asked for
  only when a file was saved.
\<close>

definition health_with_output_loss :: "u32 \<Rightarrow> u32 \<Rightarrow> u32" where
  "health_with_output_loss sessionHealth engineFlags = sessionHealth OR (engineFlags AND health_degraded_mask)"

definition finalization_inputs_of :: "u32 \<Rightarrow> bool \<Rightarrow> bool \<Rightarrow> bool \<Rightarrow> octets \<Rightarrow> finalization_inputs" where
  "finalization_inputs_of health wasCanceled saved stream publishedPath =
     \<lparr>canceled = wasCanceled, outputSaved = saved, liveStream = stream,
      videoDegraded = has_recording_health_flag health health_video_degraded,
      audioDegraded = has_recording_health_flag health health_audio_degraded,
      outputPath = (if saved \<and> \<not> stream then publishedPath else [])\<rparr>"

definition complete_recording_finalization ::
  "u32 \<Rightarrow> u32 \<Rightarrow> bool \<Rightarrow> bool \<Rightarrow> bool \<Rightarrow> octets \<Rightarrow> result_slot \<Rightarrow> u32 \<Rightarrow> finalization_result \<times> result_slot" where
  "complete_recording_finalization sessionHealth engineFlags wasCanceled saved stream publishedPath slot previous =
     (let health = health_with_output_loss sessionHealth engineFlags;
          result = build_result (finalization_inputs_of health wasCanceled saved stream publishedPath) previous
      in (result, fst (publish_result slot result)))"

lemma degraded_flag_bit:
  assumes "videoDegraded i" "outputSaved i"
  shows "bit (result_flags (build_result i n)) 0"
  using assms by (auto simp: build_result_def Let_def flag_video_degraded_def bit_or_iff split: if_splits)

lemma arrived_flag_bit: "bit (result_flags r) n \<Longrightarrow> bit (result_flags (arrived r)) n"
  by (simp add: arrived_def bit_or_iff)

text \<open>C28: The loss of the capture source is never hidden: if it was latched at any moment of a recording
  whose output is saved, then however the health words were overwritten before and after, the
  spawner learns from the result slot that the video is degraded, and it learns it from the exit
  code alone when it has no slot.\<close>

theorem source_loss_reaches_spawner:
  fixes before after :: "health_store list" and words :: health_words and slot :: result_slot
    and engineFlags previous :: u32 and wasCanceled stream :: bool and publishedPath :: octets
  assumes "is_slot_compatible slot" and "slot_sequence slot AND 1 = 0" and "previous \<noteq> - 1"
  defines "finalWords \<equiv> publish_latched_source_loss_health (fold health_store_step (before @ RecordLoss 0 # after) words)"
  defines "outcome \<equiv> complete_recording_finalization (session_health finalWords) engineFlags wasCanceled True
    stream publishedPath slot previous"
  defines "code \<equiv> encode_exit_code (result_status (fst outcome)) (result_flags (fst outcome))"
  shows "let r = read_result (snd outcome) (slot_sequence (snd outcome));
             viaSlot = resolve code r; alone = resolve code None
    in r \<noteq> None \<and> fromSlot viaSlot \<and> result_status (resolved viaSlot) = Saved \<and>
       bit (result_flags (resolved viaSlot)) 0 \<and>
       result_status (resolved alone) = Saved \<and> bit (result_flags (resolved alone)) 0"
proof -
  define i where "i = finalization_inputs_of (health_with_output_loss (session_health finalWords) engineFlags)
    wasCanceled True stream publishedPath"
  define r where "r = build_result i previous"
  have outcome: "outcome = (r, fst (publish_result slot r))"
    by (simp add: outcome_def complete_recording_finalization_def i_def r_def Let_def)
  have "has_flag health_video_degraded (session_health finalWords)"
    unfolding finalWords_def using source_loss_survives_publications by blast
  then have "has_flag health_video_degraded (health_with_output_loss (session_health finalWords) engineFlags)"
    unfolding health_with_output_loss_def by (rule has_flag_or)
  then have "videoDegraded i" "outputSaved i"
    by (auto simp: i_def finalization_inputs_of_def has_recording_health_flag_def has_flag_def health_video_degraded_def)
  then have bit: "bit (result_flags r) 0" and st: "result_status r = Saved"
    by (simp_all add: r_def degraded_flag_bit build_status)
  have count: "finalizationCount r \<noteq> 0"
    using assms(3) eq_neg_iff_add_eq_0 [of previous 1] unfolding r_def build_status by simp
  have read: "read_result (fst (publish_result slot r)) (slot_sequence (fst (publish_result slot r))) = Some (arrived r)"
    using assms(1,2) count st by (intro read_published) auto
  have "result_flags r AND 0xFF = result_flags r" unfolding r_def by (rule build_flags(1))
  then have code: "decode_exit_code code = \<lparr>exit_kind_of = ResultExit, exit_status = Saved, exit_flags = result_flags r\<rparr>"
    using decode_encode [of Saved "result_flags r"] by (simp add: code_def outcome st)
  have arrived: "finalizationCount (arrived r) \<noteq> 0" "result_status (arrived r) = Saved"
    using count st by (simp_all add: arrived_def)
  have slot: "resolve code (Some (arrived r)) =
      \<lparr>resolved = arrived r, fromSlot = True, abnormalExit = False, statusDisagreed = False\<rparr>"
    using arrived by (simp add: resolve_def code word_greater_zero_iff)
  have alone: "result_status (resolved (resolve code None)) = Saved" "bit (result_flags (resolved (resolve code None))) 0"
    using bit by (auto simp: resolve_def code empty_result_def Let_def bit_or_iff)
  show ?thesis
    using arrived alone arrived_flag_bit [OF bit] by (simp add: outcome read slot Let_def)
qed

theorem source_loss_reaches_spawner_witness:
  "bit (result_flags (resolved (resolve (encode_exit_code Saved
      (result_flags (fst (complete_recording_finalization
        (session_health (publish_latched_source_loss_health
           (fold health_store_step [RecordLoss 0, PublishWord 0 0] \<lparr>latch = 0, session_health = 0, shared_health = None\<rparr>)))
        0 False True False [67] init_slot 0)))) None))) 0"
proof -
  have ok: "is_slot_compatible init_slot" "slot_sequence init_slot AND 1 = 0" "(0 :: u32) \<noteq> - 1"
    by (simp_all add: is_slot_compatible_def init_slot_def)
  show ?thesis
    using source_loss_reaches_spawner [OF ok, of "[]" "[PublishWord 0 0]"
        "\<lparr>latch = 0, session_health = 0, shared_health = None\<rparr>" 0 False False "[67]"]
    by (simp add: Let_def complete_recording_finalization_def build_status finalization_inputs_of_def)
qed

end
